(* ===== verification/Prelude.thy ===== *)
theory Prelude
  imports Main "HOL-Library.Word"
begin

text \<open>
  Shared vocabulary of the development: the machine integers of \<^verbatim>\<open>kernel/types.h\<close>, the
  outcome type of kernel code (a value, a \<^verbatim>\<open>panic\<close>, a process put to sleep, or C undefined
  behaviour), byte-addressed memory with little-endian accesses, aligned blocks of memory,
  and the generic lemmas on words, lists and outcomes that the component theories use.
\<close>

unbundle bit_operations_syntax

section \<open>Machine integers\<close>

type_synonym u8 = "8 word"
type_synonym u16 = "16 word"
type_synonym u32 = "32 word"
type_synonym u64 = "64 word"

named_theorems frame_simps \<open>what an operation leaves unchanged\<close>

section \<open>Outcomes of kernel code\<close>

text \<open>
  \<open>Panic msg\<close> is a call of \<^verbatim>\<open>panic(msg)\<close>, which never returns; \<open>Blocked\<close> is a call of
  \<^verbatim>\<open>sleep\<close> from which the caller cannot return before some other process acts; \<open>Undef\<close>
  is an access that C leaves undefined (an array index out of range, a null pointer).
\<close>

datatype 'a res = Ok 'a | Panic string | Blocked | Undef

primrec bnd :: "'a res \<Rightarrow> ('a \<Rightarrow> 'b res) \<Rightarrow> 'b res" where
  "bnd (Ok x) f = f x"
| "bnd (Panic e) f = Panic e"
| "bnd Blocked f = Blocked"
| "bnd Undef f = Undef"

lemma bnd_eq_Ok [simp]: "bnd m f = Ok y \<longleftrightarrow> (\<exists>x. m = Ok x \<and> f x = Ok y)"
  by (cases m) auto

lemma bnd_eq_Panic: "bnd m f = Panic e \<longleftrightarrow> m = Panic e \<or> (\<exists>x. m = Ok x \<and> f x = Panic e)"
  by (cases m) auto

lemma bnd_cong [fundef_cong]: "m = m' \<Longrightarrow> (\<And>x. m' = Ok x \<Longrightarrow> f x = g x) \<Longrightarrow> bnd m f = bnd m' g"
  by (cases m') auto

lemma bnd_assoc: "bnd (bnd m f) g = bnd m (\<lambda>x. bnd (f x) g)"
  by (cases m) auto

lemma bnd_Ok_right [simp]: "bnd m Ok = m"
  by (cases m) auto

section \<open>Words\<close>

text \<open>The block of \<open>2 ^ n\<close> bytes that an address lies in, and its alignment.\<close>

definition blk :: "nat \<Rightarrow> u64 \<Rightarrow> u64" where
  "blk n a = a AND NOT (mask n)"

definition aligned :: "nat \<Rightarrow> u64 \<Rightarrow> bool" where
  "aligned n a \<longleftrightarrow> take_bit n a = 0"

lemma bit_blk: "bit (blk n a) i \<longleftrightarrow> bit a i \<and> n \<le> i"
proof (cases "i < 64")
  case True
  then show ?thesis by (auto simp: blk_def bit_simps)
next
  case False
  then have "\<not> bit (blk n a) i" and "\<not> bit a i" using bit_imp_le_length [of _ i] by force+
  then show ?thesis by simp
qed

lemma bit_aligned: "aligned n a \<longleftrightarrow> (\<forall>i < n. \<not> bit a i)"
proof
  assume "aligned n a"
  then have "\<And>i. bit (take_bit n a) i = False" by (simp add: aligned_def)
  then show "\<forall>i < n. \<not> bit a i" by (auto simp: bit_take_bit_iff)
next
  assume "\<forall>i < n. \<not> bit a i"
  then show "aligned n a" unfolding aligned_def
    by (intro bit_eqI) (auto simp: bit_take_bit_iff)
qed

lemma blk_plus_take_bit: "blk n a + take_bit n a = a"
proof -
  have "blk n a + take_bit n a = blk n a OR take_bit n a"
    by (rule disjunctive_add) (auto simp: bit_blk bit_take_bit_iff)
  also have "\<dots> = a"
    by (rule bit_eqI) (auto simp: bit_simps bit_blk)
  finally show ?thesis .
qed

lemma aligned_blk [simp]: "aligned n (blk n a)"
  by (simp add: bit_aligned bit_blk)

lemma blk_aligned: "aligned n a \<Longrightarrow> blk n a = a"
  by (rule bit_eqI) (auto simp: bit_blk bit_aligned not_less)

lemma blk_blk [simp]: "blk n (blk n a) = blk n a"
  by (simp add: blk_aligned)

lemma aligned_iff_blk: "aligned n a \<longleftrightarrow> blk n a = a"
  by (metis aligned_blk blk_aligned)

lemma unat_take_bit_less: "n \<le> 64 \<Longrightarrow> unat (take_bit n (a :: u64)) < 2 ^ n"
  by (simp add: unsigned_take_bit_eq)

lemma aligned_mono: "aligned n a \<Longrightarrow> k \<le> n \<Longrightarrow> aligned k a"
  by (auto simp: bit_aligned)

lemma take_bit_small: "unat d < 2 ^ n \<Longrightarrow> take_bit n (d :: u64) = d"
  by (metis take_bit_nat_eq_self_iff unsigned_take_bit_eq word_eq_iff_unsigned)

lemma bit_small: "unat d < 2 ^ n \<Longrightarrow> bit (d :: u64) i \<Longrightarrow> i < n"
  by (metis bit_take_bit_iff take_bit_small)

lemma aligned_plus_eq_or:
  assumes "aligned n p" and "unat d < 2 ^ n"
  shows "p + d = p OR d"
  using assms by (intro disjunctive_add) (auto simp: bit_aligned dest: bit_small)

lemma blk_offset:
  assumes "aligned n p" and "unat d < 2 ^ n"
  shows "blk n (p + d) = p"
  unfolding aligned_plus_eq_or [OF assms]
  using assms by (intro bit_eqI) (auto simp: bit_blk bit_or_iff bit_aligned not_less dest: bit_small)

text \<open>Membership of an aligned block is a comparison of block numbers.\<close>

lemma in_blk_iff:
  assumes "aligned n p" and "n < 64"
  shows "unat (x - p) < 2 ^ n \<longleftrightarrow> blk n x = p"
proof
  assume "unat (x - p) < 2 ^ n"
  from blk_offset [OF assms(1) this] show "blk n x = p" by simp
next
  assume "blk n x = p"
  then have "x - p = take_bit n x"
    using blk_plus_take_bit [of n x] by (metis add_diff_cancel_left')
  then show "unat (x - p) < 2 ^ n"
    using assms(2) unat_take_bit_less [of n x] by simp
qed

lemma blk_coarser: "k \<le> n \<Longrightarrow> blk n (blk k a) = blk n a"
  by (rule bit_eqI) (auto simp: bit_blk)

lemma unat_blk: "n \<le> 64 \<Longrightarrow> unat (blk n a) = unat a div 2 ^ n * 2 ^ n"
proof -
  assume n: "n \<le> 64"
  have t: "unat (take_bit n a) = unat a mod 2 ^ n"
    by (simp add: unsigned_take_bit_eq flip: take_bit_eq_mod)
  have "blk n a = a - take_bit n a"
    using blk_plus_take_bit [of n a] by (metis add_diff_cancel_right')
  moreover have "take_bit n a \<le> a"
    by (simp add: word_le_nat_alt t)
  ultimately have "unat (blk n a) = unat a - unat a mod 2 ^ n"
    by (simp add: unat_sub t)
  then show ?thesis by (simp add: minus_mod_eq_div_mult)
qed

lemma aligned_unat: "aligned n a \<longleftrightarrow> unat a mod 2 ^ n = 0"
  unfolding aligned_def
  by (metis take_bit_eq_mod unat_eq_zero unsigned_take_bit_eq)

lemma unat_of_nat64: "i < 2 ^ 64 \<Longrightarrow> unat (of_nat i :: u64) = i"
  by (simp add: unat_of_nat)

lemma unat_diff_eq_iff: "k < 2 ^ 64 \<Longrightarrow> unat (x - d :: u64) = k \<longleftrightarrow> x = d + of_nat k"
proof
  assume "unat (x - d) = k"
  then have "of_nat k = x - d" by auto
  then show "x = d + of_nat k" by simp
qed (simp add: unat_of_nat64)

lemma unat_ucast_u32 [simp]: "unat (ucast (n :: u32) :: u64) = unat n"
proof -
  have "unat n < 2 ^ 32" using unsigned_less [of n] by simp
  then show ?thesis by (simp add: unsigned_ucast_eq take_bit_nat_eq_self_iff)
qed

lemma of_nat_unat_u32 [simp]: "(of_nat (unat (n :: u32)) :: u64) = ucast n"
  using unat_of_nat64 [of "unat n"] unsigned_less [of n] by (simp add: word_unat_eq_iff)

section \<open>Little-endian integers\<close>

fun le_bytes :: "nat \<Rightarrow> u64 \<Rightarrow> u8 list" where
  "le_bytes 0 v = []"
| "le_bytes (Suc k) v = ucast v # le_bytes k (drop_bit 8 v)"

fun le_val :: "u8 list \<Rightarrow> u64" where
  "le_val [] = 0"
| "le_val (b # bs) = ucast b OR push_bit 8 (le_val bs)"

lemma length_le_bytes [simp]: "length (le_bytes k v) = k"
  by (induction k arbitrary: v) auto

lemma le_val_le_bytes: "le_val (le_bytes k v) = take_bit (8 * k) v"
proof (induction k arbitrary: v)
  case 0
  then show ?case by simp
next
  case (Suc k)
  have "ucast (ucast v :: u8) OR push_bit 8 (take_bit (8 * k) (drop_bit 8 v)) = take_bit (8 * Suc k) v"
    by (rule bit_eqI) (auto simp: bit_simps)
  then show ?case by (simp add: Suc)
qed

lemma le_val_le_bytes_64 [simp]: "le_val (le_bytes 8 v) = v"
  by (simp add: le_val_le_bytes take_bit_word_eq_self)

lemma le_bytes_take_bit: "8 * k \<le> n \<Longrightarrow> le_bytes k (take_bit n v) = le_bytes k v"
proof (induction k arbitrary: v n)
  case 0
  then show ?case by simp
next
  case (Suc k)
  have "ucast (take_bit n v) = (ucast v :: u8)"
    using Suc.prems by (intro bit_eqI) (auto simp: bit_simps)
  moreover have "le_bytes k (take_bit (n - 8) (drop_bit 8 v)) = le_bytes k (drop_bit 8 v)"
    using Suc by simp
  ultimately show ?case by (simp add: drop_bit_take_bit)
qed

lemma le_bytes_le_val: "length bs \<le> 8 \<Longrightarrow> le_bytes (length bs) (le_val bs) = bs"
proof (induction bs)
  case Nil
  then show ?case by simp
next
  case (Cons b bs)
  have lo: "ucast (ucast b OR push_bit 8 (le_val bs) :: u64) = b"
    by (rule bit_eqI) (auto simp: bit_simps)
  have "drop_bit 8 (ucast b OR push_bit 8 (le_val bs) :: u64) = take_bit 56 (le_val bs)"
    by (rule bit_eqI) (auto simp: bit_simps dest: bit_imp_le_length)
  then show ?case using Cons by (simp add: lo le_bytes_take_bit)
qed

section \<open>Byte-addressed memory\<close>

type_synonym mem = "u64 \<Rightarrow> u8"

definition read_mem :: "mem \<Rightarrow> u64 \<Rightarrow> nat \<Rightarrow> u8 list" where
  "read_mem m a n = map (\<lambda>i. m (a + of_nat i)) [0..<n]"

definition write_mem :: "mem \<Rightarrow> u64 \<Rightarrow> u8 list \<Rightarrow> mem" where
  "write_mem m a bs = (\<lambda>x. if unat (x - a) < length bs then bs ! unat (x - a) else m x)"

definition ld64 :: "mem \<Rightarrow> u64 \<Rightarrow> u64" where
  "ld64 m a = le_val (read_mem m a 8)"

definition st64 :: "mem \<Rightarrow> u64 \<Rightarrow> u64 \<Rightarrow> mem" where
  "st64 m a v = write_mem m a (le_bytes 8 v)"

lemma length_read_mem [simp]: "length (read_mem m a n) = n"
  by (simp add: read_mem_def)

lemma write_mem_out: "length bs \<le> unat (x - a) \<Longrightarrow> write_mem m a bs x = m x"
  by (simp add: write_mem_def)

lemma read_mem_cong:
  "(\<And>i. i < n \<Longrightarrow> m (a + of_nat i) = m' (a + of_nat i)) \<Longrightarrow> read_mem m a n = read_mem m' a n"
  by (simp add: read_mem_def)

lemma read_write_same:
  assumes "length bs \<le> 2 ^ 63"
  shows "read_mem (write_mem m a bs) a (length bs) = bs"
proof (rule nth_equalityI)
  fix i assume i: "i < length (read_mem (write_mem m a bs) a (length bs))"
  then have "unat (of_nat i :: u64) = i" using assms by (intro unat_of_nat64) simp
  then show "read_mem (write_mem m a bs) a (length bs) ! i = bs ! i"
    using i by (simp add: read_mem_def write_mem_def)
qed simp

lemma ld64_st64_same [simp]: "ld64 (st64 m a v) a = v"
  using read_write_same [of "le_bytes 8 v" m a] by (simp add: ld64_def st64_def)

lemma blk_slot:
  assumes "aligned 3 a" and "i < 8"
  shows "blk 3 (a + of_nat i) = a"
proof -
  have "unat (of_nat i :: u64) = i" using assms(2) by (intro unat_of_nat64) simp
  then show ?thesis using assms by (intro blk_offset) simp_all
qed

lemma ld64_cong:
  assumes "aligned 3 a" and "\<And>x. blk 3 x = a \<Longrightarrow> m x = m' x"
  shows "ld64 m a = ld64 m' a"
  unfolding ld64_def using assms by (intro arg_cong [where f = le_val] read_mem_cong) (simp add: blk_slot)

lemma st64_out: "aligned 3 a \<Longrightarrow> blk 3 x \<noteq> a \<Longrightarrow> st64 m a v x = m x"
  using in_blk_iff [of 3 a x] by (simp add: st64_def write_mem_def)

lemma ld64_st64_other:
  assumes "aligned 3 a" and "aligned 3 b" and "a \<noteq> b"
  shows "ld64 (st64 m a v) b = ld64 m b"
  using assms by (intro ld64_cong) (auto intro: st64_out)

lemma ld64_const: "(\<And>x. unat (x - a) < 8 \<Longrightarrow> m x = 0) \<Longrightarrow> ld64 m a = 0"
proof -
  assume z: "\<And>x. unat (x - a) < 8 \<Longrightarrow> m x = 0"
  have "read_mem m a 8 = replicate 8 0"
    by (rule nth_equalityI) (auto simp: read_mem_def unat_of_nat64 intro!: z)
  then show ?thesis by (simp add: ld64_def numeral_eq_Suc)
qed

end
