(* ===== verification/Layout.thy ===== *)
theory Layout
  imports Prelude
begin

text \<open>
  The constants and address arithmetic of \<^verbatim>\<open>kernel/riscv.h\<close> and \<^verbatim>\<open>kernel/memlayout.h\<close>: pages,
  page-table entries, the three-level split of an Sv39 virtual address, and the physical and
  virtual memory layout. The lemmas show that a PTE stores an address and its flags without
  loss, and that the three indices of a virtual address determine its page.
\<close>

unbundle bit_operations_syntax

section \<open>Pages\<close>

definition PGSIZE :: u64 where
  "PGSIZE = 4096"

definition PGROUNDUP :: "u64 \<Rightarrow> u64" where
  "PGROUNDUP sz = (sz + PGSIZE - 1) AND NOT (PGSIZE - 1)"

definition PGROUNDDOWN :: "u64 \<Rightarrow> u64" where
  "PGROUNDDOWN a = a AND NOT (PGSIZE - 1)"

section \<open>Page-table entries\<close>

definition PTE_V :: u64 where "PTE_V = push_bit 0 1"
definition PTE_R :: u64 where "PTE_R = push_bit 1 1"
definition PTE_W :: u64 where "PTE_W = push_bit 2 1"
definition PTE_X :: u64 where "PTE_X = push_bit 3 1"
definition PTE_U :: u64 where "PTE_U = push_bit 4 1"
definition PTE_COW :: u64 where "PTE_COW = push_bit 8 1"

definition PA2PTE :: "u64 \<Rightarrow> u64" where
  "PA2PTE pa = push_bit 10 (drop_bit 12 pa)"

definition PTE2PA :: "u64 \<Rightarrow> u64" where
  "PTE2PA pte = push_bit 12 (drop_bit 10 pte)"

definition PTE_FLAGS :: "u64 \<Rightarrow> u64" where
  "PTE_FLAGS pte = pte AND 0x3FF"

section \<open>Virtual addresses\<close>

definition PXMASK :: u64 where
  "PXMASK = 0x1FF"

definition PXSHIFT :: "nat \<Rightarrow> nat" where
  "PXSHIFT level = 12 + 9 * level"

definition PX :: "nat \<Rightarrow> u64 \<Rightarrow> u64" where
  "PX level va = drop_bit (PXSHIFT level) va AND PXMASK"

definition MAXVA :: u64 where
  "MAXVA = push_bit (9 + 9 + 9 + 12 - 1) 1"

definition MAKE_SATP :: "u64 \<Rightarrow> u64" where
  "MAKE_SATP pagetable = push_bit 60 8 OR drop_bit 12 pagetable"

section \<open>Memory layout\<close>

definition UART0 :: u64 where "UART0 = 0x10000000"
definition VIRTIO0 :: u64 where "VIRTIO0 = 0x10001000"
definition PLIC :: u64 where "PLIC = 0x0c000000"

definition KERNBASE :: u64 where
  "KERNBASE = 0x80000000"

definition PHYSTOP :: u64 where
  "PHYSTOP = KERNBASE + 128 * 1024 * 1024"

definition TRAMPOLINE :: u64 where
  "TRAMPOLINE = MAXVA - PGSIZE"

definition KSTACK :: "u64 \<Rightarrow> u64" where
  "KSTACK p = TRAMPOLINE - (p + 1) * 2 * PGSIZE"

definition TRAPFRAME :: u64 where
  "TRAPFRAME = TRAMPOLINE - PGSIZE"

definition PA2COWINDEX :: "u64 \<Rightarrow> u64" where
  "PA2COWINDEX pa = (pa - KERNBASE) div PGSIZE"

lemmas layout_defs =
  PGSIZE_def MAXVA_def KERNBASE_def PHYSTOP_def TRAMPOLINE_def TRAPFRAME_def

lemmas pte_flag_defs = PTE_V_def PTE_R_def PTE_W_def PTE_X_def PTE_U_def PTE_COW_def

section \<open>Lemmas\<close>

lemma mask_12: "mask 12 = (4095 :: u64)"
  by (simp add: mask_eq_exp_minus_1)

lemma mask_10: "mask 10 = (0x3FF :: u64)"
  by (simp add: mask_eq_exp_minus_1)

lemma mask_9: "mask 9 = (0x1FF :: u64)"
  by (simp add: mask_eq_exp_minus_1)

lemma PGROUNDDOWN_blk: "PGROUNDDOWN a = blk 12 a"
  by (simp add: PGROUNDDOWN_def blk_def PGSIZE_def mask_12)

lemma PGROUNDUP_blk: "PGROUNDUP a = blk 12 (a + 4095)"
  by (simp add: PGROUNDUP_def blk_def PGSIZE_def mask_12 add.commute)

lemma unat_PGROUNDDOWN: "unat (PGROUNDDOWN a) = unat a div 4096 * 4096"
  using unat_blk [of 12 a] by (simp add: PGROUNDDOWN_blk)

lemma PGROUNDDOWN_le: "PGROUNDDOWN a \<le> a"
  by (simp add: word_le_nat_alt unat_PGROUNDDOWN)

lemma PGROUNDDOWN_less: "a < e \<Longrightarrow> PGROUNDDOWN a < e"
  using PGROUNDDOWN_le [of a] by (rule le_less_trans)

lemma unat_PGROUNDUP:
  assumes "unat sz + 4095 < 2 ^ 64"
  shows "unat (PGROUNDUP sz) = (unat sz + 4095) div 4096 * 4096"
proof -
  have "unat (sz + 4095) = unat sz + 4095"
    using assms by (simp add: unat_word_ariths)
  then show ?thesis using unat_blk [of 12 "sz + 4095"] by (simp add: PGROUNDUP_blk)
qed

lemma aligned_PGROUNDDOWN [simp]: "aligned 12 (PGROUNDDOWN a)"
  by (simp add: PGROUNDDOWN_blk)

lemma aligned_PGROUNDUP [simp]: "aligned 12 (PGROUNDUP a)"
  by (simp add: PGROUNDUP_blk)

lemma mod_PGSIZE: "a mod PGSIZE = 0 \<longleftrightarrow> aligned 12 a"
  by (simp add: aligned_unat PGSIZE_def word_unat_eq_iff unat_mod)

lemma bit_PTE_FLAGS: "bit (PTE_FLAGS pte) i \<longleftrightarrow> bit pte i \<and> i < 10"
  unfolding PTE_FLAGS_def mask_10 [symmetric] by (auto simp: bit_simps dest: bit_imp_le_length)

lemma bit_PA2PTE: "bit (PA2PTE pa) i \<longleftrightarrow> 10 \<le> i \<and> bit pa (i + 2)"
  unfolding PA2PTE_def by (auto simp: bit_simps dest: bit_imp_le_length)

lemma bit_PTE2PA: "bit (PTE2PA pte) i \<longleftrightarrow> 12 \<le> i \<and> i < 64 \<and> bit pte (i - 2)"
  unfolding PTE2PA_def by (auto simp: bit_simps dest: bit_imp_le_length)

lemma aligned_PTE2PA [simp]: "aligned 12 (PTE2PA pte)"
  by (simp add: bit_aligned bit_PTE2PA)

lemma PTE2PA_entry:
  assumes "aligned 12 pa" and "PTE_FLAGS f = f"
  shows "PTE2PA (PA2PTE pa OR f) = pa"
proof (rule bit_eqI)
  fix i
  have f: "bit f k \<Longrightarrow> k < 10" for k using assms(2) bit_PTE_FLAGS [of f k] by simp
  have a: "bit pa k \<Longrightarrow> 12 \<le> k" for k using assms(1) by (auto simp: bit_aligned not_less)
  have "bit (PTE2PA (PA2PTE pa OR f)) i \<longleftrightarrow> 12 \<le> i \<and> i < 64 \<and> bit pa i"
  proof (cases "12 \<le> i")
    case True
    then have "i - 2 + 2 = i" by simp
    with True f [of "i - 2"] show ?thesis by (auto simp: bit_PTE2PA bit_or_iff bit_PA2PTE simp del: add_2_eq_Suc')
  next
    case False
    then show ?thesis by (simp add: bit_PTE2PA)
  qed
  also have "\<dots> \<longleftrightarrow> bit pa i" using a [of i] bit_imp_le_length [of pa i] by auto
  finally show "bit (PTE2PA (PA2PTE pa OR f)) i = bit pa i" .
qed

lemma PTE_FLAGS_entry: "PTE_FLAGS (PA2PTE pa OR f) = PTE_FLAGS f"
  by (rule bit_eqI) (auto simp: bit_PTE_FLAGS bit_or_iff bit_PA2PTE)

lemma PTE_FLAGS_idem [simp]: "PTE_FLAGS (PTE_FLAGS f) = PTE_FLAGS f"
  by (rule bit_eqI) (auto simp: bit_PTE_FLAGS)

lemma PTE_FLAGS_or: "PTE_FLAGS (a OR b) = PTE_FLAGS a OR PTE_FLAGS b"
  by (rule bit_eqI) (auto simp: bit_PTE_FLAGS bit_or_iff)

lemma PTE_FLAGS_and_not: "PTE_FLAGS (a AND NOT b) = PTE_FLAGS a AND NOT b"
  by (rule bit_eqI) (auto simp: bit_simps bit_PTE_FLAGS)

lemma PTE_FLAGS_consts [simp]:
  "PTE_FLAGS PTE_V = PTE_V" "PTE_FLAGS PTE_R = PTE_R" "PTE_FLAGS PTE_W = PTE_W"
  "PTE_FLAGS PTE_X = PTE_X" "PTE_FLAGS PTE_U = PTE_U" "PTE_FLAGS PTE_COW = PTE_COW"
  by (simp_all add: PTE_FLAGS_def pte_flag_defs)

text \<open>A flag test of the C code, \<^verbatim>\<open>(*pte & PTE_X) != 0\<close>, reads one bit of the entry.\<close>

lemma and_bit_iff: "x AND push_bit n 1 \<noteq> 0 \<longleftrightarrow> n < 64 \<and> bit (x :: u64) n"
proof -
  have "bit (x AND push_bit n 1) i \<longleftrightarrow> i = n \<and> n < 64 \<and> bit x n" for i
    by (auto simp: bit_simps dest: bit_imp_le_length)
  then show ?thesis by (metis bit_0_eq bit_eqI bot_apply bot_bool_def)
qed

lemma flag_test:
  "x AND PTE_V \<noteq> 0 \<longleftrightarrow> bit x 0" "x AND PTE_R \<noteq> 0 \<longleftrightarrow> bit x 1"
  "x AND PTE_W \<noteq> 0 \<longleftrightarrow> bit x 2" "x AND PTE_X \<noteq> 0 \<longleftrightarrow> bit x 3"
  "x AND PTE_U \<noteq> 0 \<longleftrightarrow> bit x 4" "x AND PTE_COW \<noteq> 0 \<longleftrightarrow> bit x 8"
  unfolding pte_flag_defs and_bit_iff by simp_all

lemma flag_test0:
  "x AND PTE_V = 0 \<longleftrightarrow> \<not> bit x 0" "x AND PTE_R = 0 \<longleftrightarrow> \<not> bit x 1"
  "x AND PTE_W = 0 \<longleftrightarrow> \<not> bit x 2" "x AND PTE_X = 0 \<longleftrightarrow> \<not> bit x 3"
  "x AND PTE_U = 0 \<longleftrightarrow> \<not> bit x 4" "x AND PTE_COW = 0 \<longleftrightarrow> \<not> bit x 8"
  using flag_test [of x] by blast+

lemma bit_flags:
  "bit PTE_V i \<longleftrightarrow> i = 0" "bit PTE_R i \<longleftrightarrow> i = 1" "bit PTE_W i \<longleftrightarrow> i = 2"
  "bit PTE_X i \<longleftrightarrow> i = 3" "bit PTE_U i \<longleftrightarrow> i = 4" "bit PTE_COW i \<longleftrightarrow> i = 8"
  unfolding pte_flag_defs by (auto simp only: bit_push_bit_iff bit_1_iff possible_bit_def) simp_all

lemmas pte_bits = bit_or_iff bit_and_iff bit_not_iff bit_flags bit_PTE_FLAGS bit_PA2PTE bit_PTE2PA

text \<open>The indices of an address.\<close>

lemma bit_PX: "bit (PX level va) i \<longleftrightarrow> i < 9 \<and> bit va (i + PXSHIFT level)"
  unfolding PX_def PXMASK_def mask_9 [symmetric]
  by (auto simp: bit_simps add.commute dest: bit_imp_le_length)

lemma PX_less: "unat (PX level va) < 512"
proof -
  have "PX level va = take_bit 9 (drop_bit (PXSHIFT level) va)"
    unfolding PX_def PXMASK_def mask_9 [symmetric] by (simp add: take_bit_eq_mask)
  then show ?thesis using unat_take_bit_less [of 9] by simp
qed

lemma unat_MAXVA: "unat MAXVA = 2 ^ 38"
  by (simp add: MAXVA_def)

lemma bit_below_MAXVA: "va < MAXVA \<Longrightarrow> bit va i \<Longrightarrow> i < 38"
  using bit_small [of va 38 i] by (simp add: word_less_nat_alt unat_MAXVA)

lemma PX_eq_iff:
  assumes "va < MAXVA" and "vb < MAXVA"
  shows "PX 2 va = PX 2 vb \<and> PX 1 va = PX 1 vb \<and> PX 0 va = PX 0 vb \<longleftrightarrow> PGROUNDDOWN va = PGROUNDDOWN vb"
proof
  assume px: "PX 2 va = PX 2 vb \<and> PX 1 va = PX 1 vb \<and> PX 0 va = PX 0 vb"
  show "PGROUNDDOWN va = PGROUNDDOWN vb"
    unfolding PGROUNDDOWN_blk
  proof (rule bit_eqI)
    fix i
    have lv: "bit va i = bit vb i" if "12 \<le> i"
    proof -
      have px_bit: "bit va (k + PXSHIFT l) = bit vb (k + PXSHIFT l)" if "PX l va = PX l vb" "k < 9" for k l
        using that bit_PX [of l va k] bit_PX [of l vb k] by simp
      consider "i < 21" | "21 \<le> i" "i < 30" | "30 \<le> i" "i < 39" | "39 \<le> i" by linarith
      then show ?thesis
      proof cases
        case 1
        with px_bit [of 0 "i - 12"] px that show ?thesis by (simp add: PXSHIFT_def)
      next
        case 2
        with px_bit [of 1 "i - 21"] px show ?thesis by (simp add: PXSHIFT_def)
      next
        case 3
        with px_bit [of 2 "i - 30"] px show ?thesis by (simp add: PXSHIFT_def)
      next
        case 4
        with assms bit_below_MAXVA show ?thesis by fastforce
      qed
    qed
    then show "bit (blk 12 va) i = bit (blk 12 vb) i" by (auto simp: bit_blk)
  qed
next
  assume "PGROUNDDOWN va = PGROUNDDOWN vb"
  then have "bit va i = bit vb i" if "12 \<le> i" for i
    using that bit_blk [of 12 va i] bit_blk [of 12 vb i] by (simp add: PGROUNDDOWN_blk)
  then have "PX l va = PX l vb" for l
    by (intro bit_eqI) (simp add: bit_PX PXSHIFT_def)
  then show "PX 2 va = PX 2 vb \<and> PX 1 va = PX 1 vb \<and> PX 0 va = PX 0 vb" by simp
qed

end
