(* ===== verification/Kstring.thy ===== *)
theory Kstring
  imports Layout
begin

text \<open>
  \<^verbatim>\<open>kernel/string.c\<close>. The block operations work on byte-addressed memory with the loops of the
  source; the string operations work on a C array seen from a pointer, \<open>i \<mapsto> p[i]\<close>. The
  lemmas replace each loop by what it computes: \<open>memset\<close> fills a range, \<open>memmove\<close> copies a
  range as if at once even when source and destination overlap, \<open>strncmp\<close> decides equality
  up to the first NUL, \<open>strncpy\<close> pads with NUL and \<open>safestrcpy\<close> always terminates.
\<close>

section \<open>Block operations\<close>

primrec memset_loop :: "mem \<Rightarrow> u64 \<Rightarrow> u8 \<Rightarrow> nat \<Rightarrow> nat \<Rightarrow> mem" where
  "memset_loop m cdst c i 0 = m"
| "memset_loop m cdst c i (Suc k) = memset_loop (m(cdst + of_nat i := c)) cdst c (Suc i) k"

definition memset :: "mem \<Rightarrow> u64 \<Rightarrow> u32 \<Rightarrow> u32 \<Rightarrow> mem" where
  "memset m dst c n = memset_loop m dst (ucast c) 0 (unat n)"

primrec memmove_fwd :: "mem \<Rightarrow> u64 \<Rightarrow> u64 \<Rightarrow> nat \<Rightarrow> mem" where
  "memmove_fwd m d s 0 = m"
| "memmove_fwd m d s (Suc k) = memmove_fwd (m(d := m s)) (d + 1) (s + 1) k"

primrec memmove_bwd :: "mem \<Rightarrow> u64 \<Rightarrow> u64 \<Rightarrow> nat \<Rightarrow> mem" where
  "memmove_bwd m d s 0 = m"
| "memmove_bwd m d s (Suc k) = memmove_bwd (m(d - 1 := m (s - 1))) (d - 1) (s - 1) k"

definition memmove :: "mem \<Rightarrow> u64 \<Rightarrow> u64 \<Rightarrow> u32 \<Rightarrow> mem" where
  "memmove m dst src n =
     (if n = 0 then m
      else if src < dst \<and> src + ucast n > dst
      then memmove_bwd m (dst + ucast n) (src + ucast n) (unat n)
      else memmove_fwd m dst src (unat n))"

primrec memcmp_loop :: "mem \<Rightarrow> u64 \<Rightarrow> u64 \<Rightarrow> nat \<Rightarrow> int" where
  "memcmp_loop m s1 s2 0 = 0"
| "memcmp_loop m s1 s2 (Suc k) =
     (if m s1 \<noteq> m s2 then uint (m s1) - uint (m s2) else memcmp_loop m (s1 + 1) (s2 + 1) k)"

definition memcmp :: "mem \<Rightarrow> u64 \<Rightarrow> u64 \<Rightarrow> u32 \<Rightarrow> int" where
  "memcmp m v1 v2 n = memcmp_loop m v1 v2 (unat n)"

section \<open>Strings\<close>

type_synonym cstr = "nat \<Rightarrow> u8"

primrec strncmp_loop :: "cstr \<Rightarrow> cstr \<Rightarrow> nat \<Rightarrow> nat \<Rightarrow> int" where
  "strncmp_loop p q i 0 = 0"
| "strncmp_loop p q i (Suc n) =
     (if p i \<noteq> 0 \<and> p i = q i then strncmp_loop p q (Suc i) n
      else uint (p i) - uint (q i))"

definition strncmp :: "cstr \<Rightarrow> cstr \<Rightarrow> nat \<Rightarrow> int" where
  "strncmp p q n = strncmp_loop p q 0 n"

text \<open>The second loop of \<^verbatim>\<open>strncpy\<close>, which writes NULs, and the first, which copies.\<close>

primrec strncpy_pad :: "cstr \<Rightarrow> nat \<Rightarrow> nat \<Rightarrow> cstr" where
  "strncpy_pad s i 0 = s"
| "strncpy_pad s i (Suc n) = strncpy_pad (s(i := 0)) (Suc i) n"

primrec strncpy_loop :: "cstr \<Rightarrow> cstr \<Rightarrow> nat \<Rightarrow> nat \<Rightarrow> cstr" where
  "strncpy_loop s t i 0 = s"
| "strncpy_loop s t i (Suc n) =
     (if t i \<noteq> 0 then strncpy_loop (s(i := t i)) t (Suc i) n
      else strncpy_pad (s(i := t i)) (Suc i) n)"

definition strncpy :: "cstr \<Rightarrow> cstr \<Rightarrow> nat \<Rightarrow> cstr" where
  "strncpy s t n = strncpy_loop s t 0 n"

text \<open>\<^verbatim>\<open>safestrcpy\<close>: the loop \<^verbatim>\<open>while(--n > 0 && (*s++ = *t++) != 0)\<close>, then \<^verbatim>\<open>*s = 0\<close>.\<close>

primrec safestrcpy_loop :: "cstr \<Rightarrow> cstr \<Rightarrow> nat \<Rightarrow> nat \<Rightarrow> cstr" where
  "safestrcpy_loop s t i 0 = s(i := 0)"
| "safestrcpy_loop s t i (Suc k) =
     (if t i \<noteq> 0 then safestrcpy_loop (s(i := t i)) t (Suc i) k
      else (s(i := t i))(Suc i := 0))"

definition safestrcpy :: "cstr \<Rightarrow> cstr \<Rightarrow> int \<Rightarrow> cstr" where
  "safestrcpy s t n = (if n \<le> 0 then s else safestrcpy_loop s t 0 (nat n - 1))"

text \<open>\<^verbatim>\<open>strlen\<close> may run on past the array; on an array of known size the search is bounded.\<close>

primrec strlen_loop :: "cstr \<Rightarrow> nat \<Rightarrow> nat \<Rightarrow> nat option" where
  "strlen_loop s n 0 = None"
| "strlen_loop s n (Suc k) = (if s n \<noteq> 0 then strlen_loop s (Suc n) k else Some n)"

definition strlen :: "cstr \<Rightarrow> nat \<Rightarrow> nat option" where
  "strlen s cap = strlen_loop s 0 cap"

section \<open>What the block operations compute\<close>

lemma uint_inj [simp]: "uint (x :: u8) = uint y \<longleftrightarrow> x = y"
  by (simp add: word_uint_eq_iff)

lemma memset_loop_eq:
  assumes "i + k \<le> 2 ^ 63"
  shows "memset_loop m d c i k = (\<lambda>x. if i \<le> unat (x - d) \<and> unat (x - d) < i + k then c else m x)"
  using assms
proof (induction k arbitrary: m i)
  case 0
  then show ?case by (auto simp: fun_eq_iff)
next
  case (Suc k)
  have at: "x = d + of_nat i \<longleftrightarrow> unat (x - d) = i" for x
    using Suc.prems unat_diff_eq_iff [of i x d] by simp
  have "memset_loop (m(d + of_nat i := c)) d c (Suc i) k x =
      (if i \<le> unat (x - d) \<and> unat (x - d) < i + Suc k then c else m x)" for x
    using Suc at [of x] by auto
  then show ?case by auto
qed

lemma memset_eq:
  assumes "unat n \<le> 2 ^ 31"
  shows "memset m d c n = (\<lambda>x. if unat (x - d) < unat n then ucast c else m x)"
  using memset_loop_eq [of 0 "unat n" m d "ucast c"] assms by (simp add: memset_def)

lemma memset_page:
  assumes "aligned 12 p"
  shows "memset m p c 4096 = (\<lambda>x. if blk 12 x = p then ucast c else m x)"
  using memset_eq [of 4096 m p c] in_blk_iff [OF assms] by simp

text \<open>The copy as it would happen at once.\<close>

definition copied :: "mem \<Rightarrow> u64 \<Rightarrow> u64 \<Rightarrow> nat \<Rightarrow> mem" where
  "copied m d s n = (\<lambda>x. if unat (x - d) < n then m (s + (x - d)) else m x)"

lemma unat_pred: "x \<noteq> 0 \<Longrightarrow> unat (x - 1 :: u64) = unat x - 1"
  by (simp add: unat_minus_one)

lemma memmove_fwd_eq:
  assumes "d = s \<or> n \<le> unat (d - s)" and "n \<le> 2 ^ 63"
  shows "memmove_fwd m d s n = copied m d s n"
  using assms
proof (induction n arbitrary: m d s)
  case 0
  then show ?case by (simp add: copied_def)
next
  case (Suc k)
  have IH: "memmove_fwd (m(d := m s)) (d + 1) (s + 1) k = copied (m(d := m s)) (d + 1) (s + 1) k"
    using Suc by (intro Suc.IH) auto
  have "copied (m(d := m s)) (d + 1) (s + 1) k x = copied m d s (Suc k) x" for x
  proof (cases "x = d")
    case True
    have "unat (- 1 :: u64) \<ge> k"
      using Suc.prems(2) by (simp add: unsigned_minus_1_eq_mask mask_eq_exp_minus_1)
    then show ?thesis using True by (simp add: copied_def)
  next
    case False
    then have "unat (x - d - 1) = unat (x - d) - 1" and nz: "unat (x - d) \<noteq> 0"
      by (simp_all add: unat_pred unat_eq_zero)
    then have lt: "unat (x - (d + 1)) < k \<longleftrightarrow> unat (x - d) < Suc k" by (auto simp: diff_diff_eq)
    have ne: "s + (x - d) \<noteq> d" if "unat (x - d) < Suc k"
    proof
      assume "s + (x - d) = d"
      then have "x - d = d - s" by (metis add_diff_cancel_left')
      with that nz Suc.prems(1) show False by auto
    qed
    have "s + 1 + (x - (d + 1)) = s + (x - d)" by simp
    then show ?thesis using lt ne False by (auto simp: copied_def)
  qed
  then have "copied (m(d := m s)) (d + 1) (s + 1) k = copied m d s (Suc k)" by (rule ext)
  with IH show ?case by simp
qed

lemma memmove_bwd_eq:
  assumes "s = d \<or> n \<le> unat (s - d)" and "n \<le> 2 ^ 63"
  shows "memmove_bwd m (d + of_nat n) (s + of_nat n) n = copied m d s n"
  using assms
proof (induction n arbitrary: m)
  case 0
  then show ?case by (simp add: copied_def)
next
  case (Suc k)
  let ?m = "m(d + of_nat k := m (s + of_nat k))"
  have IH: "memmove_bwd ?m (d + of_nat k) (s + of_nat k) k = copied ?m d s k"
    using Suc by (intro Suc.IH) auto
  have k: "unat (of_nat k :: u64) = k" using Suc.prems(2) by (intro unat_of_nat64) simp
  have at: "unat (x - d) = k \<longleftrightarrow> x = d + of_nat k" for x
    using Suc.prems(2) unat_diff_eq_iff [of k x d] by simp
  have ne: "s + (x - d) \<noteq> d + of_nat k" if "unat (x - d) < k" for x
  proof
    assume "s + (x - d) = d + of_nat k"
    then have "s - d = of_nat k - (x - d)" by (simp add: algebra_simps)
    moreover have "unat (of_nat k - (x - d)) = k - unat (x - d)"
      using that k by (simp add: unat_sub word_le_nat_alt)
    ultimately have "unat (s - d) = k - unat (x - d)" by metis
    with that Suc.prems(1) show False by auto
  qed
  have "copied ?m d s k x = copied m d s (Suc k) x" for x
    using at [of x] ne [of x] by (cases "unat (x - d) = k") (auto simp: copied_def)
  then have "copied ?m d s k = copied m d s (Suc k)" by (rule ext)
  moreover have "d + of_nat (Suc k) - 1 = d + of_nat k" and "s + of_nat (Suc k) - 1 = s + of_nat k"
    by simp_all
  ultimately show ?case using IH by (simp only: memmove_bwd.simps)
qed

lemma unat_sub_wrap: "unat a < unat b \<Longrightarrow> unat (a - b :: u64) = 2 ^ 64 + unat a - unat b"
  using unat_sub_if' [of a b] by simp

lemma memmove_eq:
  assumes "unat src + unat n < 2 ^ 64" and "unat dst + unat n < 2 ^ 64"
  shows "memmove m dst src n = copied m dst src (unat n)"
proof -
  have n: "unat n < 2 ^ 32" using unsigned_less [of n] by simp
  have un: "unat (ucast n :: u64) = unat n" by simp
  have sn: "unat (src + ucast n) = unat src + unat n"
    using assms(1) by (simp add: unat_word_ariths un)
  have wn: "(of_nat (unat n) :: u64) = ucast n"
    by simp
  consider "n = 0" | "n \<noteq> 0" "src < dst" "src + ucast n > dst" | "n \<noteq> 0" "\<not> (src < dst \<and> src + ucast n > dst)"
    by blast
  then show ?thesis
  proof cases
    case 1
    then show ?thesis by (simp add: memmove_def copied_def)
  next
    case 2
    have "unat n \<le> unat (src - dst)"
      using 2 unat_sub_wrap [of src dst] sn n by (simp add: word_less_nat_alt)
    then have "memmove_bwd m (dst + ucast n) (src + ucast n) (unat n) = copied m dst src (unat n)"
      using memmove_bwd_eq [of src dst "unat n" m] n by (simp add: wn)
    with 2 show ?thesis by (simp add: memmove_def)
  next
    case 3
    have "dst = src \<or> unat n \<le> unat (dst - src)"
    proof (cases "src < dst")
      case True
      with 3 have "unat src + unat n \<le> unat dst" by (simp add: word_less_nat_alt sn)
      moreover have "unat (dst - src) = unat dst - unat src"
        using True by (intro unat_sub) (simp add: word_le_nat_alt word_less_nat_alt)
      ultimately show ?thesis by linarith
    next
      case False
      then show ?thesis
        using unat_sub_wrap [of dst src] assms(1)
        by (cases "dst = src") (auto simp: word_less_nat_alt word_unat_eq_iff)
    qed
    with 3 n show ?thesis by (auto simp: memmove_def memmove_fwd_eq)
  qed
qed

lemma memmove_page:
  assumes "aligned 12 p" and "aligned 12 q" and "unat p + 4096 < 2 ^ 64" and "unat q + 4096 < 2 ^ 64"
  shows "memmove m p q 4096 = (\<lambda>x. if blk 12 x = p then m (q + (x - p)) else m x)"
  using memmove_eq [of q 4096 p m] assms in_blk_iff [OF assms(1)] by (simp add: copied_def)

lemma memcmp_loop_eq_0: "memcmp_loop m a b k = 0 \<longleftrightarrow> (\<forall>i < k. m (a + of_nat i) = m (b + of_nat i))"
  by (induction k arbitrary: a b) (auto simp: All_less_Suc2 add.assoc)

section \<open>What the string operations compute\<close>

lemma strncmp_loop_eq_0:
  "strncmp_loop p q i n = 0 \<longleftrightarrow> (\<forall>k < n. (\<forall>j < k. p (i + j) \<noteq> 0) \<longrightarrow> p (i + k) = q (i + k))"
  by (induction n arbitrary: i) (auto simp: All_less_Suc2 uint_0_iff)

lemma strncmp_eq_0: "strncmp p q n = 0 \<longleftrightarrow> (\<forall>k < n. (\<forall>j < k. p j \<noteq> 0) \<longrightarrow> p k = q k)"
  using strncmp_loop_eq_0 [of p q 0 n] by (simp add: strncmp_def)

lemma strncpy_pad_at: "strncpy_pad s i n k = (if i \<le> k \<and> k < i + n then 0 else s k)"
  by (induction n arbitrary: s i) auto

lemma strncpy_loop_below: "k < i \<Longrightarrow> strncpy_loop s t i n k = s k"
  by (induction n arbitrary: s i) (auto simp: strncpy_pad_at)

lemma strncpy_loop_at:
  "strncpy_loop s t i n (i + k) =
     (if k < n then if \<forall>j < k. t (i + j) \<noteq> 0 then t (i + k) else 0 else s (i + k))"
proof (induction n arbitrary: s i k)
  case 0
  then show ?case by simp
next
  case (Suc n)
  show ?case
  proof (cases k)
    case 0
    then show ?thesis by (simp add: strncpy_loop_below strncpy_pad_at)
  next
    case (Suc k')
    define s' where "s' = s(i := t i)"
    have "s' (Suc (i + k')) = s (Suc (i + k'))" by (simp add: s'_def)
    with Suc Suc.IH [of s' "Suc i" k'] show ?thesis
      by (auto simp: strncpy_pad_at All_less_Suc2 simp flip: s'_def)
  qed
qed

lemma strncpy_at:
  "strncpy s t n k = (if k < n then if \<forall>j < k. t j \<noteq> 0 then t k else 0 else s k)"
  using strncpy_loop_at [of s t 0 n k] by (auto simp: strncpy_def)

lemma safestrcpy_loop_below: "k < i \<Longrightarrow> safestrcpy_loop s t i n k = s k"
  by (induction n arbitrary: s i) auto

lemma safestrcpy_loop_term:
  "\<exists>e \<le> k. safestrcpy_loop s t i k (i + e) = 0 \<and>
     (\<forall>j < e. safestrcpy_loop s t i k (i + j) = t (i + j) \<and> t (i + j) \<noteq> 0) \<and>
     (\<forall>j > k. safestrcpy_loop s t i k (i + j) = s (i + j))"
proof (induction k arbitrary: s i)
  case 0
  show ?case by (intro exI [of _ 0]) auto
next
  case (Suc k)
  show ?case
  proof (cases "t i = 0")
    case True
    then show ?thesis by (intro exI [of _ 0]) auto
  next
    case False
    let ?r = "safestrcpy_loop (s(i := t i)) t (Suc i) k"
    obtain e where "e \<le> k" "?r (Suc i + e) = 0"
      and "\<forall>j < e. ?r (Suc i + j) = t (Suc i + j) \<and> t (Suc i + j) \<noteq> 0"
      and out: "\<forall>j > k. ?r (Suc i + j) = (s(i := t i)) (Suc i + j)"
      using Suc [of "s(i := t i)" "Suc i"] by blast
    moreover have "?r (i + j) = s (i + j)" if "Suc k < j" for j
      using that out by (cases j) auto
    ultimately show ?thesis
      using False by (intro exI [of _ "Suc e"]) (auto simp: All_less_Suc2 safestrcpy_loop_below)
  qed
qed

lemma strlen_loop_Some:
  "strlen_loop s n k = Some r \<longleftrightarrow> (\<exists>l < k. r = n + l \<and> s r = 0 \<and> (\<forall>j < l. s (n + j) \<noteq> 0))"
  by (induction k arbitrary: n) (auto simp: Ex_less_Suc2 All_less_Suc2)

lemma strlen_Some: "strlen s cap = Some r \<longleftrightarrow> r < cap \<and> s r = 0 \<and> (\<forall>j < r. s j \<noteq> 0)"
  using strlen_loop_Some [of s 0 cap r] by (auto simp: strlen_def)

end
