(* ===== verification/Kalloc.thy ===== *)
theory Kalloc
  imports Kstring
begin

text \<open>
  \<^verbatim>\<open>kernel/kalloc.c\<close>: the physical page allocator with the per-page reference counts that the
  copy-on-write pages use. The free list is the linked list the C code keeps inside the free
  pages themselves, so it lives in the byte-addressed memory. A critical section under
  \<^verbatim>\<open>kmem.lock\<close> or \<^verbatim>\<open>pa_ref_count.lock\<close> is one atomic step. The linker symbol \<^verbatim>\<open>end\<close> is the
  parameter \<open>kend\<close> of the state. The locale \<open>page_allocator\<close> states what the rest of the
  kernel relies on, and the interpretation \<open>ka\<close> proves it of the code.
\<close>

section \<open>State\<close>

record kst =
  memory :: mem
  freelist :: u64
  counter :: "u64 \<Rightarrow> u8"
  kend :: u64

text \<open>The number of elements of \<^verbatim>\<open>pa_ref_count.counter\<close>.\<close>

definition NCOUNTER :: u64 where
  "NCOUNTER = PA2COWINDEX PHYSTOP + 1"

section \<open>Operations\<close>

definition increase_count :: "kst \<Rightarrow> u64 \<Rightarrow> kst res" where
  "increase_count s pa =
     (let i = PA2COWINDEX pa in
      if i \<ge> NCOUNTER then Undef
      else Ok (s\<lparr>counter := (counter s)(i := counter s i + 1)\<rparr>))"

text \<open>The decremented \<^verbatim>\<open>uint8\<close> is assigned to an \<^verbatim>\<open>int\<close> and returned as a \<^verbatim>\<open>uint64\<close>.\<close>

definition decrease_count :: "kst \<Rightarrow> u64 \<Rightarrow> (u64 \<times> kst) res" where
  "decrease_count s pa =
     (let i = PA2COWINDEX pa in
      if i \<ge> NCOUNTER then Undef
      else let c = counter s i - 1; ret = (ucast c :: u32)
           in Ok (scast ret, s\<lparr>counter := (counter s)(i := c)\<rparr>))"

definition kfree :: "kst \<Rightarrow> u64 \<Rightarrow> kst res" where
  "kfree s pa =
     (if pa mod PGSIZE \<noteq> 0 \<or> pa < kend s \<or> pa \<ge> PHYSTOP then Panic ''kfree''
      else bnd (decrease_count s pa) (\<lambda>(r, s).
        let res = sint (ucast r :: u32) in
        if res < 0 then Panic ''kfree: decrease counter''
        else if res > 0 then Ok s
        else
          let m = memset (memory s) pa 1 (ucast PGSIZE);
              m = st64 m pa (freelist s)
          in Ok (s\<lparr>memory := m, freelist := pa\<rparr>)))"

definition kalloc :: "kst \<Rightarrow> (u64 \<times> kst) res" where
  "kalloc s =
     (let r = freelist s;
          s = (if r \<noteq> 0 then s\<lparr>freelist := ld64 (memory s) r\<rparr> else s)
      in if r \<noteq> 0
         then bnd (increase_count (s\<lparr>memory := memset (memory s) r 5 (ucast PGSIZE)\<rparr>) r)
                (\<lambda>s. Ok (r, s))
         else Ok (r, s))"

primrec counter_init :: "(u64 \<Rightarrow> u8) \<Rightarrow> nat \<Rightarrow> (u64 \<Rightarrow> u8)" where
  "counter_init c 0 = c"
| "counter_init c (Suc i) = (counter_init c i)(of_nat i := 1)"

lemma decrease_count_frame:
  "decrease_count s pa = Ok (r, s') \<Longrightarrow>
     memory s' = memory s \<and> freelist s' = freelist s \<and> kend s' = kend s"
  by (auto simp: decrease_count_def Let_def split: if_splits)

lemma kfree_range: "kfree s p = Ok s' \<Longrightarrow> p < PHYSTOP"
  by (auto simp: kfree_def not_le split: if_splits)

text \<open>
  The loop of \<^verbatim>\<open>freerange\<close> ends for every argument: \<^verbatim>\<open>kfree\<close> panics on an address at or above
  \<^verbatim>\<open>PHYSTOP\<close>, so the pointer never wraps around.
\<close>

function freerange_loop :: "kst \<Rightarrow> u64 \<Rightarrow> u64 \<Rightarrow> kst res" where
  "freerange_loop s p pa_end =
     (if p + PGSIZE \<le> pa_end
      then bnd (kfree s p) (\<lambda>s'. freerange_loop s' (p + PGSIZE) pa_end)
      else Ok s)"
  by pat_completeness auto

termination
proof (relation "measure (\<lambda>(s, p, e). unat PHYSTOP - unat p)")
  fix s p pa_end s'
  assume "kfree s p = Ok s'"
  then have p: "unat p < unat PHYSTOP" by (auto dest: kfree_range simp: word_less_nat_alt)
  then have "unat (p + PGSIZE) = unat p + 4096"
    by (simp add: unat_word_ariths layout_defs)
  with p show "((s', p + PGSIZE, pa_end), s, p, pa_end) \<in> measure (\<lambda>(s, p, e). unat PHYSTOP - unat p)"
    by simp
qed simp

declare freerange_loop.simps [simp del]

definition freerange :: "kst \<Rightarrow> u64 \<Rightarrow> u64 \<Rightarrow> kst res" where
  "freerange s pa_start pa_end =
     (let p = PGROUNDUP pa_start;
          s = s\<lparr>counter := counter_init (counter s) (unat NCOUNTER)\<rparr>
      in freerange_loop s p pa_end)"

definition kinit :: "kst \<Rightarrow> kst res" where
  "kinit s = freerange s (kend s) PHYSTOP"

section \<open>Invariant\<close>

text \<open>\<open>page_ok s p\<close>: \<open>p\<close> is a page of the memory that the allocator manages.\<close>

definition page_ok :: "kst \<Rightarrow> u64 \<Rightarrow> bool" where
  "page_ok s p \<longleftrightarrow> aligned 12 p \<and> KERNBASE \<le> p \<and> kend s \<le> p \<and> p < PHYSTOP"

definition refs :: "kst \<Rightarrow> u64 \<Rightarrow> nat" where
  "refs s p = unat (counter s (PA2COWINDEX p))"

text \<open>The chain of free pages that starts at a pointer.\<close>

primrec flist :: "mem \<Rightarrow> u64 \<Rightarrow> u64 list \<Rightarrow> bool" where
  "flist m p [] \<longleftrightarrow> p = 0"
| "flist m p (x # xs) \<longleftrightarrow> p = x \<and> x \<noteq> 0 \<and> flist m (ld64 m x) xs"

definition kinv_on :: "kst \<Rightarrow> u64 list \<Rightarrow> bool" where
  "kinv_on s xs \<longleftrightarrow> KERNBASE \<le> kend s \<and> flist (memory s) (freelist s) xs \<and> distinct xs \<and>
     (\<forall>p \<in> set xs. page_ok s p) \<and> (\<forall>p. page_ok s p \<longrightarrow> (refs s p = 0 \<longleftrightarrow> p \<in> set xs))"

definition kinv :: "kst \<Rightarrow> bool" where
  "kinv s \<longleftrightarrow> (\<exists>xs. kinv_on s xs)"

section \<open>Lemmas on pages and counters\<close>

lemma NCOUNTER_val: "NCOUNTER = 32769"
  by (simp add: NCOUNTER_def PA2COWINDEX_def layout_defs)

lemma unat_PHYSTOP: "unat PHYSTOP = 0x88000000"
  by (simp add: layout_defs)

lemma unat_KERNBASE: "unat KERNBASE = 0x80000000"
  by (simp add: layout_defs)

lemma ucast_PGSIZE: "(ucast PGSIZE :: u32) = 4096"
  by (simp add: PGSIZE_def)

lemma unat_PA2COWINDEX:
  assumes "KERNBASE \<le> p"
  shows "unat (PA2COWINDEX p) = (unat p - 0x80000000) div 4096"
  using assms unat_KERNBASE
  by (simp add: PA2COWINDEX_def unat_div unat_sub PGSIZE_def)

lemma page_ok_unat:
  assumes "page_ok s p"
  shows "0x80000000 \<le> unat p" "unat p < 0x88000000" "unat p mod 4096 = 0"
  using assms unat_KERNBASE unat_PHYSTOP
  by (auto simp: page_ok_def word_le_nat_alt word_less_nat_alt aligned_unat)

lemma page_ok_nz: "page_ok s p \<Longrightarrow> p \<noteq> 0"
  using page_ok_unat(1) by force

lemma page_ok_aligned: "page_ok s p \<Longrightarrow> aligned 12 p"
  by (simp add: page_ok_def)

lemma page_ok_aligned3: "page_ok s p \<Longrightarrow> aligned 3 p"
  by (rule aligned_mono [of 12]) (simp_all add: page_ok_def)

lemma page_ok_index: "page_ok s p \<Longrightarrow> PA2COWINDEX p < NCOUNTER"
  using page_ok_unat [of s p]
  by (simp add: word_less_nat_alt NCOUNTER_val unat_PA2COWINDEX page_ok_def)

lemma page_index_inj:
  assumes "page_ok s p" and "page_ok s q"
  shows "PA2COWINDEX p = PA2COWINDEX q \<longleftrightarrow> p = q"
proof
  assume "PA2COWINDEX p = PA2COWINDEX q"
  then have d: "(unat p - 0x80000000) div 4096 = (unat q - 0x80000000) div 4096"
    using assms unat_PA2COWINDEX [of p] unat_PA2COWINDEX [of q] by (simp add: page_ok_def)
  have m: "4096 dvd unat x - 0x80000000" if "page_ok s x" for x
    using page_ok_unat(3) [OF that] by (intro dvd_diff_nat) (simp_all add: dvd_eq_mod_eq_0)
  have "unat p - 0x80000000 = unat q - 0x80000000"
    using dvd_div_mult_self [OF m [OF assms(1)]] dvd_div_mult_self [OF m [OF assms(2)]]
    unfolding d by (rule trans [OF sym])
  then have "unat p = unat q"
    using page_ok_unat(1) [OF assms(1)] page_ok_unat(1) [OF assms(2)] by linarith
  then show "p = q" by (simp add: word_unat_eq_iff)
qed simp

lemma page_ok_cong: "kend s' = kend s \<Longrightarrow> page_ok s' = page_ok s"
  by (simp add: page_ok_def fun_eq_iff)

lemma blk_page [simp]: "aligned 12 p \<Longrightarrow> blk 12 p = p"
  by (rule blk_aligned)

lemma blk_slot_page:
  assumes "aligned 12 p"
  shows "blk 3 x = p \<Longrightarrow> blk 12 x = p"
  using assms blk_coarser [of 3 12 x] by simp

text \<open>A list of free pages only depends on what those pages hold.\<close>

lemma flist_cong:
  assumes "flist m p xs" and "\<And>x a. x \<in> set xs \<Longrightarrow> blk 12 a = x \<Longrightarrow> m' a = m a"
    and "\<And>x. x \<in> set xs \<Longrightarrow> aligned 12 x"
  shows "flist m' p xs"
  using assms
proof (induction xs arbitrary: p)
  case Nil
  then show ?case by simp
next
  case (Cons x xs)
  have al: "aligned 12 x" using Cons.prems(3) by simp
  have "ld64 m' x = ld64 m x"
  proof (rule ld64_cong)
    show "aligned 3 x" using al by (rule aligned_mono) simp
    show "m' a = m a" if "blk 3 a = x" for a
      using Cons.prems(2) [of x a] blk_slot_page [OF al that] by simp
  qed
  moreover have "flist m' (ld64 m x) xs"
    using Cons.prems by (intro Cons.IH) auto
  ultimately show ?case using Cons.prems(1) by simp
qed

lemma flist_unique: "flist m p xs \<Longrightarrow> flist m p ys \<Longrightarrow> xs = ys"
proof (induction xs arbitrary: p ys)
  case Nil
  then show ?case by (cases ys) auto
next
  case (Cons x xs)
  then show ?case by (cases ys) auto
qed

lemma counter_init_at: "n \<le> 2 ^ 63 \<Longrightarrow> counter_init c n i = (if unat i < n then 1 else c i)"
proof (induction n)
  case 0
  then show ?case by simp
next
  case (Suc n)
  then have "i = of_nat n \<longleftrightarrow> unat i = n"
    using unat_diff_eq_iff [of n i 0] by auto
  with Suc show ?case by auto
qed

section \<open>Behaviour of the operations\<close>

lemma decrease_count_ok:
  assumes "page_ok s p"
  shows "decrease_count s p =
    Ok (ucast (counter s (PA2COWINDEX p) - 1),
        s\<lparr>counter := (counter s)(PA2COWINDEX p := counter s (PA2COWINDEX p) - 1)\<rparr>)"
proof -
  have "scast (ucast c :: u32) = (ucast c :: u64)" for c :: u8
  proof (rule bit_eqI)
    fix n assume "possible_bit TYPE(u64) n"
    moreover have "\<not> bit c k" if "8 \<le> k" for k using that bit_imp_le_length [of c k] by auto
    ultimately show "bit (scast (ucast c :: u32) :: u64) n = bit (ucast c :: u64) n"
      by (auto simp: bit_simps min_def)
  qed
  then show ?thesis
    using page_ok_index [OF assms] by (simp add: decrease_count_def Let_def not_le [symmetric])
qed

lemma kfree_guard: "page_ok s p \<Longrightarrow> \<not> (p mod PGSIZE \<noteq> 0 \<or> p < kend s \<or> p \<ge> PHYSTOP)"
  by (simp add: page_ok_def mod_PGSIZE not_less not_le)

text \<open>The decremented count as the \<^verbatim>\<open>int res\<close> that \<^verbatim>\<open>kfree\<close> tests.\<close>

lemma sint_count: "sint (ucast (ucast (c :: u8) :: u64) :: u32) = int (unat c)"
proof -
  have "(ucast (ucast c :: u64) :: u32) = ucast c"
    by (rule bit_eqI) (auto simp: bit_simps dest: bit_imp_le_length)
  moreover have "uint c < 256" using unsigned_less [of c] by simp
  then have "signed_take_bit 31 (uint c) = uint c" 
    by (intro signed_take_bit_int_eq_self) (auto intro: order_trans [of _ 0])
  ultimately show ?thesis by (simp add: signed_ucast_eq)
qed

lemma kfree_cases:
  assumes "page_ok s p"
  defines "c \<equiv> counter s (PA2COWINDEX p) - 1"
  defines "s1 \<equiv> s\<lparr>counter := (counter s)(PA2COWINDEX p := c)\<rparr>"
  shows "kfree s p =
    (if c \<noteq> 0 then Ok s1
     else Ok (s1\<lparr>memory := st64 (memset (memory s) p 1 4096) p (freelist s), freelist := p\<rparr>))"
proof -
  have d: "decrease_count s p = Ok (ucast c, s1)"
    unfolding c_def s1_def by (rule decrease_count_ok [OF assms(1)])
  have u: "0 < uint c \<longleftrightarrow> c \<noteq> 0"
    by (simp add: order.strict_iff_order uint_0_iff)
  have f: "memory s1 = memory s" "freelist s1 = freelist s" by (simp_all add: s1_def)
  show ?thesis
    unfolding kfree_def if_not_P [OF kfree_guard [OF assms(1)]] d
    by (cases "c = 0") (simp_all add: sint_count Let_def ucast_PGSIZE f u)
qed

lemma refs_1: "refs s p = 1 \<longleftrightarrow> counter s (PA2COWINDEX p) - 1 = 0"
proof -
  have "counter s (PA2COWINDEX p) - 1 = 0 \<longleftrightarrow> counter s (PA2COWINDEX p) = 1" by auto
  then show ?thesis by (simp add: refs_def word_unat_eq_iff)
qed

lemma refs_dec:
  assumes "0 < refs s p"
  shows "unat (counter s (PA2COWINDEX p) - 1) = refs s p - 1"
  using assms by (simp add: refs_def unat_minus_one unat_gt_0)

lemma refs_upd:
  assumes "page_ok s p" and "page_ok s q"
  shows "refs (s\<lparr>counter := (counter s)(PA2COWINDEX p := c)\<rparr>) q = (if q = p then unat c else refs s q)"
  using page_index_inj [OF assms(2,1)] by (auto simp: refs_def)

text \<open>Freeing the last reference: the page is filled with ones, linked in and becomes free.\<close>

lemma kfree_last:
  assumes inv: "kinv_on s xs" and p: "page_ok s p" and one: "refs s p = 1"
  defines "s' \<equiv> s\<lparr>counter := (counter s)(PA2COWINDEX p := 0),
    memory := st64 (memset (memory s) p 1 4096) p (freelist s), freelist := p\<rparr>"
  shows "kfree s p = Ok s'" and "kinv_on s' (p # xs)"
    and "\<And>x. blk 12 x \<noteq> p \<Longrightarrow> memory s' x = memory s x"
proof -
  have al: "aligned 12 p" and al3: "aligned 3 p"
    using p page_ok_aligned3 by (auto simp: page_ok_def)
  show "kfree s p = Ok s'"
    using kfree_cases [OF p] one refs_1 [of s p] by (simp add: s'_def)
  show out: "memory s' x = memory s x" if "blk 12 x \<noteq> p" for x
  proof -
    have "blk 3 x \<noteq> p" using that blk_slot_page [OF al, of x] by blast
    with that show ?thesis by (simp add: s'_def st64_out [OF al3] memset_page [OF al])
  qed
  have ok: "page_ok s' = page_ok s" by (rule page_ok_cong) (simp add: s'_def)
  have fresh: "p \<notin> set xs" using inv p one by (auto simp: kinv_on_def)
  have pages: "page_ok s x" if "x \<in> set xs" for x using inv that by (simp add: kinv_on_def)
  have "flist (memory s') (freelist s) xs"
  proof (rule flist_cong)
    show "flist (memory s) (freelist s) xs" using inv by (simp add: kinv_on_def)
    show "memory s' a = memory s a" if "x \<in> set xs" "blk 12 a = x" for x a
      using that fresh by (intro out) blast
  qed (use pages page_ok_aligned in blast)
  moreover have "refs s' q = (if q = p then 0 else refs s q)" if "page_ok s q" for q
    using refs_upd [OF p that, of 0] by (simp add: refs_def s'_def)
  ultimately show "kinv_on s' (p # xs)"
    using inv fresh p page_ok_nz [OF p] unfolding kinv_on_def ok
    by (auto simp: s'_def)
qed

lemma kfree_shared:
  assumes inv: "kinv_on s xs" and p: "page_ok s p" and more: "1 < refs s p"
  defines "s' \<equiv> s\<lparr>counter := (counter s)(PA2COWINDEX p := counter s (PA2COWINDEX p) - 1)\<rparr>"
  shows "kfree s p = Ok s'" and "kinv_on s' xs" and "refs s' p = refs s p - 1"
proof -
  have c: "counter s (PA2COWINDEX p) - 1 \<noteq> 0" using more refs_1 [of s p] by auto
  then show "kfree s p = Ok s'" using kfree_cases [OF p] by (simp add: s'_def)
  have r: "refs s' q = (if q = p then refs s p - 1 else refs s q)" if "page_ok s q" for q
    using refs_upd [OF p that] more by (simp add: s'_def refs_dec)
  then show "refs s' p = refs s p - 1" using p by simp
  have ok: "page_ok s' = page_ok s" by (rule page_ok_cong) (simp add: s'_def)
  have nz: "refs s' q = 0 \<longleftrightarrow> refs s q = 0" if "page_ok s q" for q
    using r [OF that] more by auto
  show "kinv_on s' xs"
    using inv nz unfolding kinv_on_def ok by (auto simp: s'_def)
qed

text \<open>Allocating takes the first free page, fills it with fives and gives it one reference.\<close>

lemma kalloc_nonempty:
  assumes inv: "kinv_on s (p # xs)"
  defines "s' \<equiv> s\<lparr>freelist := ld64 (memory s) p, memory := memset (memory s) p 5 4096,
    counter := (counter s)(PA2COWINDEX p := 1)\<rparr>"
  shows "kalloc s = Ok (p, s')" and "kinv_on s' xs" and "page_ok s p" and "refs s p = 0"
    and "\<And>x. memory s' x = (if blk 12 x = p then 5 else memory s x)"
proof -
  have hd: "freelist s = p" "p \<noteq> 0" "flist (memory s) (ld64 (memory s) p) xs"
    and dist: "distinct (p # xs)" and pages: "\<And>q. q \<in> set (p # xs) \<Longrightarrow> page_ok s q"
    and free: "\<And>q. page_ok s q \<Longrightarrow> refs s q = 0 \<longleftrightarrow> q \<in> set (p # xs)"
    using inv by (auto simp: kinv_on_def)
  show p: "page_ok s p" using pages by simp
  show z: "refs s p = 0" using free p by simp
  then have cz: "counter s (PA2COWINDEX p) = 0" by (simp add: refs_def unat_eq_zero)
  show "kalloc s = Ok (p, s')"
    using hd page_ok_index [OF p]
    by (simp add: kalloc_def Let_def increase_count_def ucast_PGSIZE cz s'_def not_le [symmetric])
  show m: "memory s' x = (if blk 12 x = p then 5 else memory s x)" for x
    using page_ok_aligned [OF p] by (simp add: s'_def memset_page)
  have ok: "page_ok s' = page_ok s" by (rule page_ok_cong) (simp add: s'_def)
  have "flist (memory s') (ld64 (memory s) p) xs"
  proof (rule flist_cong [OF hd(3)])
    show "memory s' a = memory s a" if "x \<in> set xs" "blk 12 a = x" for x a
      using that dist m [of a] by auto
    show "aligned 12 x" if "x \<in> set xs" for x
      using pages [of x] that page_ok_aligned by simp
  qed
  moreover have "refs s' q = (if q = p then 1 else refs s q)" if "page_ok s q" for q
    using refs_upd [OF p that, of 1] by (simp add: refs_def s'_def)
  ultimately show "kinv_on s' xs"
    using inv dist pages free unfolding kinv_on_def ok by (auto simp: s'_def)
qed

lemma kalloc_empty: "kinv_on s [] \<Longrightarrow> kalloc s = Ok (0, s)"
  by (simp add: kinv_on_def kalloc_def)

lemma increase_count_shared:
  assumes inv: "kinv_on s xs" and p: "page_ok s p" and r: "0 < refs s p" "refs s p < 255"
  defines "s' \<equiv> s\<lparr>counter := (counter s)(PA2COWINDEX p := counter s (PA2COWINDEX p) + 1)\<rparr>"
  shows "increase_count s p = Ok s'" and "kinv_on s' xs" and "refs s' p = refs s p + 1"
proof -
  show "increase_count s p = Ok s'"
    using page_ok_index [OF p] by (simp add: increase_count_def Let_def s'_def not_le [symmetric])
  have u: "unat (counter s (PA2COWINDEX p) + 1) = refs s p + 1"
    using r(2) by (simp add: refs_def unat_word_ariths)
  have q: "refs s' q = (if q = p then refs s p + 1 else refs s q)" if "page_ok s q" for q
    using refs_upd [OF p that] u by (simp add: s'_def)
  then show "refs s' p = refs s p + 1" using p by simp
  have ok: "page_ok s' = page_ok s" by (rule page_ok_cong) (simp add: s'_def)
  have nz: "refs s' q = 0 \<longleftrightarrow> refs s q = 0" if "page_ok s q" for q
    using q [OF that] r by auto
  show "kinv_on s' xs"
    using inv nz unfolding kinv_on_def ok by (auto simp: s'_def)
qed

section \<open>The interface of the allocator\<close>

text \<open>
  What the virtual-memory code relies on: an allocator state has an invariant, pages with
  reference counts, and a memory; allocation hands out an unreferenced page and touches
  nothing else; freeing and sharing change one count, and only the last free touches memory.
\<close>

locale page_allocator =
  fixes alloc :: "'s \<Rightarrow> (u64 \<times> 's) res" and free :: "'s \<Rightarrow> u64 \<Rightarrow> 's res"
    and share :: "'s \<Rightarrow> u64 \<Rightarrow> 's res" and inv :: "'s \<Rightarrow> bool"
    and ok :: "'s \<Rightarrow> u64 \<Rightarrow> bool" and cnt :: "'s \<Rightarrow> u64 \<Rightarrow> nat" and mm :: "'s \<Rightarrow> mem"
  assumes ok_page: "ok s p \<Longrightarrow> p \<noteq> 0 \<and> aligned 12 p"
    and alloc_law: "inv s \<Longrightarrow> \<exists>p s'. alloc s = Ok (p, s') \<and> inv s' \<and> ok s' = ok s \<and>
      (if p = 0 then s' = s \<and> (\<forall>q. ok s q \<longrightarrow> 0 < cnt s q)
       else ok s p \<and> cnt s p = 0 \<and> cnt s' p = 1 \<and>
         (\<forall>q. ok s q \<longrightarrow> q \<noteq> p \<longrightarrow> cnt s' q = cnt s q) \<and>
         (\<forall>x. blk 12 x \<noteq> p \<longrightarrow> mm s' x = mm s x))"
    and free_law: "inv s \<Longrightarrow> ok s p \<Longrightarrow> 0 < cnt s p \<Longrightarrow> \<exists>s'. free s p = Ok s' \<and> inv s' \<and> ok s' = ok s \<and>
      (\<forall>q. ok s q \<longrightarrow> cnt s' q = (if q = p then cnt s p - 1 else cnt s q)) \<and>
      (\<forall>x. blk 12 x \<noteq> p \<or> 1 < cnt s p \<longrightarrow> mm s' x = mm s x)"
    and share_law: "inv s \<Longrightarrow> ok s p \<Longrightarrow> 0 < cnt s p \<Longrightarrow> cnt s p < 255 \<Longrightarrow>
      \<exists>s'. share s p = Ok s' \<and> inv s' \<and> ok s' = ok s \<and>
      (\<forall>q. ok s q \<longrightarrow> cnt s' q = (if q = p then cnt s p + 1 else cnt s q)) \<and> mm s' = mm s"

text \<open>
  A client's use of an allocator: a sequence of requests, each legal where it is made. A run gives
  what its allocations return, in order, and the state.
\<close>

datatype pg_op = PAlloc | PFree u64 | PShare u64

fun pg_step :: "('s \<Rightarrow> (u64 \<times> 's) res) \<Rightarrow> ('s \<Rightarrow> u64 \<Rightarrow> 's res) \<Rightarrow> ('s \<Rightarrow> u64 \<Rightarrow> 's res) \<Rightarrow>
    's \<Rightarrow> pg_op \<Rightarrow> (u64 list \<times> 's) res" where
  "pg_step alloc free share s PAlloc = bnd (alloc s) (\<lambda>(p, s). Ok ([p], s))"
| "pg_step alloc free share s (PFree p) = bnd (free s p) (\<lambda>s. Ok ([], s))"
| "pg_step alloc free share s (PShare p) = bnd (share s p) (\<lambda>s. Ok ([], s))"

fun pg_run :: "('s \<Rightarrow> (u64 \<times> 's) res) \<Rightarrow> ('s \<Rightarrow> u64 \<Rightarrow> 's res) \<Rightarrow> ('s \<Rightarrow> u64 \<Rightarrow> 's res) \<Rightarrow>
    's \<Rightarrow> pg_op list \<Rightarrow> (u64 list \<times> 's) res" where
  "pg_run alloc free share s [] = Ok ([], s)"
| "pg_run alloc free share s (x # xs) =
     bnd (pg_step alloc free share s x) (\<lambda>(ps, s).
       bnd (pg_run alloc free share s xs) (\<lambda>(qs, s). Ok (ps @ qs, s)))"

fun pg_legal :: "('s \<Rightarrow> u64 \<Rightarrow> bool) \<Rightarrow> ('s \<Rightarrow> u64 \<Rightarrow> nat) \<Rightarrow> 's \<Rightarrow> pg_op \<Rightarrow> bool" where
  "pg_legal ok cnt s PAlloc \<longleftrightarrow> True"
| "pg_legal ok cnt s (PFree p) \<longleftrightarrow> ok s p \<and> 0 < cnt s p"
| "pg_legal ok cnt s (PShare p) \<longleftrightarrow> ok s p \<and> 0 < cnt s p \<and> cnt s p < 255"

fun pg_legal_run :: "('s \<Rightarrow> (u64 \<times> 's) res) \<Rightarrow> ('s \<Rightarrow> u64 \<Rightarrow> 's res) \<Rightarrow> ('s \<Rightarrow> u64 \<Rightarrow> 's res) \<Rightarrow>
    ('s \<Rightarrow> u64 \<Rightarrow> bool) \<Rightarrow> ('s \<Rightarrow> u64 \<Rightarrow> nat) \<Rightarrow> 's \<Rightarrow> pg_op list \<Rightarrow> bool" where
  "pg_legal_run alloc free share ok cnt s [] \<longleftrightarrow> True"
| "pg_legal_run alloc free share ok cnt s (x # xs) \<longleftrightarrow> pg_legal ok cnt s x \<and>
     (case pg_step alloc free share s x of Ok (_, s') \<Rightarrow> pg_legal_run alloc free share ok cnt s' xs | _ \<Rightarrow> True)"

context page_allocator begin

lemma step_keeps:
  assumes "inv s" and "ok s p" and "0 < cnt s p" and "x \<noteq> PFree p" and "pg_legal ok cnt s x"
  shows "\<exists>ps s'. pg_step alloc free share s x = Ok (ps, s') \<and> inv s' \<and> ok s' = ok s \<and> 0 < cnt s' p \<and>
    p \<notin> set ps \<and> (\<forall>q \<in> set ps. q = 0 \<or> ok s q) \<and> (\<forall>a. blk 12 a = p \<longrightarrow> mm s' a = mm s a)"
proof (cases x)
  case PAlloc
  obtain q s' where a: "alloc s = Ok (q, s')" "inv s'" "ok s' = ok s"
    and r: "if q = 0 then s' = s \<and> (\<forall>q. ok s q \<longrightarrow> 0 < cnt s q)
       else ok s q \<and> cnt s q = 0 \<and> cnt s' q = 1 \<and>
         (\<forall>r. ok s r \<longrightarrow> r \<noteq> q \<longrightarrow> cnt s' r = cnt s r) \<and> (\<forall>x. blk 12 x \<noteq> q \<longrightarrow> mm s' x = mm s x)"
    using alloc_law [OF assms(1)] by blast
  have "0 < cnt s' p \<and> p \<noteq> q \<and> (q = 0 \<or> ok s q) \<and> (\<forall>a. blk 12 a = p \<longrightarrow> mm s' a = mm s a)"
  proof (cases "q = 0")
    case True
    with r assms(2,3) ok_page [of s p] show ?thesis by auto
  next
    case False
    with r assms(3) have "p \<noteq> q" by auto
    with False r assms(2,3) show ?thesis by simp
  qed
  with PAlloc a show ?thesis by simp
next
  case (PFree q)
  then have "q \<noteq> p" and q: "ok s q" "0 < cnt s q" using assms by auto
  with free_law [OF assms(1) q] PFree assms(2,3) show ?thesis by fastforce
next
  case (PShare q)
  then have q: "ok s q" "0 < cnt s q" "cnt s q < 255" using assms by auto
  from share_law [OF assms(1) q] obtain s' where s': "share s q = Ok s'" "inv s'" "ok s' = ok s"
    "cnt s' p = (if p = q then cnt s q + 1 else cnt s p)" "mm s' = mm s" using assms(2) by blast
  then have "0 < cnt s' p" using assms(3) by (simp split: if_splits)
  with PShare s' show ?thesis by simp
qed

lemma run_keeps:
  assumes "inv s" and "ok s p" and "0 < cnt s p" and "PFree p \<notin> set xs"
    and "pg_legal_run alloc free share ok cnt s xs"
  shows "\<exists>ps s'. pg_run alloc free share s xs = Ok (ps, s') \<and> inv s' \<and> 0 < cnt s' p \<and>
    p \<notin> set ps \<and> (\<forall>q \<in> set ps. q = 0 \<or> ok s q) \<and> (\<forall>a. blk 12 a = p \<longrightarrow> mm s' a = mm s a)"
  using assms
proof (induction xs arbitrary: s)
  case Nil
  then show ?case by simp
next
  case (Cons x xs)
  obtain ps s1 where s1: "pg_step alloc free share s x = Ok (ps, s1)" "inv s1" "ok s1 = ok s" "0 < cnt s1 p"
    "p \<notin> set ps" "\<forall>q \<in> set ps. q = 0 \<or> ok s q"
    and m1: "\<forall>a. blk 12 a = p \<longrightarrow> mm s1 a = mm s a"
    using step_keeps [of s p x] Cons.prems by auto
  obtain qs s2 where "pg_run alloc free share s1 xs = Ok (qs, s2)" "inv s2" "0 < cnt s2 p"
    and "p \<notin> set qs" "\<forall>q \<in> set qs. q = 0 \<or> ok s1 q" and "\<forall>a. blk 12 a = p \<longrightarrow> mm s2 a = mm s1 a"
    using Cons.IH [of s1] Cons.prems s1 by auto
  with s1 m1 show ?case by auto
qed

lemma alloc_then_free:
  assumes "inv s" and "alloc s = Ok (p, s1)" and "p \<noteq> 0"
  shows "\<exists>s2. free s1 p = Ok s2 \<and> inv s2 \<and> (\<forall>q. ok s q \<longrightarrow> cnt s2 q = cnt s q) \<and>
    (\<forall>x. blk 12 x \<noteq> p \<longrightarrow> mm s2 x = mm s x)"
proof -
  have s1: "inv s1" "ok s1 = ok s" "ok s p" "cnt s p = 0" "cnt s1 p = 1"
    "\<forall>q. ok s q \<longrightarrow> q \<noteq> p \<longrightarrow> cnt s1 q = cnt s q" "\<forall>x. blk 12 x \<noteq> p \<longrightarrow> mm s1 x = mm s x"
    using alloc_law [OF assms(1)] assms(2,3) by auto
  then show ?thesis using free_law [of s1 p] by auto
qed

end

lemma kalloc_law:
  assumes "kinv s"
  shows "\<exists>p s'. kalloc s = Ok (p, s') \<and> kinv s' \<and> page_ok s' = page_ok s \<and>
    (if p = 0 then s' = s \<and> (\<forall>q. page_ok s q \<longrightarrow> 0 < refs s q)
     else page_ok s p \<and> refs s p = 0 \<and> refs s' p = 1 \<and>
       (\<forall>q. page_ok s q \<longrightarrow> q \<noteq> p \<longrightarrow> refs s' q = refs s q) \<and>
       (\<forall>x. blk 12 x \<noteq> p \<longrightarrow> memory s' x = memory s x))"
proof -
  obtain xs where xs: "kinv_on s xs" using assms by (auto simp: kinv_def)
  show ?thesis
  proof (cases xs)
    case Nil
    then have "\<forall>q. page_ok s q \<longrightarrow> 0 < refs s q" using xs by (auto simp: kinv_on_def)
    with assms Nil xs show ?thesis by (simp add: kalloc_empty)
  next
    case (Cons p ys)
    define s' where "s' = s\<lparr>freelist := ld64 (memory s) p, memory := memset (memory s) p 5 4096,
      counter := (counter s)(PA2COWINDEX p := 1)\<rparr>"
    note k = kalloc_nonempty [OF xs [unfolded Cons], folded s'_def]
    have r: "refs s' q = (if q = p then 1 else refs s q)" if "page_ok s q" for q
      using refs_upd [OF k(3) that, of 1] by (simp add: refs_def s'_def)
    have o: "page_ok s' = page_ok s" by (rule page_ok_cong) (simp add: s'_def)
    have i: "kinv s'" using k(2) by (auto simp: kinv_def)
    show ?thesis
      using k page_ok_nz [OF k(3)] r o i by (intro exI [of _ p] exI [of _ s']) simp
  qed
qed

lemma kfree_law:
  assumes "kinv s" and p: "page_ok s p" and pos: "0 < refs s p"
  shows "\<exists>s'. kfree s p = Ok s' \<and> kinv s' \<and> page_ok s' = page_ok s \<and>
    (\<forall>q. page_ok s q \<longrightarrow> refs s' q = (if q = p then refs s p - 1 else refs s q)) \<and>
    (\<forall>x. blk 12 x \<noteq> p \<or> 1 < refs s p \<longrightarrow> memory s' x = memory s x)"
proof -
  obtain xs where xs: "kinv_on s xs" using assms by (auto simp: kinv_def)
  show ?thesis
  proof (cases "refs s p = 1")
    case True
    define s' where "s' = s\<lparr>counter := (counter s)(PA2COWINDEX p := 0),
      memory := st64 (memset (memory s) p 1 4096) p (freelist s), freelist := p\<rparr>"
    note k = kfree_last [OF xs p True, folded s'_def]
    have "refs s' q = (if q = p then refs s p - 1 else refs s q)" if "page_ok s q" for q
      using refs_upd [OF p that, of 0] True by (simp add: refs_def s'_def)
    moreover have "page_ok s' = page_ok s" by (rule page_ok_cong) (simp add: s'_def)
    moreover have "kinv s'" using k(2) by (auto simp: kinv_def)
    ultimately show ?thesis using k(1,3) True by auto
  next
    case False
    then have more: "1 < refs s p" using pos by simp
    define s' where "s' = s\<lparr>counter := (counter s)(PA2COWINDEX p := counter s (PA2COWINDEX p) - 1)\<rparr>"
    note k = kfree_shared [OF xs p more, folded s'_def]
    have "refs s' q = (if q = p then refs s p - 1 else refs s q)" if "page_ok s q" for q
      using refs_upd [OF p that] pos by (simp add: s'_def refs_dec)
    moreover have "page_ok s' = page_ok s" by (rule page_ok_cong) (simp add: s'_def)
    moreover have "kinv s'" using k(2) by (auto simp: kinv_def)
    moreover have "memory s' = memory s" by (simp add: s'_def)
    ultimately show ?thesis using k(1) by auto
  qed
qed

lemma increase_count_law:
  assumes "kinv s" and p: "page_ok s p" and r: "0 < refs s p" "refs s p < 255"
  shows "\<exists>s'. increase_count s p = Ok s' \<and> kinv s' \<and> page_ok s' = page_ok s \<and>
    (\<forall>q. page_ok s q \<longrightarrow> refs s' q = (if q = p then refs s p + 1 else refs s q)) \<and> memory s' = memory s"
proof -
  obtain xs where xs: "kinv_on s xs" using assms by (auto simp: kinv_def)
  define s' where "s' = s\<lparr>counter := (counter s)(PA2COWINDEX p := counter s (PA2COWINDEX p) + 1)\<rparr>"
  note k = increase_count_shared [OF xs p r, folded s'_def]
  have "refs s' q = (if q = p then refs s p + 1 else refs s q)" if "page_ok s q" for q
    using refs_upd [OF p that] k(3) by (cases "q = p") (simp_all add: s'_def)
  moreover have "page_ok s' = page_ok s" by (rule page_ok_cong) (simp add: s'_def)
  moreover have "kinv s'" using k(2) by (auto simp: kinv_def)
  moreover have "memory s' = memory s" by (simp add: s'_def)
  ultimately show ?thesis using k(1) by auto
qed

interpretation ka: page_allocator kalloc kfree increase_count kinv page_ok refs memory
  by (unfold_locales)
    (simp_all only: page_ok_nz page_ok_aligned kalloc_law kfree_law increase_count_law simp_thms not_False_eq_True)

section \<open>Initialisation\<close>

lemma mod_0_mult: "(n :: nat) mod k = 0 \<Longrightarrow> \<exists>l. n = k * l"
  by (metis dvdE dvd_eq_mod_eq_0)

lemma freerange_loop_frees:
  assumes "kinv_on s xs" and "aligned 12 p" and "KERNBASE \<le> kend s" and "kend s \<le> p" and "p \<le> PHYSTOP"
    and "\<And>q. page_ok s q \<Longrightarrow> p \<le> q \<Longrightarrow> refs s q = 1"
  shows "\<exists>s' ys. freerange_loop s p PHYSTOP = Ok s' \<and> kend s' = kend s \<and> kinv_on s' ys \<and>
    set ys = set xs \<union> {q. page_ok s q \<and> p \<le> q}"
  using assms
proof (induction s p PHYSTOP arbitrary: xs rule: freerange_loop.induct)
  case (1 s p)
  have al: "unat p mod 4096 = 0" using "1.prems"(2) by (simp add: aligned_unat)
  have le: "unat p \<le> 0x88000000" using "1.prems"(5) by (simp add: word_le_nat_alt unat_PHYSTOP)
  have up: "unat (p + PGSIZE) = unat p + 4096" using le by (simp add: unat_word_ariths PGSIZE_def)
  have dvd: "unat p < 0x88000000 \<Longrightarrow> unat p + 4096 \<le> 0x88000000"
  proof -
    assume "unat p < 0x88000000"
    moreover obtain k where "unat p = 4096 * k" using mod_0_mult [OF al] by blast
    ultimately show ?thesis by simp
  qed
  show ?case
  proof (cases "p = PHYSTOP")
    case True
    then have "\<not> p + PGSIZE \<le> PHYSTOP" using up by (simp add: word_le_nat_alt unat_PHYSTOP)
    moreover have "{q. page_ok s q \<and> p \<le> q} = {}" using True by (auto simp: page_ok_def not_le)
    ultimately show ?thesis using "1.prems" by (subst freerange_loop.simps) auto
  next
    case False
    then have lt: "p < PHYSTOP" using "1.prems"(5) by simp
    then have guard: "p + PGSIZE \<le> PHYSTOP"
      using dvd up by (simp add: word_le_nat_alt word_less_nat_alt unat_PHYSTOP)
    have p: "page_ok s p" using "1.prems" lt by (auto simp: page_ok_def)
    have one: "refs s p = 1" using "1.prems"(6) [OF p] by simp
    define s1 where "s1 = s\<lparr>counter := (counter s)(PA2COWINDEX p := 0),
      memory := st64 (memset (memory s) p 1 4096) p (freelist s), freelist := p\<rparr>"
    note k = kfree_last [OF "1.prems"(1) p one, folded s1_def]
    have e: "kend s1 = kend s" by (simp add: s1_def)
    have ok: "page_ok s1 = page_ok s" by (rule page_ok_cong [OF e])
    have r: "refs s1 q = (if q = p then 0 else refs s q)" if "page_ok s q" for q
      using refs_upd [OF p that, of 0] by (simp add: refs_def s1_def)
    have nxt: "q \<noteq> p \<and> p \<le> q \<longleftrightarrow> p + PGSIZE \<le> q" if q: "page_ok s q" for q
    proof -
      obtain k where "unat p = 4096 * k" using mod_0_mult [OF al] by blast
      moreover obtain l where "unat q = 4096 * l" using mod_0_mult [OF page_ok_unat(3) [OF q]] by blast
      ultimately show ?thesis using up by (auto simp: word_le_nat_alt word_unat_eq_iff)
    qed
    have "aligned 12 (p + PGSIZE)" using al up by (simp add: aligned_unat)
    moreover have "kend s1 \<le> p + PGSIZE"
      using "1.prems"(4) up by (simp add: e word_le_nat_alt)
    moreover have "refs s1 q = 1" if "page_ok s1 q" "p + PGSIZE \<le> q" for q
      using that nxt [of q] r [of q] "1.prems"(6) [of q] unfolding ok by auto
    ultimately obtain s' ys where "freerange_loop s1 (p + PGSIZE) PHYSTOP = Ok s'" "kend s' = kend s1"
      "kinv_on s' ys" "set ys = set (p # xs) \<union> {q. page_ok s1 q \<and> p + PGSIZE \<le> q}"
      using "1.hyps" [OF guard k(1) k(2)] "1.prems"(3) guard e by (metis (no_types))
    moreover have "set (p # xs) \<union> {q. page_ok s1 q \<and> p + PGSIZE \<le> q} = set xs \<union> {q. page_ok s q \<and> p \<le> q}"
      using nxt p unfolding ok by auto
    ultimately show ?thesis
      using guard k(1) e by (subst freerange_loop.simps) auto
  qed
qed

text \<open>
  C16. Booting the allocator from zeroed state succeeds and leaves every page between the end
  of the kernel and \<^verbatim>\<open>PHYSTOP\<close> on a well-formed, duplicate-free free list with count zero.
\<close>

theorem kinit_frees_all:
  assumes "freelist s = 0" and "KERNBASE \<le> kend s" and "kend s \<le> PHYSTOP"
  shows "\<exists>s' xs. kinit s = Ok s' \<and> kinv_on s' xs \<and> set xs = {p. page_ok s p}"
proof -
  define s0 where "s0 = s\<lparr>counter := counter_init (counter s) (unat NCOUNTER)\<rparr>"
  have k: "unat (kend s) \<le> 0x88000000" using assms(3) by (simp add: word_le_nat_alt unat_PHYSTOP)
  then have u: "unat (PGROUNDUP (kend s)) = (unat (kend s) + 4095) div 4096 * 4096"
    by (intro unat_PGROUNDUP) simp
  have one: "refs s0 q = 1" if "page_ok s0 q" for q
    using page_ok_index [OF that]
    by (simp add: refs_def s0_def counter_init_at NCOUNTER_val word_less_nat_alt)
  have ok: "page_ok s0 = page_ok s" by (rule page_ok_cong) (simp add: s0_def)
  have inv: "kinv_on s0 []" using assms one by (auto simp: kinv_on_def s0_def)
  have low: "kend s \<le> PGROUNDUP (kend s)" using u by (simp add: word_le_nat_alt) 
  have hi: "PGROUNDUP (kend s) \<le> PHYSTOP" using u k by (simp add: word_le_nat_alt unat_PHYSTOP)
  obtain s' ys where "freerange_loop s0 (PGROUNDUP (kend s)) PHYSTOP = Ok s'" "kinv_on s' ys"
    and ys: "set ys = {q. page_ok s0 q \<and> PGROUNDUP (kend s) \<le> q}"
    using freerange_loop_frees [OF inv, of "PGROUNDUP (kend s)"] assms low hi one by (auto simp: s0_def)
  moreover have "PGROUNDUP (kend s) \<le> q" if q: "page_ok s q" for q
  proof -
    have "unat (kend s) \<le> unat q" using q by (simp add: page_ok_def word_le_nat_alt)
    moreover obtain l where "unat q = 4096 * l" using mod_0_mult [OF page_ok_unat(3) [OF q]] by blast
    ultimately show ?thesis using u by (simp add: word_le_nat_alt)
  qed
  ultimately show ?thesis by (auto simp: kinit_def freerange_def Let_def s0_def [symmetric] ok)
qed

theorem kinit_frees_all_witness:
  "\<exists>s' xs. kinit \<lparr>memory = (\<lambda>_. 0), freelist = 0, counter = (\<lambda>_. 0), kend = KERNBASE + 0x2000\<rparr> = Ok s' \<and>
    kinv_on s' xs \<and> KERNBASE + 0x2000 \<in> set xs"
  using kinit_frees_all [of "\<lparr>memory = (\<lambda>_. 0), freelist = 0, counter = (\<lambda>_. 0), kend = KERNBASE + 0x2000\<rparr>"]
  by (fastforce simp: KERNBASE_def PHYSTOP_def page_ok_def aligned_unat)

end
