(* ===== verification/Vm.thy ===== *)
theory Vm
  imports Kalloc
begin

text \<open>
  \<^verbatim>\<open>kernel/vm.c\<close>, the copy-on-write fault handler of \<^verbatim>\<open>kernel/trap.c\<close> and
  \<^verbatim>\<open>proc_mapstacks\<close> of \<^verbatim>\<open>kernel/proc.c\<close>, as functions on the allocator state, which holds
  the physical memory with the page tables in it. A pointer to a page-table entry is the
  address of its eight bytes, 0 the null pointer. An argument \<^verbatim>\<open>alloc\<close> or \<^verbatim>\<open>do_free\<close> is a
  bool; permissions, which are between 0 and 0x3FF, are 64-bit words, so that the
  conversions between \<^verbatim>\<open>int\<close>, \<^verbatim>\<open>uint\<close> and \<^verbatim>\<open>uint64\<close> are the identity. The recursion of a
  loop over addresses ends because \<^verbatim>\<open>walk\<close> panics at \<^verbatim>\<open>MAXVA\<close>. Writing through a null
  page, which the boot code does not test for, is \<open>Undef\<close>.
\<close>

section \<open>Walking a page table\<close>

primrec walk_loop :: "kst \<Rightarrow> u64 \<Rightarrow> u64 \<Rightarrow> bool \<Rightarrow> nat \<Rightarrow> (u64 \<times> kst) res" where
  "walk_loop s pagetable va alloc 0 = Ok (pagetable + 8 * PX 0 va, s)"
| "walk_loop s pagetable va alloc (Suc l) =
     (let pte = pagetable + 8 * PX (Suc l) va;
          e = ld64 (memory s) pte
      in if e AND PTE_V \<noteq> 0 then walk_loop s (PTE2PA e) va alloc l
         else if \<not> alloc then Ok (0, s)
         else bnd (kalloc s) (\<lambda>(pagetable, s).
           if pagetable = 0 then Ok (0, s)
           else
             let m = memset (memory s) pagetable 0 (ucast PGSIZE);
                 m = st64 m pte (PA2PTE pagetable OR PTE_V)
             in walk_loop (s\<lparr>memory := m\<rparr>) pagetable va alloc l))"

definition walk :: "kst \<Rightarrow> u64 \<Rightarrow> u64 \<Rightarrow> bool \<Rightarrow> (u64 \<times> kst) res" where
  "walk s pagetable va alloc =
     (if va \<ge> MAXVA then Panic ''walk'' else walk_loop s pagetable va alloc 2)"

definition walkaddr :: "kst \<Rightarrow> u64 \<Rightarrow> u64 \<Rightarrow> u64 res" where
  "walkaddr s pagetable va =
     (if va \<ge> MAXVA then Ok 0
      else bnd (walk s pagetable va False) (\<lambda>(pte, s).
        if pte = 0 then Ok 0
        else
          let e = ld64 (memory s) pte in
          if e AND PTE_V = 0 then Ok 0
          else if e AND PTE_U = 0 then Ok 0
          else Ok (PTE2PA e)))"

lemma walk_below: "walk s pt a alloc = Ok r \<Longrightarrow> a < MAXVA"
  by (auto simp: walk_def not_le split: if_splits)

lemma next_page_measure:
  assumes "a < MAXVA"
  shows "unat MAXVA - unat (a + PGSIZE) < unat MAXVA - unat a"
proof -
  have "unat a < 2 ^ 38" using assms by (simp add: word_less_nat_alt unat_MAXVA)
  then have "unat (a + PGSIZE) = unat a + 4096" by (simp add: unat_word_ariths PGSIZE_def)
  with assms show ?thesis by (simp add: word_less_nat_alt)
qed

section \<open>Adding and removing mappings\<close>

function mappages_loop :: "kst \<Rightarrow> u64 \<Rightarrow> u64 \<Rightarrow> u64 \<Rightarrow> u64 \<Rightarrow> u64 \<Rightarrow> (int \<times> kst) res" where
  "mappages_loop s pagetable a last' pa perm =
     bnd (walk s pagetable a True) (\<lambda>(pte, s).
       if pte = 0 then Ok (-1, s)
       else if ld64 (memory s) pte AND PTE_V \<noteq> 0 then Panic ''mappages: remap''
       else
         let s = s\<lparr>memory := st64 (memory s) pte (PA2PTE pa OR perm OR PTE_V)\<rparr> in
         if a = last' then Ok (0, s)
         else mappages_loop s pagetable (a + PGSIZE) last' (pa + PGSIZE) perm)"
  by pat_completeness auto

termination
  by (relation "measure (\<lambda>(s, pt, a, r). unat MAXVA - unat a)")
    (auto dest: walk_below intro: next_page_measure)

declare mappages_loop.simps [simp del]

definition mappages :: "kst \<Rightarrow> u64 \<Rightarrow> u64 \<Rightarrow> u64 \<Rightarrow> u64 \<Rightarrow> u64 \<Rightarrow> (int \<times> kst) res" where
  "mappages s pagetable va sz pa perm =
     (if sz = 0 then Panic ''mappages: size''
      else mappages_loop s pagetable (PGROUNDDOWN va) (PGROUNDDOWN (va + sz - 1)) pa perm)"

lemma mappages_below:
  assumes "mappages s pt a sz pa perm = Ok r"
  shows "a < MAXVA"
proof -
  have "PGROUNDDOWN a < MAXVA"
    using assms by (auto simp: mappages_def mappages_loop.simps [of s pt] dest: walk_below split: if_splits)
  then have "unat a div 4096 * 4096 < 2 ^ 38"
    by (simp add: word_less_nat_alt unat_MAXVA unat_PGROUNDDOWN)
  then show ?thesis by (simp add: word_less_nat_alt unat_MAXVA)
qed

function uvmunmap_loop :: "kst \<Rightarrow> u64 \<Rightarrow> u64 \<Rightarrow> u64 \<Rightarrow> bool \<Rightarrow> kst res" where
  "uvmunmap_loop s pagetable a aend do_free =
     (if a < aend then
        bnd (walk s pagetable a False) (\<lambda>(pte, s).
          if pte = 0 then Panic ''uvmunmap: walk''
          else
            let e = ld64 (memory s) pte in
            if e AND PTE_V = 0 then Panic ''uvmunmap: not mapped''
            else if PTE_FLAGS e = PTE_V then Panic ''uvmunmap: not a leaf''
            else
              bnd (if do_free then kfree s (PTE2PA e) else Ok s) (\<lambda>s.
                uvmunmap_loop (s\<lparr>memory := st64 (memory s) pte 0\<rparr>) pagetable (a + PGSIZE) aend do_free))
      else Ok s)"
  by pat_completeness auto

termination
  by (relation "measure (\<lambda>(s, pt, a, r). unat MAXVA - unat a)")
    (auto dest: walk_below intro: next_page_measure)

declare uvmunmap_loop.simps [simp del]

definition uvmunmap :: "kst \<Rightarrow> u64 \<Rightarrow> u64 \<Rightarrow> u64 \<Rightarrow> bool \<Rightarrow> kst res" where
  "uvmunmap s pagetable va npages do_free =
     (if va mod PGSIZE \<noteq> 0 then Panic ''uvmunmap: not aligned''
      else uvmunmap_loop s pagetable va (va + npages * PGSIZE) do_free)"

definition uvmcreate :: "kst \<Rightarrow> (u64 \<times> kst) res" where
  "uvmcreate s =
     bnd (kalloc s) (\<lambda>(pagetable, s).
       if pagetable = 0 then Ok (0, s)
       else Ok (pagetable, s\<lparr>memory := memset (memory s) pagetable 0 (ucast PGSIZE)\<rparr>))"

definition uvmfirst :: "kst \<Rightarrow> u64 \<Rightarrow> u64 \<Rightarrow> u32 \<Rightarrow> kst res" where
  "uvmfirst s pagetable src sz =
     (if ucast sz \<ge> PGSIZE then Panic ''uvmfirst: more than a page''
      else bnd (kalloc s) (\<lambda>(pg, s).
        if pg = 0 then Undef
        else
          bnd (mappages (s\<lparr>memory := memset (memory s) pg 0 (ucast PGSIZE)\<rparr>) pagetable 0 PGSIZE pg
                 (PTE_W OR PTE_R OR PTE_X OR PTE_U)) (\<lambda>(r, s).
            Ok (s\<lparr>memory := memmove (memory s) pg src sz\<rparr>))))"

section \<open>Growing and shrinking\<close>

text \<open>The page count is an \<^verbatim>\<open>int\<close>, which is then widened for \<^verbatim>\<open>uvmunmap\<close>.\<close>

definition uvmdealloc :: "kst \<Rightarrow> u64 \<Rightarrow> u64 \<Rightarrow> u64 \<Rightarrow> (u64 \<times> kst) res" where
  "uvmdealloc s pagetable oldsz newsz =
     (if newsz \<ge> oldsz then Ok (oldsz, s)
      else if PGROUNDUP newsz < PGROUNDUP oldsz then
        let npages = ucast ((PGROUNDUP oldsz - PGROUNDUP newsz) div PGSIZE) :: u32 in
        bnd (uvmunmap s pagetable (PGROUNDUP newsz) (scast npages) True) (\<lambda>s. Ok (newsz, s))
      else Ok (newsz, s))"

function uvmalloc_loop :: "kst \<Rightarrow> u64 \<Rightarrow> u64 \<Rightarrow> u64 \<Rightarrow> u64 \<Rightarrow> u64 \<Rightarrow> (u64 \<times> kst) res" where
  "uvmalloc_loop s pagetable a oldsz newsz xperm =
     (if a < newsz then
        bnd (kalloc s) (\<lambda>(pg, s).
          if pg = 0 then bnd (uvmdealloc s pagetable a oldsz) (\<lambda>(_, s). Ok (0, s))
          else
            bnd (mappages (s\<lparr>memory := memset (memory s) pg 0 (ucast PGSIZE)\<rparr>) pagetable a PGSIZE pg
                   (PTE_R OR PTE_U OR xperm)) (\<lambda>(r, s).
              if r \<noteq> 0 then
                bnd (kfree s pg) (\<lambda>s.
                  bnd (uvmdealloc s pagetable a oldsz) (\<lambda>(_, s). Ok (0, s)))
              else uvmalloc_loop s pagetable (a + PGSIZE) oldsz newsz xperm))
      else Ok (newsz, s))"
  by pat_completeness auto

termination
  by (relation "measure (\<lambda>(s, pt, a, r). unat MAXVA - unat a)")
    (auto dest: mappages_below intro: next_page_measure)

declare uvmalloc_loop.simps [simp del]

definition uvmalloc :: "kst \<Rightarrow> u64 \<Rightarrow> u64 \<Rightarrow> u64 \<Rightarrow> u64 \<Rightarrow> (u64 \<times> kst) res" where
  "uvmalloc s pagetable oldsz newsz xperm =
     (if newsz < oldsz then Ok (oldsz, s)
      else uvmalloc_loop s pagetable (PGROUNDUP oldsz) (PGROUNDUP oldsz) newsz xperm)"

section \<open>Freeing a page table\<close>

text \<open>
  The loop of \<^verbatim>\<open>freewalk\<close> over the entries of a page, with the function that frees a lower
  table as an argument, and the recursion to a given depth: a well-formed table has three
  levels, and a deeper recursion is \<open>Undef\<close>, as it would overflow the kernel stack.
\<close>

primrec freewalk_loop :: "(kst \<Rightarrow> u64 \<Rightarrow> kst res) \<Rightarrow> kst \<Rightarrow> u64 \<Rightarrow> u64 list \<Rightarrow> kst res" where
  "freewalk_loop fw s pagetable [] = Ok s"
| "freewalk_loop fw s pagetable (i # is) =
     (let pte = ld64 (memory s) (pagetable + 8 * i) in
      if pte AND PTE_V \<noteq> 0 \<and> pte AND (PTE_R OR PTE_W OR PTE_X) = 0 then
        bnd (fw s (PTE2PA pte)) (\<lambda>s.
          freewalk_loop fw (s\<lparr>memory := st64 (memory s) (pagetable + 8 * i) 0\<rparr>) pagetable is)
      else if pte AND PTE_V \<noteq> 0 then Panic ''freewalk: leaf''
      else freewalk_loop fw s pagetable is)"

primrec freewalk :: "nat \<Rightarrow> kst \<Rightarrow> u64 \<Rightarrow> kst res" where
  "freewalk 0 s pagetable = Undef"
| "freewalk (Suc d) s pagetable =
     bnd (freewalk_loop (freewalk d) s pagetable (map of_nat [0..<512])) (\<lambda>s. kfree s pagetable)"

definition uvmfree :: "kst \<Rightarrow> u64 \<Rightarrow> u64 \<Rightarrow> kst res" where
  "uvmfree s pagetable sz =
     bnd (if sz > 0 then uvmunmap s pagetable 0 (PGROUNDUP sz div PGSIZE) True else Ok s)
       (\<lambda>s. freewalk 3 s pagetable)"

section \<open>Copy-on-write\<close>

function uvmcopy_loop :: "kst \<Rightarrow> u64 \<Rightarrow> u64 \<Rightarrow> u64 \<Rightarrow> u64 \<Rightarrow> (int \<times> kst) res" where
  "uvmcopy_loop s old new i sz =
     (if i < sz then
        bnd (walk s old i False) (\<lambda>(pte, s).
          if pte = 0 then Panic ''uvmcopy: pte should exist''
          else
            let e = ld64 (memory s) pte in
            if e AND PTE_V = 0 then Panic ''uvmcopy: page not present''
            else
              let pa = PTE2PA e;
                  s = (if e AND PTE_W \<noteq> 0
                       then s\<lparr>memory := st64 (memory s) pte (e AND NOT PTE_W OR PTE_COW)\<rparr> else s);
                  flags = PTE_FLAGS (ld64 (memory s) pte)
              in bnd (mappages s new i PGSIZE pa flags) (\<lambda>(r, s).
                   if r \<noteq> 0 then bnd (uvmunmap s new 0 (i div PGSIZE) True) (\<lambda>s. Ok (-1, s))
                   else bnd (increase_count s pa) (\<lambda>s. uvmcopy_loop s old new (i + PGSIZE) sz)))
      else Ok (0, s))"
  by pat_completeness auto

termination
  by (relation "measure (\<lambda>(s, old, n, i, r). unat MAXVA - unat i)")
    (auto dest: walk_below intro: next_page_measure)

declare uvmcopy_loop.simps [simp del]

definition uvmcopy :: "kst \<Rightarrow> u64 \<Rightarrow> u64 \<Rightarrow> u64 \<Rightarrow> (int \<times> kst) res" where
  "uvmcopy s old new sz = uvmcopy_loop s old new 0 sz"

definition uvmclear :: "kst \<Rightarrow> u64 \<Rightarrow> u64 \<Rightarrow> kst res" where
  "uvmclear s pagetable va =
     bnd (walk s pagetable va False) (\<lambda>(pte, s).
       if pte = 0 then Panic ''uvmclear''
       else Ok (s\<lparr>memory := st64 (memory s) pte (ld64 (memory s) pte AND NOT PTE_U)\<rparr>))"

text \<open>The message that memory is used up goes to the console and is not part of this state.\<close>

definition cow_page_fault_handler :: "kst \<Rightarrow> u64 \<Rightarrow> u64 \<Rightarrow> (u64 \<times> kst) res" where
  "cow_page_fault_handler s pagetable va =
     (if va = 0 \<or> va \<ge> MAXVA then Ok (-1, s)
      else bnd (walk s pagetable va False) (\<lambda>(pte, s).
        if pte = 0 then Ok (-1, s)
        else
          let e = ld64 (memory s) pte in
          if e AND PTE_V = 0 then Ok (-1, s)
          else if e AND PTE_U = 0 then Ok (-1, s)
          else if e AND PTE_W \<noteq> 0 then Ok (0, s)
          else if e AND PTE_COW = 0 then Ok (-1, s)
          else
            let pa = PTE2PA e in
            bnd (kalloc s) (\<lambda>(pg, s).
              if pg = 0 then Ok (-1, s)
              else
                let m = st64 (memory s) pte
                          (PTE_FLAGS (ld64 (memory s) pte) AND NOT PTE_COW OR PTE_W OR PA2PTE pg);
                    m = memmove m pg pa (ucast PGSIZE)
                in bnd (kfree (s\<lparr>memory := m\<rparr>) pa) (\<lambda>s. Ok (0, s)))))"

section \<open>Copying between user and kernel\<close>

text \<open>The bytes of the current page: what is left of it, or of the request.\<close>

definition page_part :: "u64 \<Rightarrow> u64 \<Rightarrow> u64" where
  "page_part va len = (let n = PGSIZE - (va - PGROUNDDOWN va) in if n > len then len else n)"

lemma unat_page_part:
  "unat (page_part va len) = min (4096 - unat va mod 4096) (unat len)"
proof -
  have d: "unat (va - PGROUNDDOWN va) = unat va mod 4096"
  proof -
    have "va - PGROUNDDOWN va = take_bit 12 va"
      using blk_plus_take_bit [of 12 va] unfolding PGROUNDDOWN_blk by (metis add_diff_cancel_left')
    then show ?thesis by (simp add: take_bit_eq_mod unat_mod)
  qed
  have "unat va mod 4096 < 4096" by simp
  then have "unat (PGSIZE - (va - PGROUNDDOWN va)) = 4096 - unat va mod 4096"
    using d by (simp add: unat_sub PGSIZE_def word_le_nat_alt)
  then show ?thesis by (auto simp: page_part_def Let_def word_less_nat_alt)
qed

lemma page_part_measure:
  assumes "len > 0"
  shows "unat (len - page_part va len) < unat len"
proof -
  have u: "unat (page_part va len) \<le> unat len" "0 < unat (page_part va len)"
    using assms unat_page_part [of va len] by (auto simp: word_less_nat_alt min_def)
  then show ?thesis by (simp add: unat_sub word_le_nat_alt)
qed

function copyout :: "kst \<Rightarrow> u64 \<Rightarrow> u64 \<Rightarrow> u64 \<Rightarrow> u64 \<Rightarrow> (int \<times> kst) res" where
  "copyout s pagetable dstva src len =
     (if len > 0 then
        let va0 = PGROUNDDOWN dstva in
        bnd (cow_page_fault_handler s pagetable dstva) (\<lambda>(r, s).
          if r = -1 then Ok (-1, s)
          else bnd (walkaddr s pagetable va0) (\<lambda>pa0.
            if pa0 = 0 then Ok (-1, s)
            else
              let n = page_part dstva len in
              copyout (s\<lparr>memory := memmove (memory s) (pa0 + (dstva - va0)) src (ucast n)\<rparr>)
                pagetable (va0 + PGSIZE) (src + n) (len - n)))
      else Ok (0, s))"
  by pat_completeness auto

termination
  by (relation "measure (\<lambda>(s, pt, d, r, len). unat len)") (auto intro: page_part_measure)

declare copyout.simps [simp del]

function copyin :: "kst \<Rightarrow> u64 \<Rightarrow> u64 \<Rightarrow> u64 \<Rightarrow> u64 \<Rightarrow> (int \<times> kst) res" where
  "copyin s pagetable dst srcva len =
     (if len > 0 then
        let va0 = PGROUNDDOWN srcva in
        bnd (walkaddr s pagetable va0) (\<lambda>pa0.
          if pa0 = 0 then Ok (-1, s)
          else
            let n = page_part srcva len in
            copyin (s\<lparr>memory := memmove (memory s) dst (pa0 + (srcva - va0)) (ucast n)\<rparr>)
              pagetable (dst + n) (va0 + PGSIZE) (len - n))
      else Ok (0, s))"
  by pat_completeness auto

termination
  by (relation "measure (\<lambda>(s, pt, d, r, len). unat len)") (auto intro: page_part_measure)

declare copyin.simps [simp del]

text \<open>The inner loop of \<^verbatim>\<open>copyinstr\<close>: whether it met a NUL, the memory, \<^verbatim>\<open>dst\<close> and \<^verbatim>\<open>max\<close>.\<close>

primrec copyinstr_page :: "mem \<Rightarrow> u64 \<Rightarrow> u64 \<Rightarrow> u64 \<Rightarrow> nat \<Rightarrow> bool \<times> mem \<times> u64 \<times> u64" where
  "copyinstr_page m dst p mx 0 = (False, m, dst, mx)"
| "copyinstr_page m dst p mx (Suc n) =
     (if m p = 0 then (True, m(dst := 0), dst, mx)
      else copyinstr_page (m(dst := m p)) (dst + 1) (p + 1) (mx - 1) n)"

lemma copyinstr_page_max:
  "copyinstr_page m dst p mx n = (False, m', dst', mx') \<Longrightarrow> mx' = mx - of_nat n \<and> dst' = dst + of_nat n"
  by (induction n arbitrary: m dst p mx) (force simp: algebra_simps split: if_splits)+

function copyinstr :: "kst \<Rightarrow> u64 \<Rightarrow> u64 \<Rightarrow> u64 \<Rightarrow> u64 \<Rightarrow> (int \<times> kst) res" where
  "copyinstr s pagetable dst srcva mx =
     (if mx > 0 then
        let va0 = PGROUNDDOWN srcva in
        bnd (walkaddr s pagetable va0) (\<lambda>pa0.
          if pa0 = 0 then Ok (-1, s)
          else
            case copyinstr_page (memory s) dst (pa0 + (srcva - va0)) mx (unat (page_part srcva mx)) of
              (got_null, m, dst', mx') \<Rightarrow>
                if got_null then Ok (0, s\<lparr>memory := m\<rparr>)
                else copyinstr (s\<lparr>memory := m\<rparr>) pagetable dst' (va0 + PGSIZE) mx')
      else Ok (-1, s))"
  by pat_completeness auto

termination
proof (relation "measure (\<lambda>(s, pt, d, r, mx). unat mx)", goal_cases)
  case (2 s pagetable dst srcva mx va0 pa0 got_null y m z dst' mx')
  then have "copyinstr_page (memory s) dst (pa0 + (srcva - va0)) mx (unat (page_part srcva mx)) =
    (False, m, dst', mx')" by simp
  then have "mx' = mx - page_part srcva mx" by (auto dest!: copyinstr_page_max)
  then show ?case using 2 page_part_measure by simp
qed simp

declare copyinstr.simps [simp del]

section \<open>The kernel's own page table\<close>

definition kvmmap :: "kst \<Rightarrow> u64 \<Rightarrow> u64 \<Rightarrow> u64 \<Rightarrow> u64 \<Rightarrow> u64 \<Rightarrow> kst res" where
  "kvmmap s kpgtbl va pa sz perm =
     bnd (mappages s kpgtbl va sz pa perm) (\<lambda>(r, s). if r \<noteq> 0 then Panic ''kvmmap'' else Ok s)"

primrec proc_mapstacks_loop :: "kst \<Rightarrow> u64 \<Rightarrow> nat \<Rightarrow> nat \<Rightarrow> kst res" where
  "proc_mapstacks_loop s kpgtbl i 0 = Ok s"
| "proc_mapstacks_loop s kpgtbl i (Suc n) =
     bnd (kalloc s) (\<lambda>(pa, s).
       if pa = 0 then Panic ''kalloc''
       else bnd (kvmmap s kpgtbl (KSTACK (of_nat i)) pa PGSIZE (PTE_R OR PTE_W))
              (\<lambda>s. proc_mapstacks_loop s kpgtbl (Suc i) n))"

definition NPROC :: nat where
  "NPROC = 64"

definition proc_mapstacks :: "kst \<Rightarrow> u64 \<Rightarrow> kst res" where
  "proc_mapstacks s kpgtbl = proc_mapstacks_loop s kpgtbl 0 NPROC"

text \<open>The linker symbols \<^verbatim>\<open>etext\<close> and \<^verbatim>\<open>trampoline\<close> are arguments.\<close>

definition kvmmake :: "kst \<Rightarrow> u64 \<Rightarrow> u64 \<Rightarrow> (u64 \<times> kst) res" where
  "kvmmake s etext trampoline =
     bnd (kalloc s) (\<lambda>(kpgtbl, s).
       if kpgtbl = 0 then Undef
       else
         bnd (kvmmap (s\<lparr>memory := memset (memory s) kpgtbl 0 (ucast PGSIZE)\<rparr>)
                kpgtbl UART0 UART0 PGSIZE (PTE_R OR PTE_W)) (\<lambda>s.
         bnd (kvmmap s kpgtbl VIRTIO0 VIRTIO0 PGSIZE (PTE_R OR PTE_W)) (\<lambda>s.
         bnd (kvmmap s kpgtbl PLIC PLIC 0x400000 (PTE_R OR PTE_W)) (\<lambda>s.
         bnd (kvmmap s kpgtbl KERNBASE KERNBASE (etext - KERNBASE) (PTE_R OR PTE_X)) (\<lambda>s.
         bnd (kvmmap s kpgtbl etext etext (PHYSTOP - etext) (PTE_R OR PTE_W)) (\<lambda>s.
         bnd (kvmmap s kpgtbl TRAMPOLINE trampoline PGSIZE (PTE_R OR PTE_X)) (\<lambda>s.
         bnd (proc_mapstacks s kpgtbl) (\<lambda>s. Ok (kpgtbl, s)))))))))"

end
