(* ===== verification/Pagetable.thy ===== *)
theory Pagetable
  imports Vm
begin

text \<open>
  Page tables as trees in physical memory. \<open>tab m r va d\<close> is the table page that a walk from
  root \<open>r\<close> consults for \<open>va\<close> after \<open>d\<close> steps and \<open>leaf m r va\<close> the entry it ends at. The
  predicate \<open>vinv\<close> is the invariant of all live page tables together: their table pages are
  separate, and the reference count of a page is the number of its uses.
\<close>

section \<open>Entries of a table page\<close>

definition slot :: "u64 \<Rightarrow> nat \<Rightarrow> u64 \<Rightarrow> u64" where
  "slot p l va = p + 8 * PX l va"

lemma unat_8_PX: "unat (8 * PX l va) = 8 * unat (PX l va)"
  using PX_less [of l va] by (simp add: unat_word_ariths)

lemma slot_page [simp]: "aligned 12 p \<Longrightarrow> blk 12 (slot p l va) = p"
  unfolding slot_def using PX_less [of l va] by (intro blk_offset) (simp_all add: unat_8_PX)

lemma slot_aligned [simp]:
  assumes "aligned 12 p"
  shows "aligned 3 (slot p l va)"
proof -
  have "aligned 3 p" using assms by (rule aligned_mono) simp
  then have "unat p mod 8 = 0" by (simp add: aligned_unat)
  then have "(unat p + 8 * unat (PX l va)) mod 2 ^ 64 mod 8 = 0"
    by (subst mod_mod_cancel) (simp_all add: mod_add_eq)
  then show ?thesis unfolding aligned_unat slot_def unat_word_ariths(1) unat_8_PX by simp
qed

lemma slot_inj:
  assumes "aligned 12 p" and "aligned 12 q"
  shows "slot p l va = slot q l' vb \<longleftrightarrow> p = q \<and> PX l va = PX l' vb"
proof
  assume eq: "slot p l va = slot q l' vb"
  then have "p = q" using slot_page [OF assms(1), of l va] slot_page [OF assms(2), of l' vb] by simp
  moreover from this eq have "8 * PX l va = 8 * PX l' vb" by (simp add: slot_def)
  then have "unat (PX l va) = unat (PX l' vb)" using unat_8_PX by (metis mult_cancel1 zero_neq_numeral)
  ultimately show "p = q \<and> PX l va = PX l' vb" by (simp add: word_unat_eq_iff)
qed (simp add: slot_def)

lemma slot_nz: "aligned 12 p \<Longrightarrow> p \<noteq> 0 \<Longrightarrow> slot p l va \<noteq> 0"
  using slot_page [of p l va] by (metis bit_blk bit_eqI bit_0_eq bot_apply bot_bool_def)

lemma ld64_slot_cong:
  assumes "aligned 12 p" and "\<And>x. blk 12 x = p \<Longrightarrow> m' x = m x"
  shows "ld64 m' (slot p l va) = ld64 m (slot p l va)"
proof (rule ld64_cong)
  fix x assume "blk 3 x = slot p l va"
  then have "blk 12 x = p" using blk_coarser [of 3 12 x] assms(1) by simp
  then show "m' x = m x" by (rule assms(2))
qed (simp add: assms(1))

lemma ld64_slot_st64:
  assumes "aligned 12 p" and "aligned 12 q"
  shows "ld64 (st64 m (slot p l va) v) (slot q l' vb) =
    (if p = q \<and> PX l va = PX l' vb then v else ld64 m (slot q l' vb))"
  using slot_inj [OF assms, of l va l' vb] assms
    ld64_st64_other [of "slot p l va" "slot q l' vb" m v] ld64_st64_same [of m "slot p l va" v]
  by (metis slot_aligned)

lemma st64_slot_out: "aligned 12 p \<Longrightarrow> blk 12 x \<noteq> p \<Longrightarrow> st64 m (slot p l va) v x = m x"
  by (intro st64_out) (auto dest: arg_cong [where f = "blk 12"] simp: blk_coarser)

section \<open>Trees of tables\<close>

primrec tab :: "mem \<Rightarrow> u64 \<Rightarrow> u64 \<Rightarrow> nat \<Rightarrow> u64 option" where
  "tab m r va 0 = Some r"
| "tab m r va (Suc d) =
     (case tab m r va d of None \<Rightarrow> None
      | Some p \<Rightarrow> let e = ld64 m (slot p (2 - d) va) in if bit e 0 then Some (PTE2PA e) else None)"

definition leaf :: "mem \<Rightarrow> u64 \<Rightarrow> u64 \<Rightarrow> u64" where
  "leaf m r va = (case tab m r va 2 of None \<Rightarrow> 0 | Some p \<Rightarrow> ld64 m (slot p 0 va))"

text \<open>Two addresses that take the same way through the first \<open>d\<close> levels.\<close>

definition same :: "nat \<Rightarrow> u64 \<Rightarrow> u64 \<Rightarrow> bool" where
  "same d va vb \<longleftrightarrow> (\<forall>k < d. PX (2 - k) va = PX (2 - k) vb)"

lemma same_Suc: "same (Suc d) va vb \<longleftrightarrow> same d va vb \<and> PX (2 - d) va = PX (2 - d) vb"
  by (auto simp: same_def less_Suc_eq)

lemma same_0 [simp]: "same 0 va vb"
  by (simp add: same_def)

lemma same_refl [simp]: "same d va va"
  by (simp add: same_def)

lemma same_sym: "same d va vb \<longleftrightarrow> same d vb va"
  by (auto simp: same_def)

lemma same_3:
  assumes "va < MAXVA" and "vb < MAXVA"
  shows "same 3 va vb \<longleftrightarrow> PGROUNDDOWN va = PGROUNDDOWN vb"
  using PX_eq_iff [OF assms] by (auto simp: same_def numeral_3_eq_3 less_Suc_eq)

lemma tab_same: "same d va vb \<Longrightarrow> tab m r va d = tab m r vb d"
  by (induction d) (auto simp: same_Suc slot_def split: option.splits)

lemma leaf_same: "same 3 va vb \<Longrightarrow> leaf m r va = leaf m r vb"
  using tab_same [of 2 va vb m r]
  by (auto simp: leaf_def slot_def same_Suc numeral_3_eq_3 numeral_2_eq_2 split: option.splits)

lemma leaf_page: "va < MAXVA \<Longrightarrow> leaf m r (PGROUNDDOWN va) = leaf m r va"
proof -
  assume va: "va < MAXVA"
  then have "PGROUNDDOWN va < MAXVA" by (rule PGROUNDDOWN_less)
  with va show ?thesis by (intro leaf_same) (simp add: same_3 PGROUNDDOWN_blk)
qed

lemma tab_aligned:
  assumes "aligned 12 r" and "tab m r va d = Some p"
  shows "aligned 12 p"
  using assms by (cases d) (auto simp: Let_def split: option.splits if_splits)

lemma tab_down: "tab m r va (Suc d) = Some p \<Longrightarrow> \<exists>q. tab m r va d = Some q"
  by (auto split: option.splits)

lemma tab_1: "tab m r va (Suc 0) =
    (let e = ld64 m (slot r 2 va) in if bit e 0 then Some (PTE2PA e) else None)"
  by simp

lemma walk_False:
  assumes "va < MAXVA"
  shows "walk s r va False =
    Ok (case tab (memory s) r va 2 of None \<Rightarrow> 0 | Some p \<Rightarrow> slot p 0 va, s)"
  using assms by (simp add: walk_def numeral_2_eq_2 Let_def flag_test slot_def not_le [symmetric])

section \<open>Separation of the tables of several roots\<close>

definition tabs :: "mem \<Rightarrow> u64 set \<Rightarrow> u64 set" where
  "tabs m Rs = {p. \<exists>r \<in> Rs. \<exists>va. \<exists>d \<le> 2. tab m r va d = Some p}"

definition sep :: "mem \<Rightarrow> u64 set \<Rightarrow> bool" where
  "sep m Rs \<longleftrightarrow> (\<forall>p \<in> tabs m Rs. aligned 12 p) \<and>
     (\<forall>r \<in> Rs. \<forall>r' \<in> Rs. \<forall>va vb. \<forall>d \<le> 2. \<forall>d' \<le> 2. \<forall>p.
        tab m r va d = Some p \<longrightarrow> tab m r' vb d' = Some p \<longrightarrow> r = r' \<and> d = d' \<and> same d va vb)"

lemma tabsI: "r \<in> Rs \<Longrightarrow> d \<le> 2 \<Longrightarrow> tab m r va d = Some p \<Longrightarrow> p \<in> tabs m Rs"
  by (auto simp: tabs_def)

lemma root_in_tabs: "r \<in> Rs \<Longrightarrow> r \<in> tabs m Rs"
  by (rule tabsI [of _ _ 0]) simp_all

lemma sep_aligned: "sep m Rs \<Longrightarrow> p \<in> tabs m Rs \<Longrightarrow> aligned 12 p"
  by (simp add: sep_def)

lemma sep_unique:
  assumes "sep m Rs" and "r \<in> Rs" and "r' \<in> Rs" and "d \<le> 2" and "d' \<le> 2"
    and "tab m r va d = Some p" and "tab m r' vb d' = Some p"
  shows "r = r'" and "d = d'" and "same d va vb"
  using assms unfolding sep_def by blast+

text \<open>A memory that agrees on the table pages has the same trees.\<close>

lemma tab_frame:
  assumes "\<And>p x. p \<in> tabs m Rs \<Longrightarrow> blk 12 x = p \<Longrightarrow> m' x = m x" and "sep m Rs" and "r \<in> Rs" and "d \<le> 2"
  shows "tab m' r va d = tab m r va d"
  using assms(4)
proof (induction d)
  case (Suc d)
  show ?case
  proof (cases "tab m r va d")
    case (Some p)
    then have p: "p \<in> tabs m Rs" using assms(3) Suc.prems by (intro tabsI [of r _ d]) simp_all
    have "ld64 m' (slot p l vb) = ld64 m (slot p l vb)" for l vb
      using assms(1) [OF p] sep_aligned [OF assms(2) p] by (intro ld64_slot_cong) auto
    with Suc Some show ?thesis by simp
  qed (use Suc in simp)
qed simp

lemma leaf_frame:
  assumes "\<And>p x. p \<in> tabs m Rs \<Longrightarrow> blk 12 x = p \<Longrightarrow> m' x = m x" and "sep m Rs" and "r \<in> Rs"
  shows "leaf m' r va = leaf m r va"
proof (cases "tab m r va 2")
  case (Some p)
  then have p: "p \<in> tabs m Rs" using assms(3) by (intro tabsI [of r _ 2]) simp_all
  have "ld64 m' (slot p 0 va) = ld64 m (slot p 0 va)"
    using assms(1) [OF p] sep_aligned [OF assms(2) p] by (intro ld64_slot_cong) auto
  with Some show ?thesis using tab_frame [where d = 2 and va = va, OF assms] by (simp add: leaf_def)
qed (use tab_frame [where d = 2 and va = va, OF assms] in \<open>simp add: leaf_def\<close>)

lemma tabs_cong:
  assumes "\<And>r va d. r \<in> Rs \<Longrightarrow> d \<le> 2 \<Longrightarrow> tab m' r va d = tab m r va d"
  shows "tabs m' Rs = tabs m Rs"
proof -
  have "(r \<in> Rs \<and> d \<le> 2 \<and> tab m' r va d = Some p) = (r \<in> Rs \<and> d \<le> 2 \<and> tab m r va d = Some p)" for r va d p
    using assms by auto
  then show ?thesis unfolding tabs_def by blast
qed

lemma sep_cong:
  assumes "\<And>r va d. r \<in> Rs \<Longrightarrow> d \<le> 2 \<Longrightarrow> tab m' r va d = tab m r va d"
  shows "sep m' Rs = sep m Rs"
proof -
  have "tabs m' Rs = tabs m Rs" using assms by (rule tabs_cong)
  then show ?thesis unfolding sep_def using assms by auto
qed

text \<open>Writing one leaf entry changes that entry of that root and no tree.\<close>

lemma tab_write_leaf:
  assumes sep: "sep m Rs" and r: "r \<in> Rs" and t: "tab m r va 2 = Some t" and r': "r' \<in> Rs" and d: "d \<le> 2"
  shows "tab (st64 m (slot t 0 va) v) r' vb d = tab m r' vb d"
  using d
proof (induction d)
  case (Suc d)
  have tt: "t \<in> tabs m Rs" using r t by (intro tabsI [of r _ 2]) simp_all
  note al = sep_aligned [OF sep]
  show ?case
  proof (cases "tab m r' vb d")
    case (Some p)
    have p: "p \<in> tabs m Rs" using r' Suc.prems Some by (intro tabsI [of r' _ d]) simp_all
    have "p \<noteq> t" using sep_unique(2) [OF sep r r' _ _ t, of d vb] Some Suc.prems by auto
    then have "ld64 (st64 m (slot t 0 va) v) (slot p l vb) = ld64 m (slot p l vb)" for l
      by (simp add: ld64_slot_st64 [OF al [OF tt] al [OF p]])
    with Suc Some show ?thesis by simp
  qed (use Suc in simp)
qed simp

lemma leaf_write_leaf:
  assumes sep: "sep m Rs" and r: "r \<in> Rs" and t: "tab m r va 2 = Some t" and r': "r' \<in> Rs"
  shows "leaf (st64 m (slot t 0 va) v) r' vb = (if r' = r \<and> same 3 va vb then v else leaf m r' vb)"
proof (cases "tab m r' vb 2")
  case None
  then have "\<not> (r' = r \<and> same 2 va vb)" using t tab_same [of 2 va vb m r] by auto
  with None show ?thesis
    using tab_write_leaf [OF sep r t r', of 2 v vb] by (auto simp: leaf_def numeral_3_eq_3 numeral_2_eq_2 same_Suc)
next
  case (Some p)
  have tt: "t \<in> tabs m Rs" using r t by (intro tabsI [of r _ 2]) simp_all
  have p: "p \<in> tabs m Rs" using r' Some by (intro tabsI [of r' _ 2]) simp_all
  have "t = p \<longleftrightarrow> r' = r \<and> same 2 va vb"
    using sep_unique [OF sep r r' _ _ t, of 2 vb] Some t tab_same [of 2 va vb m r] by auto
  with Some show ?thesis
    using tab_write_leaf [OF sep r t r', of 2 v vb] ld64_slot_st64 [OF sep_aligned [OF sep tt] sep_aligned [OF sep p], of m 0 va v 0 vb]
    by (auto simp: leaf_def numeral_3_eq_3 numeral_2_eq_2 same_Suc)
qed

text \<open>Linking a zeroed page below an invalid entry adds one table and changes no leaf.\<close>

definition linked :: "mem \<Rightarrow> u64 \<Rightarrow> nat \<Rightarrow> u64 \<Rightarrow> u64 \<Rightarrow> mem" where
  "linked m p d va pg = st64 (memset m pg 0 4096) (slot p (2 - d) va) (PA2PTE pg OR PTE_V)"

lemma link_entry: "aligned 12 pg \<Longrightarrow> bit (PA2PTE pg OR PTE_V) 0 \<and> PTE2PA (PA2PTE pg OR PTE_V) = pg"
  using PTE2PA_entry [of pg PTE_V] by (simp add: pte_bits)

lemma ld64_zeroed:
  assumes "aligned 12 pg"
  shows "ld64 (memset m pg 0 4096) (slot pg l va) = 0"
proof (rule ld64_const)
  fix x assume "unat (x - slot pg l va) < 8"
  then have "blk 3 x = slot pg l va" using assms in_blk_iff [of 3 "slot pg l va" x] by simp
  then have "blk 12 x = pg" using assms blk_coarser [of 3 12 x] by simp
  then show "memset m pg 0 4096 x = 0" using assms by (simp add: memset_page)
qed

lemma ld64_linked:
  assumes "aligned 12 p" and "aligned 12 pg" and "aligned 12 q" and "p \<noteq> pg"
  shows "ld64 (linked m p d va pg) (slot q l vb) =
    (if q = pg then 0 else if q = p \<and> PX (2 - d) va = PX l vb then PA2PTE pg OR PTE_V else ld64 m (slot q l vb))"
proof -
  have "ld64 (memset m pg 0 4096) (slot q l vb) = ld64 m (slot q l vb)" if "q \<noteq> pg"
    using assms that by (intro ld64_slot_cong) (auto simp: memset_page)
  then show ?thesis
    using assms by (auto simp: linked_def ld64_slot_st64 ld64_zeroed)
qed

lemma tab_linked:
  assumes sep: "sep m Rs" and r: "r \<in> Rs" and p: "tab m r va d = Some p" and d: "d < 2"
    and inval: "\<not> bit (ld64 m (slot p (2 - d) va)) 0" and pg: "aligned 12 pg" "pg \<notin> tabs m Rs"
    and r': "r' \<in> Rs" and d': "d' \<le> 2"
  shows "tab (linked m p d va pg) r' vb d' =
    (if r' = r \<and> d' = Suc d \<and> same (Suc d) va vb then Some pg else tab m r' vb d')"
  using d'
proof (induction d')
  case (Suc e)
  have pt: "p \<in> tabs m Rs" using r p d by (intro tabsI [of r _ d]) simp_all
  have ne: "p \<noteq> pg" using pt pg by auto
  note al = sep_aligned [OF sep]
  show ?case
  proof (cases "r' = r \<and> e = Suc d \<and> same (Suc d) va vb")
    case True
    then have "tab m r' vb d = Some p" using p tab_same [of d va vb m r] by (simp add: same_Suc)
    then have "tab m r' vb e = None" using True inval by (simp add: same_Suc slot_def)
    with True Suc show ?thesis by (simp add: ld64_linked [OF al [OF pt] pg(1) pg(1) ne])
  next
    case False
    then have ih: "tab (linked m p d va pg) r' vb e = tab m r' vb e" using Suc by (simp only: if_False)
    show ?thesis
    proof (cases "tab m r' vb e")
      case None
      then have "\<not> (r' = r \<and> e = d \<and> same d va vb)" using p tab_same [of d va vb m r] by auto
      with None ih show ?thesis by (auto simp: same_Suc)
    next
      case (Some q)
      have q: "q \<in> tabs m Rs" using r' Some Suc.prems by (intro tabsI [of r' _ e]) simp_all
      then have "q \<noteq> pg" using pg by auto
      moreover have "q = p \<longleftrightarrow> r' = r \<and> e = d \<and> same d va vb"
        using sep_unique [OF sep r r' _ _ p, of e vb] Some p d Suc.prems tab_same [of d va vb m r] by auto
      ultimately show ?thesis
        using Some ih ld64_linked [OF al [OF pt] pg(1) al [OF q] ne, of m d va "2 - e" vb] link_entry [OF pg(1)]
        by (auto simp: same_Suc)
    qed
  qed
qed simp

lemma leaf_linked:
  assumes sep: "sep m Rs" and r: "r \<in> Rs" and p: "tab m r va d = Some p" and d: "d < 2"
    and inval: "\<not> bit (ld64 m (slot p (2 - d) va)) 0" and pg: "aligned 12 pg" "pg \<notin> tabs m Rs"
    and r': "r' \<in> Rs"
  shows "leaf (linked m p d va pg) r' vb = leaf m r' vb"
proof -
  have pt: "p \<in> tabs m Rs" using r p d by (intro tabsI [of r _ d]) simp_all
  have ne: "p \<noteq> pg" using pt pg by auto
  note al = sep_aligned [OF sep]
  note tl = tab_linked [OF sep r p d inval pg r', of 2 vb, simplified]
  show ?thesis
  proof (cases "r' = r \<and> 2 = Suc d \<and> same (Suc d) va vb")
    case True
    then have "tab m r' vb d = Some p" using p tab_same [of d va vb m r] by (simp add: same_Suc)
    then have "tab m r' vb (Suc d) = None" using True inval by (simp add: same_Suc slot_def)
    then have "tab m r' vb 2 = None" using True by metis
    with True tl show ?thesis by (simp add: leaf_def ld64_linked [OF al [OF pt] pg(1) pg(1) ne])
  next
    case False
    then have t: "tab (linked m p d va pg) r' vb 2 = tab m r' vb 2" using tl by auto
    show ?thesis
    proof (cases "tab m r' vb 2")
      case None
      with t show ?thesis by (simp add: leaf_def)
    next
      case (Some q)
      have q: "q \<in> tabs m Rs" using r' Some by (intro tabsI [of r' _ 2]) simp_all
      have "q \<noteq> p" using sep_unique(2) [OF sep r r' _ _ p, of 2 vb] Some d by auto
      moreover have "q \<noteq> pg" using q pg by auto
      ultimately show ?thesis
        using Some t ld64_linked [OF al [OF pt] pg(1) al [OF q] ne, of m d va 0 vb] by (simp add: leaf_def)
    qed
  qed
qed

lemma tabs_linked:
  assumes sep: "sep m Rs" and r: "r \<in> Rs" and p: "tab m r va d = Some p" and d: "d < 2"
    and inval: "\<not> bit (ld64 m (slot p (2 - d) va)) 0" and pg: "aligned 12 pg" "pg \<notin> tabs m Rs"
  shows "tabs (linked m p d va pg) Rs = insert pg (tabs m Rs)" and "sep (linked m p d va pg) Rs"
proof -
  note tl = tab_linked [OF sep r p d inval pg]
  have none: "tab m r vb (Suc d) = None" if "same (Suc d) va vb" for vb
    using that p inval tab_same [of d va vb m r] by (simp add: same_Suc slot_def)
  have new: "tab (linked m p d va pg) r va (Suc d) = Some pg" using tl [OF r, of "Suc d" va] d by simp
  have "q \<in> insert pg (tabs m Rs)" if "q \<in> tabs (linked m p d va pg) Rs" for q
    using that tl unfolding tabs_def by (auto split: if_splits)
  moreover have "q \<in> tabs (linked m p d va pg) Rs" if q: "q \<in> tabs m Rs" for q
  proof -
    obtain r' vb d' where t: "r' \<in> Rs" "d' \<le> 2" "tab m r' vb d' = Some q" using q by (auto simp: tabs_def)
    then have "tab (linked m p d va pg) r' vb d' = Some q" using tl [OF t(1,2), of vb] none [of vb] by auto
    with t show ?thesis by (auto intro: tabsI)
  qed
  moreover have "pg \<in> tabs (linked m p d va pg) Rs"
    using new r d by (intro tabsI [of r _ "Suc d"]) simp_all
  ultimately show *: "tabs (linked m p d va pg) Rs = insert pg (tabs m Rs)" by blast
  show "sep (linked m p d va pg) Rs"
    unfolding sep_def *
  proof (intro conjI ballI allI impI)
    fix q assume "q \<in> insert pg (tabs m Rs)"
    then show "aligned 12 q" using pg sep_aligned [OF sep] by auto
  next
    fix r1 r2 va1 va2 d1 d2 q
    assume a: "r1 \<in> Rs" "r2 \<in> Rs" "d1 \<le> 2" "d2 \<le> (2 :: nat)"
      and t1: "tab (linked m p d va pg) r1 va1 d1 = Some q" and t2: "tab (linked m p d va pg) r2 va2 d2 = Some q"
    have old: "tab m r1 va1 d1 \<noteq> Some pg" "tab m r2 va2 d2 \<noteq> Some pg"
      using a pg(2) by (auto dest: tabsI)
    have "r1 = r2 \<and> d1 = d2 \<and> same d1 va1 va2"
      using t1 t2 unfolding tl [OF a(1,3)] tl [OF a(2,4)] using old sep_unique [OF sep a, of va1 q va2]
      by (auto simp: same_def split: if_splits)
    then show "r1 = r2" "d1 = d2" "same d1 va1 va2" by auto
  qed
qed

section \<open>The invariant of all page tables\<close>

text \<open>The user mappings of a page: pairs of a root and a page-aligned address.\<close>

definition maps :: "mem \<Rightarrow> u64 set \<Rightarrow> u64 \<Rightarrow> (u64 \<times> u64) set" where
  "maps m Rs p = {(r, a). r \<in> Rs \<and> aligned 12 a \<and> a < TRAPFRAME \<and> bit (leaf m r a) 0 \<and>
     PTE2PA (leaf m r a) = p}"

text \<open>
  A user entry is readable and points to a page of the allocator; when it is writable, that
  page has no other use. \<open>E p\<close> counts the uses of a page outside the page tables, such as a
  trap frame, a kernel stack or a pipe.
\<close>

definition leaf_ok :: "kst \<Rightarrow> u64 set \<Rightarrow> (u64 \<Rightarrow> int) \<Rightarrow> u64 \<Rightarrow> u64 \<Rightarrow> bool" where
  "leaf_ok s Rs E r a \<longleftrightarrow>
     (let e = leaf (memory s) r a in
      bit e 0 \<longrightarrow> page_ok s (PTE2PA e) \<and> bit e 1 \<and>
        (bit e 2 \<longrightarrow> maps (memory s) Rs (PTE2PA e) = {(r, a)} \<and> E (PTE2PA e) = 0))"

definition vinv :: "kst \<Rightarrow> u64 set \<Rightarrow> (u64 \<Rightarrow> int) \<Rightarrow> bool" where
  "vinv s Rs E \<longleftrightarrow> kinv s \<and> sep (memory s) Rs \<and>
     (\<forall>p \<in> tabs (memory s) Rs. page_ok s p \<and> maps (memory s) Rs p = {} \<and> E p = 0) \<and>
     (\<forall>r \<in> Rs. \<forall>a. aligned 12 a \<longrightarrow> a < TRAPFRAME \<longrightarrow> leaf_ok s Rs E r a) \<and>
     (\<forall>r \<in> Rs. \<forall>a. TRAPFRAME \<le> a \<longrightarrow> a < MAXVA \<longrightarrow>
        \<not> (bit (leaf (memory s) r a) 0 \<and> bit (leaf (memory s) r a) 4)) \<and>
     (\<forall>p r a b. (r, a) \<in> maps (memory s) Rs p \<longrightarrow> (r, b) \<in> maps (memory s) Rs p \<longrightarrow> a = b) \<and>
     (\<forall>p. page_ok s p \<longrightarrow> int (refs s p) =
        of_bool (p \<in> tabs (memory s) Rs) + int (card (maps (memory s) Rs p)) + E p)"

lemma vinvD:
  assumes "vinv s Rs E"
  shows vinv_kinv: "kinv s" and vinv_sep: "sep (memory s) Rs"
    and vinv_tabs: "\<And>p. p \<in> tabs (memory s) Rs \<Longrightarrow> page_ok s p \<and> maps (memory s) Rs p = {} \<and> E p = 0"
    and vinv_leaf: "\<And>r a. r \<in> Rs \<Longrightarrow> aligned 12 a \<Longrightarrow> a < TRAPFRAME \<Longrightarrow> leaf_ok s Rs E r a"
    and vinv_high: "\<And>r a. r \<in> Rs \<Longrightarrow> TRAPFRAME \<le> a \<Longrightarrow> a < MAXVA \<Longrightarrow>
        \<not> (bit (leaf (memory s) r a) 0 \<and> bit (leaf (memory s) r a) 4)"
    and vinv_inj: "\<And>p r a b. (r, a) \<in> maps (memory s) Rs p \<Longrightarrow> (r, b) \<in> maps (memory s) Rs p \<Longrightarrow> a = b"
    and vinv_refs: "\<And>p. page_ok s p \<Longrightarrow> int (refs s p) =
        of_bool (p \<in> tabs (memory s) Rs) + int (card (maps (memory s) Rs p)) + E p"
  using assms unfolding vinv_def by blast+

lemma finite_maps [simp]: "finite (maps m Rs p)"
  by (rule finite_subset [of _ UNIV]) simp_all

lemma maps_cong:
  assumes "\<And>r a. r \<in> Rs \<Longrightarrow> leaf m' r a = leaf m r a"
  shows "maps m' Rs = maps m Rs"
  using assms by (auto simp: maps_def fun_eq_iff)

text \<open>A page that is in use has a positive count, so the allocator does not hand it out.\<close>

lemma used_refs:
  assumes "vinv s Rs E" and "page_ok s p" and "\<And>q. 0 \<le> E q"
    and "p \<in> tabs (memory s) Rs \<or> maps (memory s) Rs p \<noteq> {} \<or> E p \<noteq> 0"
  shows "0 < refs s p"
proof -
  have "0 < card (maps (memory s) Rs p)" if "maps (memory s) Rs p \<noteq> {}" using that by (simp add: card_gt_0_iff)
  then show ?thesis
    using vinv_refs [OF assms(1,2)] assms(3) [of p] assms(4)
    by (cases "p \<in> tabs (memory s) Rs"; cases "maps (memory s) Rs p = {}") auto
qed

lemma mapped_refs:
  assumes "vinv s Rs E" and "(r, a) \<in> maps (memory s) Rs p" and "E p \<ge> 0"
  shows "page_ok s p" and "0 < refs s p" and "p \<notin> tabs (memory s) Rs"
proof -
  have ra: "r \<in> Rs" "aligned 12 a" "a < TRAPFRAME" "bit (leaf (memory s) r a) 0" "PTE2PA (leaf (memory s) r a) = p"
    using assms(2) by (auto simp: maps_def)
  show ok: "page_ok s p" using vinv_leaf [OF assms(1) ra(1-3)] ra by (simp add: leaf_ok_def Let_def)
  have "0 < card (maps (memory s) Rs p)" using assms(2) by (auto simp: card_gt_0_iff)
  then show "0 < refs s p" using vinv_refs [OF assms(1) ok] assms(3)
    by (cases "p \<in> tabs (memory s) Rs") auto
  show "p \<notin> tabs (memory s) Rs" using vinv_tabs [OF assms(1)] assms(2) by auto
qed

subsection \<open>Writes outside the tables\<close>

definition data :: "kst \<Rightarrow> u64 set \<Rightarrow> u64 \<Rightarrow> bool" where
  "data s Rs x \<longleftrightarrow> blk 12 x \<notin> tabs (memory s) Rs \<and> (page_ok s (blk 12 x) \<longrightarrow> 0 < refs s (blk 12 x))"

lemma page_ok_memory [simp]: "page_ok (s\<lparr>memory := m\<rparr>) p = page_ok s p"
  by (simp add: page_ok_def)

lemma refs_memory [simp]: "refs (s\<lparr>memory := m\<rparr>) p = refs s p"
  by (simp add: refs_def)

lemma kinv_memory:
  assumes "kinv s" and "\<And>x. page_ok s (blk 12 x) \<Longrightarrow> refs s (blk 12 x) = 0 \<Longrightarrow> m x = memory s x"
  shows "kinv (s\<lparr>memory := m\<rparr>)"
proof -
  obtain xs where xs: "kinv_on s xs" using assms(1) by (auto simp: kinv_def)
  have "flist m (freelist s) xs"
  proof (rule flist_cong)
    show "flist (memory s) (freelist s) xs" using xs by (simp add: kinv_on_def)
  next
    fix x a assume "x \<in> set xs" "blk 12 a = x"
    then show "m a = memory s a" using xs assms(2) [of a] by (auto simp: kinv_on_def)
  next
    fix x assume "x \<in> set xs"
    then show "aligned 12 x" using xs by (auto simp: kinv_on_def page_ok_def)
  qed
  then have "kinv_on (s\<lparr>memory := m\<rparr>) xs" using xs by (simp add: kinv_on_def)
  then show ?thesis by (auto simp: kinv_def)
qed

lemma vinv_data_write:
  assumes v: "vinv s Rs E" and m: "\<And>x. \<not> data s Rs x \<Longrightarrow> m x = memory s x"
  shows "vinv (s\<lparr>memory := m\<rparr>) Rs E"
    and "\<And>r va d. r \<in> Rs \<Longrightarrow> d \<le> 2 \<Longrightarrow> tab m r va d = tab (memory s) r va d"
    and "\<And>r va. r \<in> Rs \<Longrightarrow> leaf m r va = leaf (memory s) r va"
    and "tabs m Rs = tabs (memory s) Rs"
proof -
  note sep = vinv_sep [OF v]
  have fr: "m x = memory s x" if "p \<in> tabs (memory s) Rs" "blk 12 x = p" for p x
    using m [of x] that by (auto simp: data_def)
  show t: "tab m r va d = tab (memory s) r va d" if "r \<in> Rs" "d \<le> 2" for r va d
    using fr sep that by (rule tab_frame)
  show l: "leaf m r va = leaf (memory s) r va" if "r \<in> Rs" for r va
    using fr sep that by (rule leaf_frame)
  show ts: "tabs m Rs = tabs (memory s) Rs" using t by (rule tabs_cong)
  have s: "sep m Rs" using sep_cong [OF t] sep by simp
  have mp: "maps m Rs = maps (memory s) Rs" using l by (rule maps_cong)
  have k: "kinv (s\<lparr>memory := m\<rparr>)" using vinv_kinv [OF v] m by (intro kinv_memory) (auto simp: data_def)
  show "vinv (s\<lparr>memory := m\<rparr>) Rs E"
    using v k s l by (simp add: vinv_def ts mp leaf_ok_def)
qed

subsection \<open>Allocating, freeing and sharing\<close>

lemma vinv_kalloc:
  assumes v: "vinv s Rs E" and E: "\<And>q. 0 \<le> E q" and k: "kalloc s = Ok (pg, s')" and nz: "pg \<noteq> 0"
  shows "vinv s' Rs (E(pg := 1))" and "page_ok s pg" and "refs s pg = 0" and "page_ok s' = page_ok s"
    and "E pg = 0" and "pg \<notin> tabs (memory s) Rs" and "maps (memory s) Rs pg = {}"
    and "\<And>x. blk 12 x \<noteq> pg \<Longrightarrow> memory s' x = memory s x"
    and "\<And>r va d. r \<in> Rs \<Longrightarrow> d \<le> 2 \<Longrightarrow> tab (memory s') r va d = tab (memory s) r va d"
    and "\<And>r va. r \<in> Rs \<Longrightarrow> leaf (memory s') r va = leaf (memory s) r va"
    and "tabs (memory s') Rs = tabs (memory s) Rs" and "maps (memory s') Rs = maps (memory s) Rs"
    and "\<And>q. page_ok s q \<Longrightarrow> refs s' q = (if q = pg then 1 else refs s q)"
proof -
  note sep = vinv_sep [OF v]
  have law: "kinv s'" "page_ok s' = page_ok s" "page_ok s pg" "refs s pg = 0" "refs s' pg = 1"
    "\<And>q. page_ok s q \<Longrightarrow> q \<noteq> pg \<Longrightarrow> refs s' q = refs s q"
    "\<And>x. blk 12 x \<noteq> pg \<Longrightarrow> memory s' x = memory s x"
    using ka.alloc_law [OF vinv_kinv [OF v]] k nz by auto
  show ok: "page_ok s pg" and r0: "refs s pg = 0" and ok': "page_ok s' = page_ok s"
    and mem: "\<And>x. blk 12 x \<noteq> pg \<Longrightarrow> memory s' x = memory s x" using law by auto
  show unused: "E pg = 0" "pg \<notin> tabs (memory s) Rs" "maps (memory s) Rs pg = {}"
    using used_refs [OF v ok E] r0 by auto
  have fr: "memory s' x = memory s x" if "p \<in> tabs (memory s) Rs" "blk 12 x = p" for p x
    using mem [of x] that unused by auto
  show t: "tab (memory s') r va d = tab (memory s) r va d" if "r \<in> Rs" "d \<le> 2" for r va d
    using fr sep that by (rule tab_frame)
  show l: "leaf (memory s') r va = leaf (memory s) r va" if "r \<in> Rs" for r va
    using fr sep that by (rule leaf_frame)
  show ts: "tabs (memory s') Rs = tabs (memory s) Rs" using t by (rule tabs_cong)
  show mp: "maps (memory s') Rs = maps (memory s) Rs" using l by (rule maps_cong)
  have sep': "sep (memory s') Rs" using sep_cong [OF t] sep by simp
  show rf: "refs s' q = (if q = pg then 1 else refs s q)" if "page_ok s q" for q using law that by auto
  have mne: "PTE2PA (leaf (memory s) r a) \<noteq> pg" if "r \<in> Rs" "aligned 12 a" "a < TRAPFRAME" "bit (leaf (memory s) r a) 0" for r a
    using that unused(3) by (auto simp: maps_def)
  show "vinv s' Rs (E(pg := 1))"
    unfolding vinv_def ts mp ok'
  proof (intro conjI ballI allI impI)
    fix r a assume a: "r \<in> Rs" "aligned 12 a" "a < TRAPFRAME"
    show "leaf_ok s' Rs (E(pg := 1)) r a"
      using vinv_leaf [OF v a] mne [OF a] by (auto simp: leaf_ok_def Let_def l [OF a(1)] mp ok')
  next
    fix p assume p: "page_ok s p"
    show "int (refs s' p) = of_bool (p \<in> tabs (memory s) Rs) + int (card (maps (memory s) Rs p)) + (E(pg := 1)) p"
      using vinv_refs [OF v p] rf [OF p] unused by auto
  next
    fix p assume "p \<in> tabs (memory s) Rs"
    then show "page_ok s p" "maps (memory s) Rs p = {}" "(E(pg := 1)) p = 0" using vinv_tabs [OF v] unused by auto
  next
    fix r a assume a: "r \<in> Rs" "TRAPFRAME \<le> a" "a < MAXVA"
    show "\<not> (bit (leaf (memory s') r a) 0 \<and> bit (leaf (memory s') r a) 4)"
      using vinv_high [OF v a] by (simp add: l [OF a(1)])
  qed (use law sep' vinv_inj [OF v] in auto)
qed

lemma kalloc_total:
  assumes "vinv s Rs E"
  shows "\<exists>pg s'. kalloc s = Ok (pg, s') \<and> (pg = 0 \<longrightarrow> s' = s)"
  using ka.alloc_law [OF vinv_kinv [OF assms]] by auto

text \<open>Changing the count of a page together with its uses outside the tables.\<close>

lemma vinv_recount:
  assumes v: "vinv s Rs E" and p: "page_ok s p" "p \<notin> tabs (memory s) Rs" and k: "kinv s'" and ok': "page_ok s' = page_ok s"
    and mem: "\<And>x. blk 12 x \<in> tabs (memory s) Rs \<Longrightarrow> memory s' x = memory s x"
    and rf: "\<And>q. page_ok s q \<Longrightarrow> int (refs s' q) = int (refs s q) + (if q = p then e else 0)"
    and w: "\<And>r a. (r, a) \<in> maps (memory s) Rs p \<Longrightarrow> \<not> bit (leaf (memory s) r a) 2"
  shows "vinv s' Rs (E(p := E p + e))"
    and "\<And>r va d. r \<in> Rs \<Longrightarrow> d \<le> 2 \<Longrightarrow> tab (memory s') r va d = tab (memory s) r va d"
    and "\<And>r va. r \<in> Rs \<Longrightarrow> leaf (memory s') r va = leaf (memory s) r va"
    and "tabs (memory s') Rs = tabs (memory s) Rs" and "maps (memory s') Rs = maps (memory s) Rs"
proof -
  note sep = vinv_sep [OF v]
  have fr: "memory s' x = memory s x" if "q \<in> tabs (memory s) Rs" "blk 12 x = q" for q x
    using mem [of x] that by auto
  show t: "tab (memory s') r va d = tab (memory s) r va d" if "r \<in> Rs" "d \<le> 2" for r va d
    using fr sep that by (rule tab_frame)
  show l: "leaf (memory s') r va = leaf (memory s) r va" if "r \<in> Rs" for r va
    using fr sep that by (rule leaf_frame)
  show ts: "tabs (memory s') Rs = tabs (memory s) Rs" using t by (rule tabs_cong)
  show mp: "maps (memory s') Rs = maps (memory s) Rs" using l by (rule maps_cong)
  have sep': "sep (memory s') Rs" using sep_cong [OF t] sep by simp
  show "vinv s' Rs (E(p := E p + e))"
    unfolding vinv_def ts mp ok'
  proof (intro conjI ballI allI impI)
    fix r a assume a: "r \<in> Rs" "aligned 12 a" "a < TRAPFRAME"
    have "\<not> bit (leaf (memory s) r a) 2" if "bit (leaf (memory s) r a) 0" "PTE2PA (leaf (memory s) r a) = p"
      using w [of r a] a that by (simp add: maps_def)
    then show "leaf_ok s' Rs (E(p := E p + e)) r a"
      using vinv_leaf [OF v a] by (auto simp: leaf_ok_def Let_def l [OF a(1)] mp ok')
  next
    fix q assume q: "page_ok s q"
    show "int (refs s' q) = of_bool (q \<in> tabs (memory s) Rs) + int (card (maps (memory s) Rs q)) + (E(p := E p + e)) q"
      using vinv_refs [OF v q] rf [OF q] by auto
  next
    fix q assume "q \<in> tabs (memory s) Rs"
    then show "page_ok s q" "maps (memory s) Rs q = {}" "(E(p := E p + e)) q = 0" using vinv_tabs [OF v] p by auto
  next
    fix r a assume a: "r \<in> Rs" "TRAPFRAME \<le> a" "a < MAXVA"
    show "\<not> (bit (leaf (memory s') r a) 0 \<and> bit (leaf (memory s') r a) 4)"
      using vinv_high [OF v a] by (simp add: l [OF a(1)])
  qed (use k sep' vinv_inj [OF v] in auto)
qed

lemma vinv_free:
  assumes v: "vinv s Rs E" and p: "page_ok s p" and e: "0 < E p"
  shows "\<exists>s'. kfree s p = Ok s' \<and> vinv s' Rs (E(p := E p - 1)) \<and> page_ok s' = page_ok s \<and>
    (\<forall>q. page_ok s q \<longrightarrow> refs s' q = (if q = p then refs s p - 1 else refs s q)) \<and>
    (\<forall>x. blk 12 x \<noteq> p \<or> 1 < refs s p \<longrightarrow> memory s' x = memory s x) \<and>
    (\<forall>r va d. r \<in> Rs \<longrightarrow> d \<le> 2 \<longrightarrow> tab (memory s') r va d = tab (memory s) r va d) \<and>
    (\<forall>r va. r \<in> Rs \<longrightarrow> leaf (memory s') r va = leaf (memory s) r va) \<and>
    tabs (memory s') Rs = tabs (memory s) Rs \<and> maps (memory s') Rs = maps (memory s) Rs"
proof -
  have nt: "p \<notin> tabs (memory s) Rs" using vinv_tabs [OF v] e by force
  have pos: "0 < refs s p" using vinv_refs [OF v p] nt e by simp
  obtain s' where s': "kfree s p = Ok s'" "kinv s'" "page_ok s' = page_ok s"
    "\<forall>q. page_ok s q \<longrightarrow> refs s' q = (if q = p then refs s p - 1 else refs s q)"
    "\<forall>x. blk 12 x \<noteq> p \<or> 1 < refs s p \<longrightarrow> memory s' x = memory s x"
    using ka.free_law [OF vinv_kinv [OF v] p pos] by auto
  have m: "memory s' x = memory s x" if "blk 12 x \<in> tabs (memory s) Rs" for x
    using s'(5) nt that by auto
  have r: "int (refs s' q) = int (refs s q) + (if q = p then - 1 else 0)" if "page_ok s q" for q
    using s'(4) that pos by auto
  have w: "\<not> bit (leaf (memory s) r a) 2" if "(r, a) \<in> maps (memory s) Rs p" for r a
    using vinv_leaf [OF v, of r a] that e by (auto simp: maps_def leaf_ok_def Let_def)
  have "vinv s' Rs (E(p := E p + - 1))" by (rule vinv_recount(1) [OF v p nt s'(2,3) m r w])
  moreover have "tab (memory s') r va d = tab (memory s) r va d" if "r \<in> Rs" "d \<le> 2" for r va d
    by (rule vinv_recount(2) [OF v p nt s'(2,3) m r w that])
  moreover have "leaf (memory s') r va = leaf (memory s) r va" if "r \<in> Rs" for r va
    by (rule vinv_recount(3) [OF v p nt s'(2,3) m r w that])
  moreover have "tabs (memory s') Rs = tabs (memory s) Rs"
    by (rule vinv_recount(4) [OF v p nt s'(2,3) m r w])
  moreover have "maps (memory s') Rs = maps (memory s) Rs"
    by (rule vinv_recount(5) [OF v p nt s'(2,3) m r w])
  ultimately show ?thesis using s' by auto
qed

lemma vinv_share:
  assumes v: "vinv s Rs E" and p: "page_ok s p" "p \<notin> tabs (memory s) Rs" and r: "0 < refs s p" "refs s p < 255"
    and w: "\<And>r a. (r, a) \<in> maps (memory s) Rs p \<Longrightarrow> \<not> bit (leaf (memory s) r a) 2"
  shows "\<exists>s'. increase_count s p = Ok s' \<and> vinv s' Rs (E(p := E p + 1)) \<and> page_ok s' = page_ok s \<and>
    memory s' = memory s \<and> (\<forall>q. page_ok s q \<longrightarrow> refs s' q = (if q = p then refs s p + 1 else refs s q))"
proof -
  obtain s' where s': "increase_count s p = Ok s'" "kinv s'" "page_ok s' = page_ok s"
    "\<forall>q. page_ok s q \<longrightarrow> refs s' q = (if q = p then refs s p + 1 else refs s q)" "memory s' = memory s"
    using ka.share_law [OF vinv_kinv [OF v] p(1) r] by auto
  have "vinv s' Rs (E(p := E p + 1))"
    by (rule vinv_recount(1) [OF v p s'(2,3) _ _ w]) (use s' in auto)
  with s' show ?thesis by auto
qed

subsection \<open>Writing entries\<close>

lemma vinv_memI:
  assumes "kinv (s\<lparr>memory := m\<rparr>)" and "sep m Rs"
    and "\<And>p. p \<in> tabs m Rs \<Longrightarrow> page_ok s p \<and> maps m Rs p = {} \<and> E p = 0"
    and "\<And>r a. r \<in> Rs \<Longrightarrow> aligned 12 a \<Longrightarrow> a < TRAPFRAME \<Longrightarrow> leaf_ok (s\<lparr>memory := m\<rparr>) Rs E r a"
    and "\<And>r a. r \<in> Rs \<Longrightarrow> TRAPFRAME \<le> a \<Longrightarrow> a < MAXVA \<Longrightarrow> \<not> (bit (leaf m r a) 0 \<and> bit (leaf m r a) 4)"
    and "\<And>p r a b. (r, a) \<in> maps m Rs p \<Longrightarrow> (r, b) \<in> maps m Rs p \<Longrightarrow> a = b"
    and "\<And>p. page_ok s p \<Longrightarrow> int (refs s p) = of_bool (p \<in> tabs m Rs) + int (card (maps m Rs p)) + E p"
  shows "vinv (s\<lparr>memory := m\<rparr>) Rs E"
  using assms by (auto simp: vinv_def)

lemma vinv_link:
  assumes v: "vinv s Rs E" and r: "r \<in> Rs" and p: "tab (memory s) r va d = Some p" and d: "d < 2"
    and inval: "\<not> bit (ld64 (memory s) (slot p (2 - d) va)) 0"
    and pg: "page_ok s pg" "pg \<notin> tabs (memory s) Rs" "maps (memory s) Rs pg = {}" "E pg = 1"
  defines "m \<equiv> linked (memory s) p d va pg"
  shows "vinv (s\<lparr>memory := m\<rparr>) Rs (E(pg := 0))" and "tab m r va (Suc d) = Some pg"
    and "\<And>r' vb. r' \<in> Rs \<Longrightarrow> leaf m r' vb = leaf (memory s) r' vb"
    and "tabs m Rs = insert pg (tabs (memory s) Rs)"
    and "\<And>x. blk 12 x \<noteq> pg \<Longrightarrow> blk 12 x \<notin> tabs (memory s) Rs \<Longrightarrow> m x = memory s x"
proof -
  note sep = vinv_sep [OF v]
  have al: "aligned 12 pg" using pg(1) by (simp add: page_ok_def)
  have pt: "p \<in> tabs (memory s) Rs" using r p d by (intro tabsI [of r _ d]) simp_all
  have p12: "aligned 12 p" by (rule sep_aligned [OF sep pt])
  show new: "tab m r va (Suc d) = Some pg"
    using tab_linked [OF sep r p d inval al pg(2) r, of "Suc d" va] d by (simp add: m_def)
  show l: "leaf m r' vb = leaf (memory s) r' vb" if "r' \<in> Rs" for r' vb
    unfolding m_def by (rule leaf_linked [OF sep r p d inval al pg(2) that])
  show ts: "tabs m Rs = insert pg (tabs (memory s) Rs)"
    unfolding m_def by (rule tabs_linked(1) [OF sep r p d inval al pg(2)])
  have sep': "sep m Rs" unfolding m_def by (rule tabs_linked(2) [OF sep r p d inval al pg(2)])
  have mp: "maps m Rs = maps (memory s) Rs" using l by (rule maps_cong)
  have chg: "m x = memory s x" if "blk 12 x \<noteq> pg" "blk 12 x \<noteq> p" for x
    using that al p12 by (simp add: m_def linked_def st64_slot_out memset_page)
  then show "m x = memory s x" if "blk 12 x \<noteq> pg" "blk 12 x \<notin> tabs (memory s) Rs" for x
    using that pt by auto
  have "0 < refs s p" using vinv_refs [OF v, of p] vinv_tabs [OF v pt] pt by auto
  moreover have "0 < refs s pg" using vinv_refs [OF v pg(1)] pg by auto
  ultimately have k: "kinv (s\<lparr>memory := m\<rparr>)"
    using vinv_kinv [OF v] by (intro kinv_memory) (auto intro!: chg)
  show "vinv (s\<lparr>memory := m\<rparr>) Rs (E(pg := 0))"
  proof (rule vinv_memI [OF k sep'])
    fix r' a assume a: "r' \<in> Rs" "aligned 12 a" "a < TRAPFRAME"
    show "leaf_ok (s\<lparr>memory := m\<rparr>) Rs (E(pg := 0)) r' a"
      using vinv_leaf [OF v a] by (auto simp: leaf_ok_def Let_def l [OF a(1)] mp)
  next
    fix q assume q: "page_ok s q"
    show "int (refs s q) = of_bool (q \<in> tabs m Rs) + int (card (maps m Rs q)) + (E(pg := 0)) q"
      using vinv_refs [OF v q] pg by (auto simp: ts mp)
  next
    fix q assume "q \<in> tabs m Rs"
    then show "page_ok s q \<and> maps m Rs q = {} \<and> (E(pg := 0)) q = 0" using vinv_tabs [OF v] pg by (auto simp: ts mp)
  next
    fix r' a assume a: "r' \<in> Rs" "TRAPFRAME \<le> a" "a < MAXVA"
    show "\<not> (bit (leaf m r' a) 0 \<and> bit (leaf m r' a) 4)"
      using vinv_high [OF v a] by (simp add: l [OF a(1)])
  qed (use vinv_inj [OF v] in \<open>auto simp: mp\<close>)
qed

text \<open>
  The entry of a user address, old value \<open>e\<close>, becomes \<open>w\<close>: the uses of the page it pointed
  to and of the page it points to now change by one each.
\<close>

definition moved :: "u64 \<Rightarrow> u64 \<Rightarrow> (u64 \<Rightarrow> int) \<Rightarrow> u64 \<Rightarrow> int" where
  "moved e w E p = E p + of_bool (bit e 0 \<and> PTE2PA e = p) - of_bool (bit w 0 \<and> PTE2PA w = p)"

lemma below_TRAPFRAME: "b < TRAPFRAME \<Longrightarrow> b < MAXVA"
  by (simp add: word_less_nat_alt TRAPFRAME_def TRAMPOLINE_def layout_defs)

lemma same_3_user:
  assumes "aligned 12 a" and "a < TRAPFRAME" and "b < MAXVA"
  shows "same 3 a b \<longleftrightarrow> PGROUNDDOWN b = a"
  using same_3 [OF below_TRAPFRAME [OF assms(2)] assms(3)] assms(1) by (auto simp: PGROUNDDOWN_blk)

lemma leaf_write_user:
  assumes "sep m Rs" and "r \<in> Rs" and "tab m r a 2 = Some t" and "aligned 12 a" and "a < TRAPFRAME"
    and "r' \<in> Rs" and "b < MAXVA"
  shows "leaf (st64 m (slot t 0 a) w) r' b = (if r' = r \<and> PGROUNDDOWN b = a then w else leaf m r' b)"
  using leaf_write_leaf [OF assms(1-3,6), of w b] same_3_user [OF assms(4,5,7)] by simp

lemma maps_write_leaf:
  assumes sep: "sep m Rs" and r: "r \<in> Rs" and t: "tab m r a 2 = Some t" and a: "aligned 12 a" "a < TRAPFRAME"
  shows "maps (st64 m (slot t 0 a) w) Rs p =
    maps m Rs p - {(r, a)} \<union> (if bit w 0 \<and> PTE2PA w = p then {(r, a)} else {})"
proof -
  have "leaf (st64 m (slot t 0 a) w) r' b = (if r' = r \<and> b = a then w else leaf m r' b)"
    if "r' \<in> Rs" "aligned 12 b" "b < TRAPFRAME" for r' b
    using leaf_write_user [OF sep r t a that(1) below_TRAPFRAME [OF that(3)], of w] that
    by (simp add: PGROUNDDOWN_blk)
  then show ?thesis using r a by (auto simp: maps_def split: if_splits)
qed

lemma vinv_write_leaf:
  fixes w
  assumes v: "vinv s Rs E" and r: "r \<in> Rs" and t: "tab (memory s) r a 2 = Some t"
    and a: "aligned 12 a" "a < TRAPFRAME"
    and w: "bit w 0 \<Longrightarrow> page_ok s (PTE2PA w) \<and> PTE2PA w \<notin> tabs (memory s) Rs \<and> bit w 1"
    and excl: "bit w 0 \<Longrightarrow> bit w 2 \<Longrightarrow> maps (memory s) Rs (PTE2PA w) \<subseteq> {(r, a)} \<and>
      moved (leaf (memory s) r a) w E (PTE2PA w) = 0"
    and shared: "\<And>r' b. bit w 0 \<Longrightarrow> (r', b) \<in> maps (memory s) Rs (PTE2PA w) \<Longrightarrow> (r', b) \<noteq> (r, a) \<Longrightarrow>
      r' \<noteq> r \<and> \<not> bit (leaf (memory s) r' b) 2"
  shows "vinv (s\<lparr>memory := st64 (memory s) (slot t 0 a) w\<rparr>) Rs (moved (leaf (memory s) r a) w E)"
proof -
  note sep = vinv_sep [OF v]
  define m where "m = st64 (memory s) (slot t 0 a) w"
  define e where "e = leaf (memory s) r a"
  have tt: "t \<in> tabs (memory s) Rs" using r t by (intro tabsI [of r _ 2]) simp_all
  have tb: "tab m r' vb d = tab (memory s) r' vb d" if "r' \<in> Rs" "d \<le> 2" for r' vb d
    unfolding m_def by (rule tab_write_leaf [OF sep r t that])
  have ts: "tabs m Rs = tabs (memory s) Rs" using tb by (rule tabs_cong)
  have sep': "sep m Rs" using sep_cong [OF tb] sep by simp
  have l: "leaf m r' b = (if r' = r \<and> PGROUNDDOWN b = a then w else leaf (memory s) r' b)"
    if "r' \<in> Rs" "b < MAXVA" for r' b
    unfolding m_def by (rule leaf_write_user [OF sep r t a that])
  have mp: "maps m Rs p = maps (memory s) Rs p - {(r, a)} \<union> (if bit w 0 \<and> PTE2PA w = p then {(r, a)} else {})" for p
    unfolding m_def by (rule maps_write_leaf [OF sep r t a])
  have in_old: "(r, a) \<in> maps (memory s) Rs p \<longleftrightarrow> bit e 0 \<and> PTE2PA e = p" for p
    using r a by (auto simp: maps_def e_def)
  have old: "bit e 0 \<Longrightarrow> PTE2PA e \<notin> tabs (memory s) Rs" using in_old [of "PTE2PA e"] vinv_tabs [OF v] by auto
  have "0 < refs s t" using vinv_refs [OF v, of t] vinv_tabs [OF v tt] tt by auto
  then have k: "kinv (s\<lparr>memory := m\<rparr>)"
    using vinv_kinv [OF v] sep_aligned [OF sep tt]
    by (intro kinv_memory) (auto simp: m_def intro!: st64_slot_out)
  show ?thesis
    unfolding m_def [symmetric] e_def [symmetric]
  proof (rule vinv_memI [OF k sep'])
    fix q assume q: "q \<in> tabs m Rs"
    then show "page_ok s q \<and> maps m Rs q = {} \<and> moved e w E q = 0"
      using vinv_tabs [OF v, of q] w old by (auto simp: ts mp moved_def)
  next
    fix r' b assume b: "r' \<in> Rs" "aligned 12 b" "b < TRAPFRAME"
    have lb: "leaf m r' b = (if r' = r \<and> b = a then w else leaf (memory s) r' b)"
      using l [OF b(1) below_TRAPFRAME [OF b(3)]] b(2) by (simp add: PGROUNDDOWN_blk)
    show "leaf_ok (s\<lparr>memory := m\<rparr>) Rs (moved e w E) r' b"
    proof (cases "r' = r \<and> b = a")
      case True
      then have "leaf m r a = w" using lb by simp
      then show ?thesis using True w excl by (auto simp: leaf_ok_def Let_def mp e_def [symmetric])
    next
      case False
      define f where "f = leaf (memory s) r' b"
      have fm: "bit f 0 \<Longrightarrow> (r', b) \<in> maps (memory s) Rs (PTE2PA f)" using b by (simp add: maps_def f_def)
      have ok: "leaf_ok s Rs E r' b" by (rule vinv_leaf [OF v b])
      have "maps m Rs (PTE2PA f) = {(r', b)} \<and> moved e w E (PTE2PA f) = 0" if f: "bit f 0" "bit f 2"
      proof -
        have one: "maps (memory s) Rs (PTE2PA f) = {(r', b)}" "E (PTE2PA f) = 0"
          using ok f by (auto simp: leaf_ok_def Let_def f_def)
        have "\<not> (bit e 0 \<and> PTE2PA e = PTE2PA f)" using in_old [of "PTE2PA f"] one False by auto
        moreover have "\<not> (bit w 0 \<and> PTE2PA w = PTE2PA f)"
          using shared [of r' b] fm [OF f(1)] False f by (auto simp: f_def)
        ultimately show ?thesis using one False by (auto simp: mp moved_def)
      qed
      then show ?thesis using ok False by (auto simp: leaf_ok_def Let_def lb f_def [symmetric])
    qed
  next
    fix r' b assume b: "r' \<in> Rs" "TRAPFRAME \<le> b" "b < MAXVA"
    have "PGROUNDDOWN b \<noteq> a"
    proof
      assume "PGROUNDDOWN b = a"
      then have "unat b div 4096 * 4096 < unat TRAPFRAME" using a(2) unat_PGROUNDDOWN [of b] by (simp add: word_less_nat_alt)
      moreover have "unat TRAPFRAME = 67108862 * 4096" by (simp add: TRAPFRAME_def TRAMPOLINE_def layout_defs)
      ultimately have "unat b < unat TRAPFRAME" by simp
      with b(2) show False by (simp add: word_le_nat_alt)
    qed
    then show "\<not> (bit (leaf m r' b) 0 \<and> bit (leaf m r' b) 4)" using vinv_high [OF v b] l [OF b(1,3)] by simp
  next
    fix p r' b c assume "(r', b) \<in> maps m Rs p" "(r', c) \<in> maps m Rs p"
    then show "b = c" using vinv_inj [OF v, of r' b p c] shared by (auto simp: mp split: if_splits)
  next
    fix p assume p: "page_ok s p"
    have "int (card (maps m Rs p)) = int (card (maps (memory s) Rs p - {(r, a)})) + of_bool (bit w 0 \<and> PTE2PA w = p)"
      by (auto simp: mp card.insert_remove)
    moreover have "int (card (maps (memory s) Rs p)) = int (card (maps (memory s) Rs p - {(r, a)})) + of_bool (bit e 0 \<and> PTE2PA e = p)"
    proof (cases "(r, a) \<in> maps (memory s) Rs p")
      case True
      then show ?thesis using in_old card_Suc_Diff1 [OF finite_maps True] by simp
    next
      case False
      then show ?thesis using in_old by simp
    qed
    ultimately show "int (refs s p) = of_bool (p \<in> tabs m Rs) + int (card (maps m Rs p)) + moved e w E p"
      using vinv_refs [OF v p] by (simp add: ts moved_def)
  qed
qed

end
