(* ===== verification/Vmspec.thy ===== *)
theory Vmspec
  imports Pagetable
begin

text \<open>
  What the functions of \<^verbatim>\<open>kernel/vm.c\<close> do to the page tables: each keeps the invariant
  \<open>vinv\<close>, leaves the data of the pages in use alone, and changes the leaf entries of one
  root in a described way.
\<close>

section \<open>Walking with allocation\<close>

definition keeps :: "kst \<Rightarrow> u64 set \<Rightarrow> kst \<Rightarrow> bool" where
  "keeps s Rs s' \<longleftrightarrow> page_ok s' = page_ok s \<and> (\<forall>x. data s Rs x \<longrightarrow> data s' Rs x \<and> memory s' x = memory s x)"

definition full :: "kst \<Rightarrow> bool" where
  "full s \<longleftrightarrow> (\<forall>q. page_ok s q \<longrightarrow> 0 < refs s q)"

lemma keeps_refl [simp]: "keeps s Rs s"
  by (simp add: keeps_def)

lemma keeps_trans: "keeps s Rs s' \<Longrightarrow> keeps s' Rs s'' \<Longrightarrow> keeps s Rs s''"
  by (simp add: keeps_def)

lemma keeps_page_ok: "keeps s Rs s' \<Longrightarrow> page_ok s' = page_ok s"
  by (simp add: keeps_def)

lemma keeps_memory: "keeps s Rs s' \<Longrightarrow> data s Rs x \<Longrightarrow> memory s' x = memory s x"
  by (simp add: keeps_def)

lemma mapped_data:
  assumes "vinv s Rs E" and "(r, a) \<in> maps (memory s) Rs p" and "E p \<ge> 0" and "blk 12 x = p"
  shows "data s Rs x"
  using mapped_refs [OF assms(1-3)] assms(4) by (simp add: data_def)

lemma kalloc_full: "vinv s Rs E \<Longrightarrow> kalloc s = Ok (0, s') \<Longrightarrow> s' = s \<and> full s"
  using ka.alloc_law [OF vinv_kinv] by (fastforce simp: full_def)

lemma walk_loop_alloc:
  assumes "vinv s Rs E" and "\<And>q. 0 \<le> E q" and "r \<in> Rs" and "tab (memory s) r va (2 - l) = Some p" and "l \<le> 2"
  shows "\<exists>pte s'. walk_loop s p va True l = Ok (pte, s') \<and> vinv s' Rs E \<and> keeps s Rs s' \<and>
    (\<forall>r' \<in> Rs. \<forall>vb. leaf (memory s') r' vb = leaf (memory s) r' vb) \<and>
    (if pte = 0 then full s' else \<exists>t. tab (memory s') r va 2 = Some t \<and> pte = slot t 0 va)"
  using assms
proof (induction l arbitrary: s p)
  case 0
  then have p: "p \<in> tabs (memory s) Rs" by (intro tabsI [of r _ 2]) simp_all
  then have "page_ok s p" using vinv_tabs [OF 0(1)] by simp
  then have "slot p 0 va \<noteq> 0" using slot_nz [of p 0 va] page_ok_nz page_ok_aligned by simp
  with 0 show ?case by (auto simp: slot_def)
next
  case (Suc l)
  have lv: "2 - (2 - Suc l) = Suc l" "Suc (2 - Suc l) = 2 - l" using Suc.prems by simp_all
  define e where "e = ld64 (memory s) (slot p (Suc l) va)"
  show ?case
  proof (cases "bit e 0")
    case True
    then have "tab (memory s) r va (2 - l) = Some (PTE2PA e)"
      unfolding lv(2) [symmetric] using Suc.prems(4) lv(1) by (simp add: e_def Let_def)
    from Suc.IH [OF Suc.prems(1-3) this] Suc.prems True show ?thesis
      by (simp add: e_def slot_def flag_test)
  next
    case inval: False
    obtain pg s1 where k: "kalloc s = Ok (pg, s1)" using kalloc_total [OF Suc.prems(1)] by auto
    show ?thesis
    proof (cases "pg = 0")
      case True
      then show ?thesis using kalloc_full [OF Suc.prems(1)] k inval Suc.prems
        by (simp add: e_def slot_def flag_test0)
    next
      case False
      note ka = vinv_kalloc [OF Suc.prems(1,2) k False]
      have nd: "2 - Suc l < 2" using Suc.prems by simp
      have p1: "tab (memory s1) r va (2 - Suc l) = Some p" using ka(9) [OF Suc.prems(3)] Suc.prems by simp
      have pt: "p \<in> tabs (memory s) Rs" using Suc.prems by (intro tabsI [of r _ "2 - Suc l"]) auto
      have "ld64 (memory s1) (slot p (Suc l) va) = e"
        unfolding e_def using pt ka(6) sep_aligned [OF vinv_sep [OF Suc.prems(1)] pt]
        by (intro ld64_slot_cong) (auto intro!: ka(8))
      then have inval1: "\<not> bit (ld64 (memory s1) (slot p (2 - (2 - Suc l)) va)) 0" using inval lv by simp
      define m where "m = linked (memory s1) p (2 - Suc l) va pg"
      define s2 where "s2 = s1\<lparr>memory := m\<rparr>"
      have pgs: "page_ok s1 pg" "pg \<notin> tabs (memory s1) Rs" "maps (memory s1) Rs pg = {}" "(E(pg := 1)) pg = 1"
        using ka by auto
      note li = vinv_link [OF ka(1) Suc.prems(3) p1 nd inval1 pgs, folded m_def, folded s2_def]
      have E2: "(E(pg := 1))(pg := 0) = E" using ka(5) by auto
      have v2: "vinv s2 Rs E" using li(1) unfolding E2 .
      have t2: "tab (memory s2) r va (2 - l) = Some pg" using li(2) unfolding lv(2) by (simp add: s2_def del: tab.simps)
      from Suc.IH [OF v2 Suc.prems(2,3) t2] Suc.prems(5) obtain pte s' where
        ih: "walk_loop s2 pg va True l = Ok (pte, s')" "vinv s' Rs E" "keeps s2 Rs s'"
          "\<forall>r' \<in> Rs. \<forall>vb. leaf (memory s') r' vb = leaf (memory s2) r' vb"
          "if pte = 0 then full s' else \<exists>t. tab (memory s') r va 2 = Some t \<and> pte = slot t 0 va" by auto
      have "keeps s Rs s2"
        unfolding keeps_def
      proof (intro conjI allI impI)
        show "page_ok s2 = page_ok s" using ka(4) by (auto simp: s2_def)
        fix x assume x: "data s Rs x"
        then have ne: "blk 12 x \<noteq> pg" "blk 12 x \<notin> tabs (memory s) Rs" using ka(2,3) by (auto simp: data_def)
        then show "memory s2 x = memory s x" using li(5) [of x] ka(8,11) by (simp add: s2_def)
        show "data s2 Rs x"
          using x ne ka(4,11,13) li(4) by (auto simp: data_def s2_def)
      qed
      then have "keeps s Rs s'" using ih(3) by (rule keeps_trans)
      moreover have "leaf (memory s') r' vb = leaf (memory s) r' vb" if "r' \<in> Rs" for r' vb
        using ih(4) that li(3) [OF that] ka(10) [OF that] by (simp add: s2_def)
      moreover have "walk_loop s p va True (Suc l) = Ok (pte, s')"
        using inval k False ih(1) unfolding s2_def m_def linked_def lv(1)
        by (simp add: e_def slot_def flag_test0 Let_def ucast_PGSIZE)
      ultimately show ?thesis using ih by blast
    qed
  qed
qed

lemma walk_True:
  assumes "vinv s Rs E" and "\<And>q. 0 \<le> E q" and "r \<in> Rs" and "va < MAXVA"
  shows "\<exists>pte s'. walk s r va True = Ok (pte, s') \<and> vinv s' Rs E \<and> keeps s Rs s' \<and>
    (\<forall>r' \<in> Rs. \<forall>vb. leaf (memory s') r' vb = leaf (memory s) r' vb) \<and>
    (if pte = 0 then full s' else \<exists>t. tab (memory s') r va 2 = Some t \<and> pte = slot t 0 va)"
  using walk_loop_alloc [OF assms(1-3), of va 2 r] assms(4) by (simp add: walk_def not_le)

section \<open>Mapping one page\<close>

lemma page_entry:
  assumes "aligned 12 pa" and "PTE_FLAGS perm = perm"
  defines "w \<equiv> PA2PTE pa OR perm OR PTE_V"
  shows "PTE2PA w = pa" and "PTE_FLAGS w = perm OR PTE_V" and "bit w 0"
    and "\<And>i. 0 < i \<Longrightarrow> i < 10 \<Longrightarrow> bit w i = bit perm i"
proof -
  have f: "PTE_FLAGS (perm OR PTE_V) = perm OR PTE_V" using assms(2) by (simp add: PTE_FLAGS_or)
  show "PTE2PA w = pa" unfolding w_def by (rule PTE2PA_entry [OF assms(1) f])
  show "PTE_FLAGS w = perm OR PTE_V" using f by (simp add: w_def PTE_FLAGS_entry)
  show "bit w 0" by (simp add: w_def pte_bits)
  show "bit w i = bit perm i" if "0 < i" "i < 10" for i using that by (auto simp: w_def pte_bits)
qed

lemma keeps_write_leaf:
  assumes v: "vinv s Rs E" and r: "r \<in> Rs" and t: "tab (memory s) r a 2 = Some t"
  shows "keeps s Rs (s\<lparr>memory := st64 (memory s) (slot t 0 a) w\<rparr>)"
    and "tabs (st64 (memory s) (slot t 0 a) w) Rs = tabs (memory s) Rs"
proof -
  note sep = vinv_sep [OF v]
  have tt: "t \<in> tabs (memory s) Rs" using r t by (intro tabsI [of r _ 2]) simp_all
  show ts: "tabs (st64 (memory s) (slot t 0 a) w) Rs = tabs (memory s) Rs"
    by (rule tabs_cong) (rule tab_write_leaf [OF sep r t])
  show "keeps s Rs (s\<lparr>memory := st64 (memory s) (slot t 0 a) w\<rparr>)"
    unfolding keeps_def
  proof (intro conjI allI impI)
    fix x assume x: "data s Rs x"
    then have "blk 12 x \<noteq> t" using tt by (auto simp: data_def)
    then show "memory (s\<lparr>memory := st64 (memory s) (slot t 0 a) w\<rparr>) x = memory s x"
      using sep_aligned [OF sep tt] by (simp add: st64_slot_out)
    show "data (s\<lparr>memory := st64 (memory s) (slot t 0 a) w\<rparr>) Rs x" using x by (simp add: data_def ts)
  qed auto
qed

lemma PGROUNDDOWN_last: "aligned 12 a \<Longrightarrow> PGROUNDDOWN (a + PGSIZE - 1) = a"
  using blk_offset [of 12 a 4095] by (simp add: PGROUNDDOWN_blk PGSIZE_def add_diff_eq [symmetric])

lemma mappages_one:
  assumes v: "vinv s Rs E" and E: "\<And>q. 0 \<le> E q" and r: "r \<in> Rs" and a: "aligned 12 a" "a < TRAPFRAME"
    and inval: "\<not> bit (leaf (memory s) r a) 0"
    and pa: "page_ok s pa" "0 < refs s pa" "pa \<notin> tabs (memory s) Rs"
    and perm: "PTE_FLAGS perm = perm" "bit perm 1"
    and excl: "bit perm 2 \<Longrightarrow> maps (memory s) Rs pa = {} \<and> E pa = 1"
    and shared: "\<And>r' b. (r', b) \<in> maps (memory s) Rs pa \<Longrightarrow> r' \<noteq> r \<and> \<not> bit (leaf (memory s) r' b) 2"
  shows "\<exists>res s'. mappages s r a PGSIZE pa perm = Ok (res, s') \<and> keeps s Rs s' \<and>
    (if res = 0 then vinv s' Rs (E(pa := E pa - 1)) \<and>
       (\<forall>r' \<in> Rs. \<forall>b < MAXVA. leaf (memory s') r' b =
          (if r' = r \<and> PGROUNDDOWN b = a then PA2PTE pa OR perm OR PTE_V else leaf (memory s) r' b))
     else res = -1 \<and> vinv s' Rs E \<and> full s' \<and>
       (\<forall>r' \<in> Rs. \<forall>b. leaf (memory s') r' b = leaf (memory s) r' b))"
proof -
  define w where "w = PA2PTE pa OR perm OR PTE_V"
  note pe = page_entry [OF page_ok_aligned [OF pa(1)] perm(1), folded w_def]
  obtain pte s1 where w1: "walk s r a True = Ok (pte, s1)" "vinv s1 Rs E" "keeps s Rs s1"
    and l1: "\<And>r' vb. r' \<in> Rs \<Longrightarrow> leaf (memory s1) r' vb = leaf (memory s) r' vb"
    and p1: "if pte = 0 then full s1 else \<exists>t. tab (memory s1) r a 2 = Some t \<and> pte = slot t 0 a"
    using walk_True [OF v E r below_TRAPFRAME [OF a(2)]] by blast
  have run: "mappages s r a PGSIZE pa perm = (if pte = 0 then Ok (-1, s1)
      else if ld64 (memory s1) pte AND PTE_V \<noteq> 0 then Panic ''mappages: remap''
      else Ok (0, s1\<lparr>memory := st64 (memory s1) pte w\<rparr>))"
    unfolding mappages_def PGROUNDDOWN_last [OF a(1)] mappages_loop.simps [of s r]
    using w1(1) a by (simp add: PGROUNDDOWN_blk w_def PGSIZE_def Let_def)
  show ?thesis
  proof (cases "pte = 0")
    case True
    with run w1 l1 p1 show ?thesis by auto
  next
    case False
    then obtain t where t: "tab (memory s1) r a 2 = Some t" and pte: "pte = slot t 0 a" using p1 by auto
    have "ld64 (memory s1) pte = leaf (memory s) r a"
      using l1 [OF r, of a] t by (simp add: leaf_def pte)
    then have ok: "mappages s r a PGSIZE pa perm = Ok (0, s1\<lparr>memory := st64 (memory s1) (slot t 0 a) w\<rparr>)"
      using run False inval by (simp add: pte flag_test0)
    have m1: "maps (memory s1) Rs = maps (memory s) Rs" using l1 by (rule maps_cong)
    have "data s Rs pa" using pa page_ok_aligned [OF pa(1)] by (simp add: data_def)
    then have d1: "data s1 Rs pa" using w1(3) by (simp add: keeps_def)
    then have pa1: "page_ok s1 pa" "pa \<notin> tabs (memory s1) Rs"
      using pa(1) page_ok_aligned [OF pa(1)] keeps_page_ok [OF w1(3)] by (auto simp: data_def)
    have e: "\<not> bit (leaf (memory s1) r a) 0" using l1 [OF r] inval by simp
    have mv: "moved (leaf (memory s1) r a) w E = E(pa := E pa - 1)"
      using e pe by (auto simp: moved_def)
    have "vinv (s1\<lparr>memory := st64 (memory s1) (slot t 0 a) w\<rparr>) Rs (moved (leaf (memory s1) r a) w E)"
    proof (rule vinv_write_leaf [OF w1(2) r t a])
      show "page_ok s1 (PTE2PA w) \<and> PTE2PA w \<notin> tabs (memory s1) Rs \<and> bit w 1"
        using pe pa1 perm(2) by simp
    next
      assume "bit w 2"
      then show "maps (memory s1) Rs (PTE2PA w) \<subseteq> {(r, a)} \<and> moved (leaf (memory s1) r a) w E (PTE2PA w) = 0"
        using excl pe mv m1 by simp
    next
      fix r' b assume b: "(r', b) \<in> maps (memory s1) Rs (PTE2PA w)"
      then have "r' \<in> Rs" by (simp add: maps_def)
      then show "r' \<noteq> r \<and> \<not> bit (leaf (memory s1) r' b) 2" using shared b pe m1 l1 by simp
    qed
    then have "vinv (s1\<lparr>memory := st64 (memory s1) (slot t 0 a) w\<rparr>) Rs (E(pa := E pa - 1))" unfolding mv .
    moreover have "keeps s Rs (s1\<lparr>memory := st64 (memory s1) (slot t 0 a) w\<rparr>)"
      using w1(3) keeps_write_leaf(1) [OF w1(2) r t] by (rule keeps_trans)
    moreover have "leaf (st64 (memory s1) (slot t 0 a) w) r' b =
        (if r' = r \<and> PGROUNDDOWN b = a then w else leaf (memory s) r' b)" if "r' \<in> Rs" "b < MAXVA" for r' b
      using leaf_write_user [OF vinv_sep [OF w1(2)] r t a that, of w] l1 [OF that(1)] by simp
    ultimately show ?thesis using ok by (simp add: w_def)
  qed
qed

section \<open>Removing mappings\<close>

text \<open>\<^verbatim>\<open>uvmunmap\<close> frees a page before it clears the entry; the two orders have the same effect.\<close>

lemma st64_at: "st64 m a v x = (if unat (x - a) < 8 then le_bytes 8 v ! unat (x - a) else m x)"
  by (simp add: st64_def write_mem_def)

lemma st64_memset_commute:
  assumes "aligned 12 p" and "aligned 12 t" and "t \<noteq> p"
  shows "st64 (memset (st64 m (slot t l a) v) p c 4096) p f = st64 (st64 (memset m p c 4096) p f) (slot t l a) v"
proof
  fix x
  have p3: "aligned 3 p" using assms(1) by (rule aligned_mono) simp
  show "st64 (memset (st64 m (slot t l a) v) p c 4096) p f x = st64 (st64 (memset m p c 4096) p f) (slot t l a) v x"
  proof (cases "blk 12 x = p")
    case True
    then show ?thesis using assms by (simp add: st64_slot_out [OF assms(2)] st64_at [of _ p] memset_page)
  next
    case False
    then have "blk 3 x \<noteq> p" using blk_coarser [of 3 12 x] assms(1) by auto
    then have out: "st64 m' p f x = m' x" for m' by (rule st64_out [OF p3])
    show ?thesis
      unfolding out st64_at [of _ "slot t l a"] memset_page [OF assms(1)] if_not_P [OF False] by (rule refl)
  qed
qed

lemma kfree_commute:
  assumes "page_ok s p" and "aligned 12 t" and "t \<noteq> p" and "kfree s p = Ok s'"
  shows "kfree (s\<lparr>memory := st64 (memory s) (slot t l a) v\<rparr>) p =
    Ok (s'\<lparr>memory := st64 (memory s') (slot t l a) v\<rparr>)"
proof -
  have "page_ok (s\<lparr>memory := st64 (memory s) (slot t l a) v\<rparr>) p" using assms(1) by simp
  from kfree_cases [OF this] kfree_cases [OF assms(1)] assms(4) show ?thesis
    using st64_memset_commute [OF page_ok_aligned [OF assms(1)] assms(2,3)]
    by (auto split: if_splits)
qed

definition releases :: "kst \<Rightarrow> u64 set \<Rightarrow> kst \<Rightarrow> bool" where
  "releases s Rs s' \<longleftrightarrow> page_ok s' = page_ok s \<and> (\<forall>x. data s' Rs x \<longrightarrow> data s Rs x \<and> memory s' x = memory s x)"

lemma releases_refl [simp]: "releases s Rs s"
  by (simp add: releases_def)

lemma releases_trans: "releases s Rs s' \<Longrightarrow> releases s' Rs s'' \<Longrightarrow> releases s Rs s''"
  by (simp add: releases_def)

text \<open>One step of \<^verbatim>\<open>uvmunmap\<close> with \<^verbatim>\<open>do_free\<close>: clear the entry and drop the reference.\<close>

lemma unmap_one:
  assumes v: "vinv s Rs E" and E: "\<And>q. 0 \<le> E q" and r: "r \<in> Rs" and a: "aligned 12 a" "a < TRAPFRAME"
    and t: "tab (memory s) r a 2 = Some t" and e: "bit (leaf (memory s) r a) 0"
  defines "pa \<equiv> PTE2PA (leaf (memory s) r a)"
  shows "\<exists>s1. kfree s pa = Ok s1 \<and> vinv (s1\<lparr>memory := st64 (memory s1) (slot t 0 a) 0\<rparr>) Rs E \<and>
    releases s Rs (s1\<lparr>memory := st64 (memory s1) (slot t 0 a) 0\<rparr>) \<and>
    (\<forall>r' \<in> Rs. \<forall>b < MAXVA. leaf (st64 (memory s1) (slot t 0 a) 0) r' b =
       (if r' = r \<and> PGROUNDDOWN b = a then 0 else leaf (memory s) r' b))"
proof -
  note sep = vinv_sep [OF v]
  have ma: "(r, a) \<in> maps (memory s) Rs pa" using r a e by (simp add: maps_def pa_def)
  note pg = mapped_refs [OF v ma E]
  have tt: "t \<in> tabs (memory s) Rs" using r t by (intro tabsI [of r _ 2]) simp_all
  then have ne: "t \<noteq> pa" using pg by auto
  obtain s1 where k1: "kfree s pa = Ok s1" using ka.free_law [OF vinv_kinv [OF v] pg(1,2)] by auto
  define s2 where "s2 = s\<lparr>memory := st64 (memory s) (slot t 0 a) 0\<rparr>"
  define s3 where "s3 = s1\<lparr>memory := st64 (memory s1) (slot t 0 a) 0\<rparr>"
  have k2: "kfree s2 pa = Ok s3"
    unfolding s2_def s3_def by (rule kfree_commute [OF pg(1) sep_aligned [OF sep tt] ne k1])
  have mv: "moved (leaf (memory s) r a) 0 E = E(pa := E pa + 1)" using e by (auto simp: moved_def pa_def)
  have v2: "vinv s2 Rs (E(pa := E pa + 1))"
    using vinv_write_leaf [OF v r t a, of 0] unfolding mv s2_def by simp
  have pos: "0 < (E(pa := E pa + 1)) pa" using E [of pa] by simp
  have ok2: "page_ok s2 pa" using pg by (simp add: s2_def)
  obtain s3' where "kfree s2 pa = Ok s3'"
    and f: "vinv s3' Rs ((E(pa := E pa + 1))(pa := (E(pa := E pa + 1)) pa - 1))" "page_ok s3' = page_ok s2"
      "\<forall>q. page_ok s2 q \<longrightarrow> refs s3' q = (if q = pa then refs s2 pa - 1 else refs s2 q)"
      "\<forall>x. blk 12 x \<noteq> pa \<or> 1 < refs s2 pa \<longrightarrow> memory s3' x = memory s2 x"
      "\<forall>r va. r \<in> Rs \<longrightarrow> leaf (memory s3') r va = leaf (memory s2) r va"
      "tabs (memory s3') Rs = tabs (memory s2) Rs"
    using vinv_free [OF v2 ok2 pos] by blast
  with k2 have eq: "s3' = s3" by simp
  have "vinv s3 Rs E" using f(1) unfolding eq by simp
  moreover have "releases s Rs s3"
    unfolding releases_def
  proof (intro conjI allI impI)
    show "page_ok s3 = page_ok s" using f(2) eq by (auto simp: s2_def)
    fix x assume x: "data s3 Rs x"
    have ts2: "tabs (memory s2) Rs = tabs (memory s) Rs" using keeps_write_leaf(2) [OF v r t] by (simp add: s2_def)
    have nt: "blk 12 x \<notin> tabs (memory s) Rs" using x f(6) ts2 eq by (simp add: data_def)
    have rf: "page_ok s (blk 12 x) \<Longrightarrow> refs s3 (blk 12 x) \<le> refs s (blk 12 x) \<and> 0 < refs s3 (blk 12 x)"
      using x f(2,3) eq by (auto simp: data_def s2_def)
    then show "data s Rs x" using nt by (auto simp: data_def)
    have "blk 12 x \<noteq> pa \<or> 1 < refs s2 pa" using rf f(3) eq pg(1) by (auto simp: s2_def)
    then have "memory s3 x = memory s2 x" using f(4) eq by simp
    also have "\<dots> = memory s x" using nt tt sep_aligned [OF sep tt] by (auto simp: s2_def intro!: st64_slot_out)
    finally show "memory s3 x = memory s x" .
  qed
  moreover have "leaf (memory s3) r' b = (if r' = r \<and> PGROUNDDOWN b = a then 0 else leaf (memory s) r' b)"
    if "r' \<in> Rs" "b < MAXVA" for r' b
    using f(5) eq that leaf_write_user [OF sep r t a that, of 0] by (simp add: s2_def)
  ultimately show ?thesis using k1 by (auto simp: s3_def)
qed

lemma next_page:
  assumes "aligned 12 a" and "aligned 12 e" and "a < e"
  shows "unat (a + PGSIZE) = unat a + 4096" and "a + PGSIZE \<le> e" and "aligned 12 (a + PGSIZE)"
proof -
  obtain i where i: "unat a = 4096 * i" using mod_0_mult [of "unat a" 4096] assms(1) by (auto simp: aligned_unat)
  obtain j where j: "unat e = 4096 * j" using mod_0_mult [of "unat e" 4096] assms(2) by (auto simp: aligned_unat)
  have "unat a < unat e" using assms(3) by (simp add: word_less_nat_alt)
  then have le: "unat a + 4096 \<le> unat e" using i j by simp
  also have "unat e < 2 ^ 64" using unsigned_less [of e] by simp
  finally show u: "unat (a + PGSIZE) = unat a + 4096" by (simp add: unat_word_ariths PGSIZE_def)
  show "a + PGSIZE \<le> e" using le u by (simp add: word_le_nat_alt)
  show "aligned 12 (a + PGSIZE)" using u i by (simp add: aligned_unat)
qed

lemma div_page_iff: "(n :: nat) div 4096 = i \<longleftrightarrow> 4096 * i \<le> n \<and> n < 4096 * i + 4096"
proof
  assume "n div 4096 = i"
  then have "n = 4096 * i + n mod 4096" using mult_div_mod_eq [of 4096 n] by simp
  moreover have "n mod 4096 < 4096" by simp
  ultimately show "4096 * i \<le> n \<and> n < 4096 * i + 4096" by linarith
next
  assume "4096 * i \<le> n \<and> n < 4096 * i + 4096"
  then show "n div 4096 = i" by (intro div_nat_eqI) simp_all
qed

lemma PGROUNDDOWN_eq_iff:
  assumes "aligned 12 a" and "unat (a + PGSIZE) = unat a + 4096"
  shows "PGROUNDDOWN b = a \<longleftrightarrow> a \<le> b \<and> b < a + PGSIZE"
proof -
  obtain i where i: "unat a = 4096 * i" using mod_0_mult [of "unat a" 4096] assms(1) by (auto simp: aligned_unat)
  have "PGROUNDDOWN b = a \<longleftrightarrow> unat b div 4096 * 4096 = unat a" by (simp add: word_unat_eq_iff unat_PGROUNDDOWN)
  also have "\<dots> \<longleftrightarrow> unat a \<le> unat b \<and> unat b < unat a + 4096"
    using div_page_iff [of "unat b" i] by (auto simp: i)
  finally show ?thesis using assms(2) by (simp add: word_le_nat_alt word_less_nat_alt)
qed

lemma leaf_Some_tab: "bit (leaf m r a) 0 \<Longrightarrow> \<exists>t. tab m r a 2 = Some t \<and> ld64 m (slot t 0 a) = leaf m r a"
  by (cases "tab m r a 2") (auto simp: leaf_def)

lemma slot_tab_nz:
  assumes "vinv s Rs E" and "r \<in> Rs" and "tab (memory s) r a 2 = Some t"
  shows "slot t 0 a \<noteq> 0"
proof -
  have "t \<in> tabs (memory s) Rs" using assms by (intro tabsI [of r _ 2]) simp_all
  then have "page_ok s t" using vinv_tabs [OF assms(1)] by simp
  then show ?thesis using slot_nz [of t] page_ok_nz page_ok_aligned by simp
qed

lemma uvmunmap_range:
  assumes "vinv s Rs E" and "\<And>q. 0 \<le> E q" and "r \<in> Rs" and "aligned 12 a" and "aligned 12 e" and "e \<le> TRAPFRAME"
    and "\<And>b. aligned 12 b \<Longrightarrow> a \<le> b \<Longrightarrow> b < e \<Longrightarrow> bit (leaf (memory s) r b) 0"
  shows "\<exists>s'. uvmunmap_loop s r a e True = Ok s' \<and> vinv s' Rs E \<and> releases s Rs s' \<and>
    (\<forall>r' \<in> Rs. \<forall>b < MAXVA. leaf (memory s') r' b =
       (if r' = r \<and> a \<le> b \<and> b < e then 0 else leaf (memory s) r' b))"
  using assms
proof (induction "unat e - unat a" arbitrary: s a rule: less_induct)
  case less
  show ?case
  proof (cases "a < e")
    case False
    then have "uvmunmap_loop s r a e True = Ok s" by (simp add: uvmunmap_loop.simps)
    moreover have "\<not> (a \<le> b \<and> b < e)" for b using False by auto
    ultimately show ?thesis using less.prems(1) by auto
  next
    case True
    note np = next_page [OF less.prems(4,5) True]
    have tf: "a < TRAPFRAME" using True less.prems(6) by simp
    have val: "bit (leaf (memory s) r a) 0" using less.prems(4,7) True by simp
    then obtain t where t: "tab (memory s) r a 2 = Some t" "ld64 (memory s) (slot t 0 a) = leaf (memory s) r a"
      using leaf_Some_tab by blast
    define pa where "pa = PTE2PA (leaf (memory s) r a)"
    obtain s1 where k: "kfree s pa = Ok s1"
      and s2: "vinv (s1\<lparr>memory := st64 (memory s1) (slot t 0 a) 0\<rparr>) Rs E"
        "releases s Rs (s1\<lparr>memory := st64 (memory s1) (slot t 0 a) 0\<rparr>)"
        "\<forall>r' \<in> Rs. \<forall>b < MAXVA. leaf (st64 (memory s1) (slot t 0 a) 0) r' b =
           (if r' = r \<and> PGROUNDDOWN b = a then 0 else leaf (memory s) r' b)"
      using unmap_one [OF less.prems(1,2,3,4) tf t(1) val] unfolding pa_def by blast
    define s2 where "s2 = s1\<lparr>memory := st64 (memory s1) (slot t 0 a) 0\<rparr>"
    note st = s2 [folded s2_def]
    have l2: "leaf (memory s2) r' b = (if r' = r \<and> a \<le> b \<and> b < a + PGSIZE then 0 else leaf (memory s) r' b)"
      if "r' \<in> Rs" "b < MAXVA" for r' b
      using s2(3) that PGROUNDDOWN_eq_iff [OF less.prems(4) np(1), of b] by (simp add: s2_def)
    have val2: "bit (leaf (memory s2) r b) 0" if "aligned 12 b" "a + PGSIZE \<le> b" "b < e" for b
    proof -
      have "b < MAXVA" using that less.prems(6) below_TRAPFRAME by (meson less_le_trans)
      moreover have "a \<le> b" using that(2) np(1) by (simp add: word_le_nat_alt)
      ultimately show ?thesis using l2 [of r b] less.prems(3,7) that by (simp add: not_less)
    qed
    have dec: "unat e - unat (a + PGSIZE) < unat e - unat a"
      using np(1) True by (simp add: word_less_nat_alt)
    obtain s' where s': "uvmunmap_loop s2 r (a + PGSIZE) e True = Ok s'" "vinv s' Rs E" "releases s2 Rs s'"
      "\<forall>r' \<in> Rs. \<forall>b < MAXVA. leaf (memory s') r' b =
         (if r' = r \<and> a + PGSIZE \<le> b \<and> b < e then 0 else leaf (memory s2) r' b)"
      using less.hyps [OF dec st(1) less.prems(2,3) np(3) less.prems(5,6) val2] by blast
    have "bit (leaf (memory s) r a) 1"
      using vinv_leaf [OF less.prems(1,3,4) tf] val by (simp add: leaf_ok_def Let_def)
    then have "bit (PTE_FLAGS (leaf (memory s) r a)) 1" by (simp add: bit_PTE_FLAGS)
    then have nl: "PTE_FLAGS (leaf (memory s) r a) \<noteq> PTE_V" by (auto simp: bit_flags)
    have "uvmunmap_loop s r a e True = Ok s'"
      using True walk_False [OF below_TRAPFRAME [OF tf], of s r] t slot_tab_nz [OF less.prems(1,3) t(1)] val nl k s'(1)
      by (subst uvmunmap_loop.simps) (simp add: flag_test0 pa_def s2_def Let_def)
    moreover have "releases s Rs s'" using st(2) s'(3) by (rule releases_trans)
    moreover have "leaf (memory s') r' b = (if r' = r \<and> a \<le> b \<and> b < e then 0 else leaf (memory s) r' b)"
      if b: "r' \<in> Rs" "b < MAXVA" for r' b
    proof -
      have "a \<le> b \<and> b < e \<longleftrightarrow> (a \<le> b \<and> b < a + PGSIZE) \<or> (a + PGSIZE \<le> b \<and> b < e)"
        using np(1,2) by (auto simp: word_le_nat_alt word_less_nat_alt)
      then show ?thesis using s'(4) b l2 [OF b] by auto
    qed
    ultimately show ?thesis using s'(2) by blast
  qed
qed

end
