(* ===== verification/Cow.thy ===== *)
theory Cow
  imports Vmspec
begin

text \<open>
  Copy-on-write: \<^verbatim>\<open>uvmcopy\<close> shares the pages of the parent, and the fault handler gives the
  writer a page of its own. What the processes see of their memory is the same as if
  \<^verbatim>\<open>fork\<close> had copied every page.
\<close>

section \<open>What a user program sees\<close>

text \<open>The byte that a load at a virtual address returns, \<open>None\<close> for a fault.\<close>

definition uload :: "mem \<Rightarrow> u64 \<Rightarrow> u64 \<Rightarrow> u8 option" where
  "uload m r va =
     (let e = leaf m r va in
      if va < MAXVA \<and> bit e 0 \<and> bit e 1 \<and> bit e 4 then Some (m (PTE2PA e + (va - PGROUNDDOWN va))) else None)"

text \<open>A page that the program may write, now or after a copy-on-write fault.\<close>

definition uwritable :: "mem \<Rightarrow> u64 \<Rightarrow> u64 \<Rightarrow> bool" where
  "uwritable m r va \<longleftrightarrow>
     (let e = leaf m r va in va < MAXVA \<and> bit e 0 \<and> bit e 4 \<and> (bit e 2 \<or> bit e 8))"

definition vok :: "kst \<Rightarrow> u64 set \<Rightarrow> (u64 \<Rightarrow> int) \<Rightarrow> bool" where
  "vok s Rs E \<longleftrightarrow> vinv s Rs E \<and> (\<forall>q. 0 \<le> E q) \<and> (\<forall>p. maps (memory s) Rs p \<noteq> {} \<longrightarrow> E p = 0)"

text \<open>Memory of the kernel itself: outside the allocator, or a page that the kernel holds.\<close>

definition kdata :: "kst \<Rightarrow> (u64 \<Rightarrow> int) \<Rightarrow> u64 \<Rightarrow> bool" where
  "kdata s E x \<longleftrightarrow> (page_ok s (blk 12 x) \<longrightarrow> 0 < E (blk 12 x))"

lemma vokD:
  assumes "vok s Rs E"
  shows vok_vinv: "vinv s Rs E" and vok_nonneg: "\<And>q. 0 \<le> E q"
    and vok_mapped: "\<And>p. maps (memory s) Rs p \<noteq> {} \<Longrightarrow> E p = 0"
  using assms by (auto simp: vok_def)

lemma kdata_data:
  assumes "vinv s Rs E" and "kdata s E x"
  shows "data s Rs x"
proof -
  have "blk 12 x \<notin> tabs (memory s) Rs"
    using vinv_tabs [OF assms(1), of "blk 12 x"] assms(2) by (auto simp: kdata_def)
  moreover have "0 < refs s (blk 12 x)" if "page_ok s (blk 12 x)"
    using vinv_refs [OF assms(1) that] assms(2) calculation that by (simp add: kdata_def)
  ultimately show ?thesis by (simp add: data_def)
qed

lemma page_offset: "blk 12 (PTE2PA e + (va - PGROUNDDOWN va)) = PTE2PA e"
proof (rule blk_offset)
  have "va - PGROUNDDOWN va = take_bit 12 va"
    using blk_plus_take_bit [of 12 va] unfolding PGROUNDDOWN_blk by (metis add_diff_cancel_left')
  then show "unat (va - PGROUNDDOWN va) < 2 ^ 12" using unat_take_bit_less [of 12 va] by simp
qed simp

lemma user_below:
  assumes "vinv s Rs E" and "r \<in> Rs" and "va < MAXVA" and "bit (leaf (memory s) r va) 0" and "bit (leaf (memory s) r va) 4"
  shows "PGROUNDDOWN va < TRAPFRAME"
proof -
  have "va < TRAPFRAME" using vinv_high [OF assms(1,2), of va] assms(3-5) by (auto simp: not_le [symmetric])
  then show ?thesis by (rule PGROUNDDOWN_less)
qed

lemma user_mapped:
  assumes "vinv s Rs E" and "r \<in> Rs" and "va < MAXVA" and "bit (leaf (memory s) r va) 0" and "bit (leaf (memory s) r va) 4"
  shows "(r, PGROUNDDOWN va) \<in> maps (memory s) Rs (PTE2PA (leaf (memory s) r va))"
  using user_below [OF assms] assms(2-4) by (simp add: maps_def leaf_page)

text \<open>Two states show the same byte when the entries agree on page and permissions.\<close>

lemma uload_eq:
  assumes "va < MAXVA" and "PTE2PA e' = PTE2PA e" and "\<And>i. i \<in> {0, 1, 4} \<Longrightarrow> bit e' i = bit e i"
    and "leaf m r va = e" and "leaf m' r' va = e'"
    and "bit e 0 \<Longrightarrow> bit e 4 \<Longrightarrow> m' (PTE2PA e + (va - PGROUNDDOWN va)) = m (PTE2PA e + (va - PGROUNDDOWN va))"
  shows "uload m' r' va = uload m r va"
  using assms by (auto simp: uload_def Let_def)

lemma uload_keeps:
  assumes v: "vok s Rs E" and k: "keeps s Rs s'" and r: "r \<in> Rs" and va: "va < MAXVA"
    and e: "PTE2PA (leaf (memory s') r' va) = PTE2PA (leaf (memory s) r va)"
      "\<And>i. i \<in> {0, 1, 4} \<Longrightarrow> bit (leaf (memory s') r' va) i = bit (leaf (memory s) r va) i"
  shows "uload (memory s') r' va = uload (memory s) r va"
proof (rule uload_eq [OF va e refl refl])
  assume "bit (leaf (memory s) r va) 0" "bit (leaf (memory s) r va) 4"
  note um = user_mapped [OF vok_vinv [OF v] r va this]
  have "data s Rs (PTE2PA (leaf (memory s) r va) + (va - PGROUNDDOWN va))"
    by (rule mapped_data [OF vok_vinv [OF v] um vok_nonneg [OF v] page_offset])
  then show "memory s' (PTE2PA (leaf (memory s) r va) + (va - PGROUNDDOWN va)) =
      memory s (PTE2PA (leaf (memory s) r va) + (va - PGROUNDDOWN va))"
    by (rule keeps_memory [OF k])
qed

section \<open>Sharing one page\<close>

definition cowed :: "u64 \<Rightarrow> u64" where
  "cowed e = (if bit e 2 then e AND NOT PTE_W OR PTE_COW else e)"

definition child_entry :: "u64 \<Rightarrow> u64" where
  "child_entry e = PA2PTE (PTE2PA e) OR PTE_FLAGS (cowed e) OR PTE_V"

lemma bit_cowed: "bit (cowed e) i \<longleftrightarrow> (bit e i \<and> i \<noteq> 2) \<or> (i = 8 \<and> bit e 2)"
  by (cases "i < 64") (auto simp: cowed_def pte_bits bit_not_iff possible_bit_def dest: bit_imp_le_length)

lemma PTE2PA_cowed [simp]: "PTE2PA (cowed e) = PTE2PA e"
  by (rule bit_eqI) (auto simp: bit_PTE2PA bit_cowed)

lemma child_entry_props:
  "PTE2PA (child_entry e) = PTE2PA e" "bit (child_entry e) 0"
  "0 < i \<Longrightarrow> i < 10 \<Longrightarrow> bit (child_entry e) i = bit (cowed e) i"
  using page_entry [of "PTE2PA e" "PTE_FLAGS (cowed e)"] by (simp_all add: child_entry_def bit_PTE_FLAGS)

lemma cowed_idem [simp]: "cowed (cowed e) = cowed e"
  by (simp add: cowed_def pte_bits)

text \<open>The first half of a round of \<^verbatim>\<open>uvmcopy\<close>: the parent's entry loses its write permission.\<close>

lemma no_writer:
  assumes v: "vinv s Rs E" and "(r, a) \<in> maps (memory s) Rs p" and "\<not> bit (leaf (memory s) r a) 2"
    and b: "(r', b) \<in> maps (memory s) Rs p"
  shows "\<not> bit (leaf (memory s) r' b) 2"
proof
  assume "bit (leaf (memory s) r' b) 2"
  then have "maps (memory s) Rs p = {(r', b)}"
    using vinv_leaf [OF v, of r' b] b by (auto simp: maps_def leaf_ok_def Let_def)
  with assms(2,3) \<open>bit (leaf (memory s) r' b) 2\<close> show False by auto
qed

lemma cow_parent:
  assumes vk: "vok s Rs E" and r: "r \<in> Rs" and a: "aligned 12 a" "a < TRAPFRAME"
    and e: "bit (leaf (memory s) r a) 0" and t: "tab (memory s) r a 2 = Some t"
  defines "s' \<equiv> s\<lparr>memory := st64 (memory s) (slot t 0 a) (cowed (leaf (memory s) r a))\<rparr>"
  shows "vok s' Rs E" and "keeps s Rs s'" and "maps (memory s') Rs = maps (memory s) Rs"
    and "\<And>r' b. r' \<in> Rs \<Longrightarrow> b < MAXVA \<Longrightarrow> leaf (memory s') r' b =
      (if r' = r \<and> PGROUNDDOWN b = a then cowed (leaf (memory s) r a) else leaf (memory s) r' b)"
proof -
  note v = vok_vinv [OF vk]
  define e where "e = leaf (memory s) r a"
  have ma: "(r, a) \<in> maps (memory s) Rs (PTE2PA e)" using r a e by (simp add: maps_def e_def)
  note mr = mapped_refs [OF v ma vok_nonneg [OF vk]]
  have lk: "leaf_ok s Rs E r a" by (rule vinv_leaf [OF v r a])
  have b0: "bit e 0" "bit e 1" using lk e by (auto simp: leaf_ok_def Let_def e_def)
  have mv: "moved e (cowed e) E = E" using b0 by (auto simp: moved_def bit_cowed)
  show k: "keeps s Rs s'" unfolding s'_def by (rule keeps_write_leaf(1) [OF v r t])
  have mp: "maps (memory s') Rs p = maps (memory s) Rs p" for p
    using maps_write_leaf [OF vinv_sep [OF v] r t a, of "cowed e" p] ma b0 r a
    by (auto simp: s'_def e_def maps_def bit_cowed split: if_splits)
  then show maps: "maps (memory s') Rs = maps (memory s) Rs" by blast
  have "vinv s' Rs (moved (leaf (memory s) r a) (cowed e) E)"
    unfolding s'_def e_def [symmetric]
  proof (rule vinv_write_leaf [OF v r t a, folded e_def])
    show "page_ok s (PTE2PA (cowed e)) \<and> PTE2PA (cowed e) \<notin> tabs (memory s) Rs \<and> bit (cowed e) 1"
      using mr b0 by (simp add: bit_cowed)
  next
    assume "bit (cowed e) 2"
    then show "maps (memory s) Rs (PTE2PA (cowed e)) \<subseteq> {(r, a)} \<and> moved e (cowed e) E (PTE2PA (cowed e)) = 0"
      by (simp add: bit_cowed)
  next
    fix r' b assume m: "(r', b) \<in> maps (memory s) Rs (PTE2PA (cowed e))" and ne: "(r', b) \<noteq> (r, a)"
    have "r' \<noteq> r" using vinv_inj [OF v ma, of b] m ne by auto
    moreover have "\<not> bit (leaf (memory s) r' b) 2"
    proof (cases "bit e 2")
      case True
      then show ?thesis using lk m ne b0 by (auto simp: leaf_ok_def Let_def e_def)
    next
      case False
      then show ?thesis using no_writer [OF v ma _, of r' b] m by (simp add: e_def)
    qed
    ultimately show "r' \<noteq> r \<and> \<not> bit (leaf (memory s) r' b) 2" ..
  qed
  then have "vinv s' Rs E" unfolding e_def [symmetric] mv .
  then show "vok s' Rs E" using vk by (simp add: vok_def maps)
  fix r' b assume "r' \<in> Rs" "b < MAXVA"
  then show "leaf (memory s') r' b =
      (if r' = r \<and> PGROUNDDOWN b = a then cowed (leaf (memory s) r a) else leaf (memory s) r' b)"
    using leaf_write_user [OF vinv_sep [OF v] r t a] by (simp add: s'_def)
qed

lemma st64_ld64 [simp]: "st64 m a (ld64 m a) = m"
proof
  fix x
  have "le_bytes 8 (ld64 m a) = read_mem m a 8"
    using le_bytes_le_val [of "read_mem m a 8"] by (simp add: ld64_def)
  then show "st64 m a (ld64 m a) x = m x"
    by (auto simp: st64_at read_mem_def simp flip: word_arith_nat_defs)
qed

lemma maps_card:
  assumes "vinv s Rs E"
  shows "card (maps (memory s) Rs p) \<le> card Rs"
proof -
  have "inj_on fst (maps (memory s) Rs p)"
    using vinv_inj [OF assms] by (auto simp: inj_on_def)
  moreover have "fst ` maps (memory s) Rs p \<subseteq> Rs" by (auto simp: maps_def)
  moreover have "finite Rs" by (rule finite_subset [of _ UNIV]) simp_all
  ultimately show ?thesis by (metis card_image card_mono)
qed

text \<open>The second half: the child's table gets an entry for the page, whose count goes up.\<close>

lemma cow_child:
  assumes vk: "vok s Rs E" and r: "old \<in> Rs" "new \<in> Rs" "old \<noteq> new" and a: "aligned 12 a" "a < TRAPFRAME"
    and e: "bit (leaf (memory s) old a) 0" "cowed (leaf (memory s) old a) = leaf (memory s) old a"
    and inv: "\<not> bit (leaf (memory s) new a) 0"
    and nomap: "\<And>b. (new, b) \<notin> maps (memory s) Rs (PTE2PA (leaf (memory s) old a))"
    and card: "card Rs \<le> 255"
  defines "e \<equiv> leaf (memory s) old a"
  shows "\<exists>res s2. mappages s new a PGSIZE (PTE2PA e) (PTE_FLAGS e) = Ok (res, s2) \<and>
    (if res = 0 then \<exists>s3. increase_count s2 (PTE2PA e) = Ok s3 \<and> vok s3 Rs E \<and> keeps s Rs s3 \<and>
       (\<forall>r' \<in> Rs. \<forall>b < MAXVA. leaf (memory s3) r' b =
          (if r' = new \<and> PGROUNDDOWN b = a then child_entry e else leaf (memory s) r' b))
     else vok s2 Rs E \<and> keeps s Rs s2 \<and> full s2 \<and>
       (\<forall>r' \<in> Rs. \<forall>b. leaf (memory s2) r' b = leaf (memory s) r' b))"
proof -
  note v = vok_vinv [OF vk]
  define pa where "pa = PTE2PA e"
  have ma: "(old, a) \<in> maps (memory s) Rs pa" using r a e(1) by (simp add: maps_def e_def pa_def)
  note mr = mapped_refs [OF v ma vok_nonneg [OF vk]]
  have lk: "leaf_ok s Rs E old a" by (rule vinv_leaf [OF v r(1) a])
  have b1: "bit e 1" using lk e by (auto simp: leaf_ok_def Let_def e_def)
  have nw: "\<not> bit e 2" using e(2) bit_cowed [of e 2] unfolding e_def [symmetric] by simp
  have Epa: "E pa = 0" using vok_mapped [OF vk] ma by auto
  have others: "r' \<noteq> new \<and> \<not> bit (leaf (memory s) r' b) 2" if "(r', b) \<in> maps (memory s) Rs pa" for r' b
    using that nomap no_writer [OF v ma _ that] nw by (auto simp: e_def pa_def)
  have "PTE_FLAGS (PTE_FLAGS e) = PTE_FLAGS e" "bit (PTE_FLAGS e) 1" using b1 by (simp_all add: bit_PTE_FLAGS)
  moreover have "bit (PTE_FLAGS e) 2 \<Longrightarrow> maps (memory s) Rs pa = {} \<and> E pa = 1" using nw by (simp add: bit_PTE_FLAGS)
  ultimately obtain res s2 where m: "mappages s new a PGSIZE pa (PTE_FLAGS e) = Ok (res, s2)" "keeps s Rs s2"
    and st: "if res = 0 then vinv s2 Rs (E(pa := E pa - 1)) \<and>
       (\<forall>r' \<in> Rs. \<forall>b < MAXVA. leaf (memory s2) r' b =
          (if r' = new \<and> PGROUNDDOWN b = a then PA2PTE pa OR PTE_FLAGS e OR PTE_V else leaf (memory s) r' b))
     else res = -1 \<and> vinv s2 Rs E \<and> full s2 \<and> (\<forall>r' \<in> Rs. \<forall>b. leaf (memory s2) r' b = leaf (memory s) r' b)"
    using mappages_one [OF v vok_nonneg [OF vk] r(2) a inv mr _ _ _ others] by blast
  show ?thesis
  proof (cases "res = 0")
    case False
    have l: "\<And>r' b. r' \<in> Rs \<Longrightarrow> leaf (memory s2) r' b = leaf (memory s) r' b" using st False by simp
    then have "maps (memory s2) Rs = maps (memory s) Rs" by (rule maps_cong)
    then have "vok s2 Rs E" using st False vk by (simp add: vok_def)
    with st False m show ?thesis by (auto simp: pa_def)
  next
    case True
    have v2: "vinv s2 Rs (E(pa := - 1))" using st True Epa by simp
    have ce: "child_entry e = PA2PTE pa OR PTE_FLAGS e OR PTE_V"
      using e(2) by (simp add: child_entry_def pa_def e_def)
    have l2: "leaf (memory s2) r' b = (if r' = new \<and> PGROUNDDOWN b = a then child_entry e else leaf (memory s) r' b)"
      if "r' \<in> Rs" "b < MAXVA" for r' b using st True that by (simp add: ce)
    have m2: "maps (memory s2) Rs p = (if p = pa then insert (new, a) (maps (memory s) Rs pa) else maps (memory s) Rs p)" for p
    proof -
      have "leaf (memory s2) r' b = (if r' = new \<and> b = a then child_entry e else leaf (memory s) r' b)"
        if "r' \<in> Rs" "aligned 12 b" "b < TRAPFRAME" for r' b
        using l2 [OF that(1) below_TRAPFRAME [OF that(3)]] that by (simp add: PGROUNDDOWN_blk)
      then show ?thesis using r a inv child_entry_props(1,2) [of e] by (auto simp: maps_def pa_def split: if_splits)
    qed
    have ok2: "page_ok s2 pa" using keeps_page_ok [OF m(2)] mr by simp
    have "maps (memory s2) Rs pa \<noteq> {}" using m2 by simp
    then have nt2: "pa \<notin> tabs (memory s2) Rs" using vinv_tabs [OF v2] by auto
    have rc: "int (refs s2 pa) = int (card (maps (memory s2) Rs pa)) - 1"
      using vinv_refs [OF v2 ok2] nt2 by simp
    moreover have "card (maps (memory s2) Rs pa) = Suc (card (maps (memory s) Rs pa))"
      using m2 nomap by (simp add: pa_def e_def)
    moreover have "0 < card (maps (memory s) Rs pa)" using ma by (auto simp: card_gt_0_iff)
    ultimately have bnd2: "0 < refs s2 pa" "refs s2 pa < 255" using maps_card [OF v2, of pa] card by auto
    have w2: "\<not> bit (leaf (memory s2) r' b) 2" if "(r', b) \<in> maps (memory s2) Rs pa" for r' b
    proof -
      have rb: "r' \<in> Rs" "b < MAXVA" "PGROUNDDOWN b = b"
        using that below_TRAPFRAME by (auto simp: maps_def PGROUNDDOWN_blk)
      show ?thesis
        using l2 [OF rb(1,2)] others [of r' b] that m2 [of pa] child_entry_props(3) [of 2 e] nw rb(3) bit_cowed [of e 2]
        by (auto split: if_splits)
    qed
    obtain s3 where s3: "increase_count s2 pa = Ok s3" "vinv s3 Rs ((E(pa := - 1))(pa := (E(pa := - 1)) pa + 1))"
      "page_ok s3 = page_ok s2" "memory s3 = memory s2"
      "\<forall>q. page_ok s2 q \<longrightarrow> refs s3 q = (if q = pa then refs s2 pa + 1 else refs s2 q)"
      using vinv_share [OF v2 ok2 nt2 bnd2 w2] by blast
    have EE: "(E(pa := - 1))(pa := (E(pa := - 1)) pa + 1) = E" using Epa by auto
    have "vok s3 Rs E"
      using s3(2,4) vk ma m2 unfolding EE by (auto simp: vok_def split: if_splits)
    moreover have "keeps s2 Rs s3" using s3 by (auto simp: keeps_def data_def)
    then have "keeps s Rs s3" by (rule keeps_trans [OF m(2)])
    moreover have "\<forall>r' \<in> Rs. \<forall>b < MAXVA. leaf (memory s3) r' b =
        (if r' = new \<and> PGROUNDDOWN b = a then child_entry e else leaf (memory s) r' b)"
      using l2 s3(4) by simp
    ultimately show ?thesis using m(1) s3(1) True by (auto simp: pa_def)
  qed
qed

section \<open>The whole copy\<close>

text \<open>The entries after a copy of the pages from \<open>i\<close> up to \<open>hi\<close>, and after a copy that failed.\<close>

definition copied_leaf :: "mem \<Rightarrow> u64 \<Rightarrow> u64 \<Rightarrow> u64 \<Rightarrow> u64 \<Rightarrow> u64 \<Rightarrow> u64 \<Rightarrow> u64" where
  "copied_leaf m old new i hi r b =
     (if i \<le> b \<and> b < hi \<and> r = old then cowed (leaf m old b)
      else if i \<le> b \<and> b < hi \<and> r = new then child_entry (leaf m old b) else leaf m r b)"

definition failed_leaf :: "mem \<Rightarrow> u64 \<Rightarrow> u64 \<Rightarrow> u64 \<Rightarrow> u64 \<Rightarrow> u64 \<Rightarrow> u64 \<Rightarrow> bool" where
  "failed_leaf m old new hi r b e \<longleftrightarrow>
     (if r = new then if b < hi then \<not> bit e 0 else e = leaf m new b
      else e = leaf m r b \<or> r = old \<and> e = cowed (leaf m old b))"

lemma vok_unmapped:
  assumes "vok s Rs E" and "vinv s' Rs E"
    and l: "\<And>r b. r \<in> Rs \<Longrightarrow> b < MAXVA \<Longrightarrow> leaf (memory s') r b = 0 \<or> leaf (memory s') r b = leaf (memory s) r b"
  shows "vok s' Rs E"
proof -
  have "maps (memory s') Rs p \<subseteq> maps (memory s) Rs p" for p
  proof
    fix x assume "x \<in> maps (memory s') Rs p"
    then obtain r b where x: "x = (r, b)" "r \<in> Rs" "aligned 12 b" "b < TRAPFRAME"
      "bit (leaf (memory s') r b) 0" "PTE2PA (leaf (memory s') r b) = p" by (auto simp: maps_def)
    then show "x \<in> maps (memory s) Rs p" using l [OF x(2) below_TRAPFRAME [OF x(4)]] by (auto simp: maps_def)
  qed
  then show ?thesis using assms(1,2) unfolding vok_def by (metis subset_empty)
qed

lemma unmap_all:
  assumes vk: "vok s Rs E" and r: "r \<in> Rs" and i: "aligned 12 i" "i \<le> TRAPFRAME"
    and val: "\<And>b. aligned 12 b \<Longrightarrow> b < i \<Longrightarrow> bit (leaf (memory s) r b) 0"
  shows "\<exists>s'. uvmunmap s r 0 (i div PGSIZE) True = Ok s' \<and> vok s' Rs E \<and> releases s Rs s' \<and>
    (\<forall>r' \<in> Rs. \<forall>b < MAXVA. leaf (memory s') r' b = (if r' = r \<and> b < i then 0 else leaf (memory s) r' b))"
proof -
  have "unat (i div PGSIZE) * 4096 = unat i"
    using i(1) by (simp add: unat_div PGSIZE_def aligned_unat) (metis dvd_div_mult_self dvd_eq_mod_eq_0)
  moreover have "unat (i div PGSIZE * PGSIZE) = unat (i div PGSIZE) * unat PGSIZE mod 2 ^ 64"
    by (simp only: unat_word_ariths(2)) simp
  moreover have "unat PGSIZE = 4096" by (simp add: PGSIZE_def)
  moreover have "unat i < 2 ^ 64" using unsigned_less [of i] by simp
  ultimately have e: "0 + i div PGSIZE * PGSIZE = i"
    by (metis add_0 mod_less word_unat_eq_iff)
  obtain s' where s': "uvmunmap_loop s r 0 i True = Ok s'" "vinv s' Rs E" "releases s Rs s'"
    "\<forall>r' \<in> Rs. \<forall>b < MAXVA. leaf (memory s') r' b = (if r' = r \<and> 0 \<le> b \<and> b < i then 0 else leaf (memory s) r' b)"
    using uvmunmap_range [OF vok_vinv [OF vk] vok_nonneg [OF vk] r _ i, of 0] val by (auto simp: aligned_def)
  have "vok s' Rs E" by (rule vok_unmapped [OF vk s'(2)]) (use s'(4) in simp)
  moreover have "uvmunmap s r 0 (i div PGSIZE) True = Ok s'" using s'(1) e by (simp add: uvmunmap_def)
  ultimately show ?thesis using s' by auto
qed

lemma child_entry_cowed [simp]: "child_entry (cowed e) = child_entry e"
  by (simp add: child_entry_def)

text \<open>The state between two rounds: the child has exactly the pages below \<open>i\<close>.\<close>

definition copying :: "kst \<Rightarrow> u64 set \<Rightarrow> (u64 \<Rightarrow> int) \<Rightarrow> u64 \<Rightarrow> u64 \<Rightarrow> u64 \<Rightarrow> u64 \<Rightarrow> bool" where
  "copying s Rs E old new i hi \<longleftrightarrow> vok s Rs E \<and> old \<in> Rs \<and> new \<in> Rs \<and> old \<noteq> new \<and> card Rs \<le> 255 \<and>
     aligned 12 i \<and> aligned 12 hi \<and> i \<le> hi \<and> hi \<le> TRAPFRAME \<and>
     (\<forall>b. aligned 12 b \<longrightarrow> b < hi \<longrightarrow> bit (leaf (memory s) old b) 0) \<and>
     (\<forall>b. aligned 12 b \<longrightarrow> b < hi \<longrightarrow> (bit (leaf (memory s) new b) 0 \<longleftrightarrow> b < i)) \<and>
     (\<forall>b. aligned 12 b \<longrightarrow> b < TRAPFRAME \<longrightarrow> bit (leaf (memory s) new b) 0 \<longrightarrow>
        b < i \<and> PTE2PA (leaf (memory s) new b) = PTE2PA (leaf (memory s) old b))"

lemma copyingD:
  assumes "copying s Rs E old new i hi"
  shows "vok s Rs E" "old \<in> Rs" "new \<in> Rs" "old \<noteq> new" "card Rs \<le> 255" "aligned 12 i" "aligned 12 hi"
    "i \<le> hi" "hi \<le> TRAPFRAME" "\<And>b. aligned 12 b \<Longrightarrow> b < hi \<Longrightarrow> bit (leaf (memory s) old b) 0"
    "\<And>b. aligned 12 b \<Longrightarrow> b < hi \<Longrightarrow> bit (leaf (memory s) new b) 0 \<longleftrightarrow> b < i"
    "\<And>b. aligned 12 b \<Longrightarrow> b < TRAPFRAME \<Longrightarrow> bit (leaf (memory s) new b) 0 \<Longrightarrow>
        b < i \<and> PTE2PA (leaf (memory s) new b) = PTE2PA (leaf (memory s) old b)"
  using assms unfolding copying_def by blast+

lemma uvmcopy_loop_unfold:
  assumes "vinv s Rs E" and "old \<in> Rs" and "i < sz" and "i < MAXVA"
    and t: "tab (memory s) old i 2 = Some t" and e: "leaf (memory s) old i = e" "bit e 0"
  shows "uvmcopy_loop s old new i sz =
    bnd (mappages (s\<lparr>memory := st64 (memory s) (slot t 0 i) (cowed e)\<rparr>) new i PGSIZE (PTE2PA e) (PTE_FLAGS (cowed e)))
      (\<lambda>(r, s). if r \<noteq> 0 then bnd (uvmunmap s new 0 (i div PGSIZE) True) (\<lambda>s. Ok (-1, s))
                else bnd (increase_count s (PTE2PA e)) (\<lambda>s. uvmcopy_loop s old new (i + PGSIZE) sz))"
proof -
  have w: "walk s old i False = Ok (slot t 0 i, s)" using walk_False [OF assms(4)] t by simp
  have le: "ld64 (memory s) (slot t 0 i) = e" using e(1) t by (simp add: leaf_def)
  then have "st64 (memory s) (slot t 0 i) e = memory s" by (metis st64_ld64)
  then show ?thesis
    using assms(3) w slot_tab_nz [OF assms(1,2) t] e(2) le
    by (subst uvmcopy_loop.simps) (cases "bit e 2"; simp add: Let_def flag_test flag_test0 cowed_def)
qed

lemma uvmcopy_round:
  assumes c: "copying s Rs E old new i hi" and lt: "i < hi" "i < sz"
  defines "e \<equiv> leaf (memory s) old i"
  shows "(\<exists>s2. uvmcopy_loop s old new i sz = bnd (uvmunmap s2 new 0 (i div PGSIZE) True) (\<lambda>s. Ok (-1, s)) \<and>
      vok s2 Rs E \<and> keeps s Rs s2 \<and> (\<forall>r' \<in> Rs. \<forall>b < MAXVA. leaf (memory s2) r' b =
        (if r' = old \<and> PGROUNDDOWN b = i then cowed e else leaf (memory s) r' b))) \<or>
    (\<exists>s3. uvmcopy_loop s old new i sz = uvmcopy_loop s3 old new (i + PGSIZE) sz \<and>
      vok s3 Rs E \<and> keeps s Rs s3 \<and>
      (\<forall>r' \<in> Rs. \<forall>b < MAXVA. leaf (memory s3) r' b = copied_leaf (memory s) old new i (i + PGSIZE) r' b))"
proof -
  note p = copyingD [OF c]
  have a: "i < TRAPFRAME" using lt p(9) by simp
  have imax: "i < MAXVA" by (rule below_TRAPFRAME [OF a])
  have pgi: "PGROUNDDOWN i = i" using p(6) by (simp add: PGROUNDDOWN_blk)
  have e0: "bit e 0" using p(6,10) lt by (simp add: e_def)
  then obtain t where t: "tab (memory s) old i 2 = Some t" using leaf_Some_tab unfolding e_def by blast
  define s1 where "s1 = s\<lparr>memory := st64 (memory s) (slot t 0 i) (cowed e)\<rparr>"
  note c1 = cow_parent [OF p(1,2,6) a e0 [unfolded e_def] t(1), folded e_def, folded s1_def]
  have l1o: "leaf (memory s1) old i = cowed e" using c1(4) [OF p(2) imax] pgi by (simp add: e_def)
  have inv1: "\<not> bit (leaf (memory s1) new i) 0"
    using c1(4) [OF p(3) imax] p(4,6,11) lt by auto
  have nomap: "(new, b) \<notin> maps (memory s1) Rs (PTE2PA (leaf (memory s1) old i))" for b
  proof
    assume "(new, b) \<in> maps (memory s1) Rs (PTE2PA (leaf (memory s1) old i))"
    then have "(new, b) \<in> maps (memory s) Rs (PTE2PA e)" unfolding c1(3) l1o by simp
    then have b: "aligned 12 b" "b < TRAPFRAME" "bit (leaf (memory s) new b) 0" "PTE2PA (leaf (memory s) new b) = PTE2PA e"
      by (auto simp: maps_def)
    note h = p(12) [OF b(1-3)]
    have "(old, b) \<in> maps (memory s) Rs (PTE2PA e)" using h b p(2,8,10) by (auto simp: maps_def)
    moreover have "(old, i) \<in> maps (memory s) Rs (PTE2PA e)" using p(2,6) a e0 by (auto simp: maps_def e_def)
    ultimately have "b = i" by (rule vinv_inj [OF vok_vinv [OF p(1)]])
    with h show False by simp
  qed
  have v1: "bit (leaf (memory s1) old i) 0" "cowed (leaf (memory s1) old i) = leaf (memory s1) old i"
    using e0 by (auto simp: l1o bit_cowed)
  obtain res s2 where mp: "mappages s1 new i PGSIZE (PTE2PA e) (PTE_FLAGS (cowed e)) = Ok (res, s2)"
    and st: "if res = 0 then \<exists>s3. increase_count s2 (PTE2PA e) = Ok s3 \<and> vok s3 Rs E \<and> keeps s1 Rs s3 \<and>
       (\<forall>r' \<in> Rs. \<forall>b < MAXVA. leaf (memory s3) r' b =
          (if r' = new \<and> PGROUNDDOWN b = i then child_entry e else leaf (memory s1) r' b))
     else vok s2 Rs E \<and> keeps s1 Rs s2 \<and> full s2 \<and>
       (\<forall>r' \<in> Rs. \<forall>b. leaf (memory s2) r' b = leaf (memory s1) r' b)"
    using cow_child [OF c1(1) p(2,3,4,6) a v1 inv1 nomap p(5)]
    unfolding l1o PTE2PA_cowed child_entry_cowed by blast
  note run = uvmcopy_loop_unfold [OF vok_vinv [OF p(1)] p(2) lt(2) imax t _ e0, of new, OF e_def [symmetric, THEN meta_eq_to_obj_eq],
      folded s1_def, unfolded mp]
  show ?thesis
  proof (cases "res = 0")
    case False
    then have "vok s2 Rs E" "keeps s Rs s2" "\<forall>r' \<in> Rs. \<forall>b < MAXVA. leaf (memory s2) r' b =
        (if r' = old \<and> PGROUNDDOWN b = i then cowed e else leaf (memory s) r' b)"
      using st c1(4) keeps_trans [OF c1(2)] by (auto simp: e_def)
    with run False show ?thesis by auto
  next
    case True
    then obtain s3 where s3: "increase_count s2 (PTE2PA e) = Ok s3" "vok s3 Rs E" "keeps s1 Rs s3"
      and l3: "\<forall>r' \<in> Rs. \<forall>b < MAXVA. leaf (memory s3) r' b =
          (if r' = new \<and> PGROUNDDOWN b = i then child_entry e else leaf (memory s1) r' b)"
      using st by auto
    note np = next_page [OF p(6,7) lt(1)]
    have "leaf (memory s3) r' b = copied_leaf (memory s) old new i (i + PGSIZE) r' b"
      if b: "r' \<in> Rs" "b < MAXVA" for r' b
      using l3 c1(4) b PGROUNDDOWN_eq_iff [OF p(6) np(1), of b] leaf_page [OF b(2), of "memory s" old] p(4)
      by (auto simp: copied_leaf_def e_def)
    with run True s3 keeps_trans [OF c1(2) s3(3)] show ?thesis by auto
  qed
qed

lemma uvmcopy_failed:
  assumes c: "copying s Rs E old new i hi" and lt: "i < hi"
    and run: "uvmcopy_loop s old new i sz = bnd (uvmunmap s2 new 0 (i div PGSIZE) True) (\<lambda>s. Ok (-1, s))"
    and s2: "vok s2 Rs E" "keeps s Rs s2"
    and l2: "\<And>r' b. r' \<in> Rs \<Longrightarrow> b < MAXVA \<Longrightarrow> leaf (memory s2) r' b =
        (if r' = old \<and> PGROUNDDOWN b = i then cowed (leaf (memory s) old i) else leaf (memory s) r' b)"
  shows "\<exists>s'. uvmcopy_loop s old new i sz = Ok (-1, s') \<and> vok s' Rs E \<and> page_ok s' = page_ok s \<and>
    (\<forall>x. data s Rs x \<longrightarrow> data s' Rs x \<longrightarrow> memory s' x = memory s x) \<and>
    (\<forall>r' \<in> Rs. \<forall>b < MAXVA. failed_leaf (memory s) old new hi r' b (leaf (memory s') r' b))"
proof -
  note p = copyingD [OF c]
  have below: "b < MAXVA" if "b < hi" for b
    using that p(9) below_TRAPFRAME by (meson less_le_trans)
  have val2: "bit (leaf (memory s2) new b) 0" if "aligned 12 b" "b < i" for b
    using l2 [OF p(3), of b] p(4) p(11) [of b] that lt below [of b] by auto
  obtain s' where s': "uvmunmap s2 new 0 (i div PGSIZE) True = Ok s'" "vok s' Rs E" "releases s2 Rs s'"
    and l': "\<forall>r' \<in> Rs. \<forall>b < MAXVA. leaf (memory s') r' b = (if r' = new \<and> b < i then 0 else leaf (memory s2) r' b)"
    using unmap_all [OF s2(1) p(3,6) order_trans [OF p(8,9)] val2] by blast
  have "failed_leaf (memory s) old new hi r' b (leaf (memory s') r' b)" if b: "r' \<in> Rs" "b < MAXVA" for r' b
  proof -
    have le: "leaf (memory s') r' b = (if r' = new \<and> b < i then 0
        else if r' = old \<and> PGROUNDDOWN b = i then cowed (leaf (memory s) old i) else leaf (memory s) r' b)"
      unfolding l2 [OF b, symmetric] using l' b by blast
    have "\<not> bit (leaf (memory s) new b) 0" if bt: "b < hi" "\<not> b < i"
    proof -
      have "PGROUNDDOWN b < hi" using bt(1) by (rule PGROUNDDOWN_less)
      moreover have "\<not> PGROUNDDOWN b < i"
      proof
        assume "PGROUNDDOWN b < i"
        then have "PGROUNDDOWN b + PGSIZE \<le> i" "unat (PGROUNDDOWN b + PGSIZE) = unat (PGROUNDDOWN b) + 4096"
          using next_page [OF _ p(6), of "PGROUNDDOWN b"] by simp_all
        then have "unat b < unat i" by (simp add: word_le_nat_alt unat_PGROUNDDOWN)
        then show False using bt(2) by (simp add: word_less_nat_alt)
      qed
      ultimately show ?thesis using p(11) [of "PGROUNDDOWN b"] leaf_page [OF b(2)] by simp
    qed
    moreover have "PGROUNDDOWN b = i \<Longrightarrow> leaf (memory s) old i = leaf (memory s) old b"
      using leaf_page [OF b(2)] by auto
    moreover have "b < i \<Longrightarrow> b < hi" using lt by simp
    ultimately show ?thesis unfolding le using p(4) by (auto simp: failed_leaf_def)
  qed
  moreover have "memory s' x = memory s x" if "data s Rs x" "data s' Rs x" for x
    using that s2(2) s'(3) by (auto simp: keeps_def releases_def)
  moreover have "page_ok s' = page_ok s" using s2(2) s'(3) by (simp add: keeps_def releases_def)
  ultimately show ?thesis using run s'(1,2) by auto
qed

lemma copying_next:
  assumes c: "copying s Rs E old new i hi" and lt: "i < hi" and v3: "vok s3 Rs E"
    and l3: "\<And>r' b. r' \<in> Rs \<Longrightarrow> b < MAXVA \<Longrightarrow>
      leaf (memory s3) r' b = copied_leaf (memory s) old new i (i + PGSIZE) r' b"
  shows "copying s3 Rs E old new (i + PGSIZE) hi"
proof -
  note p = copyingD [OF c]
  note np = next_page [OF p(6,7) lt]
  have inext: "b < i + PGSIZE \<longleftrightarrow> b < i \<or> b = i" if "aligned 12 b" for b
    using that p(6) np(1) mod_0_mult [of "unat i" 4096] mod_0_mult [of "unat b" 4096]
    by (auto simp: word_less_nat_alt aligned_unat word_unat_eq_iff)
  have below: "b < MAXVA" if "b < hi" for b
    using that p(9) below_TRAPFRAME by (meson less_le_trans)
  have "bit (leaf (memory s3) old b) 0" if "aligned 12 b" "b < hi" for b
    using l3 [OF p(2) below [OF that(2)]] p(10) [OF that] by (auto simp: copied_leaf_def bit_cowed)
  moreover have "bit (leaf (memory s3) new b) 0 \<longleftrightarrow> b < i + PGSIZE" if "aligned 12 b" "b < hi" for b
    using l3 [OF p(3) below [OF that(2)]] p(4) p(11) [OF that] child_entry_props(2) inext [OF that(1)]
    by (auto simp: copied_leaf_def)
  moreover have "b < i + PGSIZE \<and> PTE2PA (leaf (memory s3) new b) = PTE2PA (leaf (memory s3) old b)"
    if b: "aligned 12 b" "b < TRAPFRAME" "bit (leaf (memory s3) new b) 0" for b
    using l3 [OF p(3) below_TRAPFRAME [OF b(2)]] l3 [OF p(2) below_TRAPFRAME [OF b(2)]] b
      p(4) p(12) [OF b(1,2)] child_entry_props(1) inext [OF b(1)]
    by (auto simp: copied_leaf_def split: if_splits)
  ultimately show ?thesis using p v3 np by (simp add: copying_def)
qed

lemma uvmcopy_loop_spec:
  assumes "copying s Rs E old new i hi" and "\<And>b. aligned 12 b \<Longrightarrow> b < sz \<longleftrightarrow> b < hi"
  shows "\<exists>res s'. uvmcopy_loop s old new i sz = Ok (res, s') \<and> vok s' Rs E \<and>
    (if res = 0 then keeps s Rs s' \<and>
       (\<forall>r' \<in> Rs. \<forall>b < MAXVA. leaf (memory s') r' b = copied_leaf (memory s) old new i hi r' b)
     else res = -1 \<and> page_ok s' = page_ok s \<and> (\<forall>x. data s Rs x \<longrightarrow> data s' Rs x \<longrightarrow> memory s' x = memory s x) \<and>
       (\<forall>r' \<in> Rs. \<forall>b < MAXVA. failed_leaf (memory s) old new hi r' b (leaf (memory s') r' b)))"
  using assms
proof (induction "unat hi - unat i" arbitrary: s i rule: less_induct)
  case less
  note p = copyingD [OF less.prems(1)]
  show ?case
  proof (cases "i < sz")
    case False
    then have "\<not> i < hi" using p(6) less.prems(2) by blast
    then have "\<not> (i \<le> b \<and> b < hi)" for b by auto
    then show ?thesis using False p(1) by (auto simp: uvmcopy_loop.simps copied_leaf_def)
  next
    case True
    then have lt: "i < hi" using p(6) less.prems(2) by blast
    note np = next_page [OF p(6,7) lt]
    consider (fail) s2 where "uvmcopy_loop s old new i sz = bnd (uvmunmap s2 new 0 (i div PGSIZE) True) (\<lambda>s. Ok (-1, s))"
        "vok s2 Rs E" "keeps s Rs s2" "\<forall>r' \<in> Rs. \<forall>b < MAXVA. leaf (memory s2) r' b =
          (if r' = old \<and> PGROUNDDOWN b = i then cowed (leaf (memory s) old i) else leaf (memory s) r' b)"
      | (ok) s3 where "uvmcopy_loop s old new i sz = uvmcopy_loop s3 old new (i + PGSIZE) sz" "vok s3 Rs E" "keeps s Rs s3"
        "\<forall>r' \<in> Rs. \<forall>b < MAXVA. leaf (memory s3) r' b = copied_leaf (memory s) old new i (i + PGSIZE) r' b"
      using uvmcopy_round [OF less.prems(1) lt True] by blast
    then show ?thesis
    proof cases
      case fail
      then show ?thesis using uvmcopy_failed [OF less.prems(1) lt fail(1-3)] by auto
    next
      case ok
      have l3: "leaf (memory s3) r' b = copied_leaf (memory s) old new i (i + PGSIZE) r' b" if "r' \<in> Rs" "b < MAXVA" for r' b
        using ok(4) that by blast
      have dec: "unat hi - unat (i + PGSIZE) < unat hi - unat i" using np(1) lt by (simp add: word_less_nat_alt)
      note c3 = copying_next [OF less.prems(1) lt ok(2) l3]
      from less.hyps [OF dec c3 less.prems(2)] obtain res s' where
        ih: "uvmcopy_loop s3 old new (i + PGSIZE) sz = Ok (res, s')" "vok s' Rs E"
        "if res = 0 then keeps s3 Rs s' \<and>
           (\<forall>r' \<in> Rs. \<forall>b < MAXVA. leaf (memory s') r' b = copied_leaf (memory s3) old new (i + PGSIZE) hi r' b)
         else res = -1 \<and> page_ok s' = page_ok s3 \<and> (\<forall>x. data s3 Rs x \<longrightarrow> data s' Rs x \<longrightarrow> memory s' x = memory s3 x) \<and>
           (\<forall>r' \<in> Rs. \<forall>b < MAXVA. failed_leaf (memory s3) old new hi r' b (leaf (memory s') r' b))"
        by blast
      have rng: "i \<le> b \<and> b < hi \<longleftrightarrow> (i \<le> b \<and> b < i + PGSIZE) \<or> (i + PGSIZE \<le> b \<and> b < hi)"
        "b < i + PGSIZE \<Longrightarrow> b < hi" for b
        using np(1,2) by (auto simp: word_le_nat_alt word_less_nat_alt)
      show ?thesis
      proof (cases "res = 0")
        case True
        have "leaf (memory s') r' b = copied_leaf (memory s) old new i hi r' b" if b: "r' \<in> Rs" "b < MAXVA" for r' b
          using ih(3) True b l3 [OF b] l3 [OF p(2) b(2)] rng(1) [of b] p(4) by (auto simp: copied_leaf_def)
        then show ?thesis using ok(1) ih True keeps_trans [OF ok(3)] by auto
      next
        case False
        have "failed_leaf (memory s) old new hi r' b (leaf (memory s') r' b)" if b: "r' \<in> Rs" "b < MAXVA" for r' b
        proof -
          have "failed_leaf (memory s3) old new hi r' b (leaf (memory s') r' b)" using ih(3) False b by auto
          then show ?thesis using l3 [OF b] l3 [OF p(2) b(2)] rng(2) [of b] p(4)
            by (auto simp: failed_leaf_def copied_leaf_def split: if_splits)
        qed
        moreover have "memory s' x = memory s x" if "data s Rs x" "data s' Rs x" for x
          using that ok(3) ih(3) False by (auto simp: keeps_def)
        ultimately show ?thesis using ok(1) ih False keeps_page_ok [OF ok(3)] by auto
      qed
    qed
  qed
qed

lemma unat_TRAPFRAME: "unat TRAPFRAME = 4096 * 67108862"
  by (simp add: TRAPFRAME_def TRAMPOLINE_def layout_defs)

lemma PGROUNDUP_user:
  assumes "sz \<le> TRAPFRAME"
  shows "PGROUNDUP sz \<le> TRAPFRAME" and "aligned 12 b \<Longrightarrow> b < sz \<longleftrightarrow> b < PGROUNDUP sz"
proof -
  have le: "unat sz \<le> 4096 * 67108862" using assms by (simp add: word_le_nat_alt unat_TRAPFRAME)
  then have u: "unat (PGROUNDUP sz) = (unat sz + 4095) div 4096 * 4096" by (intro unat_PGROUNDUP) simp
  show "PGROUNDUP sz \<le> TRAPFRAME" using le by (simp add: word_le_nat_alt unat_TRAPFRAME u)
  assume "aligned 12 b"
  then obtain k where k: "unat b = 4096 * k" using mod_0_mult [of "unat b" 4096] by (auto simp: aligned_unat)
  have "4096 * k < n \<longleftrightarrow> 4096 * k < (n + 4095) div 4096 * 4096" for n :: nat
    using div_page_iff [of "n + 4095" "(n + 4095) div 4096"] by auto
  then show "b < sz \<longleftrightarrow> b < PGROUNDUP sz" by (simp add: word_less_nat_alt u k)
qed

lemma uload_user_None:
  assumes "vinv s Rs E" and "r \<in> Rs" and "\<And>b. aligned 12 b \<Longrightarrow> b < TRAPFRAME \<Longrightarrow> \<not> bit (leaf (memory s) r b) 0"
  shows "uload (memory s) r va = None" and "\<not> uwritable (memory s) r va"
proof -
  have "\<not> (va < MAXVA \<and> bit (leaf (memory s) r va) 0 \<and> bit (leaf (memory s) r va) 4)"
    using user_mapped [OF assms(1,2), of va] assms(3) by (auto simp: maps_def)
  then show "uload (memory s) r va = None" "\<not> uwritable (memory s) r va"
    by (auto simp: uload_def uwritable_def Let_def)
qed

text \<open>What the entries of a copy mean for loads and stores.\<close>

lemma uwritable_eq:
  assumes "\<And>i. i \<in> {0, 4} \<Longrightarrow> bit (leaf m' r' va) i = bit (leaf m r va) i"
    and "bit (leaf m' r' va) 2 \<or> bit (leaf m' r' va) 8 \<longleftrightarrow> bit (leaf m r va) 2 \<or> bit (leaf m r va) 8"
  shows "uwritable m' r' va = uwritable m r va"
  using assms by (auto simp: uwritable_def Let_def)

lemma copied_view:
  assumes vk: "vok s Rs E" and k: "keeps s Rs s'" and r: "old \<in> Rs" "r' \<in> Rs" "old \<noteq> new"
    and hi: "hi \<le> TRAPFRAME" and val: "\<And>b. aligned 12 b \<Longrightarrow> b < hi \<Longrightarrow> bit (leaf (memory s) old b) 0"
    and l: "\<And>b. b < MAXVA \<Longrightarrow> leaf (memory s') r' b = copied_leaf (memory s) old new 0 hi r' b"
  shows "uload (memory s') r' b = uload (memory s) (if r' = new \<and> b < hi then old else r') b"
    and "uwritable (memory s') r' b = uwritable (memory s) (if r' = new \<and> b < hi then old else r') b"
proof -
  let ?r = "if r' = new \<and> b < hi then old else r'"
  have rr: "?r \<in> Rs" using r by auto
  have bits: "PTE2PA (leaf (memory s') r' b) = PTE2PA (leaf (memory s) ?r b) \<and>
    (\<forall>i \<in> {0, 1, 4}. bit (leaf (memory s') r' b) i = bit (leaf (memory s) ?r b) i) \<and>
    (bit (leaf (memory s') r' b) 2 \<or> bit (leaf (memory s') r' b) 8 \<longleftrightarrow>
     bit (leaf (memory s) ?r b) 2 \<or> bit (leaf (memory s) ?r b) 8)" if b: "b < MAXVA"
  proof (cases "r' = new \<and> b < hi")
    case True
    then have "PGROUNDDOWN b < hi" by (simp add: PGROUNDDOWN_less)
    then have "bit (leaf (memory s) old b) 0" using val [of "PGROUNDDOWN b"] leaf_page [OF b] by simp
    with True l [OF b] r(3) show ?thesis
      by (auto simp: copied_leaf_def child_entry_props bit_cowed)
  next
    case False
    with l [OF b] show ?thesis by (auto simp: copied_leaf_def bit_cowed)
  qed
  show "uload (memory s') r' b = uload (memory s) ?r b"
  proof (cases "b < MAXVA")
    case True
    show ?thesis
      by (rule uload_keeps [OF vk k rr True]) (use bits [OF True] in auto)
  qed (simp add: uload_def)
  show "uwritable (memory s') r' b = uwritable (memory s) ?r b"
  proof (cases "b < MAXVA")
    case True
    show ?thesis by (rule uwritable_eq) (use bits [OF True] in auto)
  qed (simp add: uwritable_def)
qed

lemma failed_view:
  assumes vk: "vok s Rs E" "vok s' Rs E" and r: "r' \<in> Rs" and hi: "hi \<le> TRAPFRAME"
    and new: "new \<in> Rs" "\<And>b. aligned 12 b \<Longrightarrow> b < TRAPFRAME \<Longrightarrow> \<not> bit (leaf (memory s) new b) 0"
    and m: "\<And>x. data s Rs x \<Longrightarrow> data s' Rs x \<Longrightarrow> memory s' x = memory s x"
    and l: "\<And>r' b. r' \<in> Rs \<Longrightarrow> b < MAXVA \<Longrightarrow> failed_leaf (memory s) old new hi r' b (leaf (memory s') r' b)"
  shows "uload (memory s') r' b = uload (memory s) r' b" and "uwritable (memory s') r' b = uwritable (memory s) r' b"
proof -
  have "uload (memory s') r' b = uload (memory s) r' b \<and> uwritable (memory s') r' b = uwritable (memory s) r' b"
  proof (cases "r' = new")
    case True
    have "\<not> bit (leaf (memory s') new b) 0" if "aligned 12 b" "b < TRAPFRAME" for b
      using l [OF new(1) below_TRAPFRAME [OF that(2)]] new(2) [OF that] by (auto simp: failed_leaf_def split: if_splits)
    then show ?thesis
      using True uload_user_None [OF vok_vinv [OF vk(1)] new] uload_user_None [OF vok_vinv [OF vk(2)] new(1)] by simp
  next
    case False
    show ?thesis
    proof (cases "b < MAXVA")
      case True
      let ?e = "leaf (memory s) r' b" and ?e' = "leaf (memory s') r' b"
      have "?e' = ?e \<or> ?e' = cowed ?e" using l [OF r True] False by (auto simp: failed_leaf_def)
      then have bits: "PTE2PA ?e' = PTE2PA ?e" "\<And>i. i \<in> {0, 1, 4} \<Longrightarrow> bit ?e' i = bit ?e i"
        "bit ?e' 2 \<or> bit ?e' 8 \<longleftrightarrow> bit ?e 2 \<or> bit ?e 8" by (auto simp: bit_cowed)
      have "uload (memory s') r' b = uload (memory s) r' b"
      proof (rule uload_eq [OF True bits(1,2) refl refl])
        assume e: "bit ?e 0" "bit ?e 4"
        note d = mapped_data [OF vok_vinv [OF vk(1)] user_mapped [OF vok_vinv [OF vk(1)] r True e]
            vok_nonneg [OF vk(1)] page_offset]
        have e': "bit ?e' 0" "bit ?e' 4" using e bits(2) by auto
        note d' = mapped_data [OF vok_vinv [OF vk(2)] user_mapped [OF vok_vinv [OF vk(2)] r True e']
            vok_nonneg [OF vk(2)] page_offset]
        show "memory s' (PTE2PA ?e + (b - PGROUNDDOWN b)) = memory s (PTE2PA ?e + (b - PGROUNDDOWN b))"
          using m [OF d] d' unfolding bits(1) by blast
      qed
      moreover have "uwritable (memory s') r' b = uwritable (memory s) r' b"
        by (rule uwritable_eq) (use bits in auto)
      ultimately show ?thesis ..
    qed (simp add: uload_def uwritable_def)
  qed
  then show "uload (memory s') r' b = uload (memory s) r' b" "uwritable (memory s') r' b = uwritable (memory s) r' b" by auto
qed

lemma uvmcopy_spec:
  assumes vk: "vok s Rs E" and r: "old \<in> Rs" "new \<in> Rs" "old \<noteq> new" and card: "card Rs \<le> 255"
    and sz: "sz \<le> TRAPFRAME"
    and val: "\<And>b. aligned 12 b \<Longrightarrow> b < sz \<Longrightarrow> bit (leaf (memory s) old b) 0"
    and emp: "\<And>b. aligned 12 b \<Longrightarrow> b < TRAPFRAME \<Longrightarrow> \<not> bit (leaf (memory s) new b) 0"
  shows "\<exists>res s'. uvmcopy s old new sz = Ok (res, s') \<and> (res = 0 \<or> res = -1) \<and> vok s' Rs E \<and> page_ok s' = page_ok s \<and>
    (\<forall>x. kdata s E x \<longrightarrow> memory s' x = memory s x) \<and>
    (\<forall>r' \<in> Rs. \<forall>b. let r0 = if res = 0 \<and> r' = new \<and> b < PGROUNDUP sz then old else r' in
       uload (memory s') r' b = uload (memory s) r0 b \<and> uwritable (memory s') r' b = uwritable (memory s) r0 b)"
proof -
  let ?hi = "PGROUNDUP sz"
  note hi = PGROUNDUP_user [OF sz]
  have vh: "\<And>b. aligned 12 b \<Longrightarrow> b < ?hi \<Longrightarrow> bit (leaf (memory s) old b) 0" using val hi(2) by simp
  have al0: "aligned 12 0" by (simp add: aligned_def)
  have "\<not> bit (leaf (memory s) new b) 0" if "aligned 12 b" "b < ?hi" for b
    using emp [OF that(1)] that(2) hi(1) by (meson less_le_trans)
  then have c: "copying s Rs E old new 0 ?hi"
    using vk r card hi(1) vh emp al0 by (simp add: copying_def)
  obtain res s' where run: "uvmcopy_loop s old new 0 sz = Ok (res, s')" "vok s' Rs E"
    and st: "if res = 0 then keeps s Rs s' \<and>
       (\<forall>r' \<in> Rs. \<forall>b < MAXVA. leaf (memory s') r' b = copied_leaf (memory s) old new 0 ?hi r' b)
     else res = -1 \<and> page_ok s' = page_ok s \<and> (\<forall>x. data s Rs x \<longrightarrow> data s' Rs x \<longrightarrow> memory s' x = memory s x) \<and>
       (\<forall>r' \<in> Rs. \<forall>b < MAXVA. failed_leaf (memory s) old new ?hi r' b (leaf (memory s') r' b))"
    using uvmcopy_loop_spec [OF c hi(2)] by blast
  have ok: "page_ok s' = page_ok s" using st keeps_page_ok by (auto split: if_splits)
  have kd: "memory s' x = memory s x" if "kdata s E x" for x
  proof -
    have "kdata s' E x" using that ok by (simp add: kdata_def)
    then have "data s Rs x" "data s' Rs x"
      using kdata_data [OF vok_vinv [OF vk] that] kdata_data [OF vok_vinv [OF run(2)]] by auto
    then show ?thesis using st keeps_memory by (auto split: if_splits)
  qed
  show ?thesis
  proof (cases "res = 0")
    case True
    have "uload (memory s') r' b = uload (memory s) (if r' = new \<and> b < ?hi then old else r') b \<and>
      uwritable (memory s') r' b = uwritable (memory s) (if r' = new \<and> b < ?hi then old else r') b" if "r' \<in> Rs" for r' b
      using copied_view [OF vk _ r(1) that r(3) hi(1) vh] st True that by simp
    with run ok kd True show ?thesis by (simp add: uvmcopy_def Let_def)
  next
    case False
    have "uload (memory s') r' b = uload (memory s) r' b \<and> uwritable (memory s') r' b = uwritable (memory s) r' b"
      if "r' \<in> Rs" for r' b
      using failed_view [OF vk run(2) that hi(1) r(2) emp, where old = old] st False by auto
    with run ok kd False st show ?thesis by (simp add: uvmcopy_def Let_def)
  qed
qed

end
