(* ===== verification/Fault.thy ===== *)
theory Fault
  imports Cow
begin

text \<open>
  The copy-on-write fault handler, user stores that go through it, and the copies between
  kernel and user memory.
\<close>

section \<open>The fault handler\<close>

definition private_entry :: "u64 \<Rightarrow> u64 \<Rightarrow> u64" where
  "private_entry e pg = PTE_FLAGS e AND NOT PTE_COW OR PTE_W OR PA2PTE pg"

lemma private_entry_props:
  assumes "aligned 12 pg"
  shows "PTE2PA (private_entry e pg) = pg" and "i < 8 \<Longrightarrow> bit (private_entry e pg) i \<longleftrightarrow> bit e i \<or> i = 2"
proof -
  have "private_entry e pg = PA2PTE pg OR (PTE_FLAGS e AND NOT PTE_COW OR PTE_W)"
    by (simp add: private_entry_def ac_simps)
  moreover have "PTE_FLAGS (PTE_FLAGS e AND NOT PTE_COW OR PTE_W) = PTE_FLAGS e AND NOT PTE_COW OR PTE_W"
    by (simp add: PTE_FLAGS_or PTE_FLAGS_and_not)
  ultimately show "PTE2PA (private_entry e pg) = pg" using PTE2PA_entry [OF assms] by simp
  show "i < 8 \<Longrightarrow> bit (private_entry e pg) i \<longleftrightarrow> bit e i \<or> i = 2"
    by (auto simp: private_entry_def pte_bits bit_not_iff possible_bit_def)
qed

lemma PX_0_page: "PX 0 (PGROUNDDOWN va) = PX 0 va"
  by (rule bit_eqI) (simp add: bit_PX PXSHIFT_def PGROUNDDOWN_blk bit_blk)

lemma tab_page:
  assumes "va < MAXVA"
  shows "tab m r (PGROUNDDOWN va) 2 = tab m r va 2" and "slot t 0 (PGROUNDDOWN va) = slot t 0 va"
proof -
  have "same 3 (PGROUNDDOWN va) va"
    using same_3 [OF PGROUNDDOWN_less [OF assms] assms] by (simp add: PGROUNDDOWN_blk)
  then have "same 2 (PGROUNDDOWN va) va" by (simp add: numeral_3_eq_3 numeral_2_eq_2 same_Suc)
  then show "tab m r (PGROUNDDOWN va) 2 = tab m r va 2" by (rule tab_same)
  show "slot t 0 (PGROUNDDOWN va) = slot t 0 va" by (simp add: slot_def PX_0_page)
qed

text \<open>
  The copying branch: a fresh page \<open>pg\<close> gets the contents of the shared page \<open>pa\<close> and takes
  its place in the entry. Until \<^verbatim>\<open>kfree\<close> the old page has one reference too many.
\<close>

lemma cow_switch:
  assumes vk: "vok s Rs E" and r: "r \<in> Rs" and a: "aligned 12 a" "a < TRAPFRAME"
    and t: "tab (memory s) r a 2 = Some t" and e: "leaf (memory s) r a = e" "bit e 0" "PTE2PA e = pa"
    and k: "kalloc s = Ok (pg, s1)" and nz: "pg \<noteq> 0"
  defines "m \<equiv> memmove (st64 (memory s1) (slot t 0 a) (private_entry e pg)) pg pa 4096"
  shows "vinv (s1\<lparr>memory := m\<rparr>) Rs (E(pa := 1))" and "ld64 (memory s1) (slot t 0 a) = e"
    and "\<And>r' b. r' \<in> Rs \<Longrightarrow> b < MAXVA \<Longrightarrow> leaf m r' b =
      (if r' = r \<and> PGROUNDDOWN b = a then private_entry e pg else leaf (memory s) r' b)"
    and "\<And>x. blk 12 x = pg \<Longrightarrow> m x = memory s (pa + (x - pg))"
    and "\<And>x. blk 12 x \<noteq> pg \<Longrightarrow> blk 12 x \<notin> tabs (memory s) Rs \<Longrightarrow> m x = memory s x"
    and "refs s1 pa = refs s pa"
proof -
  note v = vok_vinv [OF vk]
  note ka = vinv_kalloc [OF v vok_nonneg [OF vk] k nz]
  define w where "w = private_entry e pg"
  define m2 where "m2 = st64 (memory s1) (slot t 0 a) w"
  have pg12: "aligned 12 pg" by (rule page_ok_aligned [OF ka(2)])
  note pe = private_entry_props [OF pg12, where e = e, folded w_def]
  have ma: "(r, a) \<in> maps (memory s) Rs pa" using r a e by (simp add: maps_def)
  note mr = mapped_refs [OF v ma vok_nonneg [OF vk]]
  have b1: "bit e 1" using vinv_leaf [OF v r a] e by (auto simp: leaf_ok_def Let_def)
  have ne: "pa \<noteq> pg" using ma ka(7) by auto
  have Epa: "E pa = 0" using vok_mapped [OF vk] ma by auto
  have t1: "tab (memory s1) r a 2 = Some t" using ka(9) [OF r] t by simp
  have l1: "leaf (memory s1) r a = e" using ka(10) [OF r] e(1) by simp
  show "ld64 (memory s1) (slot t 0 a) = e" using l1 t1 by (simp add: leaf_def)
  have mv: "moved e w (E(pg := 1)) = E(pa := 1)"
    using e pe ne ka(5) Epa by (auto simp: moved_def)
  have tt: "t \<in> tabs (memory s) Rs" using r t by (intro tabsI [of r _ 2]) simp_all
  have "vinv (s1\<lparr>memory := m2\<rparr>) Rs (moved (leaf (memory s1) r a) w (E(pg := 1)))"
    unfolding m2_def
  proof (rule vinv_write_leaf [OF ka(1) r t1 a])
    show "page_ok s1 (PTE2PA w) \<and> PTE2PA w \<notin> tabs (memory s1) Rs \<and> bit w 1"
      using pe b1 ka(2,4,6,11) by simp
    show "maps (memory s1) Rs (PTE2PA w) \<subseteq> {(r, a)} \<and> moved (leaf (memory s1) r a) w (E(pg := 1)) (PTE2PA w) = 0"
      using mv pe ka(5,7,12) ne by (simp add: l1)
    fix r' b assume "(r', b) \<in> maps (memory s1) Rs (PTE2PA w)"
    then show "r' \<noteq> r \<and> \<not> bit (leaf (memory s1) r' b) 2" using pe(1) ka(7,12) by simp
  qed
  then have v2: "vinv (s1\<lparr>memory := m2\<rparr>) Rs (E(pa := 1))" unfolding l1 mv .
  have m2mem: "m2 x = memory s1 x" if "blk 12 x \<noteq> t" for x
    using that sep_aligned [OF vinv_sep [OF v] tt] by (simp add: m2_def st64_slot_out)
  have ts2: "tabs m2 Rs = tabs (memory s) Rs"
    using keeps_write_leaf(2) [OF ka(1) r t1] ka(11) by (simp add: m2_def)
  have m: "m x = (if blk 12 x = pg then m2 (pa + (x - pg)) else m2 x)" for x
    using memmove_page [OF pg12 page_ok_aligned [OF mr(1)], of m2] page_ok_unat [OF ka(2)] page_ok_unat [OF mr(1)]
    by (simp add: m_def m2_def w_def)
  have d: "m x = memory (s1\<lparr>memory := m2\<rparr>) x" if "\<not> data (s1\<lparr>memory := m2\<rparr>) Rs x" for x
    using that m [of x] ka(2,4,6,13) ts2 by (auto simp: data_def)
  note dw = vinv_data_write [OF v2 d, simplified]
  show "vinv (s1\<lparr>memory := m\<rparr>) Rs (E(pa := 1))" by (rule dw(1))
  show "leaf m r' b = (if r' = r \<and> PGROUNDDOWN b = a then private_entry e pg else leaf (memory s) r' b)"
    if "r' \<in> Rs" "b < MAXVA" for r' b
    using dw(3) [OF that(1)] leaf_write_user [OF vinv_sep [OF ka(1)] r t1 a that, of w] ka(10) [OF that(1)]
    by (simp add: m2_def w_def)
  show "m x = memory s (pa + (x - pg))" if x: "blk 12 x = pg" for x
  proof -
    have "unat (x - pg) < 2 ^ 12" using in_blk_iff [OF pg12, of x] x by simp
    then have "blk 12 (pa + (x - pg)) = pa" using page_ok_aligned [OF mr(1)] by (intro blk_offset) simp_all
    moreover have "t \<noteq> pa" using tt mr(3) by auto
    ultimately show ?thesis using x ne m [of x] m2mem ka(8) by auto
  qed
  show "m x = memory s x" if "blk 12 x \<noteq> pg" "blk 12 x \<notin> tabs (memory s) Rs" for x
    using that m [of x] m2mem [of x] tt ka(8) by auto
  show "refs s1 pa = refs s pa" using ka(13) [OF mr(1)] ne by simp
qed

lemma cow_copy:
  assumes vk: "vok s Rs E" and r: "r \<in> Rs" and a: "aligned 12 a" "a < TRAPFRAME"
    and t: "tab (memory s) r a 2 = Some t" and e: "leaf (memory s) r a = e" "bit e 0" "PTE2PA e = pa"
    and k: "kalloc s = Ok (pg, s1)" and nz: "pg \<noteq> 0"
  defines "m \<equiv> memmove (st64 (memory s1) (slot t 0 a) (private_entry e pg)) pg pa 4096"
  shows "\<exists>s'. kfree (s1\<lparr>memory := m\<rparr>) pa = Ok s' \<and> vok s' Rs E \<and> page_ok s' = page_ok s \<and>
    (\<forall>x. kdata s E x \<longrightarrow> memory s' x = memory s x) \<and>
    (\<forall>r' \<in> Rs. \<forall>b < MAXVA. leaf (memory s') r' b =
       (if r' = r \<and> PGROUNDDOWN b = a then private_entry e pg else leaf (memory s) r' b)) \<and>
    (\<forall>x. blk 12 x = pg \<longrightarrow> memory s' x = memory s (pa + (x - pg))) \<and>
    (\<forall>r' b q x. (r', b) \<in> maps (memory s) Rs q \<longrightarrow> (r', b) \<noteq> (r, a) \<longrightarrow> blk 12 x = q \<longrightarrow> memory s' x = memory s x)"
proof -
  note v = vok_vinv [OF vk]
  note ka = vinv_kalloc [OF v vok_nonneg [OF vk] k nz]
  note sw = cow_switch [OF vk r a t e k nz, folded m_def]
  have ma: "(r, a) \<in> maps (memory s) Rs pa" using r a e by (simp add: maps_def)
  note mr = mapped_refs [OF v ma vok_nonneg [OF vk]]
  have ne: "pa \<noteq> pg" using ma ka(7) by auto
  have Epa: "E pa = 0" using vok_mapped [OF vk] ma by auto
  have pok: "page_ok (s1\<lparr>memory := m\<rparr>) pa" using ka(4) mr by simp
  have pos: "0 < (E(pa := 1)) pa" by simp
  obtain s' where f: "kfree (s1\<lparr>memory := m\<rparr>) pa = Ok s'" "vinv s' Rs ((E(pa := 1))(pa := (E(pa := 1)) pa - 1))"
      "page_ok s' = page_ok (s1\<lparr>memory := m\<rparr>)"
      "\<forall>x. blk 12 x \<noteq> pa \<or> 1 < refs (s1\<lparr>memory := m\<rparr>) pa \<longrightarrow> memory s' x = memory (s1\<lparr>memory := m\<rparr>) x"
      "\<forall>r va. r \<in> Rs \<longrightarrow> leaf (memory s') r va = leaf (memory (s1\<lparr>memory := m\<rparr>)) r va"
    using vinv_free [OF sw(1) pok pos] by blast
  have EE: "(E(pa := 1))(pa := (E(pa := 1)) pa - 1) = E" using Epa by auto
  have ok': "page_ok s' = page_ok s" using f(3) ka(4) by auto
  have l': "leaf (memory s') r' b = (if r' = r \<and> PGROUNDDOWN b = a then private_entry e pg else leaf (memory s) r' b)"
    if "r' \<in> Rs" "b < MAXVA" for r' b
    using f(5) sw(3) [OF that] that by simp
  have mem: "memory s' x = memory s x"
    if x: "blk 12 x \<notin> tabs (memory s) Rs" "blk 12 x \<noteq> pg" "blk 12 x \<noteq> pa \<or> 1 < refs s pa" for x
    using f(4) x sw(5) [OF x(2,1)] sw(6) by simp
  have "E p = 0" if mp: "maps (memory s') Rs p \<noteq> {}" for p
  proof -
    obtain r' b where b: "r' \<in> Rs" "aligned 12 b" "b < TRAPFRAME" "bit (leaf (memory s') r' b) 0" "PTE2PA (leaf (memory s') r' b) = p"
      using mp by (auto simp: maps_def)
    note lb = l' [OF b(1) below_TRAPFRAME [OF b(3)]]
    have "p = pg \<or> (r', b) \<in> maps (memory s) Rs p"
      using b lb private_entry_props(1) [OF page_ok_aligned [OF ka(2)], of e] by (auto simp: maps_def split: if_splits)
    then show ?thesis using ka(5) vok_mapped [OF vk] by auto
  qed
  then have vk': "vok s' Rs E" using f(2) vk unfolding EE by (simp add: vok_def)
  have kd: "memory s' x = memory s x" if "kdata s E x" for x
  proof (rule mem)
    show "blk 12 x \<notin> tabs (memory s) Rs" using kdata_data [OF v that] by (simp add: data_def)
    show "blk 12 x \<noteq> pg" using that ka(2,5) by (auto simp: kdata_def)
    show "blk 12 x \<noteq> pa \<or> 1 < refs s pa" using that mr(1) Epa by (auto simp: kdata_def)
  qed
  have cp: "memory s' x = memory s (pa + (x - pg))" if "blk 12 x = pg" for x
    using f(4) that ne sw(4) [OF that] by simp
  have oth: "memory s' x = memory s x" if q: "(r', b) \<in> maps (memory s) Rs q" "(r', b) \<noteq> (r, a)" "blk 12 x = q" for r' b q x
  proof (rule mem)
    show "blk 12 x \<notin> tabs (memory s) Rs" using mapped_refs(3) [OF v q(1) vok_nonneg [OF vk]] q(3) by simp
    show "blk 12 x \<noteq> pg" using q ka(7) by auto
    have "1 < refs s pa" if "q = pa"
    proof -
      have "card {(r', b), (r, a)} \<le> card (maps (memory s) Rs pa)" using q(1) ma that by (intro card_mono) auto
      then show ?thesis using q(2) vinv_refs [OF v mr(1)] Epa mr(3) by auto
    qed
    then show "blk 12 x \<noteq> pa \<or> 1 < refs s pa" using q(3) by auto
  qed
  show ?thesis using f(1) vk' ok' kd l' cp oth by blast
qed

text \<open>The handler changes no byte that a program sees, and a 0 makes the page writable.\<close>

definition same_view :: "mem \<Rightarrow> mem \<Rightarrow> u64 set \<Rightarrow> bool" where
  "same_view m m' Rs \<longleftrightarrow> (\<forall>r \<in> Rs. \<forall>b. uload m' r b = uload m r b \<and> uwritable m' r b = uwritable m r b)"

lemma same_view_refl [simp]: "same_view m m Rs"
  by (simp add: same_view_def)

lemma cow_copy_view:
  assumes vk: "vok s Rs E" and r: "r \<in> Rs" and va: "va < MAXVA"
    and e: "leaf (memory s) r va = e" "bit e 0" "bit e 4" "bit e 8" and pg: "aligned 12 pg"
    and l: "\<And>r' b. r' \<in> Rs \<Longrightarrow> b < MAXVA \<Longrightarrow> leaf (memory s') r' b =
       (if r' = r \<and> PGROUNDDOWN b = PGROUNDDOWN va then private_entry e pg else leaf (memory s) r' b)"
    and cp: "\<And>x. blk 12 x = pg \<Longrightarrow> memory s' x = memory s (PTE2PA e + (x - pg))"
    and oth: "\<And>r' b q x. (r', b) \<in> maps (memory s) Rs q \<Longrightarrow> (r', b) \<noteq> (r, PGROUNDDOWN va) \<Longrightarrow> blk 12 x = q \<Longrightarrow>
       memory s' x = memory s x"
  shows "same_view (memory s) (memory s') Rs"
  unfolding same_view_def
proof (intro ballI allI)
  fix r' b assume r': "r' \<in> Rs"
  note pe = private_entry_props [OF pg]
  show "uload (memory s') r' b = uload (memory s) r' b \<and> uwritable (memory s') r' b = uwritable (memory s) r' b"
  proof (cases "b < MAXVA")
    case b: True
    show ?thesis
    proof (cases "r' = r \<and> PGROUNDDOWN b = PGROUNDDOWN va")
      case True
      have le: "leaf (memory s) r' b = e" using True leaf_page [OF b] leaf_page [OF va] e(1) by metis
      have le': "leaf (memory s') r' b = private_entry e pg" using l [OF r' b] True by simp
      have pin: "blk 12 (pg + (b - PGROUNDDOWN b)) = pg" using page_offset [of "private_entry e pg" b] pe(1) by simp
      show ?thesis using cp [OF pin] b e by (simp add: uload_def uwritable_def le le' pe)
    next
      case False
      have le: "leaf (memory s') r' b = leaf (memory s) r' b" using l [OF r' b] False by simp
      have "uload (memory s') r' b = uload (memory s) r' b"
      proof (rule uload_eq [OF b refl refl refl le])
        assume e': "bit (leaf (memory s) r' b) 0" "bit (leaf (memory s) r' b) 4"
        show "memory s' (PTE2PA (leaf (memory s) r' b) + (b - PGROUNDDOWN b)) =
            memory s (PTE2PA (leaf (memory s) r' b) + (b - PGROUNDDOWN b))"
          by (rule oth [OF user_mapped [OF vok_vinv [OF vk] r' b e'] _ page_offset]) (use False in auto)
      qed
      then show ?thesis by (simp add: uwritable_def le)
    qed
  qed (simp add: uload_def uwritable_def)
qed

lemma handler_range: "va = 0 \<or> \<not> va < MAXVA \<Longrightarrow> cow_page_fault_handler s r va = Ok (-1, s)"
  by (auto simp: cow_page_fault_handler_def not_less)

lemma cow_handler_spec:
  assumes vk: "vok s Rs E" and r: "r \<in> Rs" and va: "va \<noteq> 0" "va < MAXVA"
  shows "\<exists>ret s'. cow_page_fault_handler s r va = Ok (ret, s') \<and> vok s' Rs E \<and> page_ok s' = page_ok s \<and>
    (\<forall>x. kdata s E x \<longrightarrow> memory s' x = memory s x) \<and> same_view (memory s) (memory s') Rs \<and>
    (if ret = 0 then uwritable (memory s) r va \<and> bit (leaf (memory s') r va) 2
     else ret = -1 \<and> s' = s \<and> (\<not> uwritable (memory s) r va \<or> full s))"
proof -
  note v = vok_vinv [OF vk]
  define e where "e = leaf (memory s) r va"
  show ?thesis
  proof (cases "bit e 0 \<and> bit e 4")
    case False
    then have "cow_page_fault_handler s r va = Ok (-1, s)"
      using va by (auto simp: cow_page_fault_handler_def walk_False e_def leaf_def flag_test0 not_le Let_def split: option.splits)
    moreover have "\<not> uwritable (memory s) r va" using False by (auto simp: uwritable_def Let_def e_def)
    ultimately show ?thesis using vk by auto
  next
    case vu: True
    then obtain t where t: "tab (memory s) r va 2 = Some t" and ld: "ld64 (memory s) (slot t 0 va) = e"
      using leaf_Some_tab unfolding e_def by blast
    obtain pg s1 where k: "kalloc s = Ok (pg, s1)" using kalloc_total [OF v] by auto
    have nva: "\<not> (va = 0 \<or> MAXVA \<le> va)" using va by (simp add: not_le)
    have run: "cow_page_fault_handler s r va =
        (if bit e 2 then Ok (0, s) else if \<not> bit e 8 then Ok (-1, s) else if pg = 0 then Ok (-1, s1) else
          bnd (kfree (s1\<lparr>memory := memmove (st64 (memory s1) (slot t 0 va)
            (private_entry (ld64 (memory s1) (slot t 0 va)) pg)) pg (PTE2PA e) 4096\<rparr>) (PTE2PA e)) (\<lambda>s. Ok (0, s)))"
      unfolding cow_page_fault_handler_def if_not_P [OF nva] walk_False [OF va(2)]
      using vu ld slot_tab_nz [OF v r t] k
      by (simp add: t flag_test flag_test0 Let_def private_entry_def ucast_PGSIZE)
    have wr: "uwritable (memory s) r va \<longleftrightarrow> bit e 2 \<or> bit e 8" using vu va by (simp add: uwritable_def Let_def e_def)
    show ?thesis
    proof (cases "bit e 2 \<or> \<not> bit e 8")
      case True
      then show ?thesis using run wr vk by (cases "bit e 2") (auto simp: e_def)
    next
      case False
      show ?thesis
      proof (cases "pg = 0")
        case True
        then show ?thesis using run k False kalloc_full [OF v] vk by auto
      next
        case nz: False
        let ?a = "PGROUNDDOWN va"
        have a: "aligned 12 ?a" "?a < TRAPFRAME" using user_below [OF v r va(2)] vu by (auto simp: e_def)
        have ta: "tab (memory s) r ?a 2 = Some t" using tab_page(1) [OF va(2)] t by simp
        have la: "leaf (memory s) r ?a = e" using leaf_page [OF va(2)] by (simp add: e_def)
        note sl = tab_page(2) [OF va(2), of t]
        obtain s' where s': "kfree (s1\<lparr>memory := memmove (st64 (memory s1) (slot t 0 va) (private_entry e pg)) pg (PTE2PA e) 4096\<rparr>) (PTE2PA e) = Ok s'"
            "vok s' Rs E" "page_ok s' = page_ok s" "\<forall>x. kdata s E x \<longrightarrow> memory s' x = memory s x"
          and l': "\<forall>r' \<in> Rs. \<forall>b < MAXVA. leaf (memory s') r' b = (if r' = r \<and> PGROUNDDOWN b = ?a then private_entry e pg else leaf (memory s) r' b)"
          and cp: "\<forall>x. blk 12 x = pg \<longrightarrow> memory s' x = memory s (PTE2PA e + (x - pg))"
          and oth: "\<forall>r' b q x. (r', b) \<in> maps (memory s) Rs q \<longrightarrow> (r', b) \<noteq> (r, ?a) \<longrightarrow> blk 12 x = q \<longrightarrow> memory s' x = memory s x"
          using cow_copy [OF vk r a ta la _ refl k nz] vu unfolding sl by blast
        have ld1: "ld64 (memory s1) (slot t 0 va) = e"
          using cow_switch(2) [OF vk r a ta la _ refl k nz] vu unfolding sl by blast
        have pg12: "aligned 12 pg"
          using vinv_kalloc(2) [OF v vok_nonneg [OF vk] k nz] by (rule page_ok_aligned)
        have "same_view (memory s) (memory s') Rs"
          using cow_copy_view [OF vk r va(2) e_def [symmetric] _ _ _ pg12] vu False l' cp oth by blast
        moreover have "bit (leaf (memory s') r va) 2" using l' r va(2) private_entry_props(2) [OF pg12, of 2 e] by simp
        moreover have "cow_page_fault_handler s r va = Ok (0, s')" using run k nz False ld1 s'(1) by simp
        ultimately show ?thesis using s' wr False by auto
      qed
    qed
  qed
qed

section \<open>Stores of user programs\<close>

text \<open>Changing the bytes of a writable user page changes what one program sees, on that page.\<close>

lemma user_page_write:
  assumes vk: "vok s Rs E" and r: "r \<in> Rs" and va: "va < MAXVA"
    and e: "leaf (memory s) r va = e" "bit e 0" "bit e 4" "bit e 2"
    and m: "\<And>x. blk 12 x \<noteq> PTE2PA e \<Longrightarrow> m x = memory s x"
  shows "vok (s\<lparr>memory := m\<rparr>) Rs E" and "\<And>x. kdata s E x \<Longrightarrow> m x = memory s x"
    and "\<And>r' c. r' \<in> Rs \<Longrightarrow> uload m r' c =
      (if r' = r \<and> PGROUNDDOWN c = PGROUNDDOWN va \<and> c < MAXVA then Some (m (PTE2PA e + (c - PGROUNDDOWN va)))
       else uload (memory s) r' c)"
    and "\<And>r' c. r' \<in> Rs \<Longrightarrow> uwritable m r' c = uwritable (memory s) r' c"
    and "\<And>r' c. r' \<in> Rs \<Longrightarrow> leaf m r' c = leaf (memory s) r' c"
proof -
  note v = vok_vinv [OF vk]
  have um: "(r, PGROUNDDOWN va) \<in> maps (memory s) Rs (PTE2PA e)"
    using user_mapped [OF v r va] e by simp
  note mr = mapped_refs [OF v um vok_nonneg [OF vk]]
  have Epa: "E (PTE2PA e) = 0" using vok_mapped [OF vk] um by auto
  have ra: "aligned 12 (PGROUNDDOWN va)" "PGROUNDDOWN va < TRAPFRAME" using um by (auto simp: maps_def)
  have lk: "bit e 1" "maps (memory s) Rs (PTE2PA e) = {(r, PGROUNDDOWN va)}"
    using vinv_leaf [OF v r ra] e leaf_page [OF va, of "memory s" r] by (auto simp: leaf_ok_def Let_def)
  have d: "m x = memory s x" if "\<not> data s Rs x" for x
    using that m [of x] mr by (cases "blk 12 x = PTE2PA e") (auto simp: data_def)
  note dw = vinv_data_write [OF v]
  show l: "leaf m r' c = leaf (memory s) r' c" if "r' \<in> Rs" for r' c using d that by (rule dw(3))
  then have "maps m Rs = maps (memory s) Rs" by (rule maps_cong)
  then show "vok (s\<lparr>memory := m\<rparr>) Rs E" using dw(1) [OF d] vk by (simp add: vok_def)
  show "m x = memory s x" if "kdata s E x" for x
    using that mr(1) Epa by (intro m) (auto simp: kdata_def)
  show "uwritable m r' c = uwritable (memory s) r' c" if "r' \<in> Rs" for r' c
    by (simp add: uwritable_def l [OF that])
  show "uload m r' c = (if r' = r \<and> PGROUNDDOWN c = PGROUNDDOWN va \<and> c < MAXVA
      then Some (m (PTE2PA e + (c - PGROUNDDOWN va))) else uload (memory s) r' c)" if r': "r' \<in> Rs" for r' c
  proof (cases "r' = r \<and> PGROUNDDOWN c = PGROUNDDOWN va \<and> c < MAXVA")
    case True
    then have "leaf (memory s) r c = e" using leaf_page [of c] leaf_page [OF va] e(1) by metis
    then show ?thesis using True e lk l [OF r] by (simp add: uload_def)
  next
    case False
    show ?thesis
    proof (cases "c < MAXVA")
      case c: True
      have "uload m r' c = uload (memory s) r' c"
      proof (rule uload_eq [OF c refl refl refl l [OF r']])
        assume e': "bit (leaf (memory s) r' c) 0" "bit (leaf (memory s) r' c) 4"
        note um' = user_mapped [OF v r' c e']
        have "PTE2PA (leaf (memory s) r' c) \<noteq> PTE2PA e"
        proof
          assume "PTE2PA (leaf (memory s) r' c) = PTE2PA e"
          then show False using um' lk(2) False c by auto
        qed
        then show "m (PTE2PA (leaf (memory s) r' c) + (c - PGROUNDDOWN c)) =
            memory s (PTE2PA (leaf (memory s) r' c) + (c - PGROUNDDOWN c))"
          using page_offset by (intro m) simp
      qed
      with False show ?thesis by auto
    qed (use False in \<open>simp add: uload_def\<close>)
  qed
qed

text \<open>
  A store instruction at \<open>va\<close> on page table \<open>r\<close>: the hardware writes through a valid,
  writable user entry; otherwise it traps, \<^verbatim>\<open>usertrap\<close> calls the handler, and on 0 the
  instruction runs again. The result tells whether the program survives.
\<close>

definition store_now :: "mem \<Rightarrow> u64 \<Rightarrow> u64 \<Rightarrow> u8 \<Rightarrow> mem option" where
  "store_now m r va b =
     (let e = leaf m r va in
      if va < MAXVA \<and> bit e 0 \<and> bit e 4 \<and> bit e 2 then Some (m(PTE2PA e + (va - PGROUNDDOWN va) := b)) else None)"

definition ustore :: "kst \<Rightarrow> u64 \<Rightarrow> u64 \<Rightarrow> u8 \<Rightarrow> (bool \<times> kst) res" where
  "ustore s r va b =
     (case store_now (memory s) r va b of
        Some m \<Rightarrow> Ok (True, s\<lparr>memory := m\<rparr>)
      | None \<Rightarrow>
          bnd (cow_page_fault_handler s r va) (\<lambda>(ret, s).
            if ret = -1 then Ok (False, s)
            else case store_now (memory s) r va b of
                   Some m \<Rightarrow> Ok (True, s\<lparr>memory := m\<rparr>) | None \<Rightarrow> Undef))"

lemma store_now_spec:
  assumes vk: "vok s Rs E" and r: "r \<in> Rs" and st: "store_now (memory s) r va b = Some m"
  shows "vok (s\<lparr>memory := m\<rparr>) Rs E" and "\<And>x. kdata s E x \<Longrightarrow> m x = memory s x"
    and "\<And>r' c. r' \<in> Rs \<Longrightarrow> uload m r' c = (if r' = r \<and> c = va then Some b else uload (memory s) r' c)"
    and "\<And>r' c. r' \<in> Rs \<Longrightarrow> uwritable m r' c = uwritable (memory s) r' c" and "uwritable (memory s) r va"
proof -
  define e where "e = leaf (memory s) r va"
  have e: "va < MAXVA" "bit e 0" "bit e 4" "bit e 2" and m: "m = (memory s)(PTE2PA e + (va - PGROUNDDOWN va) := b)"
    using st by (auto simp: store_now_def Let_def e_def split: if_splits)
  have fr: "m x = memory s x" if "blk 12 x \<noteq> PTE2PA e" for x
    using that page_offset by (auto simp: m)
  note up = user_page_write [OF vk r e(1) e_def [symmetric] e(2-4)]
  show "vok (s\<lparr>memory := m\<rparr>) Rs E" using fr by (rule up(1))
  show "m x = memory s x" if "kdata s E x" for x using fr that by (rule up(2))
  show "uwritable m r' c = uwritable (memory s) r' c" if "r' \<in> Rs" for r' c using fr that by (rule up(4))
  have ul: "uload m r' c = (if r' = r \<and> PGROUNDDOWN c = PGROUNDDOWN va \<and> c < MAXVA
      then Some (m (PTE2PA e + (c - PGROUNDDOWN va))) else uload (memory s) r' c)" if "r' \<in> Rs" for r' c
    using fr that by (rule up(3))
  show "uwritable (memory s) r va" using e by (simp add: uwritable_def e_def [symmetric])
  show "uload m r' c = (if r' = r \<and> c = va then Some b else uload (memory s) r' c)" if r': "r' \<in> Rs" for r' c
  proof (cases "r' = r \<and> PGROUNDDOWN c = PGROUNDDOWN va \<and> c < MAXVA")
    case True
    have bits: "bit e 1" using vinv_leaf [OF vok_vinv [OF vk] r, of "PGROUNDDOWN va"]
        user_below [OF vok_vinv [OF vk] r e(1)] e leaf_page [OF e(1), of "memory s" r] by (auto simp: leaf_ok_def Let_def e_def)
    have "leaf (memory s) r c = e" using True leaf_page [of c] leaf_page [OF e(1)] e_def by metis
    then have "uload (memory s) r c = Some (memory s (PTE2PA e + (c - PGROUNDDOWN va)))"
      using True e bits by (simp add: uload_def)
    then show ?thesis using True ul [OF r', of c] by (auto simp: m)
  next
    case False
    then show ?thesis using ul [OF r', of c] e(1) by auto
  qed
qed

lemma ustore_spec:
  assumes vk: "vok s Rs E" and r: "r \<in> Rs"
  shows "\<exists>ok s'. ustore s r va b = Ok (ok, s') \<and> vok s' Rs E \<and> (\<forall>x. kdata s E x \<longrightarrow> memory s' x = memory s x) \<and>
    (if ok then uwritable (memory s) r va
     else s' = s \<and> (\<not> uwritable (memory s) r va \<or> full s \<or> va = 0 \<and> \<not> bit (leaf (memory s) r va) 2)) \<and>
    (\<forall>r' \<in> Rs. \<forall>c. uwritable (memory s') r' c = uwritable (memory s) r' c \<and>
       uload (memory s') r' c = (if ok \<and> r' = r \<and> c = va then Some b else uload (memory s) r' c))"
proof (cases "store_now (memory s) r va b")
  case (Some m)
  have "ustore s r va b = Ok (True, s\<lparr>memory := m\<rparr>)" using Some by (simp add: ustore_def)
  then show ?thesis using store_now_spec [OF vk r Some] by auto
next
  case None
  show ?thesis
  proof (cases "va \<noteq> 0 \<and> va < MAXVA")
    case False
    then have "ustore s r va b = Ok (False, s)" using None by (auto simp: ustore_def handler_range)
    moreover have "\<not> uwritable (memory s) r va \<or> va = 0 \<and> \<not> bit (leaf (memory s) r va) 2"
      using None False by (auto simp: uwritable_def store_now_def Let_def split: if_splits)
    ultimately show ?thesis using vk by auto
  next
    case True
    obtain ret s1 where h: "cow_page_fault_handler s r va = Ok (ret, s1)" "vok s1 Rs E" "page_ok s1 = page_ok s"
        "\<forall>x. kdata s E x \<longrightarrow> memory s1 x = memory s x" and sv: "same_view (memory s) (memory s1) Rs"
      and st: "if ret = 0 then uwritable (memory s) r va \<and> bit (leaf (memory s1) r va) 2
        else ret = -1 \<and> s1 = s \<and> (\<not> uwritable (memory s) r va \<or> full s)"
      using cow_handler_spec [OF vk r, of va] True by blast
    show ?thesis
    proof (cases "ret = 0")
      case False
      then have "ustore s r va b = Ok (False, s)" using None h(1) st by (simp add: ustore_def)
      then show ?thesis using vk st False by auto
    next
      case ret: True
      have "uwritable (memory s1) r va" using sv st ret r by (simp add: same_view_def)
      then obtain m where m: "store_now (memory s1) r va b = Some m"
        using st ret True by (auto simp: uwritable_def store_now_def Let_def)
      have "ustore s r va b = Ok (True, s1\<lparr>memory := m\<rparr>)" using None h(1) ret m by (simp add: ustore_def)
      moreover note sp = store_now_spec [OF h(2) r m]
      moreover have "m x = memory s x" if "kdata s E x" for x
        using sp(2) [of x] h(3,4) that by (simp add: kdata_def)
      ultimately show ?thesis using sv st ret unfolding same_view_def by auto
    qed
  qed
qed

end
