(* ===== verification/Copy.thy ===== *)
theory Copy
  imports Fault
begin

text \<open>
  \<^verbatim>\<open>copyout\<close>, \<^verbatim>\<open>copyin\<close> and \<^verbatim>\<open>walkaddr\<close>: what the system calls use to move data between the
  kernel and a program.
\<close>

lemma walkaddr_leaf:
  assumes "vinv s Rs E" and "r \<in> Rs" and "va < MAXVA"
  shows "walkaddr s r va =
    Ok (let e = leaf (memory s) r va in if bit e 0 \<and> bit e 4 then PTE2PA e else 0)"
proof (cases "tab (memory s) r va 2")
  case None
  then show ?thesis using assms by (simp add: walkaddr_def walk_False leaf_def not_le [symmetric])
next
  case (Some t)
  then show ?thesis using assms slot_tab_nz [OF assms(1,2) Some]
    by (simp add: walkaddr_def walk_False leaf_def not_le [symmetric] flag_test0 Let_def)
qed

lemma user_pa:
  assumes "vok s Rs E" and "r \<in> Rs" and "va < MAXVA" and "bit (leaf (memory s) r va) 0" and "bit (leaf (memory s) r va) 4"
  shows "page_ok s (PTE2PA (leaf (memory s) r va))" and "PTE2PA (leaf (memory s) r va) \<noteq> 0"
    and "bit (leaf (memory s) r va) 1"
proof -
  note v = vok_vinv [OF assms(1)]
  note um = user_mapped [OF v assms(2-5)]
  show ok: "page_ok s (PTE2PA (leaf (memory s) r va))"
    by (rule mapped_refs(1) [OF v um vok_nonneg [OF assms(1)]])
  then show "PTE2PA (leaf (memory s) r va) \<noteq> 0" by (rule page_ok_nz)
  show "bit (leaf (memory s) r va) 1"
    using vinv_leaf [OF v assms(2), of "PGROUNDDOWN va"] um leaf_page [OF assms(3)]
    by (auto simp: maps_def leaf_ok_def Let_def)
qed

text \<open>The bytes of one round: they lie in the page of the first, and in one stretch.\<close>

lemma part_facts:
  fixes va :: u64
  assumes "len > 0"
  defines "n \<equiv> page_part va len"
  shows "0 < unat n" and "unat n \<le> unat len" and "unat n \<le> 4096" and "unat (ucast n :: u32) = unat n"
    and "unat (len - n) = unat len - unat n"
    and "len - n > 0 \<Longrightarrow> PGROUNDDOWN va + PGSIZE = va + n"
    and "\<And>c. unat (c - va) < unat n \<Longrightarrow> PGROUNDDOWN c = PGROUNDDOWN va"
    and "unat (va - PGROUNDDOWN va) + unat n \<le> 4096"
proof -
  have u: "unat n = min (4096 - unat va mod 4096) (unat len)" unfolding n_def by (rule unat_page_part)
  have lp: "0 < unat len" using assms(1) by (simp add: word_less_nat_alt)
  have md: "unat va mod 4096 < 4096" by simp
  show "0 < unat n" "unat n \<le> unat len" "unat n \<le> 4096" using u lp md by linarith+
  then show "unat (ucast n :: u32) = unat n"
    by (simp add: unsigned_ucast_eq take_bit_nat_eq_self_iff)
  show s: "unat (len - n) = unat len - unat n" using \<open>unat n \<le> unat len\<close> by (simp add: unat_sub word_le_nat_alt)
  have dv: "va - PGROUNDDOWN va = take_bit 12 va"
    using blk_plus_take_bit [of 12 va] unfolding PGROUNDDOWN_blk by (metis add_diff_cancel_left')
  have tb: "unat (take_bit 12 va) = unat va mod 4096" by (simp add: take_bit_eq_mod unat_mod)
  show "unat (va - PGROUNDDOWN va) + unat n \<le> 4096" unfolding dv tb using u md by linarith
  show "PGROUNDDOWN va + PGSIZE = va + n" if "len - n > 0"
  proof -
    have "unat n < unat len" using that s by (simp add: word_less_nat_alt)
    then have "unat n = 4096 - unat va mod 4096" using u by linarith
    then have "unat n = unat (PGSIZE - (va - PGROUNDDOWN va))"
      using dv tb md by (simp add: unat_sub PGSIZE_def word_le_nat_alt)
    then have "n = PGSIZE - (va - PGROUNDDOWN va)" by (simp add: word_unat_eq_iff)
    then show ?thesis by simp
  qed
  show "PGROUNDDOWN c = PGROUNDDOWN va" if "unat (c - va) < unat n" for c
  proof -
    have "unat (take_bit 12 va) + unat (c - va) < 4096" using that tb u md by linarith
    moreover from this have "unat (take_bit 12 va + (c - va)) = unat (take_bit 12 va) + unat (c - va)"
      by (simp add: unat_word_ariths)
    ultimately have "unat (take_bit 12 va + (c - va)) < 2 ^ 12" by simp
    then have "blk 12 (blk 12 va + (take_bit 12 va + (c - va))) = blk 12 va" by (intro blk_offset) simp_all
    moreover have "blk 12 va + (take_bit 12 va + (c - va)) = c"
      unfolding add.assoc [symmetric] blk_plus_take_bit by simp
    ultimately show ?thesis by (simp add: PGROUNDDOWN_blk)
  qed
qed

lemma range_split:
  fixes d n len :: u64
  assumes "unat n \<le> unat len"
  shows "unat d < unat len \<longleftrightarrow> unat d < unat n \<or> unat (d - n) < unat (len - n)"
proof -
  have l: "unat (len - n) = unat len - unat n" using assms by (simp add: unat_sub word_le_nat_alt)
  have "unat len < 2 ^ 64" using unsigned_less [of len] by simp
  then show ?thesis
    using unat_sub_wrap [of d n] unat_sub [of n d] l assms
    by (cases "unat d < unat n") (auto simp: word_le_nat_alt)
qed

section \<open>From the kernel to a program\<close>

lemma small_add: "unat a + unat b < 4096 \<Longrightarrow> unat (a + b :: u64) < 2 ^ 12"
  by (simp add: unat_word_ariths)

lemma copyout_round:
  assumes vk: "vok s Rs E" and r: "r \<in> Rs" and len: "len > 0"
    and w: "va < MAXVA" "leaf (memory s) r va = e" "bit e 0" "bit e 4" "bit e 2"
    and src: "unat src + unat len < 2 ^ 64"
  defines "n \<equiv> page_part va len"
  defines "m \<equiv> memmove (memory s) (PTE2PA e + (va - PGROUNDDOWN va)) src (ucast n)"
  shows "vok (s\<lparr>memory := m\<rparr>) Rs E" and "\<And>x. kdata s E x \<Longrightarrow> m x = memory s x"
    and "\<And>r' c. r' \<in> Rs \<Longrightarrow> uwritable m r' c = uwritable (memory s) r' c"
    and "\<And>r' c. r' \<in> Rs \<Longrightarrow> uload m r' c =
      (if r' = r \<and> unat (c - va) < unat n then Some (memory s (src + (c - va))) else uload (memory s) r' c)"
proof -
  note pf = part_facts [OF len, where va = va, folded n_def]
  let ?d = "PTE2PA e + (va - PGROUNDDOWN va)"
  have ok: "page_ok s (PTE2PA e)" and e1: "bit e 1" using user_pa [OF vk r w(1)] w by auto
  have ud: "unat ?d = unat (PTE2PA e) + unat (va - PGROUNDDOWN va)"
    using page_ok_unat [OF ok] pf(8) by (simp add: unat_word_ariths)
  have "m = copied (memory s) ?d src (unat n)"
    using memmove_eq [of src "ucast n" ?d "memory s"] src pf(2,3,4,8) ud page_ok_unat(2) [OF ok] by (simp add: m_def)
  then have m: "m x = (if unat (x - ?d) < unat n then memory s (src + (x - ?d)) else memory s x)" for x
    by (simp add: copied_def)
  have fr: "m x = memory s x" if x: "blk 12 x \<noteq> PTE2PA e" for x
  proof -
    have "\<not> unat (x - ?d) < unat n"
    proof
      assume lt: "unat (x - ?d) < unat n"
      then have "unat ((va - PGROUNDDOWN va) + (x - ?d)) < 2 ^ 12" using pf(8) by (intro small_add) linarith
      then have "blk 12 (PTE2PA e + ((va - PGROUNDDOWN va) + (x - ?d))) = PTE2PA e" by (intro blk_offset) simp_all
      with x show False by simp
    qed
    then show ?thesis by (simp add: m)
  qed
  note up = user_page_write [OF vk r w]
  show "vok (s\<lparr>memory := m\<rparr>) Rs E" using fr by (rule up(1))
  show "m x = memory s x" if "kdata s E x" for x using fr that by (rule up(2))
  show "uwritable m r' c = uwritable (memory s) r' c" if "r' \<in> Rs" for r' c using fr that by (rule up(4))
  fix r' c assume r': "r' \<in> Rs"
  have ul: "uload m r' c = (if r' = r \<and> PGROUNDDOWN c = PGROUNDDOWN va \<and> c < MAXVA
      then Some (m (PTE2PA e + (c - PGROUNDDOWN va))) else uload (memory s) r' c)"
    using fr r' by (rule up(3))
  show "uload m r' c = (if r' = r \<and> unat (c - va) < unat n then Some (memory s (src + (c - va))) else uload (memory s) r' c)"
  proof (cases "r' = r \<and> PGROUNDDOWN c = PGROUNDDOWN va \<and> c < MAXVA")
    case True
    have "leaf (memory s) r c = e" using True leaf_page [of c] leaf_page [OF w(1)] w(2) by metis
    then have "uload (memory s) r c = Some (memory s (PTE2PA e + (c - PGROUNDDOWN va)))"
      using True w e1 by (simp add: uload_def)
    moreover have "PTE2PA e + (c - PGROUNDDOWN va) - ?d = c - va" by simp
    ultimately show ?thesis using True ul m [of "PTE2PA e + (c - PGROUNDDOWN va)"] by simp
  next
    case False
    have "c < MAXVA" if "PGROUNDDOWN c = PGROUNDDOWN va"
    proof -
      have "unat c div 4096 * 4096 < 2 ^ 38"
        using PGROUNDDOWN_less [OF w(1)] that by (simp add: word_less_nat_alt unat_MAXVA flip: unat_PGROUNDDOWN)
      then show ?thesis by (simp add: word_less_nat_alt unat_MAXVA)
    qed
    then show ?thesis using False ul pf(7) [of c] by auto
  qed
qed

text \<open>
  The outcome of a copy of \<open>len\<close> bytes from \<open>src\<close> to \<open>va\<close>: no other program and no other
  address sees a change, and a \<open>done\<close> copy shows the bytes of the kernel.
\<close>

definition copied_out :: "kst \<Rightarrow> kst \<Rightarrow> u64 set \<Rightarrow> (u64 \<Rightarrow> int) \<Rightarrow> u64 \<Rightarrow> u64 \<Rightarrow> u64 \<Rightarrow> u64 \<Rightarrow> bool \<Rightarrow> bool" where
  "copied_out s s' Rs E r va src len fin \<longleftrightarrow> vok s' Rs E \<and> page_ok s' = page_ok s \<and>
    (\<forall>x. kdata s E x \<longrightarrow> memory s' x = memory s x) \<and>
    (\<forall>r' \<in> Rs. \<forall>c. uwritable (memory s') r' c = uwritable (memory s) r' c) \<and>
    (\<forall>r' \<in> Rs. \<forall>c. r' \<noteq> r \<or> unat len \<le> unat (c - va) \<longrightarrow> uload (memory s') r' c = uload (memory s) r' c) \<and>
    (fin \<longrightarrow> (\<forall>c. unat (c - va) < unat len \<longrightarrow> uload (memory s') r c = Some (memory s (src + (c - va)))))"

lemma copied_out_none: "vok s Rs E \<Longrightarrow> copied_out s s Rs E r va src len False"
  by (simp add: copied_out_def)

lemma copied_out_trans:
  assumes n: "unat n \<le> unat len" and src: "\<And>i. i < unat len \<Longrightarrow> kdata s E (src + of_nat i)"
    and a: "copied_out s s1 Rs E r va src n True" and b: "copied_out s1 s2 Rs E r (va + n) (src + n) (len - n) fin"
    and r: "r \<in> Rs"
  shows "copied_out s s2 Rs E r va src len fin"
proof -
  have rs: "unat (c - va) < unat len \<longleftrightarrow> unat (c - va) < unat n \<or> unat (c - (va + n)) < unat (len - n)" for c
    using range_split [OF n, of "c - va"] by (simp add: algebra_simps)
  have kd: "kdata s1 E x \<longleftrightarrow> kdata s E x" for x using a by (simp add: copied_out_def kdata_def)
  have "uload (memory s2) r' c = uload (memory s) r' c" if "r' \<in> Rs" "r' \<noteq> r \<or> unat len \<le> unat (c - va)" for r' c
    using that rs [of c] a b unfolding copied_out_def by (metis not_less)
  moreover have "uload (memory s2) r c = Some (memory s (src + (c - va)))" if "fin" "unat (c - va) < unat len" for c
  proof (cases "unat (c - (va + n)) < unat (len - n)")
    case True
    then have "uload (memory s2) r c = Some (memory s1 (src + n + (c - (va + n))))"
      using b that(1) by (simp add: copied_out_def)
    moreover have "src + n + (c - (va + n)) = src + (c - va)" by simp
    moreover have "kdata s E (src + (c - va))" using src [OF that(2)] by simp
    ultimately show ?thesis using a by (simp add: copied_out_def)
  next
    case False
    then have "uload (memory s2) r c = uload (memory s1) r c" using b r by (simp add: copied_out_def not_less)
    then show ?thesis using False that(2) rs [of c] a by (simp add: copied_out_def)
  qed
  ultimately show ?thesis using a b kd unfolding copied_out_def by auto
qed

lemma copyout_first:
  assumes vk: "vok s Rs E" and r: "r \<in> Rs" and len: "len > 0" and va: "va \<noteq> 0" "va < MAXVA"
    and src: "unat src + unat len < 2 ^ 64" "\<And>i. i < unat len \<Longrightarrow> kdata s E (src + of_nat i)"
  defines "n \<equiv> page_part va len"
  shows "copyout s r va src len = Ok (-1, s) \<or>
    (\<exists>s2. copyout s r va src len = copyout s2 r (va + n) (src + n) (len - n) \<and> copied_out s s2 Rs E r va src n True)"
proof -
  note pf = part_facts [OF len, where va = va, folded n_def]
  obtain ret s1 where h: "cow_page_fault_handler s r va = Ok (ret, s1)" "vok s1 Rs E" "page_ok s1 = page_ok s"
      "\<forall>x. kdata s E x \<longrightarrow> memory s1 x = memory s x" and sv: "same_view (memory s) (memory s1) Rs"
    and st: "if ret = 0 then uwritable (memory s) r va \<and> bit (leaf (memory s1) r va) 2
      else ret = -1 \<and> s1 = s \<and> (\<not> uwritable (memory s) r va \<or> full s)"
    using cow_handler_spec [OF vk r va] by blast
  show ?thesis
  proof (cases "ret = 0")
    case False
    then have "copyout s r va src len = Ok (-1, s)" using len h(1) st by (subst copyout.simps) simp
    then show ?thesis ..
  next
    case ret: True
    define e where "e = leaf (memory s1) r va"
    have "uwritable (memory s1) r va" using sv st ret r by (simp add: same_view_def)
    then have w: "leaf (memory s1) r va = e" "bit e 0" "bit e 4" "bit e 2"
      using st ret by (auto simp: uwritable_def Let_def e_def)
    have wa: "walkaddr s1 r (PGROUNDDOWN va) = Ok (PTE2PA e)"
      using walkaddr_leaf [OF vok_vinv [OF h(2)] r PGROUNDDOWN_less [OF va(2)]] leaf_page [OF va(2)] w by (simp add: Let_def)
    have nz: "PTE2PA e \<noteq> 0" using user_pa(2) [OF h(2) r va(2)] w by simp
    have kd: "kdata s1 E x \<longleftrightarrow> kdata s E x" for x using h(3) by (simp add: kdata_def)
    define m where "m = memmove (memory s1) (PTE2PA e + (va - PGROUNDDOWN va)) src (ucast n)"
    note cr = copyout_round [OF h(2) r len va(2) w src(1), folded n_def, folded m_def]
    have "copied_out s (s1\<lparr>memory := m\<rparr>) Rs E r va src n True"
      unfolding copied_out_def
    proof (intro conjI allI impI ballI)
      fix c assume "unat (c - va) < unat n"
      moreover from this have "kdata s E (src + (c - va))" using src(2) [of "unat (c - va)"] pf(2) by simp
      ultimately show "uload (memory (s1\<lparr>memory := m\<rparr>)) r c = Some (memory s (src + (c - va)))"
        using cr(4) [OF r, of c] h(4) by simp
    next
      fix r' c assume "r' \<in> Rs" "r' \<noteq> r \<or> unat n \<le> unat (c - va)"
      then show "uload (memory (s1\<lparr>memory := m\<rparr>)) r' c = uload (memory s) r' c"
        using cr(4) [of r' c] sv by (auto simp: same_view_def)
    qed (use cr(1-3) kd h(3,4) sv in \<open>auto simp: same_view_def\<close>)
    moreover have "copyout s r va src len = copyout (s1\<lparr>memory := m\<rparr>) r (PGROUNDDOWN va + PGSIZE) (src + n) (len - n)"
      using len h(1) ret wa nz by (subst copyout.simps) (simp add: Let_def n_def m_def)
    moreover have "copyout (s1\<lparr>memory := m\<rparr>) r (PGROUNDDOWN va + PGSIZE) (src + n) (len - n) =
        copyout (s1\<lparr>memory := m\<rparr>) r (va + n) (src + n) (len - n)"
    proof (cases "len - n > 0")
      case False
      then show ?thesis by (subst (1 2) copyout.simps) simp
    qed (simp add: pf(6))
    ultimately show ?thesis by auto
  qed
qed

lemma copyout_spec:
  assumes "vok s Rs E" and "r \<in> Rs" and "unat src + unat len < 2 ^ 64"
    and "\<And>i. i < unat len \<Longrightarrow> kdata s E (src + of_nat i)"
  shows "\<exists>res s'. copyout s r dstva src len = Ok (res, s') \<and> (res = 0 \<or> res = -1) \<and>
    copied_out s s' Rs E r dstva src len (res = 0)"
  using assms
proof (induction "unat len" arbitrary: s dstva src len rule: less_induct)
  case less
  consider (zero) "len = 0" | (range) "len > 0" "dstva = 0 \<or> \<not> dstva < MAXVA" | (pos) "len > 0" "dstva \<noteq> 0" "dstva < MAXVA"
    using word_neq_0_conv [of len] by blast
  then show ?case
  proof cases
    case zero
    then have "copyout s r dstva src len = Ok (0, s)" by (subst copyout.simps) simp
    then show ?thesis using less.prems(1) zero by (simp add: copied_out_def)
  next
    case range
    then have "copyout s r dstva src len = Ok (-1, s)" by (subst copyout.simps) (simp add: handler_range)
    then show ?thesis using copied_out_none [OF less.prems(1)] by simp
  next
    case pos
    define n where "n = page_part dstva len"
    note pf = part_facts [OF pos(1), where va = dstva, folded n_def]
    consider "copyout s r dstva src len = Ok (-1, s)"
      | s2 where "copyout s r dstva src len = copyout s2 r (dstva + n) (src + n) (len - n)"
          "copied_out s s2 Rs E r dstva src n True"
      using copyout_first [OF less.prems(1,2) pos less.prems(3,4)] unfolding n_def by blast
    then show ?thesis
    proof cases
      case 1
      then show ?thesis using copied_out_none [OF less.prems(1)] by simp
    next
      case 2
      have v2: "vok s2 Rs E" and ok2: "page_ok s2 = page_ok s" using 2(2) by (auto simp: copied_out_def)
      have src2: "kdata s2 E (src + n + of_nat i)" if "i < unat (len - n)" for i
      proof -
        have "kdata s E (src + of_nat (unat n + i))" using that pf(2,5) by (intro less.prems(4)) simp
        then show ?thesis using ok2 by (simp add: kdata_def add.assoc)
      qed
      have ns: "unat (src + n) + unat (len - n) < 2 ^ 64"
        using less.prems(3) pf(2,5) by (simp add: unat_word_ariths)
      have dec: "unat (len - n) < unat len" using pf(1,2,5) by simp
      obtain res s' where ih: "copyout s2 r (dstva + n) (src + n) (len - n) = Ok (res, s')" "res = 0 \<or> res = -1"
        "copied_out s2 s' Rs E r (dstva + n) (src + n) (len - n) (res = 0)"
        using less.hyps [OF dec v2 less.prems(2) ns src2] by blast
      have "copied_out s s' Rs E r dstva src len (res = 0)"
        by (rule copied_out_trans [OF pf(2) less.prems(4) 2(2) ih(3) less.prems(2)])
      then show ?thesis using 2(1) ih by auto
    qed
  qed
qed

section \<open>From a program to the kernel\<close>

lemma kernel_write:
  assumes vk: "vok s Rs E" and m: "\<And>x. \<not> kdata s E x \<Longrightarrow> m x = memory s x"
  shows "vok (s\<lparr>memory := m\<rparr>) Rs E" and "same_view (memory s) m Rs"
    and "\<And>r va. r \<in> Rs \<Longrightarrow> leaf m r va = leaf (memory s) r va"
proof -
  note v = vok_vinv [OF vk]
  have d: "m x = memory s x" if "\<not> data s Rs x" for x using that m [of x] kdata_data [OF v] by blast
  show l: "leaf m r va = leaf (memory s) r va" if "r \<in> Rs" for r va using d that by (rule vinv_data_write(3) [OF v])
  then have mp: "maps m Rs = maps (memory s) Rs" by (rule maps_cong)
  then show "vok (s\<lparr>memory := m\<rparr>) Rs E" using vinv_data_write(1) [OF v d] vk by (simp add: vok_def)
  have "uload m r b = uload (memory s) r b" if r: "r \<in> Rs" for r b
  proof (cases "b < MAXVA")
    case True
    show ?thesis
    proof (rule uload_eq [OF True refl refl refl l [OF r]])
      assume e: "bit (leaf (memory s) r b) 0" "bit (leaf (memory s) r b) 4"
      note um = user_mapped [OF v r True e]
      have "E (PTE2PA (leaf (memory s) r b)) = 0" using vok_mapped [OF vk] um by auto
      then have "\<not> kdata s E (PTE2PA (leaf (memory s) r b) + (b - PGROUNDDOWN b))"
        using user_pa(1) [OF vk r True e] page_offset by (simp add: kdata_def)
      then show "m (PTE2PA (leaf (memory s) r b) + (b - PGROUNDDOWN b)) =
          memory s (PTE2PA (leaf (memory s) r b) + (b - PGROUNDDOWN b))" by (rule m)
    qed
  qed (simp add: uload_def)
  then show "same_view (memory s) m Rs" by (simp add: same_view_def uwritable_def l)
qed

text \<open>
  The outcome of a copy of \<open>len\<close> bytes from \<open>va\<close> to \<open>dst\<close>: the programs see no change, the
  kernel none outside the destination, and a finished copy holds the bytes of the program.
\<close>

definition copied_in :: "kst \<Rightarrow> kst \<Rightarrow> u64 set \<Rightarrow> (u64 \<Rightarrow> int) \<Rightarrow> u64 \<Rightarrow> u64 \<Rightarrow> u64 \<Rightarrow> u64 \<Rightarrow> bool \<Rightarrow> bool" where
  "copied_in s s' Rs E r dst va len fin \<longleftrightarrow> vok s' Rs E \<and> page_ok s' = page_ok s \<and>
    same_view (memory s) (memory s') Rs \<and>
    (\<forall>x. unat len \<le> unat (x - dst) \<longrightarrow> memory s' x = memory s x) \<and>
    (fin \<longrightarrow> (\<forall>c. unat (c - va) < unat len \<longrightarrow> uload (memory s) r c = Some (memory s' (dst + (c - va))))) \<and>
    (\<not> fin \<longrightarrow> (\<exists>c. unat (c - va) < unat len \<and> uload (memory s) r c = None))"

lemma copied_in_trans:
  assumes n: "unat n \<le> unat len" and r: "r \<in> Rs"
    and a: "copied_in s s1 Rs E r dst va n True" and b: "copied_in s1 s2 Rs E r (dst + n) (va + n) (len - n) fin"
  shows "copied_in s s2 Rs E r dst va len fin"
proof -
  have rs: "unat (c - v) < unat len \<longleftrightarrow> unat (c - v) < unat n \<or> unat (c - (v + n)) < unat (len - n)" for c v
    using range_split [OF n, of "c - v"] by (simp add: algebra_simps)
  have sv: "uload (memory s1) r c = uload (memory s) r c" for c using a r by (simp add: copied_in_def same_view_def)
  have "memory s2 x = memory s x" if "unat len \<le> unat (x - dst)" for x
    using that rs [of x dst] a b unfolding copied_in_def by (metis not_less)
  moreover have "uload (memory s) r c = Some (memory s2 (dst + (c - va)))" if "fin" "unat (c - va) < unat len" for c
  proof (cases "unat (c - (va + n)) < unat (len - n)")
    case True
    then have "uload (memory s1) r c = Some (memory s2 (dst + n + (c - (va + n))))"
      using b that(1) by (simp add: copied_in_def)
    then show ?thesis using sv by (simp add: algebra_simps)
  next
    case False
    then have "unat (len - n) \<le> unat (dst + (c - va) - (dst + n))" by (simp add: not_less algebra_simps)
    then have "memory s2 (dst + (c - va)) = memory s1 (dst + (c - va))" using b by (simp add: copied_in_def)
    then show ?thesis using False that(2) rs [of c va] a by (simp add: copied_in_def)
  qed
  moreover have "\<exists>c. unat (c - va) < unat len \<and> uload (memory s) r c = None" if "\<not> fin"
    using that b rs [where v = va] sv by (auto simp: copied_in_def)
  ultimately show ?thesis using a b unfolding copied_in_def same_view_def by auto
qed

lemma copyin_first:
  fixes va :: u64
  assumes vk: "vok s Rs E" and r: "r \<in> Rs" and len: "len > 0"
    and dst: "unat dst + unat len < 2 ^ 64" "\<And>i. i < unat len \<Longrightarrow> kdata s E (dst + of_nat i)"
  defines "n \<equiv> page_part va len"
  shows "copyin s r dst va len = Ok (-1, s) \<and> copied_in s s Rs E r dst va len False \<or>
    (\<exists>s2. copyin s r dst va len = copyin s2 r (dst + n) (va + n) (len - n) \<and> copied_in s s2 Rs E r dst va n True)"
proof -
  note v = vok_vinv [OF vk]
  note pf = part_facts [OF len, where va = va, folded n_def]
  define e where "e = leaf (memory s) r va"
  show ?thesis
  proof (cases "va < MAXVA \<and> bit e 0 \<and> bit e 4")
    case False
    have "walkaddr s r (PGROUNDDOWN va) = Ok 0"
    proof (cases "PGROUNDDOWN va < MAXVA")
      case True
      have "unat va div 4096 * 4096 < 2 ^ 38" using True by (simp add: word_less_nat_alt unat_MAXVA unat_PGROUNDDOWN)
      then have "va < MAXVA" by (simp add: word_less_nat_alt unat_MAXVA)
      then show ?thesis using walkaddr_leaf [OF v r True] leaf_page [of va] False by (auto simp: e_def Let_def)
    qed (simp add: walkaddr_def not_less)
    then have "copyin s r dst va len = Ok (-1, s)" using len by (subst copyin.simps) simp
    moreover have "uload (memory s) r va = None" using False by (auto simp: uload_def Let_def e_def)
    then have "copied_in s s Rs E r dst va len False"
      using vk len by (auto simp: copied_in_def word_less_nat_alt intro!: exI [of _ va])
    ultimately show ?thesis by simp
  next
    case True
    then have w: "va < MAXVA" "leaf (memory s) r va = e" "bit e 0" "bit e 4" by (auto simp: e_def)
    have ok: "page_ok s (PTE2PA e)" "PTE2PA e \<noteq> 0" "bit e 1" using user_pa [OF vk r w(1)] w by auto
    have wa: "walkaddr s r (PGROUNDDOWN va) = Ok (PTE2PA e)"
      using walkaddr_leaf [OF v r PGROUNDDOWN_less [OF w(1)]] leaf_page [OF w(1)] w by (simp add: Let_def)
    let ?p = "PTE2PA e + (va - PGROUNDDOWN va)"
    define m where "m = memmove (memory s) dst ?p (ucast n)"
    have up: "unat ?p = unat (PTE2PA e) + unat (va - PGROUNDDOWN va)"
      using page_ok_unat [OF ok(1)] pf(8) by (simp add: unat_word_ariths)
    have "m = copied (memory s) dst ?p (unat n)"
      using memmove_eq [of ?p "ucast n" dst "memory s"] dst(1) pf(2,3,4,8) up page_ok_unat(2) [OF ok(1)] by (simp add: m_def)
    then have m: "m x = (if unat (x - dst) < unat n then memory s (?p + (x - dst)) else memory s x)" for x
      by (simp add: copied_def)
    have fr: "m x = memory s x" if "\<not> kdata s E x" for x
      using dst(2) [of "unat (x - dst)"] that pf(2) by (auto simp: m)
    note kw = kernel_write [OF vk fr]
    have "uload (memory s) r c = Some (m (dst + (c - va)))" if "unat (c - va) < unat n" for c
    proof -
      have pc: "PGROUNDDOWN c = PGROUNDDOWN va" by (rule pf(7) [OF that])
      have "unat c div 4096 * 4096 < 2 ^ 38"
        using PGROUNDDOWN_less [OF w(1)] pc by (simp add: word_less_nat_alt unat_MAXVA flip: unat_PGROUNDDOWN)
      then have cm: "c < MAXVA" by (simp add: word_less_nat_alt unat_MAXVA)
      then have "leaf (memory s) r c = e" using pc leaf_page [OF cm] leaf_page [OF w(1)] w(2) by metis
      then have "uload (memory s) r c = Some (memory s (PTE2PA e + (c - PGROUNDDOWN va)))"
        using cm w ok(3) pc by (simp add: uload_def)
      then show ?thesis using that by (simp add: m algebra_simps)
    qed
    moreover have "m x = memory s x" if "unat n \<le> unat (x - dst)" for x using m [of x] that by (simp add: not_less [symmetric])
    ultimately have "copied_in s (s\<lparr>memory := m\<rparr>) Rs E r dst va n True"
      using kw(1,2) by (simp add: copied_in_def fun_eq_iff)
    moreover have "copyin s r dst va len = copyin (s\<lparr>memory := m\<rparr>) r (dst + n) (PGROUNDDOWN va + PGSIZE) (len - n)"
      using len wa ok(2) by (subst copyin.simps) (simp add: Let_def n_def m_def)
    moreover have "copyin (s\<lparr>memory := m\<rparr>) r (dst + n) (PGROUNDDOWN va + PGSIZE) (len - n) =
        copyin (s\<lparr>memory := m\<rparr>) r (dst + n) (va + n) (len - n)"
    proof (cases "len - n > 0")
      case False
      then show ?thesis by (subst (1 2) copyin.simps) simp
    qed (simp add: pf(6))
    ultimately show ?thesis by auto
  qed
qed

lemma copyin_spec:
  assumes "vok s Rs E" and "r \<in> Rs" and "unat dst + unat len < 2 ^ 64"
    and "\<And>i. i < unat len \<Longrightarrow> kdata s E (dst + of_nat i)"
  shows "\<exists>res s'. copyin s r dst srcva len = Ok (res, s') \<and> (res = 0 \<or> res = -1) \<and>
    copied_in s s' Rs E r dst srcva len (res = 0)"
  using assms
proof (induction "unat len" arbitrary: s dst srcva len rule: less_induct)
  case less
  show ?case
  proof (cases "len = 0")
    case True
    then have "copyin s r dst srcva len = Ok (0, s)" by (subst copyin.simps) simp
    then show ?thesis using less.prems(1) True by (simp add: copied_in_def)
  next
    case False
    then have pos: "len > 0" using word_neq_0_conv by blast
    define n where "n = page_part srcva len"
    note pf = part_facts [OF pos, where va = srcva, folded n_def]
    consider "copyin s r dst srcva len = Ok (-1, s)" "copied_in s s Rs E r dst srcva len False"
      | s2 where "copyin s r dst srcva len = copyin s2 r (dst + n) (srcva + n) (len - n)"
          "copied_in s s2 Rs E r dst srcva n True"
      using copyin_first [OF less.prems(1,2) pos less.prems(3,4)] unfolding n_def by blast
    then show ?thesis
    proof cases
      case 1
      then show ?thesis by simp
    next
      case 2
      have v2: "vok s2 Rs E" and ok2: "page_ok s2 = page_ok s" using 2(2) by (auto simp: copied_in_def)
      have dst2: "kdata s2 E (dst + n + of_nat i)" if "i < unat (len - n)" for i
      proof -
        have "kdata s E (dst + of_nat (unat n + i))" using that pf(2,5) by (intro less.prems(4)) simp
        then show ?thesis using ok2 by (simp add: kdata_def add.assoc)
      qed
      have ns: "unat (dst + n) + unat (len - n) < 2 ^ 64"
        using less.prems(3) pf(2,5) by (simp add: unat_word_ariths)
      have dec: "unat (len - n) < unat len" using pf(1,2,5) by simp
      obtain res s' where ih: "copyin s2 r (dst + n) (srcva + n) (len - n) = Ok (res, s')" "res = 0 \<or> res = -1"
        "copied_in s2 s' Rs E r (dst + n) (srcva + n) (len - n) (res = 0)"
        using less.hyps [OF dec v2 less.prems(2) ns dst2] by blast
      have "copied_in s s' Rs E r dst srcva len (res = 0)"
        by (rule copied_in_trans [OF pf(2) less.prems(2) 2(2) ih(3)])
      then show ?thesis using 2(1) ih by auto
    qed
  qed
qed

end
