(* ===== verification/Uvm.thy ===== *)
theory Uvm
  imports Copy
begin

text \<open>
  Creating, growing and shrinking an address space: \<^verbatim>\<open>uvmcreate\<close>, \<^verbatim>\<open>uvmalloc\<close> and
  \<^verbatim>\<open>uvmdealloc\<close>.
\<close>

section \<open>A new page table\<close>

lemma tab_zeroed:
  assumes "aligned 12 pg"
  shows "tab (memset m pg 0 4096) pg va d = (if d = 0 then Some pg else None)"
    and "leaf (memset m pg 0 4096) pg va = 0"
proof -
  show t: "tab (memset m pg 0 4096) pg va d = (if d = 0 then Some pg else None)" for d
  proof (induction d)
    case (Suc d)
    then show ?case using ld64_zeroed [OF assms] by (cases d) (simp_all add: Let_def)
  qed simp
  show "leaf (memset m pg 0 4096) pg va = 0" by (simp add: leaf_def t)
qed

lemma vinv_root:
  assumes v: "vinv s Rs E" and pg: "page_ok s pg" "pg \<notin> tabs (memory s) Rs" "maps (memory s) Rs pg = {}" "E pg = 1"
  defines "m \<equiv> memset (memory s) pg 0 4096"
  shows "vinv (s\<lparr>memory := m\<rparr>) (insert pg Rs) (E(pg := 0))"
    and "\<And>r va. r \<in> Rs \<Longrightarrow> leaf m r va = leaf (memory s) r va" and "\<And>va. leaf m pg va = 0"
    and "tabs m (insert pg Rs) = insert pg (tabs (memory s) Rs)"
    and "maps m (insert pg Rs) = maps (memory s) Rs"
proof -
  note sep = vinv_sep [OF v]
  have al: "aligned 12 pg" by (rule page_ok_aligned [OF pg(1)])
  note tz = tab_zeroed [OF al, of "memory s", folded m_def]
  have m: "m x = (if blk 12 x = pg then 0 else memory s x)" for x by (simp add: m_def memset_page [OF al])
  have fr: "m x = memory s x" if "p \<in> tabs (memory s) Rs" "blk 12 x = p" for p x using that pg(2) by (auto simp: m)
  have t: "tab m r va d = tab (memory s) r va d" if "r \<in> Rs" "d \<le> 2" for r va d
    using fr sep that by (rule tab_frame)
  show l: "leaf m r va = leaf (memory s) r va" if "r \<in> Rs" for r va using fr sep that by (rule leaf_frame)
  show l0: "leaf m pg va = 0" for va by (rule tz(2))
  have ts1: "tabs m Rs = tabs (memory s) Rs" using t by (rule tabs_cong)
  have sep1: "sep m Rs" using sep_cong [OF t] sep by simp
  show ts: "tabs m (insert pg Rs) = insert pg (tabs (memory s) Rs)"
    unfolding ts1 [symmetric] by (auto simp: tabs_def tz split: if_splits intro: exI [of _ 0])
  have nr: "pg \<notin> Rs" using pg(2) root_in_tabs by blast
  have "sep m (insert pg Rs)"
    unfolding sep_def
  proof (intro conjI ballI allI impI)
    fix p assume "p \<in> tabs m (insert pg Rs)"
    then show "aligned 12 p" using ts al sep_aligned [OF sep] by auto
  next
    fix r1 r2 va1 va2 d1 d2 p
    assume a: "r1 \<in> insert pg Rs" "r2 \<in> insert pg Rs" "d1 \<le> 2" "d2 \<le> (2 :: nat)"
      and t1: "tab m r1 va1 d1 = Some p" and t2: "tab m r2 va2 d2 = Some p"
    have "r1 = r2 \<and> d1 = d2 \<and> same d1 va1 va2"
    proof (cases "p = pg")
      case True
      have "r = pg \<and> d = 0" if "r \<in> insert pg Rs" "d \<le> 2" "tab m r va d = Some pg" for r d va
        using that tz(1) pg(2) ts1 tabsI [of r Rs d m va pg] by (auto split: if_splits)
      then show ?thesis using a t1 t2 True by (metis same_0)
    next
      case False
      then have "r1 \<in> Rs" "r2 \<in> Rs" using a t1 t2 tz(1) by (auto split: if_splits)
      then show ?thesis using sep_unique [OF sep1 _ _ a(3,4) t1 t2] by blast
    qed
    then show "r1 = r2" "d1 = d2" "same d1 va1 va2" by auto
  qed
  moreover show mp: "maps m (insert pg Rs) = maps (memory s) Rs"
    using l l0 nr by (auto simp: maps_def fun_eq_iff)
  moreover have "0 < refs s pg" using vinv_refs [OF v pg(1)] pg by simp
  then have "kinv (s\<lparr>memory := m\<rparr>)"
    using vinv_kinv [OF v] by (intro kinv_memory) (auto simp: m)
  ultimately show "vinv (s\<lparr>memory := m\<rparr>) (insert pg Rs) (E(pg := 0))"
  proof (intro vinv_memI)
    fix r a assume a: "r \<in> insert pg Rs" "aligned 12 a" "a < TRAPFRAME"
    show "leaf_ok (s\<lparr>memory := m\<rparr>) (insert pg Rs) (E(pg := 0)) r a"
      using vinv_leaf [OF v, of r a] a l [of r a] l0 by (auto simp: leaf_ok_def Let_def mp)
  next
    fix p assume "p \<in> tabs m (insert pg Rs)"
    then show "page_ok s p \<and> maps m (insert pg Rs) p = {} \<and> (E(pg := 0)) p = 0"
      using vinv_tabs [OF v] pg by (auto simp: ts mp)
  next
    fix r a assume "r \<in> insert pg Rs" "TRAPFRAME \<le> a" "a < MAXVA"
    then show "\<not> (bit (leaf m r a) 0 \<and> bit (leaf m r a) 4)" using vinv_high [OF v, of r a] l [of r a] l0 by auto
  next
    fix p assume "page_ok s p"
    then show "int (refs s p) = of_bool (p \<in> tabs m (insert pg Rs)) + int (card (maps m (insert pg Rs) p)) + (E(pg := 0)) p"
      using vinv_refs [OF v] pg by (auto simp: ts mp)
  qed (use vinv_inj [OF v] in \<open>auto simp: mp\<close>)
qed

lemma uvmcreate_spec:
  assumes vk: "vok s Rs E"
  shows "\<exists>r s'. uvmcreate s = Ok (r, s') \<and>
    (if r = 0 then s' = s \<and> full s
     else r \<notin> Rs \<and> vok s' (insert r Rs) E \<and> page_ok s' = page_ok s \<and> same_view (memory s) (memory s') Rs \<and>
       (\<forall>x. data s Rs x \<longrightarrow> memory s' x = memory s x) \<and> (\<forall>va. leaf (memory s') r va = 0))"
proof -
  note v = vok_vinv [OF vk]
  obtain pg s1 where k: "kalloc s = Ok (pg, s1)" using kalloc_total [OF v] by auto
  show ?thesis
  proof (cases "pg = 0")
    case True
    then show ?thesis using k kalloc_full [OF v] by (simp add: uvmcreate_def)
  next
    case False
    note ka = vinv_kalloc [OF v vok_nonneg [OF vk] k False]
    have pgs: "page_ok s1 pg" "pg \<notin> tabs (memory s1) Rs" "maps (memory s1) Rs pg = {}" "(E(pg := 1)) pg = 1"
      using ka by auto
    define m where "m = memset (memory s1) pg 0 4096"
    note vr = vinv_root [OF ka(1) pgs, folded m_def]
    have EE: "(E(pg := 1))(pg := 0) = E" using ka(5) by auto
    have vk': "vok (s1\<lparr>memory := m\<rparr>) (insert pg Rs) E"
      using vr(1,5) ka(12) vk unfolding EE by (simp add: vok_def)
    have mem: "m x = memory s x" if "data s Rs x" for x
    proof -
      have "blk 12 x \<noteq> pg" using that ka(2,3) by (auto simp: data_def)
      then show ?thesis using ka(8) page_ok_aligned [OF ka(2)] by (simp add: m_def memset_page)
    qed
    have l: "leaf m r va = leaf (memory s) r va" if "r \<in> Rs" for r va using vr(2) ka(10) that by simp
    have "uload m r b = uload (memory s) r b" if r: "r \<in> Rs" for r b
    proof (cases "b < MAXVA")
      case True
      show ?thesis
      proof (rule uload_eq [OF True refl refl refl l [OF r]])
        assume e: "bit (leaf (memory s) r b) 0" "bit (leaf (memory s) r b) 4"
        show "m (PTE2PA (leaf (memory s) r b) + (b - PGROUNDDOWN b)) = memory s (PTE2PA (leaf (memory s) r b) + (b - PGROUNDDOWN b))"
          by (rule mem [OF mapped_data [OF v user_mapped [OF v r True e] vok_nonneg [OF vk] page_offset]])
      qed
    qed (simp add: uload_def)
    then have "same_view (memory s) m Rs" using l by (simp add: same_view_def uwritable_def)
    moreover have "uvmcreate s = Ok (pg, s1\<lparr>memory := m\<rparr>)" using k False by (simp add: uvmcreate_def m_def ucast_PGSIZE)
    moreover have "pg \<notin> Rs" using ka(6) root_in_tabs by blast
    ultimately show ?thesis using vk' ka(4) mem vr(3) False by (auto simp: fun_eq_iff)
  qed
qed

section \<open>Growing\<close>

lemma keeps_kalloc:
  assumes "vinv s Rs E" and "\<And>q. 0 \<le> E q" and "kalloc s = Ok (pg, s1)" and "pg \<noteq> 0"
    and "\<And>x. blk 12 x \<noteq> pg \<Longrightarrow> m x = memory s1 x"
  shows "keeps s Rs (s1\<lparr>memory := m\<rparr>)"
proof -
  note ka = vinv_kalloc [OF assms(1-4)]
  have fr: "m x = memory s1 x" if "p \<in> tabs (memory s1) Rs" "blk 12 x = p" for p x
    using that ka(6,11) by (intro assms(5)) auto
  have "tabs m Rs = tabs (memory s1) Rs"
    by (rule tabs_cong, rule tab_frame [OF fr vinv_sep [OF ka(1)]])
  moreover have "blk 12 x \<noteq> pg" if "data s Rs x" for x using that ka(2,3) by (auto simp: data_def)
  ultimately show ?thesis
    using ka(4,8,11,13) assms(5) by (auto simp: keeps_def data_def fun_eq_iff)
qed

text \<open>One round of \<^verbatim>\<open>uvmalloc\<close>: a zeroed page mapped at \<open>a\<close>, or nothing changed.\<close>

definition fresh :: "kst \<Rightarrow> u64 \<Rightarrow> u64 \<Rightarrow> u64 \<Rightarrow> bool" where
  "fresh s r b perm \<longleftrightarrow>
     (let e = leaf (memory s) r b in bit e 0 \<and> (\<forall>i. 0 < i \<longrightarrow> i < 10 \<longrightarrow> bit e i = bit perm i) \<and>
        (\<forall>x. blk 12 x = PTE2PA e \<longrightarrow> memory s x = 0))"

lemma zeroed_page:
  assumes vk: "vok s Rs E" and k: "kalloc s = Ok (pg, s1)" and nz: "pg \<noteq> 0"
  defines "s2 \<equiv> s1\<lparr>memory := memset (memory s1) pg 0 4096\<rparr>"
  shows "vinv s2 Rs (E(pg := 1))" and "keeps s Rs s2" and "page_ok s2 pg" and "refs s2 pg = 1"
    and "pg \<notin> tabs (memory s2) Rs" and "maps (memory s2) Rs = maps (memory s) Rs" and "maps (memory s) Rs pg = {}" and "E pg = 0"
    and "\<And>r' b. r' \<in> Rs \<Longrightarrow> leaf (memory s2) r' b = leaf (memory s) r' b"
    and "\<And>x. blk 12 x = pg \<Longrightarrow> memory s2 x = 0"
proof -
  note v = vok_vinv [OF vk]
  note ka = vinv_kalloc [OF v vok_nonneg [OF vk] k nz]
  have al: "aligned 12 pg" by (rule page_ok_aligned [OF ka(2)])
  have d: "memset (memory s1) pg 0 4096 x = memory s1 x" if "\<not> data s1 Rs x" for x
    using that ka(2,4,6,11,13) by (auto simp: memset_page [OF al] data_def)
  note dw = vinv_data_write [OF ka(1)]
  show "vinv s2 Rs (E(pg := 1))" unfolding s2_def using d by (rule dw(1))
  show l: "leaf (memory s2) r' b = leaf (memory s) r' b" if "r' \<in> Rs" for r' b
    using dw(3) [OF d that] ka(10) [OF that] by (simp add: s2_def)
  show "pg \<notin> tabs (memory s2) Rs" using dw(4) [OF d] ka(6,11) by (simp add: s2_def)
  show "maps (memory s2) Rs = maps (memory s) Rs" using l by (rule maps_cong)
  show "keeps s Rs s2"
    unfolding s2_def by (rule keeps_kalloc [OF v vok_nonneg [OF vk] k nz]) (simp add: memset_page [OF al])
  show "page_ok s2 pg" "refs s2 pg = 1" "maps (memory s) Rs pg = {}" "E pg = 0"
    using ka(2,4,5,7,13) by (simp_all add: s2_def)
  show "\<And>x. blk 12 x = pg \<Longrightarrow> memory s2 x = 0" by (simp add: s2_def memset_page [OF al])
qed

lemma uvmalloc_round:
  assumes vk: "vok s Rs E" and r: "r \<in> Rs" and a: "aligned 12 a" "a < TRAPFRAME" "a < newsz"
    and inval: "\<not> bit (leaf (memory s) r a) 0" and perm: "perm = PTE_R OR PTE_U OR xperm" "PTE_FLAGS xperm = xperm"
  shows "(\<exists>s'. uvmalloc_loop s r a oldsz newsz xperm = bnd (uvmdealloc s' r a oldsz) (\<lambda>(_, s). Ok (0, s)) \<and>
      vok s' Rs E \<and> keeps s Rs s' \<and> (\<forall>r' \<in> Rs. \<forall>b. leaf (memory s') r' b = leaf (memory s) r' b)) \<or>
    (\<exists>s'. uvmalloc_loop s r a oldsz newsz xperm = uvmalloc_loop s' r (a + PGSIZE) oldsz newsz xperm \<and>
      vok s' Rs E \<and> keeps s Rs s' \<and> (\<forall>b. PGROUNDDOWN b = a \<longrightarrow> b < MAXVA \<longrightarrow> fresh s' r b perm) \<and>
      (\<forall>r' \<in> Rs. \<forall>b < MAXVA. r' \<noteq> r \<or> PGROUNDDOWN b \<noteq> a \<longrightarrow> leaf (memory s') r' b = leaf (memory s) r' b))"
proof -
  note v = vok_vinv [OF vk]
  obtain pg s1 where k: "kalloc s = Ok (pg, s1)" using kalloc_total [OF v] by auto
  show ?thesis
  proof (cases "pg = 0")
    case True
    have s1: "s1 = s" using kalloc_full [OF v] k True by auto
    have "uvmalloc_loop s r a oldsz newsz xperm = bnd (uvmdealloc s r a oldsz) (\<lambda>(_, s). Ok (0, s))"
      by (subst uvmalloc_loop.simps) (simp add: a(3) k True s1)
    then show ?thesis using vk by auto
  next
    case nz: False
    define s2 where "s2 = s1\<lparr>memory := memset (memory s1) pg 0 4096\<rparr>"
    note z = zeroed_page [OF vk k nz, folded s2_def]
    have pf: "PTE_FLAGS perm = perm" "bit perm 1" using perm by (simp_all add: PTE_FLAGS_or pte_bits)
    have En: "\<And>q. 0 \<le> (E(pg := 1)) q" using vok_nonneg [OF vk] by simp
    have inv2: "\<not> bit (leaf (memory s2) r a) 0" using z(9) [OF r] inval by simp
    have pos: "0 < refs s2 pg" using z(4) by simp
    have none: "maps (memory s2) Rs pg = {}" using z(6,7) by simp
    obtain res s3 where m: "mappages s2 r a PGSIZE pg perm = Ok (res, s3)" "keeps s2 Rs s3"
      and st: "if res = 0 then vinv s3 Rs ((E(pg := 1))(pg := (E(pg := 1)) pg - 1)) \<and>
         (\<forall>r' \<in> Rs. \<forall>b < MAXVA. leaf (memory s3) r' b =
            (if r' = r \<and> PGROUNDDOWN b = a then PA2PTE pg OR perm OR PTE_V else leaf (memory s2) r' b))
       else res = -1 \<and> vinv s3 Rs (E(pg := 1)) \<and> full s3 \<and>
         (\<forall>r' \<in> Rs. \<forall>b. leaf (memory s3) r' b = leaf (memory s2) r' b)"
      using mappages_one [OF z(1) En r a(1,2) inv2 z(3) pos z(5) pf] none by auto
    have k3: "keeps s Rs s3" by (rule keeps_trans [OF z(2) m(2)])
    have run: "uvmalloc_loop s r a oldsz newsz xperm =
        (if res \<noteq> 0 then bnd (kfree s3 pg) (\<lambda>s. bnd (uvmdealloc s r a oldsz) (\<lambda>(_, s). Ok (0, s)))
         else uvmalloc_loop s3 r (a + PGSIZE) oldsz newsz xperm)"
      using m(1) by (subst uvmalloc_loop.simps) (simp add: a(3) k nz s2_def ucast_PGSIZE perm(1))
    show ?thesis
    proof (cases "res = 0")
      case True
      have EE: "(E(pg := 1))(pg := (E(pg := 1)) pg - 1) = E" using z(8) by auto
      have v3: "vinv s3 Rs E" using st True unfolding EE by simp
      have l3: "leaf (memory s3) r' b = (if r' = r \<and> PGROUNDDOWN b = a then PA2PTE pg OR perm OR PTE_V else leaf (memory s) r' b)"
        if "r' \<in> Rs" "b < MAXVA" for r' b using st True that z(9) by simp
      note pe = page_entry [OF page_ok_aligned [OF z(3)] pf(1)]
      have "E p = 0" if mp: "maps (memory s3) Rs p \<noteq> {}" for p
      proof -
        obtain r' b where b: "r' \<in> Rs" "aligned 12 b" "b < TRAPFRAME" "bit (leaf (memory s3) r' b) 0" "PTE2PA (leaf (memory s3) r' b) = p"
          using mp by (auto simp: maps_def)
        have "p = pg \<or> (r', b) \<in> maps (memory s) Rs p"
          using b l3 [OF b(1) below_TRAPFRAME [OF b(3)]] pe(1) by (auto simp: maps_def split: if_splits)
        then show ?thesis using z(8) vok_mapped [OF vk] by auto
      qed
      then have vk3: "vok s3 Rs E" using v3 vk by (simp add: vok_def)
      have "fresh s3 r b perm" if "PGROUNDDOWN b = a" "b < MAXVA" for b
      proof -
        have lb: "leaf (memory s3) r b = PA2PTE pg OR perm OR PTE_V" using l3 [OF r that(2)] that(1) by simp
        have "memory s3 x = 0" if "blk 12 x = pg" for x
        proof -
          have "data s2 Rs x" using that z(3,4,5) by (simp add: data_def)
          then show ?thesis using keeps_memory [OF m(2)] z(10) [OF that] by simp
        qed
        then show ?thesis using pe by (simp add: fresh_def lb)
      qed
      then show ?thesis using run True vk3 k3 l3 by auto
    next
      case False
      have v3: "vinv s3 Rs (E(pg := 1))" and l3: "\<And>r' b. r' \<in> Rs \<Longrightarrow> leaf (memory s3) r' b = leaf (memory s) r' b"
        using st False z(9) by auto
      have ok3: "page_ok s3 pg" using keeps_page_ok [OF m(2)] z(3) by simp
      obtain s4 where f: "kfree s3 pg = Ok s4" "vinv s4 Rs ((E(pg := 1))(pg := (E(pg := 1)) pg - 1))" "page_ok s4 = page_ok s3"
          "\<forall>q. page_ok s3 q \<longrightarrow> refs s4 q = (if q = pg then refs s3 pg - 1 else refs s3 q)"
          "\<forall>x. blk 12 x \<noteq> pg \<or> 1 < refs s3 pg \<longrightarrow> memory s4 x = memory s3 x"
          "\<forall>r va. r \<in> Rs \<longrightarrow> leaf (memory s4) r va = leaf (memory s3) r va" "tabs (memory s4) Rs = tabs (memory s3) Rs"
        using vinv_free [OF v3 ok3] by auto
      have EE: "(E(pg := 1))(pg := (E(pg := 1)) pg - 1) = E" using z(8) by auto
      have l4: "leaf (memory s4) r' b = leaf (memory s) r' b" if "r' \<in> Rs" for r' b using f(6) l3 that by simp
      then have "maps (memory s4) Rs = maps (memory s) Rs" by (rule maps_cong)
      then have vk4: "vok s4 Rs E" using f(2) vk unfolding EE by (simp add: vok_def)
      have "keeps s Rs s4"
        unfolding keeps_def
      proof (intro conjI allI impI)
        show "page_ok s4 = page_ok s" using f(3) keeps_page_ok [OF k3] by simp
        fix x assume x: "data s Rs x"
        have ne: "blk 12 x \<noteq> pg" using x vinv_kalloc(2,3) [OF v vok_nonneg [OF vk] k nz] by (auto simp: data_def)
        then show "memory s4 x = memory s x" using f(5) keeps_memory [OF k3 x] by simp
        show "data s4 Rs x" using x k3 ne f(3,4,7) by (auto simp: keeps_def data_def)
      qed
      then show ?thesis using run False f(1) vk4 l4 by auto
    qed
  qed
qed

section \<open>Shrinking\<close>

lemma scast_ucast_small: "unat (n :: u64) < 2 ^ 31 \<Longrightarrow> scast (ucast n :: u32) = n"
proof (rule bit_eqI)
  fix i assume n: "unat n < 2 ^ 31" and i: "possible_bit TYPE(u64) i"
  have b: "bit n k \<Longrightarrow> k < 31" for k using bit_small [OF n] .
  show "bit (scast (ucast n :: u32) :: u64) i = bit n i"
    using i b [of i] b [of 31] by (auto simp: bit_signed_iff bit_ucast_iff min_def)
qed

lemma page_span:
  assumes "aligned 12 lo" and "aligned 12 hi" and "lo \<le> hi"
  shows "lo + (hi - lo) div PGSIZE * PGSIZE = hi" and "unat ((hi - lo) div PGSIZE) = (unat hi - unat lo) div 4096"
proof -
  obtain i where i: "unat lo = 4096 * i" using mod_0_mult [of "unat lo" 4096] assms(1) by (auto simp: aligned_unat)
  obtain j where j: "unat hi = 4096 * j" using mod_0_mult [of "unat hi" 4096] assms(2) by (auto simp: aligned_unat)
  have d: "unat (hi - lo) = 4096 * (j - i)" using assms(3) i j by (simp add: unat_sub diff_mult_distrib2)
  then show q: "unat ((hi - lo) div PGSIZE) = (unat hi - unat lo) div 4096"
    using i j by (simp add: unat_div PGSIZE_def diff_mult_distrib2 [symmetric])
  have lt: "unat (hi - lo) < 2 ^ 64" using unsigned_less [of "hi - lo"] by simp
  have "unat ((hi - lo) div PGSIZE * PGSIZE) = unat ((hi - lo) div PGSIZE) * unat PGSIZE mod 2 ^ 64"
    by (simp only: unat_word_ariths(2)) simp
  also have "\<dots> = unat (hi - lo)"
    using d q i j lt by (simp add: PGSIZE_def diff_mult_distrib2 [symmetric] mult.commute)
  finally have "(hi - lo) div PGSIZE * PGSIZE = hi - lo" by (simp only: word_unat_eq_iff)
  then show "lo + (hi - lo) div PGSIZE * PGSIZE = hi" by simp
qed

lemma PGROUNDUP_mono: "newsz \<le> oldsz \<Longrightarrow> oldsz \<le> TRAPFRAME \<Longrightarrow> PGROUNDUP newsz \<le> PGROUNDUP oldsz"
proof -
  assume "newsz \<le> oldsz" "oldsz \<le> TRAPFRAME"
  then have le: "unat newsz \<le> unat oldsz" "unat oldsz \<le> 4096 * 67108862" by (simp_all add: word_le_nat_alt unat_TRAPFRAME)
  then show ?thesis by (simp add: word_le_nat_alt unat_PGROUNDUP div_le_mono)
qed

lemma uvmdealloc_spec:
  assumes vk: "vok s Rs E" and r: "r \<in> Rs" and sz: "newsz < oldsz" "oldsz \<le> TRAPFRAME"
    and val: "\<And>b. aligned 12 b \<Longrightarrow> PGROUNDUP newsz \<le> b \<Longrightarrow> b < PGROUNDUP oldsz \<Longrightarrow> bit (leaf (memory s) r b) 0"
  shows "\<exists>s'. uvmdealloc s r oldsz newsz = Ok (newsz, s') \<and> vok s' Rs E \<and> releases s Rs s' \<and>
    (\<forall>r' \<in> Rs. \<forall>b < MAXVA. leaf (memory s') r' b =
       (if r' = r \<and> PGROUNDUP newsz \<le> b \<and> b < PGROUNDUP oldsz then 0 else leaf (memory s) r' b))"
proof -
  let ?lo = "PGROUNDUP newsz" and ?hi = "PGROUNDUP oldsz"
  have le: "?lo \<le> ?hi" using sz by (intro PGROUNDUP_mono) simp_all
  have hi: "?hi \<le> TRAPFRAME" by (rule PGROUNDUP_user(1) [OF sz(2)])
  have "unat ?hi \<le> 4096 * 67108862" using hi by (simp add: word_le_nat_alt unat_TRAPFRAME)
  then have sm: "unat ((?hi - ?lo) div PGSIZE) < 2 ^ 31" using page_span(2) [OF _ _ le] by simp
  obtain s' where s': "uvmunmap_loop s r ?lo ?hi True = Ok s'" "vinv s' Rs E" "releases s Rs s'"
    and l: "\<forall>r' \<in> Rs. \<forall>b < MAXVA. leaf (memory s') r' b = (if r' = r \<and> ?lo \<le> b \<and> b < ?hi then 0 else leaf (memory s) r' b)"
    using uvmunmap_range [OF vok_vinv [OF vk] vok_nonneg [OF vk] r aligned_PGROUNDUP aligned_PGROUNDUP hi val] by blast
  have vk': "vok s' Rs E" by (rule vok_unmapped [OF vk s'(2)]) (use l in simp)
  have nle: "\<not> oldsz \<le> newsz" using sz(1) by (simp add: not_le)
  have "uvmdealloc s r oldsz newsz = Ok (newsz, s')"
  proof (cases "?lo < ?hi")
    case True
    have "?lo + scast (ucast ((?hi - ?lo) div PGSIZE) :: u32) * PGSIZE = ?hi"
      using scast_ucast_small [OF sm] page_span(1) [OF _ _ le] by simp
    then show ?thesis using nle True s'(1) by (simp add: uvmdealloc_def uvmunmap_def mod_PGSIZE Let_def)
  next
    case False
    then have "s' = s" using s'(1) by (simp add: uvmunmap_loop.simps)
    then show ?thesis using nle False by (simp add: uvmdealloc_def)
  qed
  then show ?thesis using vk' s'(3) l by blast
qed

lemma PGROUNDUP_aligned:
  assumes "aligned 12 a" and "a \<le> TRAPFRAME"
  shows "PGROUNDUP a = a"
proof -
  obtain k where k: "unat a = 4096 * k" using mod_0_mult [of "unat a" 4096] assms(1) by (auto simp: aligned_unat)
  have "4096 * k + 4095 < 2 ^ 64" using assms(2) k by (simp add: word_le_nat_alt unat_TRAPFRAME)
  moreover have "(4096 * k + 4095) div 4096 = k" using div_page_iff by simp
  ultimately show ?thesis using k by (simp add: word_unat_eq_iff unat_PGROUNDUP)
qed

section \<open>The whole of \<^verbatim>\<open>uvmalloc\<close>\<close>

lemma above_page:
  assumes "aligned 12 a" and "a \<le> b"
  shows "a \<le> PGROUNDDOWN b"
proof (rule ccontr)
  assume "\<not> a \<le> PGROUNDDOWN b"
  then have "PGROUNDDOWN b < a" by simp
  note nb = next_page [OF _ assms(1) this]
  then have "unat b < unat a" by (simp add: word_le_nat_alt unat_PGROUNDDOWN)
  with assms(2) show False by (simp add: word_le_nat_alt)
qed

text \<open>The pages that the loop has added before it ran out of memory are taken away again.\<close>

lemma uvmalloc_failed:
  assumes v1: "vok s1 Rs E" and r: "r \<in> Rs" and al: "aligned 12 a" "aligned 12 oldsz" and le: "oldsz \<le> a" "a < hi" "hi \<le> TRAPFRAME"
    and val: "\<And>b. aligned 12 b \<Longrightarrow> oldsz \<le> b \<Longrightarrow> b < a \<Longrightarrow> bit (leaf (memory s1) r b) 0"
    and inv: "\<And>b. aligned 12 b \<Longrightarrow> a \<le> b \<Longrightarrow> b < hi \<Longrightarrow> \<not> bit (leaf (memory s1) r b) 0"
  shows "\<exists>sz s'. uvmdealloc s1 r a oldsz = Ok (sz, s') \<and> vok s' Rs E \<and> releases s1 Rs s' \<and>
    (\<forall>r' \<in> Rs. \<forall>b < MAXVA. if r' = r \<and> oldsz \<le> b \<and> b < hi then \<not> bit (leaf (memory s') r' b) 0
       else leaf (memory s') r' b = leaf (memory s1) r' b)"
proof -
  have atf: "a \<le> TRAPFRAME" using le by simp
  have up: "PGROUNDUP a = a" "PGROUNDUP oldsz = oldsz"
    using PGROUNDUP_aligned [OF al(1) atf] PGROUNDUP_aligned [OF al(2) order_trans [OF le(1) atf]] by simp_all
  have ia: "\<not> bit (leaf (memory s1) r b) 0" if "a \<le> b" "b < hi" "b < MAXVA" for b
    using inv [of "PGROUNDDOWN b"] above_page [OF al(1) that(1)] PGROUNDDOWN_less [OF that(2)] leaf_page [OF that(3)] by simp
  show ?thesis
  proof (cases "oldsz = a")
    case True
    then show ?thesis using v1 ia by (auto simp: uvmdealloc_def)
  next
    case False
    then have lt: "oldsz < a" using le(1) by simp
    have "bit (leaf (memory s1) r b) 0" if "aligned 12 b" "PGROUNDUP oldsz \<le> b" "b < PGROUNDUP a" for b
      using that val unfolding up by simp
    then obtain s' where s': "uvmdealloc s1 r a oldsz = Ok (oldsz, s')" "vok s' Rs E" "releases s1 Rs s'"
      and l: "\<forall>r' \<in> Rs. \<forall>b < MAXVA. leaf (memory s') r' b = (if r' = r \<and> oldsz \<le> b \<and> b < a then 0 else leaf (memory s1) r' b)"
      using uvmdealloc_spec [OF v1 r lt atf] unfolding up by blast
    have "if r' = r \<and> oldsz \<le> b \<and> b < hi then \<not> bit (leaf (memory s') r' b) 0 else leaf (memory s') r' b = leaf (memory s1) r' b"
      if b: "r' \<in> Rs" "b < MAXVA" for r' b
    proof -
      have "leaf (memory s') r' b = (if r' = r \<and> oldsz \<le> b \<and> b < a then 0 else leaf (memory s1) r' b)" using l b by blast
      then show ?thesis using ia [of b] b(2) le(2) by (auto simp: not_less split: if_splits)
    qed
    then show ?thesis using s' by blast
  qed
qed

text \<open>The outcome of growing from \<open>a\<close> to \<open>hi\<close> in a run that started at \<open>oldsz\<close>.\<close>

definition grown :: "kst \<Rightarrow> kst \<Rightarrow> u64 set \<Rightarrow> u64 \<Rightarrow> u64 \<Rightarrow> u64 \<Rightarrow> u64 \<Rightarrow> u64 \<Rightarrow> bool \<Rightarrow> bool" where
  "grown s s' Rs r oldsz a hi perm ok \<longleftrightarrow>
     (if ok then keeps s Rs s' \<and> (\<forall>b < MAXVA. a \<le> b \<longrightarrow> b < hi \<longrightarrow> fresh s' r b perm) \<and>
        (\<forall>r' \<in> Rs. \<forall>b < MAXVA. \<not> (r' = r \<and> a \<le> b \<and> b < hi) \<longrightarrow> leaf (memory s') r' b = leaf (memory s) r' b)
      else (\<exists>s''. keeps s Rs s'' \<and> releases s'' Rs s') \<and>
        (\<forall>r' \<in> Rs. \<forall>b < MAXVA. if r' = r \<and> oldsz \<le> b \<and> b < hi then \<not> bit (leaf (memory s') r' b) 0
           else leaf (memory s') r' b = leaf (memory s) r' b))"

lemma fresh_keeps:
  assumes vk: "vok s Rs E" and k: "keeps s Rs s'" and r: "r \<in> Rs" and b: "b < MAXVA" and u: "bit perm 4"
    and f: "fresh s r b perm" and l: "leaf (memory s') r b = leaf (memory s) r b"
  shows "fresh s' r b perm"
proof -
  note v = vok_vinv [OF vk]
  have e: "bit (leaf (memory s) r b) 0" "bit (leaf (memory s) r b) 4" using f u by (auto simp: fresh_def Let_def)
  have "memory s' x = memory s x" if "blk 12 x = PTE2PA (leaf (memory s) r b)" for x
    by (rule keeps_memory [OF k mapped_data [OF v user_mapped [OF v r b e] vok_nonneg [OF vk] that]])
  then show ?thesis using f by (simp add: fresh_def l)
qed

lemma grown_trans:
  assumes v1: "vok s1 Rs E" and r: "r \<in> Rs" and u: "bit perm 4" and np: "unat (a + PGSIZE) = unat a + 4096" "a + PGSIZE \<le> hi"
    and al: "aligned 12 a" and le: "oldsz \<le> a" and k: "keeps s Rs s1"
    and f1: "\<And>b. PGROUNDDOWN b = a \<Longrightarrow> b < MAXVA \<Longrightarrow> fresh s1 r b perm"
    and l1: "\<And>r' b. r' \<in> Rs \<Longrightarrow> b < MAXVA \<Longrightarrow> r' \<noteq> r \<or> PGROUNDDOWN b \<noteq> a \<Longrightarrow> leaf (memory s1) r' b = leaf (memory s) r' b"
    and g: "grown s1 s' Rs r oldsz (a + PGSIZE) hi perm ok"
  shows "grown s s' Rs r oldsz a hi perm ok"
proof -
  have rng: "a \<le> b \<and> b < hi \<longleftrightarrow> PGROUNDDOWN b = a \<or> (a + PGSIZE \<le> b \<and> b < hi)" for b
    using np PGROUNDDOWN_eq_iff [OF al np(1), of b] by (auto simp: word_le_nat_alt word_less_nat_alt)
  have dis: "PGROUNDDOWN b = a \<Longrightarrow> \<not> a + PGSIZE \<le> b" for b using PGROUNDDOWN_eq_iff [OF al np(1), of b] by auto
  show ?thesis
  proof (cases ok)
    case True
    have k1: "keeps s1 Rs s'" using g True by (simp add: grown_def)
    have f: "fresh s' r b perm" if b: "b < MAXVA" "a \<le> b" "b < hi" for b
    proof (cases "PGROUNDDOWN b = a")
      case True
      have "leaf (memory s') r b = leaf (memory s1) r b" using g \<open>ok\<close> dis [OF True] r b(1) by (simp add: grown_def)
      then show ?thesis by (rule fresh_keeps [OF v1 k1 r b(1) u f1 [OF True b(1)]])
    next
      case False
      then show ?thesis using g \<open>ok\<close> rng [of b] b by (auto simp: grown_def)
    qed
    have "leaf (memory s') r' b = leaf (memory s) r' b" if b: "r' \<in> Rs" "b < MAXVA" "\<not> (r' = r \<and> a \<le> b \<and> b < hi)" for r' b
    proof -
      have "leaf (memory s') r' b = leaf (memory s1) r' b" using g True b rng [of b] unfolding grown_def by auto
      then show ?thesis using l1 [OF b(1,2)] b(3) rng [of b] by auto
    qed
    with f k1 keeps_trans [OF k k1] True show ?thesis by (simp add: grown_def)
  next
    case False
    then obtain s'' where s'': "keeps s1 Rs s''" "releases s'' Rs s'" using g by (auto simp: grown_def)
    have "if r' = r \<and> oldsz \<le> b \<and> b < hi then \<not> bit (leaf (memory s') r' b) 0 else leaf (memory s') r' b = leaf (memory s) r' b"
      if b: "r' \<in> Rs" "b < MAXVA" for r' b
    proof -
      have "if r' = r \<and> oldsz \<le> b \<and> b < hi then \<not> bit (leaf (memory s') r' b) 0 else leaf (memory s') r' b = leaf (memory s1) r' b"
        using g b unfolding grown_def if_not_P [OF False] by blast
      moreover have "PGROUNDDOWN b = a \<Longrightarrow> oldsz \<le> b \<and> b < hi" using rng [of b] le by auto
      ultimately show ?thesis using l1 [OF b] by (auto split: if_splits)
    qed
    with s'' keeps_trans [OF k s''(1)] False show ?thesis unfolding grown_def by auto
  qed
qed

lemma uvmalloc_loop_spec:
  assumes "vok s Rs E" and "r \<in> Rs" and "aligned 12 a" and "aligned 12 oldsz" and "oldsz \<le> a" and "a \<le> hi"
    and "aligned 12 hi" and "hi \<le> TRAPFRAME" and "\<And>b. aligned 12 b \<Longrightarrow> b < newsz \<longleftrightarrow> b < hi"
    and "\<And>b. aligned 12 b \<Longrightarrow> oldsz \<le> b \<Longrightarrow> b < a \<Longrightarrow> bit (leaf (memory s) r b) 0"
    and "\<And>b. aligned 12 b \<Longrightarrow> a \<le> b \<Longrightarrow> b < hi \<Longrightarrow> \<not> bit (leaf (memory s) r b) 0"
    and "perm = PTE_R OR PTE_U OR xperm" and "PTE_FLAGS xperm = xperm"
  shows "\<exists>ok s'. uvmalloc_loop s r a oldsz newsz xperm = Ok (if ok then newsz else 0, s') \<and> vok s' Rs E \<and>
    grown s s' Rs r oldsz a hi perm ok"
  using assms
proof (induction "unat hi - unat a" arbitrary: s a rule: less_induct)
  case less
  note p = less.prems
  show ?case
  proof (cases "a < newsz")
    case False
    then have "\<not> a < hi" using p(3,9) by blast
    then have "\<not> (a \<le> b \<and> b < hi)" for b by auto
    moreover have "uvmalloc_loop s r a oldsz newsz xperm = Ok (newsz, s)" using False by (simp add: uvmalloc_loop.simps)
    ultimately show ?thesis using p(1) by (intro exI [of _ True] exI [of _ s]) (auto simp: grown_def)
  next
    case True
    then have lt: "a < hi" using p(3,9) by blast
    note np = next_page [OF p(3,7) lt]
    have tf: "a < TRAPFRAME" using lt p(8) by simp
    have inval: "\<not> bit (leaf (memory s) r a) 0" using p(3,11) lt by simp
    have below: "b < MAXVA" if "b < hi" for b using that p(8) below_TRAPFRAME by (meson less_le_trans)
    consider (fail) s1 where "uvmalloc_loop s r a oldsz newsz xperm = bnd (uvmdealloc s1 r a oldsz) (\<lambda>(_, s). Ok (0, s))"
        "vok s1 Rs E" "keeps s Rs s1" "\<forall>r' \<in> Rs. \<forall>b. leaf (memory s1) r' b = leaf (memory s) r' b"
      | (ok) s1 where "uvmalloc_loop s r a oldsz newsz xperm = uvmalloc_loop s1 r (a + PGSIZE) oldsz newsz xperm"
        "vok s1 Rs E" "keeps s Rs s1" "\<forall>b. PGROUNDDOWN b = a \<longrightarrow> b < MAXVA \<longrightarrow> fresh s1 r b perm"
        "\<forall>r' \<in> Rs. \<forall>b < MAXVA. r' \<noteq> r \<or> PGROUNDDOWN b \<noteq> a \<longrightarrow> leaf (memory s1) r' b = leaf (memory s) r' b"
      using uvmalloc_round [OF p(1-3) tf True inval p(12,13)] by blast
    then show ?thesis
    proof cases
      case fail
      obtain sz s' where s': "uvmdealloc s1 r a oldsz = Ok (sz, s')" "vok s' Rs E" "releases s1 Rs s'"
        "\<forall>r' \<in> Rs. \<forall>b < MAXVA. if r' = r \<and> oldsz \<le> b \<and> b < hi then \<not> bit (leaf (memory s') r' b) 0
           else leaf (memory s') r' b = leaf (memory s1) r' b"
        using uvmalloc_failed [OF fail(2) p(2-5) lt p(8)] p(2,10,11) fail(4) by auto
      then have "grown s s' Rs r oldsz a hi perm False" using fail(3,4) unfolding grown_def by auto
      then show ?thesis using fail(1) s'(1,2) by (intro exI [of _ False] exI [of _ s']) auto
    next
      case ok
      have val1: "bit (leaf (memory s1) r b) 0" if b: "aligned 12 b" "oldsz \<le> b" "b < a + PGSIZE" for b
      proof (cases "PGROUNDDOWN b = a")
        case True
        have "b < MAXVA" using b(3) np(2) by (intro below) simp
        then show ?thesis using ok(4) True by (auto simp: fresh_def Let_def)
      next
        case False
        then have "b < a" using b PGROUNDDOWN_eq_iff [OF p(3) np(1), of b] by auto
        then show ?thesis using ok(5) False b p(2,10) below [of b] lt by auto
      qed
      have inv1: "\<not> bit (leaf (memory s1) r b) 0" if b: "aligned 12 b" "a + PGSIZE \<le> b" "b < hi" for b
      proof -
        have "PGROUNDDOWN b \<noteq> a" using b(2) PGROUNDDOWN_eq_iff [OF p(3) np(1), of b] by auto
        moreover have "a \<le> b" using b(2) np(1) by (simp add: word_le_nat_alt)
        ultimately show ?thesis using ok(5) p(2,11) b below [OF b(3)] by auto
      qed
      have dec: "unat hi - unat (a + PGSIZE) < unat hi - unat a" using np(1) lt by (simp add: word_less_nat_alt)
      have old1: "oldsz \<le> a + PGSIZE" using p(5) np(1) by (simp add: word_le_nat_alt)
      obtain fin s' where ih: "uvmalloc_loop s1 r (a + PGSIZE) oldsz newsz xperm = Ok (if fin then newsz else 0, s')"
        "vok s' Rs E" "grown s1 s' Rs r oldsz (a + PGSIZE) hi perm fin"
        using less.hyps [OF dec ok(2) p(2) np(3) p(4) old1 np(2) p(7-9) val1 inv1 p(12,13)] by blast
      have u: "bit perm 4" using p(12) by (simp add: pte_bits)
      have "grown s s' Rs r oldsz a hi perm fin"
        using grown_trans [OF ok(2) p(2) u np(1,2) p(3,5) ok(3) _ _ ih(3)] ok(4,5) by blast
      then show ?thesis using ok(1) ih(1,2) by (intro exI [of _ fin] exI [of _ s']) simp
    qed
  qed
qed

text \<open>What the programs see of it.\<close>

lemma both_view:
  assumes vk: "vok s Rs E" "vok s' Rs E" and r: "r \<in> Rs" and l: "leaf (memory s') r b = leaf (memory s) r b"
    and m: "\<And>x. data s Rs x \<Longrightarrow> data s' Rs x \<Longrightarrow> memory s' x = memory s x"
  shows "uload (memory s') r b = uload (memory s) r b" and "uwritable (memory s') r b = uwritable (memory s) r b"
proof -
  show "uwritable (memory s') r b = uwritable (memory s) r b" by (simp add: uwritable_def l)
  show "uload (memory s') r b = uload (memory s) r b"
  proof (cases "b < MAXVA")
    case True
    show ?thesis
    proof (rule uload_eq [OF True refl refl refl l])
      assume e: "bit (leaf (memory s) r b) 0" "bit (leaf (memory s) r b) 4"
      have e': "bit (leaf (memory s') r b) 0" "bit (leaf (memory s') r b) 4" using e l by auto
      note d = mapped_data [OF vok_vinv [OF vk(1)] user_mapped [OF vok_vinv [OF vk(1)] r True e] vok_nonneg [OF vk(1)] page_offset]
      note d' = mapped_data [OF vok_vinv [OF vk(2)] user_mapped [OF vok_vinv [OF vk(2)] r True e'] vok_nonneg [OF vk(2)] page_offset]
      show "memory s' (PTE2PA (leaf (memory s) r b) + (b - PGROUNDDOWN b)) = memory s (PTE2PA (leaf (memory s) r b) + (b - PGROUNDDOWN b))"
        using m [OF d] d' unfolding l by blast
    qed
  qed (simp add: uload_def)
qed

lemma uvmalloc_spec:
  assumes vk: "vok s Rs E" and r: "r \<in> Rs" and sz: "oldsz \<le> newsz" "newsz \<le> TRAPFRAME" and x: "PTE_FLAGS xperm = xperm"
    and inval: "\<And>b. aligned 12 b \<Longrightarrow> PGROUNDUP oldsz \<le> b \<Longrightarrow> b < PGROUNDUP newsz \<Longrightarrow> \<not> bit (leaf (memory s) r b) 0"
  shows "\<exists>ok s'. uvmalloc s r oldsz newsz xperm = Ok (if ok then newsz else 0, s') \<and> vok s' Rs E \<and> page_ok s' = page_ok s \<and>
    (\<forall>x. kdata s E x \<longrightarrow> memory s' x = memory s x) \<and>
    (\<forall>r' \<in> Rs. \<forall>b. let new = ok \<and> r' = r \<and> PGROUNDUP oldsz \<le> b \<and> b < PGROUNDUP newsz in
       uload (memory s') r' b = (if new then Some 0 else uload (memory s) r' b) \<and>
       uwritable (memory s') r' b = (if new then bit xperm 2 \<or> bit xperm 8 else uwritable (memory s) r' b)) \<and>
    (ok \<longrightarrow> (\<forall>b. aligned 12 b \<longrightarrow> PGROUNDUP oldsz \<le> b \<longrightarrow> b < PGROUNDUP newsz \<longrightarrow> bit (leaf (memory s') r b) 0))"
proof -
  let ?lo = "PGROUNDUP oldsz" and ?hi = "PGROUNDUP newsz"
  define perm where "perm = PTE_R OR PTE_U OR xperm"
  have hi: "?hi \<le> TRAPFRAME" by (rule PGROUNDUP_user(1) [OF sz(2)])
  have le: "?lo \<le> ?hi" using sz by (intro PGROUNDUP_mono)
  have below: "b < MAXVA" if "b < ?hi" for b using that hi below_TRAPFRAME by (meson less_le_trans)
  have none: "bit (leaf (memory s) r b) 0" if "aligned 12 b" "?lo \<le> b" "b < ?lo" for b
    using that(2,3) by (auto simp: not_le [symmetric])
  obtain ok s' where run: "uvmalloc_loop s r ?lo ?lo newsz xperm = Ok (if ok then newsz else 0, s')" "vok s' Rs E"
    and g: "grown s s' Rs r ?lo ?lo ?hi perm ok"
    using uvmalloc_loop_spec [OF vk r aligned_PGROUNDUP aligned_PGROUNDUP order_refl le aligned_PGROUNDUP hi
        PGROUNDUP_user(2) [OF sz(2)] none inval perm_def x] by blast
  have m: "memory s' x = memory s x" if "data s Rs x" "data s' Rs x" for x
    using g that unfolding grown_def by (auto simp: keeps_def releases_def split: if_splits)
  have pok: "page_ok s' = page_ok s" using g unfolding grown_def by (auto simp: keeps_def releases_def split: if_splits)
  have "memory s' x = memory s x" if "kdata s E x" for x
    using m kdata_data [OF vok_vinv [OF vk] that] kdata_data [OF vok_vinv [OF run(2)], of x] that pok by (simp add: kdata_def)
  moreover have "uload (memory s') r' b = (if ok \<and> r' = r \<and> ?lo \<le> b \<and> b < ?hi then Some 0 else uload (memory s) r' b) \<and>
      uwritable (memory s') r' b = (if ok \<and> r' = r \<and> ?lo \<le> b \<and> b < ?hi then bit xperm 2 \<or> bit xperm 8 else uwritable (memory s) r' b)"
    if r': "r' \<in> Rs" for r' b
  proof (cases "r' = r \<and> ?lo \<le> b \<and> b < ?hi")
    case True
    have b: "b < MAXVA" using below True by simp
    have old: "\<not> bit (leaf (memory s) r b) 0"
      using inval [of "PGROUNDDOWN b"] above_page [of ?lo b] PGROUNDDOWN_less [of b ?hi] leaf_page [OF b] True by simp
    show ?thesis
    proof (cases ok)
      case o: True
      have f: "fresh s' r b perm" using g o True b unfolding grown_def by auto
      have "blk 12 (PTE2PA (leaf (memory s') r b) + (b - PGROUNDDOWN b)) = PTE2PA (leaf (memory s') r b)" by (rule page_offset)
      then show ?thesis using f True o b by (auto simp: uload_def uwritable_def fresh_def Let_def perm_def pte_bits)
    next
      case False
      then have "\<not> bit (leaf (memory s') r b) 0" using g True b r unfolding grown_def by (metis (no_types))
      then show ?thesis using old True False by (simp add: uload_def uwritable_def)
    qed
  next
    case False
    show ?thesis
    proof (cases "b < MAXVA")
      case b: True
      have "leaf (memory s') r' b = leaf (memory s) r' b" using g False r' b unfolding grown_def by (metis (no_types))
      then show ?thesis using both_view [OF vk run(2) r' _ m] False by auto
    qed (use False in \<open>auto simp: uload_def uwritable_def\<close>)
  qed
  moreover have "bit (leaf (memory s') r b) 0" if "ok" "?lo \<le> b" "b < ?hi" for b
    using g that below [OF that(3)] unfolding grown_def fresh_def Let_def by auto
  moreover have "uvmalloc s r oldsz newsz xperm = Ok (if ok then newsz else 0, s')" using run(1) sz(1) by (simp add: uvmalloc_def leD)
  ultimately show ?thesis using run(2) pok by (intro exI [of _ ok] exI [of _ s']) (simp add: Let_def)
qed

end
