(* ===== verification/Sample.thy ===== *)
theory Sample
  imports Uvm
begin

text \<open>
  A machine with eight pages: two roots with their lower tables, the page that the first root
  maps at address 0, and a free page. The properties are instantiated on it.
\<close>

definition pgA :: u64 where "pgA = 0x87FF8000"
definition pgB :: u64 where "pgB = 0x87FF9000"
definition pgT1 :: u64 where "pgT1 = 0x87FFA000"
definition pgT0 :: u64 where "pgT0 = 0x87FFB000"
definition pgS1 :: u64 where "pgS1 = 0x87FFC000"
definition pgS0 :: u64 where "pgS0 = 0x87FFD000"
definition pgU :: u64 where "pgU = 0x87FFE000"
definition pgF :: u64 where "pgF = 0x87FFF000"

lemmas pg_defs = pgA_def pgB_def pgT1_def pgT0_def pgS1_def pgS0_def pgU_def pgF_def

definition sample0 :: kst where
  "sample0 = \<lparr>memory = (\<lambda>_. 0), freelist = pgF, counter = (\<lambda>i. if i = PA2COWINDEX pgF then 0 else 1), kend = pgA\<rparr>"

definition mem1 :: mem where "mem1 = linked (\<lambda>_. 0) pgA 0 0 pgT1"
definition mem2 :: mem where "mem2 = linked mem1 pgT1 1 0 pgT0"
definition mem3 :: mem where "mem3 = linked mem2 pgB 0 0 pgS1"
definition mem4 :: mem where "mem4 = linked mem3 pgS1 1 0 pgS0"

definition user_entry :: u64 where
  "user_entry = PA2PTE pgU OR (PTE_R OR PTE_W OR PTE_U) OR PTE_V"

definition sample :: kst where
  "sample = sample0\<lparr>memory := st64 mem4 (slot pgT0 0 0) user_entry\<rparr>"

section \<open>Its pages\<close>

lemma sample_pages: "page_ok sample0 p \<longleftrightarrow> p \<in> {pgA, pgB, pgT1, pgT0, pgS1, pgS0, pgU, pgF}"
proof
  assume p: "page_ok sample0 p"
  then have lo: "0x87FF8000 \<le> unat p" by (simp add: page_ok_def sample0_def pg_defs word_le_nat_alt)
  note hi = page_ok_unat(2,3) [OF p]
  then obtain k where k: "unat p = 4096 * k" using mod_0_mult by blast
  then have "k = 557048 \<or> k = 557049 \<or> k = 557050 \<or> k = 557051 \<or>
    k = 557052 \<or> k = 557053 \<or> k = 557054 \<or> k = 557055" using lo hi(1) by linarith
  then show "p \<in> {pgA, pgB, pgT1, pgT0, pgS1, pgS0, pgU, pgF}" using k by (auto simp: pg_defs word_unat_eq_iff)
next
  assume "p \<in> {pgA, pgB, pgT1, pgT0, pgS1, pgS0, pgU, pgF}"
  then show "page_ok sample0 p"
    by (auto simp: page_ok_def aligned_unat sample0_def pg_defs KERNBASE_def PHYSTOP_def)
qed

lemma pg_ne [simp]:
  "pgA \<noteq> pgB" "pgA \<noteq> pgT1" "pgA \<noteq> pgT0" "pgA \<noteq> pgS1" "pgA \<noteq> pgS0"
  "pgA \<noteq> pgU" "pgA \<noteq> pgF" "pgB \<noteq> pgA" "pgB \<noteq> pgT1" "pgB \<noteq> pgT0"
  "pgB \<noteq> pgS1" "pgB \<noteq> pgS0" "pgB \<noteq> pgU" "pgB \<noteq> pgF" "pgT1 \<noteq> pgA"
  "pgT1 \<noteq> pgB" "pgT1 \<noteq> pgT0" "pgT1 \<noteq> pgS1" "pgT1 \<noteq> pgS0" "pgT1 \<noteq>
  pgU" "pgT1 \<noteq> pgF" "pgT0 \<noteq> pgA" "pgT0 \<noteq> pgB" "pgT0 \<noteq> pgT1" "pgT0
  \<noteq> pgS1" "pgT0 \<noteq> pgS0" "pgT0 \<noteq> pgU" "pgT0 \<noteq> pgF" "pgS1 \<noteq> pgA"
  "pgS1 \<noteq> pgB" "pgS1 \<noteq> pgT1" "pgS1 \<noteq> pgT0" "pgS1 \<noteq> pgS0" "pgS1 \<noteq>
  pgU" "pgS1 \<noteq> pgF" "pgS0 \<noteq> pgA" "pgS0 \<noteq> pgB" "pgS0 \<noteq> pgT1" "pgS0
  \<noteq> pgT0" "pgS0 \<noteq> pgS1" "pgS0 \<noteq> pgU" "pgS0 \<noteq> pgF" "pgU \<noteq> pgA"
  "pgU \<noteq> pgB" "pgU \<noteq> pgT1" "pgU \<noteq> pgT0" "pgU \<noteq> pgS1" "pgU \<noteq> pgS0"
  "pgU \<noteq> pgF" "pgF \<noteq> pgA" "pgF \<noteq> pgB" "pgF \<noteq> pgT1" "pgF \<noteq> pgT0"
  "pgF \<noteq> pgS1" "pgF \<noteq> pgS0" "pgF \<noteq> pgU"
  by (simp_all add: pg_defs)

lemma pg_aligned [simp]:
  "aligned 12 pgA" "aligned 12 pgB" "aligned 12 pgT1" "aligned 12 pgT0" "aligned 12 pgS1" "aligned
  12 pgS0" "aligned 12 pgU" "aligned 12 pgF"
  by (simp_all add: pg_defs aligned_unat)

lemma sample_refs: "page_ok sample0 p \<Longrightarrow> refs sample0 p = (if p = pgF then 0 else 1)"
proof -
  assume p: "page_ok sample0 p"
  have f: "page_ok sample0 pgF" by (simp add: sample_pages)
  have c: "counter sample0 = (\<lambda>i. if i = PA2COWINDEX pgF then 0 else 1)" by (simp add: sample0_def)
  show ?thesis using page_index_inj [OF p f] by (simp add: refs_def c)
qed

lemma tab_zero_mem: "tab (\<lambda>_. 0) r va d = (if d = 0 then Some r else None)"
proof (induction d)
  case (Suc d)
  have "ld64 (\<lambda>_. 0) a = 0" for a by (rule ld64_const) simp
  with Suc show ?case by (cases d) (simp_all add: Let_def)
qed simp

lemma leaf_zero_mem [simp]: "leaf (\<lambda>_. 0) r va = 0"
  by (simp add: leaf_def tab_zero_mem)

definition E0 :: "u64 \<Rightarrow> int" where
  "E0 = (\<lambda>_. 0)(pgT1 := 1, pgT0 := 1, pgS1 := 1, pgS0 := 1, pgU := 1)"

lemma sample0_memory [simp]: "memory sample0 = (\<lambda>_. 0)"
  by (simp add: sample0_def)

lemma sample0_kinv: "kinv sample0"
proof -
  have "KERNBASE \<le> kend sample0" by (simp add: sample0_def pgA_def KERNBASE_def)
  moreover have "ld64 (\<lambda>_. 0) pgF = 0" by (rule ld64_const) simp
  then have "flist (memory sample0) (freelist sample0) [pgF]" by (simp add: sample0_def pgF_def)
  moreover have "refs sample0 p = 0 \<longleftrightarrow> p \<in> set [pgF]" if "page_ok sample0 p" for p
    using sample_refs [OF that] by simp
  ultimately have "kinv_on sample0 [pgF]" unfolding kinv_on_def by (simp add: sample_pages del: sample0_memory)
  then show ?thesis unfolding kinv_def by blast
qed

lemma tabs_zero_mem: "tabs (\<lambda>_. 0) Rs = Rs"
  unfolding tabs_def tab_zero_mem by (auto split: if_splits)

lemma sep_zero_mem: "(\<And>r. r \<in> Rs \<Longrightarrow> aligned 12 r) \<Longrightarrow> sep (\<lambda>_. 0) Rs"
  unfolding sep_def tabs_zero_mem tab_zero_mem by (auto split: if_splits)

lemma sample0_vinv: "vinv sample0 {pgA, pgB} E0"
proof -
  have mp: "maps (\<lambda>_. 0) {pgA, pgB} p = {}" for p by (simp add: maps_def)
  have s: "sep (\<lambda>_. 0) {pgA, pgB}" by (rule sep_zero_mem) auto
  have r: "int (refs sample0 p) = of_bool (p \<in> {pgA, pgB}) + E0 p" if "page_ok sample0 p" for p
    using sample_refs [OF that] that unfolding sample_pages by (auto simp: E0_def)
  have e: "page_ok sample0 p \<and> E0 p = 0" if "p \<in> {pgA, pgB}" for p
    using that unfolding sample_pages by (auto simp: E0_def)
  show ?thesis
    unfolding vinv_def sample0_memory tabs_zero_mem mp
    using sample0_kinv s r e by (simp add: leaf_ok_def)
qed

section \<open>Its page tables\<close>

lemma link_step:
  assumes v: "vinv (s\<lparr>memory := m\<rparr>) Rs E" and r: "r \<in> Rs" and p: "tab m r 0 d = Some p" "d < 2"
    and z: "ld64 m (slot p (2 - d) 0) = 0" and l: "\<And>q va. q \<in> Rs \<Longrightarrow> leaf m q va = 0"
    and pg: "page_ok s pg" "pg \<notin> tabs m Rs" "E pg = 1"
  defines "m' \<equiv> linked m p d 0 pg"
  shows "vinv (s\<lparr>memory := m'\<rparr>) Rs (E(pg := 0))" and "tab m' r 0 (Suc d) = Some pg"
    and "\<And>q va. q \<in> Rs \<Longrightarrow> leaf m' q va = 0" and "tabs m' Rs = insert pg (tabs m Rs)"
    and "ld64 m' (slot pg k 0) = 0"
    and "\<And>q k. q \<in> Rs \<Longrightarrow> q \<noteq> r \<Longrightarrow> k \<le> 2 \<Longrightarrow> tab m' q 0 k = tab m q 0 k"
    and "\<And>q k. aligned 12 q \<Longrightarrow> q \<noteq> p \<Longrightarrow> q \<noteq> pg \<Longrightarrow> ld64 m' (slot q k 0) = ld64 m (slot q k 0)"
proof -
  define s1 where "s1 = s\<lparr>memory := m\<rparr>"
  have ms: "memory s1 = m" by (simp add: s1_def)
  have p1: "page_ok s1 pg" "pg \<notin> tabs (memory s1) Rs" "maps (memory s1) Rs pg = {}"
    using pg l unfolding ms by (auto simp: s1_def maps_def)
  have i: "\<not> bit (ld64 (memory s1) (slot p (2 - d) 0)) 0" "tab (memory s1) r 0 d = Some p" using z p(1) unfolding ms by simp_all
  note li = vinv_link [OF v [folded s1_def] r i(2) p(2) i(1) p1 pg(3), unfolded ms, folded m'_def]
  show "vinv (s\<lparr>memory := m'\<rparr>) Rs (E(pg := 0))" using li(1) unfolding s1_def by (simp del: fun_upd_apply)
  show "tab m' r 0 (Suc d) = Some pg" by (rule li(2))
  show "\<And>q va. q \<in> Rs \<Longrightarrow> leaf m' q va = 0" using li(3) l by simp
  show "tabs m' Rs = insert pg (tabs m Rs)" by (rule li(4))
  have sep: "sep m Rs" using vinv_sep [OF v] by simp
  have al: "aligned 12 p" "aligned 12 pg" "p \<noteq> pg"
    using sep_aligned [OF sep] tabsI [OF r _ p(1)] p(2) pg(1,2) page_ok_aligned by auto
  then show "ld64 m' (slot pg k 0) = 0" by (simp add: m'_def ld64_linked)
  show "ld64 m' (slot q k 0) = ld64 m (slot q k 0)" if "aligned 12 q" "q \<noteq> p" "q \<noteq> pg" for q k
    using that al by (simp add: m'_def ld64_linked)
  show "tab m' q 0 k = tab m q 0 k" if "q \<in> Rs" "q \<noteq> r" "k \<le> 2" for q k
    using tab_linked [OF sep r p _ al(2) pg(2) that(1,3), of 0] z that(2) by (simp add: m'_def)
qed

lemma sample_mem1:
  shows "vinv (sample0\<lparr>memory := mem1\<rparr>) {pgA, pgB} (E0(pgT1 := 0))" and "tab mem1 pgA 0 1 = Some pgT1"
    and "\<And>q va. q \<in> {pgA, pgB} \<Longrightarrow> leaf mem1 q va = 0" and "tabs mem1 {pgA, pgB} = {pgT1, pgA, pgB}"
    and "ld64 mem1 (slot pgT1 1 0) = 0" and "ld64 mem1 (slot pgB 2 0) = 0"
proof -
  have v: "vinv (sample0\<lparr>memory := \<lambda>_. 0\<rparr>) {pgA, pgB} E0" using sample0_vinv by (simp add: sample0_def)
  have z: "ld64 (\<lambda>_. 0) a = 0" for a by (rule ld64_const) simp
  have c: "pgA \<in> {pgA, pgB}" "tab (\<lambda>_. 0) pgA 0 0 = Some pgA" "(0 :: nat) < 2" "ld64 (\<lambda>_. 0) (slot pgA (2 - 0) 0) = 0"
    "\<And>q va. q \<in> {pgA, pgB} \<Longrightarrow> leaf (\<lambda>_. 0) q va = 0" "page_ok sample0 pgT1" "pgT1 \<notin> tabs (\<lambda>_. 0) {pgA, pgB}" "E0 pgT1 = 1"
    by (simp_all add: z sample_pages tabs_zero_mem E0_def)
  note li = link_step [OF v c, folded mem1_def]
  show "vinv (sample0\<lparr>memory := mem1\<rparr>) {pgA, pgB} (E0(pgT1 := 0))" by (rule li(1))
  show "tab mem1 pgA 0 1 = Some pgT1" using li(2) by (simp del: tab.simps)
  show "\<And>q va. q \<in> {pgA, pgB} \<Longrightarrow> leaf mem1 q va = 0" by (rule li(3))
  show "tabs mem1 {pgA, pgB} = {pgT1, pgA, pgB}" using li(4) unfolding tabs_zero_mem .
  show "ld64 mem1 (slot pgT1 1 0) = 0" by (rule li(5))
  show "ld64 mem1 (slot pgB 2 0) = 0" using li(7) [of pgB 2] z by simp
qed

lemma sample_mem2:
  shows "vinv (sample0\<lparr>memory := mem2\<rparr>) {pgA, pgB} (E0(pgT1 := 0, pgT0 := 0))" and "tab mem2 pgA 0 2 = Some pgT0"
    and "\<And>q va. q \<in> {pgA, pgB} \<Longrightarrow> leaf mem2 q va = 0" and "tabs mem2 {pgA, pgB} = {pgT0, pgT1, pgA, pgB}"
    and "ld64 mem2 (slot pgB 2 0) = 0"
proof -
  have c: "pgA \<in> {pgA, pgB}" "tab mem1 pgA 0 1 = Some pgT1" "(1 :: nat) < 2" "ld64 mem1 (slot pgT1 (2 - 1) 0) = 0"
    "\<And>q va. q \<in> {pgA, pgB} \<Longrightarrow> leaf mem1 q va = 0" "page_ok sample0 pgT0" "pgT0 \<notin> tabs mem1 {pgA, pgB}" "(E0(pgT1 := 0)) pgT0 = 1"
    using sample_mem1 unfolding sample_mem1(4) by (simp_all add: sample_pages E0_def)
  note li = link_step [OF sample_mem1(1) c, folded mem2_def]
  show "vinv (sample0\<lparr>memory := mem2\<rparr>) {pgA, pgB} (E0(pgT1 := 0, pgT0 := 0))" by (rule li(1))
  show "tab mem2 pgA 0 2 = Some pgT0" using li(2) by (simp add: numeral_2_eq_2 del: tab.simps)
  show "\<And>q va. q \<in> {pgA, pgB} \<Longrightarrow> leaf mem2 q va = 0" by (rule li(3))
  show "tabs mem2 {pgA, pgB} = {pgT0, pgT1, pgA, pgB}" using li(4) unfolding sample_mem1(4) .
  show "ld64 mem2 (slot pgB 2 0) = 0" using li(7) [of pgB 2] sample_mem1(6) by simp
qed

lemma sample_mem3:
  shows "vinv (sample0\<lparr>memory := mem3\<rparr>) {pgA, pgB} (E0(pgT1 := 0, pgT0 := 0, pgS1 := 0))"
    and "tab mem3 pgB 0 1 = Some pgS1" and "tab mem3 pgA 0 2 = Some pgT0"
    and "\<And>q va. q \<in> {pgA, pgB} \<Longrightarrow> leaf mem3 q va = 0" and "tabs mem3 {pgA, pgB} = {pgS1, pgT0, pgT1, pgA, pgB}"
    and "ld64 mem3 (slot pgS1 1 0) = 0"
proof -
  have c: "pgB \<in> {pgA, pgB}" "tab mem2 pgB 0 0 = Some pgB" "(0 :: nat) < 2" "ld64 mem2 (slot pgB (2 - 0) 0) = 0"
    "\<And>q va. q \<in> {pgA, pgB} \<Longrightarrow> leaf mem2 q va = 0" "page_ok sample0 pgS1" "pgS1 \<notin> tabs mem2 {pgA, pgB}"
    "(E0(pgT1 := 0, pgT0 := 0)) pgS1 = 1"
    using sample_mem2 unfolding sample_mem2(4) by (simp_all add: sample_pages E0_def)
  note li = link_step [OF sample_mem2(1) c, folded mem3_def]
  show "vinv (sample0\<lparr>memory := mem3\<rparr>) {pgA, pgB} (E0(pgT1 := 0, pgT0 := 0, pgS1 := 0))" by (rule li(1))
  show "tab mem3 pgB 0 1 = Some pgS1" using li(2) by (simp del: tab.simps)
  show "tab mem3 pgA 0 2 = Some pgT0" using li(6) [of pgA 2] sample_mem2(2) by simp
  show "\<And>q va. q \<in> {pgA, pgB} \<Longrightarrow> leaf mem3 q va = 0" by (rule li(3))
  show "tabs mem3 {pgA, pgB} = {pgS1, pgT0, pgT1, pgA, pgB}" using li(4) unfolding sample_mem2(4) .
  show "ld64 mem3 (slot pgS1 1 0) = 0" by (rule li(5))
qed

lemma sample_mem4:
  shows "vinv (sample0\<lparr>memory := mem4\<rparr>) {pgA, pgB} (E0(pgT1 := 0, pgT0 := 0, pgS1 := 0, pgS0 := 0))"
    and "tab mem4 pgB 0 2 = Some pgS0" and "tab mem4 pgA 0 2 = Some pgT0"
    and "\<And>q va. q \<in> {pgA, pgB} \<Longrightarrow> leaf mem4 q va = 0" and "tabs mem4 {pgA, pgB} = {pgS0, pgS1, pgT0, pgT1, pgA, pgB}"
proof -
  have c: "pgB \<in> {pgA, pgB}" "tab mem3 pgB 0 1 = Some pgS1" "(1 :: nat) < 2" "ld64 mem3 (slot pgS1 (2 - 1) 0) = 0"
    "\<And>q va. q \<in> {pgA, pgB} \<Longrightarrow> leaf mem3 q va = 0" "page_ok sample0 pgS0" "pgS0 \<notin> tabs mem3 {pgA, pgB}"
    "(E0(pgT1 := 0, pgT0 := 0, pgS1 := 0)) pgS0 = 1"
    using sample_mem3 unfolding sample_mem3(5) by (simp_all add: sample_pages E0_def)
  note li = link_step [OF sample_mem3(1) c, folded mem4_def]
  show "vinv (sample0\<lparr>memory := mem4\<rparr>) {pgA, pgB} (E0(pgT1 := 0, pgT0 := 0, pgS1 := 0, pgS0 := 0))" by (rule li(1))
  show "tab mem4 pgB 0 2 = Some pgS0" using li(2) by (simp add: numeral_2_eq_2 del: tab.simps)
  show "tab mem4 pgA 0 2 = Some pgT0" using li(6) [of pgA 2] sample_mem3(3) by simp
  show "\<And>q va. q \<in> {pgA, pgB} \<Longrightarrow> leaf mem4 q va = 0" by (rule li(3))
  show "tabs mem4 {pgA, pgB} = {pgS0, pgS1, pgT0, pgT1, pgA, pgB}" using li(4) unfolding sample_mem3(5) .
qed

section \<open>Its user page\<close>

lemma user_entry_props:
  "PTE2PA user_entry = pgU" "bit user_entry 0" "bit user_entry 1" "bit user_entry 2" "bit user_entry 4" "\<not> bit user_entry 8"
  using page_entry [of pgU "PTE_R OR PTE_W OR PTE_U"] unfolding user_entry_def
  by (simp_all add: PTE_FLAGS_or pte_bits)

lemma zero_user [simp]: "aligned 12 0" "0 < TRAPFRAME" "0 < MAXVA" "PGROUNDDOWN 0 = 0"
  by (simp_all add: aligned_def TRAPFRAME_def TRAMPOLINE_def PGROUNDDOWN_def layout_defs)

lemma sample_memory: "memory sample = st64 mem4 (slot pgT0 0 0) user_entry"
  by (simp add: sample_def)

lemma sample_leaf:
  assumes "r \<in> {pgA, pgB}" and "b < MAXVA"
  shows "leaf (memory sample) r b = (if r = pgA \<and> PGROUNDDOWN b = 0 then user_entry else 0)"
proof -
  have "sep mem4 {pgA, pgB}" using vinv_sep [OF sample_mem4(1)] by simp
  then show ?thesis
    unfolding sample_memory using leaf_write_user [of mem4 "{pgA, pgB}" pgA 0 pgT0 r b user_entry] sample_mem4(3,4) assms by simp
qed

lemma sample_tab:
  assumes "r \<in> {pgA, pgB}"
  shows "tab (memory sample) r 0 2 = Some (if r = pgA then pgT0 else pgS0)"
proof -
  have "sep mem4 {pgA, pgB}" using vinv_sep [OF sample_mem4(1)] by simp
  then show ?thesis
    unfolding sample_memory using tab_write_leaf [of mem4 "{pgA, pgB}" pgA 0 pgT0 r 2 user_entry 0] sample_mem4(2,3) assms by auto
qed

lemma sample_vok: "vok sample {pgA, pgB} (\<lambda>_. 0)"
proof -
  define s2 where "s2 = sample0\<lparr>memory := mem4\<rparr>"
  let ?E = "E0(pgT1 := 0, pgT0 := 0, pgS1 := 0, pgS0 := 0)"
  have ms: "memory s2 = mem4" by (simp add: s2_def)
  have r: "pgA \<in> {pgA, pgB}" and t: "tab (memory s2) pgA 0 2 = Some pgT0" using sample_mem4(3) unfolding ms by simp_all
  have l0: "leaf (memory s2) pgA 0 = 0" using sample_mem4(4) [OF r] unfolding ms by simp
  have mp: "maps (memory s2) {pgA, pgB} p = {}" for p using sample_mem4(4) unfolding ms maps_def by auto
  have mv: "moved 0 user_entry ?E = (\<lambda>_. 0)"
    using user_entry_props by (auto simp: moved_def E0_def fun_eq_iff)
  have "vinv (s2\<lparr>memory := st64 (memory s2) (slot pgT0 0 0) user_entry\<rparr>) {pgA, pgB}
      (moved (leaf (memory s2) pgA 0) user_entry ?E)"
  proof (rule vinv_write_leaf [OF sample_mem4(1) [folded s2_def] r t zero_user(1,2)])
    show "page_ok s2 (PTE2PA user_entry) \<and> PTE2PA user_entry \<notin> tabs (memory s2) {pgA, pgB} \<and> bit user_entry 1"
      using user_entry_props unfolding ms sample_mem4(5) by (simp add: s2_def sample_pages)
    show "maps (memory s2) {pgA, pgB} (PTE2PA user_entry) \<subseteq> {(pgA, 0)} \<and>
        moved (leaf (memory s2) pgA 0) user_entry ?E (PTE2PA user_entry) = 0"
      unfolding l0 mv mp by simp
    fix r' b assume "(r', b) \<in> maps (memory s2) {pgA, pgB} (PTE2PA user_entry)"
    then show "r' \<noteq> pgA \<and> \<not> bit (leaf (memory s2) r' b) 2" unfolding mp by simp
  qed
  then have "vinv (s2\<lparr>memory := st64 (memory s2) (slot pgT0 0 0) user_entry\<rparr>) {pgA, pgB} (\<lambda>_. 0)" unfolding l0 mv .
  then show ?thesis by (simp add: vok_def sample_def s2_def)
qed

lemma sample_empty_B: "aligned 12 b \<Longrightarrow> b < TRAPFRAME \<Longrightarrow> \<not> bit (leaf (memory sample) pgB b) 0"
  using sample_leaf [of pgB b] below_TRAPFRAME by simp

lemma sample_mapped_A: "aligned 12 b \<Longrightarrow> b < 4096 \<Longrightarrow> bit (leaf (memory sample) pgA b) 0"
proof -
  assume b: "aligned 12 b" "b < 4096"
  then have "unat b < 4096" "unat b mod 4096 = 0" by (simp_all add: word_less_nat_alt aligned_unat)
  then have "b = 0" by (simp add: word_unat_eq_iff)
  then show ?thesis using sample_leaf [of pgA 0] user_entry_props by simp
qed

text \<open>The fork of the sample machine succeeds, since the child's tables are there.\<close>

lemma walk_exists:
  assumes "va < MAXVA" and "tab (memory s) r va 2 = Some t"
  shows "walk s r va True = Ok (slot t 0 va, s)"
proof -
  obtain p where p: "tab (memory s) r va (Suc 0) = Some p" using tab_down [of "memory s" r va "Suc 0"] assms(2) by (auto simp: numeral_2_eq_2)
  then show ?thesis using assms
    by (auto simp: walk_def numeral_2_eq_2 Let_def flag_test slot_def not_le [symmetric] split: if_splits)
qed

lemma sample_fork: "\<exists>s'. uvmcopy sample pgA pgB 4096 = Ok (0, s')"
proof -
  define s1 where "s1 = sample\<lparr>memory := st64 (memory sample) (slot pgT0 0 0) (cowed user_entry)\<rparr>"
  have tA: "tab (memory sample) pgA 0 2 = Some pgT0" and lA: "leaf (memory sample) pgA 0 = user_entry"
    using sample_tab [of pgA] sample_leaf [of pgA 0] by simp_all
  note cp = cow_parent [OF sample_vok _ zero_user(1,2) _ tA, unfolded lA, folded s1_def]
  have sep: "sep (memory sample) {pgA, pgB}" by (rule vinv_sep [OF vok_vinv [OF sample_vok]])
  have tB: "tab (memory s1) pgB 0 2 = Some pgS0"
    using tab_write_leaf [OF sep _ tA, of pgB 2 "cowed user_entry" 0] sample_tab [of pgB] by (simp add: s1_def)
  have lB: "leaf (memory s1) pgB 0 = 0" using cp(4) [of pgB 0] user_entry_props sample_leaf [of pgB 0] by simp
  then have ld: "ld64 (memory s1) (slot pgS0 0 0) = 0" using tB by (simp add: leaf_def)
  have nz: "slot pgS0 0 0 \<noteq> 0" by (simp add: slot_def PX_def pgS0_def)
  have up: "PGROUNDDOWN (0 + PGSIZE - 1) = 0" by (rule PGROUNDDOWN_last) simp
  obtain s2 where m: "mappages s1 pgB 0 PGSIZE (PTE2PA user_entry) (PTE_FLAGS (cowed user_entry)) = Ok (0, s2)"
    unfolding mappages_def up zero_user(4) mappages_loop.simps [of s1]
    using walk_exists [OF zero_user(3) tB] ld nz by (simp add: PGSIZE_def)
  have "PA2COWINDEX pgU < NCOUNTER" by (simp add: PA2COWINDEX_def NCOUNTER_val pgU_def KERNBASE_def PGSIZE_def)
  then have inc: "increase_count s2 (PTE2PA user_entry) = Ok (s2\<lparr>counter := (counter s2)(PA2COWINDEX pgU := counter s2 (PA2COWINDEX pgU) + 1)\<rparr>)"
    using user_entry_props by (simp add: increase_count_def Let_def)
  have "uvmcopy_loop sample pgA pgB 0 4096 =
      uvmcopy_loop (s2\<lparr>counter := (counter s2)(PA2COWINDEX pgU := counter s2 (PA2COWINDEX pgU) + 1)\<rparr>) pgA pgB PGSIZE 4096"
    using uvmcopy_loop_unfold [OF vok_vinv [OF sample_vok] _ _ zero_user(3) tA lA user_entry_props(2), of 4096 pgB]
    by (simp add: s1_def [symmetric] m inc)
  then show ?thesis by (simp add: uvmcopy_def uvmcopy_loop.simps [of _ pgA pgB 4096] PGSIZE_def)
qed

end
