(* ===== verification/Aspace.thy ===== *)
theory Aspace
  imports Sample
begin

text \<open>
  The contract of the memory system with the processes: \<^verbatim>\<open>fork\<close> gives the child the view of
  the parent and a store is seen by the storing process only. The locale states it, with what
  follows for a fork and later stores; the interpretation \<open>cow\<close> proves it of \<^verbatim>\<open>uvmcopy\<close> and of
  stores through the copy-on-write handler.
\<close>

section \<open>The contract\<close>

fun run_stores :: "('s \<Rightarrow> u64 \<Rightarrow> u64 \<Rightarrow> u8 \<Rightarrow> (bool \<times> 's) res) \<Rightarrow> 's \<Rightarrow> (u64 \<times> u64 \<times> u8) list \<Rightarrow> 's res" where
  "run_stores store s [] = Ok s"
| "run_stores store s ((r, va, b) # ws) = bnd (store s r va b) (\<lambda>(_, s). run_stores store s ws)"

locale address_spaces =
  fixes inv :: "'s \<Rightarrow> bool" and roots :: "'s \<Rightarrow> u64 set" and load :: "'s \<Rightarrow> u64 \<Rightarrow> u64 \<Rightarrow> u8 option"
    and forkable :: "'s \<Rightarrow> u64 \<Rightarrow> u64 \<Rightarrow> u64 \<Rightarrow> bool" and fork :: "'s \<Rightarrow> u64 \<Rightarrow> u64 \<Rightarrow> u64 \<Rightarrow> (int \<times> 's) res"
    and store :: "'s \<Rightarrow> u64 \<Rightarrow> u64 \<Rightarrow> u8 \<Rightarrow> (bool \<times> 's) res"
  assumes fork_law: "inv s \<Longrightarrow> forkable s old new sz \<Longrightarrow> \<exists>res s'. fork s old new sz = Ok (res, s') \<and>
      (res = 0 \<or> res = -1) \<and> inv s' \<and> roots s' = roots s \<and>
      (\<forall>r \<in> roots s. \<forall>b. load s' r b = load s (if res = 0 \<and> r = new \<and> b < PGROUNDUP sz then old else r) b)"
    and store_law: "inv s \<Longrightarrow> r \<in> roots s \<Longrightarrow> \<exists>ok s'. store s r va b = Ok (ok, s') \<and> inv s' \<and>
      roots s' = roots s \<and> (\<forall>r' \<in> roots s. \<forall>c. load s' r' c = (if ok \<and> r' = r \<and> c = va then Some b else load s r' c))"

context address_spaces begin

lemma stores_frame:
  assumes "inv s" and "\<And>q va b. (q, va, b) \<in> set ws \<Longrightarrow> q \<in> roots s" and "r \<in> roots s"
    and "\<And>va b. (r, va, b) \<in> set ws \<Longrightarrow> va \<noteq> c"
  shows "\<exists>s'. run_stores store s ws = Ok s' \<and> inv s' \<and> roots s' = roots s \<and> load s' r c = load s r c"
  using assms
proof (induction ws arbitrary: s)
  case Nil
  then show ?case by simp
next
  case (Cons w ws)
  obtain q va b where w: "w = (q, va, b)" by (cases w)
  have q: "q \<in> roots s" using Cons.prems(2) [of q va b] by (simp add: w)
  obtain ok s1 where s1: "store s q va b = Ok (ok, s1)" "inv s1" "roots s1 = roots s"
    "\<forall>r' \<in> roots s. \<forall>c. load s1 r' c = (if ok \<and> r' = q \<and> c = va then Some b else load s r' c)"
    using store_law [OF Cons.prems(1) q] by blast
  have "\<not> (r = q \<and> c = va)" using Cons.prems(4) [of va b] by (auto simp: w)
  then have l: "load s1 r c = load s r c" using s1(4) Cons.prems(3) by auto
  obtain s' where "run_stores store s1 ws = Ok s'" "inv s'" "roots s' = roots s1" "load s' r c = load s1 r c"
  proof -
    have "q' \<in> roots s1" if "(q', va', b') \<in> set ws" for q' va' b'
      using Cons.prems(2) [of q' va' b'] that s1(3) by simp
    moreover have "va' \<noteq> c" if "(r, va', b') \<in> set ws" for va' b' using Cons.prems(4) [of va' b'] that by simp
    ultimately show ?thesis using Cons.IH [OF s1(2)] Cons.prems(3) s1(3) that by blast
  qed
  then show ?case using s1 l by (auto simp: w)
qed

lemma fork_isolates:
  assumes "inv s" and "forkable s old new sz" and "fork s old new sz = Ok (0, s1)" and "new \<in> roots s"
    and "\<And>q va b. (q, va, b) \<in> set ws \<Longrightarrow> q \<in> roots s" and "c < PGROUNDUP sz"
    and "\<And>va b. (new, va, b) \<in> set ws \<Longrightarrow> va \<noteq> c"
  shows "\<exists>s2. run_stores store s1 ws = Ok s2 \<and> inv s2 \<and> load s2 new c = load s old c"
proof -
  have f: "inv s1" "roots s1 = roots s" "load s1 new c = load s old c"
    using fork_law [OF assms(1,2)] assms(3,4,6) by auto
  then show ?thesis using stores_frame [OF f(1), of ws new c] assms(4,5,7) by auto
qed

end

section \<open>Copy-on-write implements it\<close>

type_synonym vstate = "kst \<times> u64 set \<times> (u64 \<Rightarrow> int)"

definition vs_inv :: "vstate \<Rightarrow> bool" where
  "vs_inv v = (case v of (s, Rs, E) \<Rightarrow> vok s Rs E \<and> card Rs \<le> 255)"

definition vs_roots :: "vstate \<Rightarrow> u64 set" where
  "vs_roots v = fst (snd v)"

definition vs_load :: "vstate \<Rightarrow> u64 \<Rightarrow> u64 \<Rightarrow> u8 option" where
  "vs_load v = uload (memory (fst v))"

text \<open>What \<^verbatim>\<open>fork\<close> relies on: the parent has all its pages, the child's table is empty.\<close>

definition vs_forkable :: "vstate \<Rightarrow> u64 \<Rightarrow> u64 \<Rightarrow> u64 \<Rightarrow> bool" where
  "vs_forkable v old new sz = (case v of (s, Rs, E) \<Rightarrow> old \<in> Rs \<and> new \<in> Rs \<and> old \<noteq> new \<and> sz \<le> TRAPFRAME \<and>
     (\<forall>b. aligned 12 b \<longrightarrow> b < sz \<longrightarrow> bit (leaf (memory s) old b) 0) \<and>
     (\<forall>b. aligned 12 b \<longrightarrow> b < TRAPFRAME \<longrightarrow> \<not> bit (leaf (memory s) new b) 0))"

definition vs_fork :: "vstate \<Rightarrow> u64 \<Rightarrow> u64 \<Rightarrow> u64 \<Rightarrow> (int \<times> vstate) res" where
  "vs_fork v old new sz = (case v of (s, Rs, E) \<Rightarrow>
     bnd (uvmcopy s old new sz) (\<lambda>(res, s). Ok (res, (s, Rs, E))))"

definition vs_store :: "vstate \<Rightarrow> u64 \<Rightarrow> u64 \<Rightarrow> u8 \<Rightarrow> (bool \<times> vstate) res" where
  "vs_store v r va b = (case v of (s, Rs, E) \<Rightarrow>
     bnd (ustore s r va b) (\<lambda>(ok, s). Ok (ok, (s, Rs, E))))"

lemma vs_fork_law:
  assumes "vs_inv v" and "vs_forkable v old new sz"
  shows "\<exists>res v'. vs_fork v old new sz = Ok (res, v') \<and> (res = 0 \<or> res = -1) \<and> vs_inv v' \<and> vs_roots v' = vs_roots v \<and>
    (\<forall>r \<in> vs_roots v. \<forall>b. vs_load v' r b = vs_load v (if res = 0 \<and> r = new \<and> b < PGROUNDUP sz then old else r) b)"
proof -
  obtain s Rs E where v: "v = (s, Rs, E)" by (cases v)
  obtain res s' where "uvmcopy s old new sz = Ok (res, s')" "res = 0 \<or> res = -1" "vok s' Rs E"
    "\<forall>r' \<in> Rs. \<forall>b. let r0 = if res = 0 \<and> r' = new \<and> b < PGROUNDUP sz then old else r' in
       uload (memory s') r' b = uload (memory s) r0 b \<and> uwritable (memory s') r' b = uwritable (memory s) r0 b"
    using uvmcopy_spec [of s Rs E old new sz] assms by (auto simp: v vs_inv_def vs_forkable_def)
  then show ?thesis using assms(1) by (simp add: v vs_inv_def vs_fork_def vs_roots_def vs_load_def Let_def)
qed

lemma vs_store_law:
  assumes "vs_inv v" and "r \<in> vs_roots v"
  shows "\<exists>ok v'. vs_store v r va b = Ok (ok, v') \<and> vs_inv v' \<and> vs_roots v' = vs_roots v \<and>
    (\<forall>r' \<in> vs_roots v. \<forall>c. vs_load v' r' c = (if ok \<and> r' = r \<and> c = va then Some b else vs_load v r' c))"
proof -
  obtain s Rs E where v: "v = (s, Rs, E)" by (cases v)
  obtain ok s' where "ustore s r va b = Ok (ok, s')" "vok s' Rs E"
    "\<forall>r' \<in> Rs. \<forall>c. uwritable (memory s') r' c = uwritable (memory s) r' c \<and>
       uload (memory s') r' c = (if ok \<and> r' = r \<and> c = va then Some b else uload (memory s) r' c)"
    using ustore_spec [of s Rs E r va b] assms by (auto simp: v vs_inv_def vs_roots_def)
  then show ?thesis using assms(1) by (simp add: v vs_inv_def vs_store_def vs_roots_def vs_load_def)
qed

interpretation cow: address_spaces vs_inv vs_roots vs_load vs_forkable vs_fork vs_store
  by unfold_locales (simp_all only: vs_fork_law vs_store_law not_False_eq_True simp_thms)

lemma vs_run_stores:
  "run_stores vs_store (s, Rs, E) ws = bnd (run_stores ustore s ws) (\<lambda>s. Ok (s, Rs, E))"
proof (induction ws arbitrary: s)
  case (Cons w ws)
  obtain q va b where w: "w = (q, va, b)" by (cases w)
  have st: "vs_store (s, Rs, E) q va b = bnd (ustore s q va b) (\<lambda>(ok, s). Ok (ok, (s, Rs, E)))"
    by (simp add: vs_store_def)
  show ?case unfolding w run_stores.simps st by (cases "ustore s q va b") (auto simp: Cons)
qed simp

lemma sample_vs_inv: "vs_inv (sample, {pgA, pgB}, \<lambda>_. 0)"
  using sample_vok by (simp add: vs_inv_def)

lemma sample_forkable: "vs_forkable (sample, {pgA, pgB}, \<lambda>_. 0) pgA pgB 4096"
proof -
  have "(4096 :: u64) \<le> TRAPFRAME" by (simp add: TRAPFRAME_def TRAMPOLINE_def layout_defs)
  then show ?thesis using sample_mapped_A sample_empty_B unfolding vs_forkable_def by (auto simp del: sample_memory)
qed

end
