(* ===== verification/Memprops.thy ===== *)
theory Memprops
  imports Aspace
begin

text \<open>
  The properties of the memory system: the allocator, the page tables, copy-on-write and the
  copies between kernel and user, each with an instance on the sample machine, and the
  invariant of every run of these operations.
\<close>

section \<open>Runs of the memory system\<close>

text \<open>
  The operations that system calls and faults perform on the address spaces, in any order:
  the guards are what the callers establish. Not among these steps are the end of an address
  space (\<^verbatim>\<open>uvmfree\<close>), the guard page of \<^verbatim>\<open>exec\<close> (\<^verbatim>\<open>uvmclear\<close>) and the two supervisor pages at the top.
\<close>

inductive vm_step :: "(u64 \<Rightarrow> int) \<Rightarrow> kst \<times> u64 set \<Rightarrow> kst \<times> u64 set \<Rightarrow> bool" for E where
  create: "uvmcreate s = Ok (r, s') \<Longrightarrow> r \<noteq> 0 \<Longrightarrow> vm_step E (s, Rs) (s', insert r Rs)"
| grow: "uvmalloc s r oldsz newsz xperm = Ok (n, s') \<Longrightarrow> r \<in> Rs \<Longrightarrow> oldsz \<le> newsz \<Longrightarrow> newsz \<le> TRAPFRAME \<Longrightarrow>
    PTE_FLAGS xperm = xperm \<Longrightarrow>
    (\<And>b. aligned 12 b \<Longrightarrow> PGROUNDUP oldsz \<le> b \<Longrightarrow> b < PGROUNDUP newsz \<Longrightarrow> \<not> bit (leaf (memory s) r b) 0) \<Longrightarrow>
    vm_step E (s, Rs) (s', Rs)"
| shrink: "uvmdealloc s r oldsz newsz = Ok (n, s') \<Longrightarrow> r \<in> Rs \<Longrightarrow> newsz < oldsz \<Longrightarrow> oldsz \<le> TRAPFRAME \<Longrightarrow>
    (\<And>b. aligned 12 b \<Longrightarrow> PGROUNDUP newsz \<le> b \<Longrightarrow> b < PGROUNDUP oldsz \<Longrightarrow> bit (leaf (memory s) r b) 0) \<Longrightarrow>
    vm_step E (s, Rs) (s', Rs)"
| fork: "uvmcopy s old new sz = Ok (n, s') \<Longrightarrow> old \<in> Rs \<Longrightarrow> new \<in> Rs \<Longrightarrow> old \<noteq> new \<Longrightarrow> card Rs \<le> 255 \<Longrightarrow>
    sz \<le> TRAPFRAME \<Longrightarrow> (\<And>b. aligned 12 b \<Longrightarrow> b < sz \<Longrightarrow> bit (leaf (memory s) old b) 0) \<Longrightarrow>
    (\<And>b. aligned 12 b \<Longrightarrow> b < TRAPFRAME \<Longrightarrow> \<not> bit (leaf (memory s) new b) 0) \<Longrightarrow> vm_step E (s, Rs) (s', Rs)"
| fault: "cow_page_fault_handler s r va = Ok (n, s') \<Longrightarrow> r \<in> Rs \<Longrightarrow> vm_step E (s, Rs) (s', Rs)"
| store: "ustore s r va b = Ok (ok, s') \<Longrightarrow> r \<in> Rs \<Longrightarrow> vm_step E (s, Rs) (s', Rs)"
| cpout: "copyout s r va src len = Ok (n, s') \<Longrightarrow> r \<in> Rs \<Longrightarrow> unat src + unat len < 2 ^ 64 \<Longrightarrow>
    (\<And>i. i < unat len \<Longrightarrow> kdata s E (src + of_nat i)) \<Longrightarrow> vm_step E (s, Rs) (s', Rs)"
| cpin: "copyin s r dst va len = Ok (n, s') \<Longrightarrow> r \<in> Rs \<Longrightarrow> unat dst + unat len < 2 ^ 64 \<Longrightarrow>
    (\<And>i. i < unat len \<Longrightarrow> kdata s E (dst + of_nat i)) \<Longrightarrow> vm_step E (s, Rs) (s', Rs)"

lemma vm_step_vok:
  assumes "vm_step E (s, Rs) (s', Rs')" and vk: "vok s Rs E"
  shows "vok s' Rs' E"
  using assms(1)
proof cases
  case (create r)
  then show ?thesis using uvmcreate_spec [OF vk] by auto
next
  case (grow r oldsz newsz xperm n)
  then show ?thesis using uvmalloc_spec [OF vk grow(3-6)] by auto
next
  case (shrink r oldsz newsz n)
  then show ?thesis using uvmdealloc_spec [OF vk shrink(3-5)] by auto
next
  case (fork old new sz n)
  then show ?thesis using uvmcopy_spec [OF vk fork(3-7)] by auto
next
  case (fault r va n)
  show ?thesis
  proof (cases "va = 0 \<or> \<not> va < MAXVA")
    case True
    then show ?thesis using fault vk by (auto simp: handler_range)
  next
    case False
    then show ?thesis using cow_handler_spec [OF vk fault(3), of va] fault by auto
  qed
next
  case (store r va b ok)
  then show ?thesis using ustore_spec [OF vk store(3), of va b] by auto
next
  case (cpout r va src len n)
  then show ?thesis using copyout_spec [OF vk cpout(3-4), of va] by (auto simp: copied_out_def)
next
  case (cpin r dst va len n)
  then show ?thesis using copyin_spec [OF vk cpin(3-4), of va] by (auto simp: copied_in_def)
qed

lemma vm_run_vok:
  assumes "(vm_step E)\<^sup>*\<^sup>* (s, Rs) (s', Rs')" and "vok s Rs E"
  shows "vok s' Rs' E"
  using assms by (induction "(s', Rs')" arbitrary: s' Rs' rule: rtranclp_induct) (auto dest: vm_step_vok)

section \<open>The sample machine\<close>

lemma sample_size [simp]: "(4096 :: u64) \<le> TRAPFRAME" "PGROUNDUP 4096 = 4096" "PGROUNDUP 0 = 0"
  by (simp_all add: TRAPFRAME_def TRAMPOLINE_def layout_defs PGROUNDUP_def)

lemma sample_forkable_all:
  "\<forall>b. aligned 12 b \<longrightarrow> b < 4096 \<longrightarrow> bit (leaf (memory sample) pgA b) 0"
  "\<forall>b. aligned 12 b \<longrightarrow> b < TRAPFRAME \<longrightarrow> \<not> bit (leaf (memory sample) pgB b) 0"
  using sample_mapped_A sample_empty_B by auto

lemma sample_forked:
  obtains s1 where "uvmcopy sample pgA pgB 4096 = Ok (0, s1)" and "vok s1 {pgA, pgB} (\<lambda>_. 0)"
proof -
  obtain s1 where s1: "uvmcopy sample pgA pgB 4096 = Ok (0, s1)" using sample_fork by blast
  moreover have "vok s1 {pgA, pgB} (\<lambda>_. 0)"
    using uvmcopy_spec [OF sample_vok, of pgA pgB 4096] sample_forkable_all s1 by auto
  ultimately show ?thesis by (rule that)
qed

lemma sample_kernel: "kdata sample (\<lambda>_. 0) (KERNBASE + of_nat i)" if "i < 16"
proof -
  have "blk 12 (KERNBASE + of_nat i) \<le> KERNBASE + of_nat i" by (simp add: word_le_nat_alt unat_blk)
  also have "KERNBASE + of_nat i < pgA"
    using that by (simp add: word_less_nat_alt unat_word_ariths unat_of_nat take_bit_nat_eq_self KERNBASE_def pgA_def)
  finally have "\<not> pgA \<le> blk 12 (KERNBASE + of_nat i)" by simp
  then show ?thesis by (simp add: kdata_def page_ok_def sample_def sample0_def)
qed

section \<open>Copy-on-write\<close>

text \<open>
  C1. After a successful \<^verbatim>\<open>uvmcopy\<close> and any stores of any processes, at any addresses, the child
  still reads the parent's byte of the moment of the fork at every address that it has not written
  itself.
\<close>

theorem fork_isolation:
  assumes "vok s Rs E" and "card Rs \<le> 255" and "old \<in> Rs" and "new \<in> Rs" and "old \<noteq> new" and "sz \<le> TRAPFRAME"
    and "\<forall>b. aligned 12 b \<longrightarrow> b < sz \<longrightarrow> bit (leaf (memory s) old b) 0"
    and "\<forall>b. aligned 12 b \<longrightarrow> b < TRAPFRAME \<longrightarrow> \<not> bit (leaf (memory s) new b) 0"
    and "uvmcopy s old new sz = Ok (0, s1)"
    and "\<forall>(q, va, b) \<in> set ws. q \<in> Rs" and "\<forall>(q, va, b) \<in> set ws. q = new \<longrightarrow> va \<noteq> c" and "c < PGROUNDUP sz"
  shows "\<exists>s2. run_stores ustore s1 ws = Ok s2 \<and> uload (memory s2) new c = uload (memory s) old c"
proof -
  have "vs_inv (s, Rs, E)" "vs_forkable (s, Rs, E) old new sz" "vs_fork (s, Rs, E) old new sz = Ok (0, (s1, Rs, E))"
    using assms by (simp_all add: vs_inv_def vs_forkable_def vs_fork_def)
  from cow.fork_isolates [OF this, of ws c] assms(4,10-12) obtain v where
    v: "run_stores vs_store (s1, Rs, E) ws = Ok v" "vs_load v new c = vs_load (s, Rs, E) old c"
    by (fastforce simp: vs_roots_def)
  then obtain s2 where "run_stores ustore s1 ws = Ok s2" "v = (s2, Rs, E)" unfolding vs_run_stores by auto
  with v(2) show ?thesis by (simp add: vs_load_def)
qed

theorem fork_isolation_witness:
  "\<exists>s1 s2. uvmcopy sample pgA pgB 4096 = Ok (0, s1) \<and> run_stores ustore s1 [(pgA, 0, 9), (pgA, 1, 7)] = Ok s2 \<and>
    uload (memory s2) pgB 1 = uload (memory sample) pgA 1"
proof -
  obtain s1 where s1: "uvmcopy sample pgA pgB 4096 = Ok (0, s1)" using sample_fork by blast
  show ?thesis
    using fork_isolation [OF sample_vok _ _ _ _ sample_size(1) sample_forkable_all s1, of "[(pgA, 0, 9), (pgA, 1, 7)]" 1] s1 by auto
qed

text \<open>
  C2. \<^verbatim>\<open>uvmcopy\<close> never panics on well-formed address spaces, keeps the invariant and the kernel's
  memory, and either gives the child the parent's view, readable and writable bytes alike, or
  returns -1 and changes no view; the parent's view never changes.
\<close>

theorem uvmcopy_copies:
  assumes "vok s Rs E" and "old \<in> Rs" and "new \<in> Rs" and "old \<noteq> new" and "card Rs \<le> 255" and "sz \<le> TRAPFRAME"
    and "\<forall>b. aligned 12 b \<longrightarrow> b < sz \<longrightarrow> bit (leaf (memory s) old b) 0"
    and "\<forall>b. aligned 12 b \<longrightarrow> b < TRAPFRAME \<longrightarrow> \<not> bit (leaf (memory s) new b) 0"
  shows "\<exists>res s'. uvmcopy s old new sz = Ok (res, s') \<and> (res = 0 \<or> res = -1) \<and> vok s' Rs E \<and>
    (\<forall>x. kdata s E x \<longrightarrow> memory s' x = memory s x) \<and>
    (\<forall>r \<in> Rs. \<forall>b. let r0 = if res = 0 \<and> r = new \<and> b < PGROUNDUP sz then old else r in
       uload (memory s') r b = uload (memory s) r0 b \<and> uwritable (memory s') r b = uwritable (memory s) r0 b)"
  using uvmcopy_spec [OF assms(1-6)] assms(7,8) by blast

theorem uvmcopy_copies_witness:
  "\<exists>res s'. uvmcopy sample pgA pgB 4096 = Ok (res, s') \<and> vok s' {pgA, pgB} (\<lambda>_. 0) \<and>
    uload (memory s') pgA 5 = uload (memory sample) pgA 5"
  using uvmcopy_copies [OF sample_vok _ _ _ _ sample_size(1) sample_forkable_all] by (fastforce simp: Let_def)

text \<open>
  C3. The copy-on-write fault handler, at any address, changes nothing that any process can read and
  keeps the invariant and the kernel's memory; on 0 the faulting page is writable at once. It
  returns -1, with nothing changed at all, only for virtual address 0, which it always refuses, for
  an address that the program may not write (any from \<^verbatim>\<open>MAXVA\<close> on among them), or when memory is
  exhausted.
\<close>

theorem cow_fault_transparent:
  assumes "vok s Rs E" and "r \<in> Rs"
  shows "\<exists>ret s'. cow_page_fault_handler s r va = Ok (ret, s') \<and> vok s' Rs E \<and>
    (\<forall>x. kdata s E x \<longrightarrow> memory s' x = memory s x) \<and> same_view (memory s) (memory s') Rs \<and>
    (if ret = 0 then va \<noteq> 0 \<and> uwritable (memory s) r va \<and> bit (leaf (memory s') r va) 2
     else ret = -1 \<and> s' = s \<and> (va = 0 \<or> \<not> uwritable (memory s) r va \<or> full s))"
proof (cases "va \<noteq> 0 \<and> va < MAXVA")
  case True
  then show ?thesis using cow_handler_spec [OF assms, of va] by fastforce
next
  case False
  then have "cow_page_fault_handler s r va = Ok (-1, s)" by (intro handler_range) auto
  moreover have "va = 0 \<or> \<not> uwritable (memory s) r va" using False by (auto simp: uwritable_def)
  ultimately show ?thesis using assms(1) by auto
qed

theorem cow_fault_transparent_witness:
  "\<exists>s1 ret s2. uvmcopy sample pgA pgB 4096 = Ok (0, s1) \<and> cow_page_fault_handler s1 pgB 1 = Ok (ret, s2) \<and>
    uload (memory s2) pgA 1 = uload (memory s1) pgA 1"
proof -
  obtain s1 where s1: "uvmcopy sample pgA pgB 4096 = Ok (0, s1)" "vok s1 {pgA, pgB} (\<lambda>_. 0)" by (rule sample_forked)
  then show ?thesis using cow_fault_transparent [OF s1(2), of pgB 1] by (auto simp: same_view_def)
qed

text \<open>
  C4. A store of one process, at any address, changes the byte that this process reads there and no
  other byte of any process. It fails, with nothing changed at all, only on an address that the
  process may not write, when memory is exhausted, or at virtual address 0 while its page is still
  copy-on-write.
\<close>

theorem store_isolated:
  assumes "vok s Rs E" and "r \<in> Rs"
  shows "\<exists>ok s'. ustore s r va b = Ok (ok, s') \<and> vok s' Rs E \<and> (\<forall>x. kdata s E x \<longrightarrow> memory s' x = memory s x) \<and>
    (if ok then uwritable (memory s) r va
     else s' = s \<and> (\<not> uwritable (memory s) r va \<or> full s \<or> va = 0 \<and> \<not> bit (leaf (memory s) r va) 2)) \<and>
    (\<forall>r' \<in> Rs. \<forall>c. uload (memory s') r' c = (if ok \<and> r' = r \<and> c = va then Some b else uload (memory s) r' c))"
  using ustore_spec [OF assms] by blast

theorem store_isolated_witness:
  "\<exists>s1 ok s2. uvmcopy sample pgA pgB 4096 = Ok (0, s1) \<and> ustore s1 pgB 1 7 = Ok (ok, s2) \<and>
    uload (memory s2) pgA 1 = uload (memory s1) pgA 1"
proof -
  obtain s1 where s1: "uvmcopy sample pgA pgB 4096 = Ok (0, s1)" "vok s1 {pgA, pgB} (\<lambda>_. 0)" by (rule sample_forked)
  then show ?thesis using store_isolated [OF s1(2), of pgB 1 7] by (auto split: if_splits)
qed

text \<open>
  C5. In every state that a run of the memory operations reaches, a user page that some
  process can write directly has reference count one and no other mapping.
\<close>

theorem vm_run_exclusive:
  assumes "vok s Rs E" and "(vm_step E)\<^sup>*\<^sup>* (s, Rs) (s', Rs')" and "r \<in> Rs'" and "va < MAXVA"
    and "leaf (memory s') r va = e" and "bit e 0" and "bit e 4" and "bit e 2"
  shows "refs s' (PTE2PA e) = 1 \<and> maps (memory s') Rs' (PTE2PA e) = {(r, PGROUNDDOWN va)}"
proof -
  have vk: "vok s' Rs' E" by (rule vm_run_vok [OF assms(2,1)])
  note v = vok_vinv [OF vk]
  have um: "(r, PGROUNDDOWN va) \<in> maps (memory s') Rs' (PTE2PA e)" using user_mapped [OF v assms(3,4)] assms by simp
  note mr = mapped_refs [OF v um vok_nonneg [OF vk]]
  have "aligned 12 (PGROUNDDOWN va)" "PGROUNDDOWN va < TRAPFRAME" using um by (auto simp: maps_def)
  from vinv_leaf [OF v assms(3) this] have "maps (memory s') Rs' (PTE2PA e) = {(r, PGROUNDDOWN va)}" "E (PTE2PA e) = 0"
    using assms leaf_page [OF assms(4), of "memory s'" r] by (auto simp: leaf_ok_def Let_def)
  then show ?thesis using vinv_refs [OF v mr(1)] mr(3) by simp
qed

theorem vm_run_exclusive_witness:
  "\<exists>s1. (vm_step (\<lambda>_. 0))\<^sup>*\<^sup>* (sample, {pgA, pgB}) (s1, {pgA, pgB}) \<and> uload (memory s1) pgA 1 = Some 7 \<and>
    refs s1 pgU = 1 \<and> maps (memory s1) {pgA, pgB} pgU = {(pgA, 0)}"
proof -
  have one: "(1 :: u64) < MAXVA" "PGROUNDDOWN 1 = 0" by (simp_all add: layout_defs PGROUNDDOWN_def)
  then have l: "leaf (memory sample) pgA 1 = user_entry" using sample_leaf [of pgA 1] by simp
  define m where "m = (memory sample)(PTE2PA user_entry + 1 := 7)"
  define s1 where "s1 = sample\<lparr>memory := m\<rparr>"
  have st: "store_now (memory sample) pgA 1 7 = Some m"
    using one l user_entry_props by (simp add: store_now_def m_def)
  then have "ustore sample pgA 1 7 = Ok (True, s1)" by (simp add: ustore_def s1_def)
  then have r: "(vm_step (\<lambda>_. 0))\<^sup>*\<^sup>* (sample, {pgA, pgB}) (s1, {pgA, pgB})" by (intro r_into_rtranclp vm_step.store [of _ pgA 1 7]) simp_all
  have u: "uload (memory s1) pgA 1 = Some 7" using store_now_spec(3) [OF sample_vok _ st, of pgA 1] by (simp add: s1_def)
  have fr: "m x = memory sample x" if "blk 12 x \<noteq> PTE2PA user_entry" for x
    using that page_offset [of user_entry 1] one(2) by (auto simp: m_def)
  have "leaf (memory s1) pgA 1 = user_entry"
    using user_page_write(5) [OF sample_vok _ one(1) l user_entry_props(2,5,4) fr, of pgA 1] l by (simp add: s1_def)
  then show ?thesis
    using vm_run_exclusive [OF sample_vok r, of pgA 1 user_entry] one user_entry_props r u by (intro exI [of _ s1]) simp
qed

text \<open>
  C6. In every state that a run of the memory operations reaches, the reference count of each
  page is the number of its uses: one for a page-table page, one for each user mapping, and
  the uses of the kernel.
\<close>

theorem vm_run_counts:
  assumes "vok s Rs E" and "(vm_step E)\<^sup>*\<^sup>* (s, Rs) (s', Rs')" and "page_ok s' p"
  shows "int (refs s' p) = of_bool (p \<in> tabs (memory s') Rs') + int (card (maps (memory s') Rs' p)) + E p"
  using vinv_refs [OF vok_vinv [OF vm_run_vok [OF assms(2,1)]] assms(3)] .

theorem vm_run_counts_witness:
  "\<exists>s1. (vm_step (\<lambda>_. 0))\<^sup>*\<^sup>* (sample, {pgA, pgB}) (s1, {pgA, pgB}) \<and>
    int (refs s1 pgU) = of_bool (pgU \<in> tabs (memory s1) {pgA, pgB}) + int (card (maps (memory s1) {pgA, pgB} pgU))"
proof -
  obtain s1 where s1: "uvmcopy sample pgA pgB 4096 = Ok (0, s1)" using sample_fork by blast
  have "page_ok s1 = page_ok sample" using uvmcopy_spec [OF sample_vok, of pgA pgB 4096] sample_forkable_all s1 by auto
  then have p: "page_ok s1 pgU" using sample_pages by (simp add: sample_def)
  have "(vm_step (\<lambda>_. 0))\<^sup>*\<^sup>* (sample, {pgA, pgB}) (s1, {pgA, pgB})"
    by (rule r_into_rtranclp, rule fork [OF s1]) (use sample_forkable_all in auto)
  then show ?thesis using vm_run_counts [OF sample_vok _ p] by fastforce
qed

section \<open>Address spaces\<close>

text \<open>
  C7. \<^verbatim>\<open>copyout\<close> never panics; it changes no view but the destination range of the one process,
  and when it returns 0 the process reads there the bytes of the kernel.
\<close>

theorem copyout_delivers:
  assumes "vok s Rs E" and "r \<in> Rs" and "unat src + unat len < 2 ^ 64" and "\<forall>i < unat len. kdata s E (src + of_nat i)"
  shows "\<exists>res s'. copyout s r dstva src len = Ok (res, s') \<and> (res = 0 \<or> res = -1) \<and> vok s' Rs E \<and>
    (\<forall>x. kdata s E x \<longrightarrow> memory s' x = memory s x) \<and>
    (\<forall>r' \<in> Rs. \<forall>c. r' \<noteq> r \<or> unat len \<le> unat (c - dstva) \<longrightarrow> uload (memory s') r' c = uload (memory s) r' c) \<and>
    (res = 0 \<longrightarrow> (\<forall>c. unat (c - dstva) < unat len \<longrightarrow> uload (memory s') r c = Some (memory s (src + (c - dstva)))))"
  using copyout_spec [OF assms(1-3), of dstva] assms(4) unfolding copied_out_def by blast

theorem copyout_delivers_witness:
  "\<exists>res s'. copyout sample pgA 8 KERNBASE 8 = Ok (res, s') \<and> vok s' {pgA, pgB} (\<lambda>_. 0) \<and>
    uload (memory s') pgA 20 = uload (memory sample) pgA 20"
proof -
  have k: "\<forall>i < unat (8 :: u64). kdata sample (\<lambda>_. 0) (KERNBASE + of_nat i)" using sample_kernel by simp
  have u: "unat KERNBASE + unat (8 :: u64) < 2 ^ 64" by (simp add: KERNBASE_def)
  show ?thesis using copyout_delivers [OF sample_vok _ u k, of pgA 8] by fastforce
qed

text \<open>
  C8. \<^verbatim>\<open>copyin\<close> never panics and changes no view and no kernel memory outside the destination;
  it returns 0 exactly when the process can read the whole range, and then the destination
  holds the bytes that the process reads.
\<close>

theorem copyin_delivers:
  assumes "vok s Rs E" and "r \<in> Rs" and "unat dst + unat len < 2 ^ 64" and "\<forall>i < unat len. kdata s E (dst + of_nat i)"
  shows "\<exists>res s'. copyin s r dst srcva len = Ok (res, s') \<and> (res = 0 \<or> res = -1) \<and> vok s' Rs E \<and>
    same_view (memory s) (memory s') Rs \<and> (\<forall>x. unat len \<le> unat (x - dst) \<longrightarrow> memory s' x = memory s x) \<and>
    (res = 0 \<longleftrightarrow> (\<forall>c. unat (c - srcva) < unat len \<longrightarrow> uload (memory s) r c \<noteq> None)) \<and>
    (res = 0 \<longrightarrow> (\<forall>c. unat (c - srcva) < unat len \<longrightarrow> uload (memory s) r c = Some (memory s' (dst + (c - srcva)))))"
proof -
  obtain res s' where "copyin s r dst srcva len = Ok (res, s')" "res = 0 \<or> res = -1" "copied_in s s' Rs E r dst srcva len (res = 0)"
    using copyin_spec [OF assms(1-3), of srcva] assms(4) by blast
  then show ?thesis unfolding copied_in_def by (intro exI [of _ res] exI [of _ s']) auto
qed

theorem copyin_delivers_witness:
  "\<exists>res s'. copyin sample pgA KERNBASE 4 8 = Ok (res, s') \<and> vok s' {pgA, pgB} (\<lambda>_. 0) \<and>
    memory s' (KERNBASE + 9) = memory sample (KERNBASE + 9)"
proof -
  have k: "\<forall>i < unat (8 :: u64). kdata sample (\<lambda>_. 0) (KERNBASE + of_nat i)" using sample_kernel by simp
  have u: "unat KERNBASE + unat (8 :: u64) < 2 ^ 64" by (simp add: KERNBASE_def)
  show ?thesis using copyin_delivers [OF sample_vok _ u k, of pgA 4] by fastforce
qed

text \<open>
  C9. \<^verbatim>\<open>uvmalloc\<close> returns the new size with zeroed, readable pages added from the old to the new
  size, or 0 with every view as before; no other process sees a change.
\<close>

theorem uvmalloc_grows:
  assumes "vok s Rs E" and "r \<in> Rs" and "oldsz \<le> newsz" and "newsz \<le> TRAPFRAME" and "PTE_FLAGS xperm = xperm"
    and "\<forall>b. aligned 12 b \<longrightarrow> PGROUNDUP oldsz \<le> b \<longrightarrow> b < PGROUNDUP newsz \<longrightarrow> \<not> bit (leaf (memory s) r b) 0"
  shows "\<exists>ok s'. uvmalloc s r oldsz newsz xperm = Ok (if ok then newsz else 0, s') \<and> vok s' Rs E \<and>
    (\<forall>x. kdata s E x \<longrightarrow> memory s' x = memory s x) \<and>
    (\<forall>r' \<in> Rs. \<forall>b. uload (memory s') r' b =
       (if ok \<and> r' = r \<and> PGROUNDUP oldsz \<le> b \<and> b < PGROUNDUP newsz then Some 0 else uload (memory s) r' b))"
proof -
  obtain ok s' where "uvmalloc s r oldsz newsz xperm = Ok (if ok then newsz else 0, s')" "vok s' Rs E"
    "\<forall>x. kdata s E x \<longrightarrow> memory s' x = memory s x"
    "\<forall>r' \<in> Rs. \<forall>b. let new = ok \<and> r' = r \<and> PGROUNDUP oldsz \<le> b \<and> b < PGROUNDUP newsz in
       uload (memory s') r' b = (if new then Some 0 else uload (memory s) r' b) \<and>
       uwritable (memory s') r' b = (if new then bit xperm 2 \<or> bit xperm 8 else uwritable (memory s) r' b)"
    using uvmalloc_spec [OF assms(1-5)] assms(6) by blast
  then show ?thesis by (intro exI [of _ ok] exI [of _ s']) (simp add: Let_def)
qed

theorem uvmalloc_grows_witness:
  "\<exists>ok s'. uvmalloc sample pgB 0 4096 PTE_W = Ok (if ok then 4096 else 0, s') \<and> vok s' {pgA, pgB} (\<lambda>_. 0) \<and>
    uload (memory s') pgA 1 = uload (memory sample) pgA 1"
proof -
  have "PTE_FLAGS PTE_W = PTE_W" by (simp add: PTE_FLAGS_def PTE_W_def)
  moreover have "\<forall>b. aligned 12 b \<longrightarrow> PGROUNDUP 0 \<le> b \<longrightarrow> b < PGROUNDUP 4096 \<longrightarrow> \<not> bit (leaf (memory sample) pgB b) 0"
    using sample_forkable_all(2) less_le_trans [OF _ sample_size(1)] by simp
  ultimately show ?thesis using uvmalloc_grows [OF sample_vok _ _ sample_size(1), of pgB 0 PTE_W] by fastforce
qed

text \<open>
  C10. \<^verbatim>\<open>uvmdealloc\<close> takes exactly the pages between the rounded sizes from the process and leaves
  every other view as it was.
\<close>

theorem uvmdealloc_shrinks:
  assumes "vok s Rs E" and "r \<in> Rs" and "newsz < oldsz" and "oldsz \<le> TRAPFRAME"
    and "\<forall>b. aligned 12 b \<longrightarrow> PGROUNDUP newsz \<le> b \<longrightarrow> b < PGROUNDUP oldsz \<longrightarrow> bit (leaf (memory s) r b) 0"
  shows "\<exists>s'. uvmdealloc s r oldsz newsz = Ok (newsz, s') \<and> vok s' Rs E \<and>
    (\<forall>r' \<in> Rs. \<forall>b. uload (memory s') r' b =
       (if r' = r \<and> PGROUNDUP newsz \<le> b \<and> b < PGROUNDUP oldsz then None else uload (memory s) r' b))"
proof -
  obtain s' where s': "uvmdealloc s r oldsz newsz = Ok (newsz, s')" "vok s' Rs E" "releases s Rs s'"
    and l: "\<forall>r' \<in> Rs. \<forall>b < MAXVA. leaf (memory s') r' b =
       (if r' = r \<and> PGROUNDUP newsz \<le> b \<and> b < PGROUNDUP oldsz then 0 else leaf (memory s) r' b)"
    using uvmdealloc_spec [OF assms(1-4)] assms(5) by blast
  have m: "\<And>x. data s Rs x \<Longrightarrow> data s' Rs x \<Longrightarrow> memory s' x = memory s x" using s'(3) by (simp add: releases_def)
  have "uload (memory s') r' b = (if r' = r \<and> PGROUNDUP newsz \<le> b \<and> b < PGROUNDUP oldsz then None else uload (memory s) r' b)"
    if r: "r' \<in> Rs" for r' b
  proof (cases "b < MAXVA")
    case True
    have lb: "leaf (memory s') r' b = (if r' = r \<and> PGROUNDUP newsz \<le> b \<and> b < PGROUNDUP oldsz then 0 else leaf (memory s) r' b)"
      using l r True by blast
    show ?thesis
    proof (cases "r' = r \<and> PGROUNDUP newsz \<le> b \<and> b < PGROUNDUP oldsz")
      case True
      then show ?thesis using lb by (simp add: uload_def)
    next
      case False
      then show ?thesis using both_view(1) [OF assms(1) s'(2) r _ m] lb by auto
    qed
  qed (simp add: uload_def)
  then show ?thesis using s'(1,2) by blast
qed

theorem uvmdealloc_shrinks_witness:
  "\<exists>s'. uvmdealloc sample pgA 4096 0 = Ok (0, s') \<and> vok s' {pgA, pgB} (\<lambda>_. 0) \<and> uload (memory s') pgA 1 = None"
  using uvmdealloc_shrinks [OF sample_vok _ _ sample_size(1), of pgA 0] sample_forkable_all(1) by fastforce


section \<open>Page tables and the allocator\<close>

text \<open>
  C11. When \<^verbatim>\<open>mappages\<close> of one user page returns 0, \<^verbatim>\<open>walkaddr\<close> finds the new page at each of
  its addresses and, everywhere else and for every other process, what it found before.
\<close>

theorem mappages_walkaddr:
  assumes "vinv s Rs E" and "\<forall>q. 0 \<le> E q" and "r \<in> Rs" and "aligned 12 a" and "a < TRAPFRAME"
    and "\<not> bit (leaf (memory s) r a) 0" and "page_ok s pa" and "0 < refs s pa" and "pa \<notin> tabs (memory s) Rs"
    and "PTE_FLAGS perm = perm" and "bit perm 1" and "bit perm 4" and "maps (memory s) Rs pa = {}" and "E pa = 1"
    and "mappages s r a PGSIZE pa perm = Ok (0, s')"
  shows "\<forall>r' \<in> Rs. \<forall>va < MAXVA. walkaddr s' r' va = (if r' = r \<and> PGROUNDDOWN va = a then Ok pa else walkaddr s r' va)"
proof -
  have v': "vinv s' Rs (E(pa := E pa - 1))" and l: "\<forall>r' \<in> Rs. \<forall>b < MAXVA. leaf (memory s') r' b =
      (if r' = r \<and> PGROUNDDOWN b = a then PA2PTE pa OR perm OR PTE_V else leaf (memory s) r' b)"
    using mappages_one [OF assms(1) _ assms(3-11)] assms(2,13-15) by auto
  note pe = page_entry [OF page_ok_aligned [OF assms(7)] assms(10)]
  have "walkaddr s' r' va = (if r' = r \<and> PGROUNDDOWN va = a then Ok pa else walkaddr s r' va)"
    if "r' \<in> Rs" "va < MAXVA" for r' va
  proof -
    have lv: "leaf (memory s') r' va = (if r' = r \<and> PGROUNDDOWN va = a then PA2PTE pa OR perm OR PTE_V else leaf (memory s) r' va)"
      using l that by blast
    show ?thesis unfolding walkaddr_leaf [OF v' that] walkaddr_leaf [OF assms(1) that] lv using pe assms(12) by (auto simp: Let_def)
  qed
  then show ?thesis by blast
qed

theorem mappages_walkaddr_witness:
  "\<exists>s'. mappages (sample0\<lparr>memory := mem4\<rparr>) pgB 0 PGSIZE pgU (PTE_R OR PTE_U) = Ok (0, s') \<and> walkaddr s' pgB 9 = Ok pgU"
proof -
  let ?s = "sample0\<lparr>memory := mem4\<rparr>"
  define E where "E = E0(pgT1 := 0, pgT0 := 0, pgS1 := 0, pgS0 := 0)"
  have v: "vinv ?s {pgA, pgB} E" using sample_mem4(1) by (simp add: E_def)
  have perm: "PTE_FLAGS (PTE_R OR PTE_U) = PTE_R OR PTE_U" "bit (PTE_R OR PTE_U) 1" "bit (PTE_R OR PTE_U) 4"
    by (simp_all add: PTE_FLAGS_or pte_bits)
  have m: "maps (memory ?s) {pgA, pgB} pgU = {}" using sample_mem4(4) unfolding maps_def by auto
  have E: "\<forall>q. 0 \<le> E q" "E pgU = 1" by (simp_all add: E_def E0_def)
  have ld: "ld64 mem4 (slot pgS0 0 0) = 0" using sample_mem4(4) [of pgB 0] sample_mem4(2) by (simp add: leaf_def)
  have nz: "slot pgS0 0 0 \<noteq> 0" by (simp add: slot_def PX_def pgS0_def)
  have up: "PGROUNDDOWN (0 + PGSIZE - 1) = 0" by (rule PGROUNDDOWN_last) simp
  obtain s' where s': "mappages ?s pgB 0 PGSIZE pgU (PTE_R OR PTE_U) = Ok (0, s')"
    unfolding mappages_def up zero_user(4) mappages_loop.simps [of ?s]
    using walk_exists [OF zero_user(3), of ?s] sample_mem4(2) ld nz by (simp add: PGSIZE_def)
  have p: "page_ok ?s pgU" by (simp add: sample_pages)
  then have r: "0 < refs ?s pgU" using sample_refs [of pgU] by (simp add: refs_def)
  have t: "pgU \<notin> tabs (memory ?s) {pgA, pgB}" using sample_mem4(5) by simp
  have l: "\<not> bit (leaf (memory ?s) pgB 0) 0" using sample_mem4(4) [of pgB 0] by simp
  have "(9 :: u64) < MAXVA" "PGROUNDDOWN 9 = 0" by (simp_all add: layout_defs PGROUNDDOWN_def)
  then show ?thesis
    using mappages_walkaddr [OF v E(1) _ zero_user(1,2) l p r t perm m E(2) s'] s' by auto
qed

text \<open>
  C12. Whatever legal requests the kernel makes of the allocator, none fails; what \<^verbatim>\<open>kalloc\<close> returns is 0
  or a page of the allocator; and a page that is in use and not released is never among what it
  returns, keeps its contents and stays in use.
\<close>

theorem allocator_keeps_pages:
  assumes "kinv s" and "page_ok s p" and "0 < refs s p" and "PFree p \<notin> set xs"
    and "pg_legal_run kalloc kfree increase_count page_ok refs s xs"
  shows "\<exists>ps s'. pg_run kalloc kfree increase_count s xs = Ok (ps, s') \<and> kinv s' \<and> 0 < refs s' p \<and>
    p \<notin> set ps \<and> (\<forall>q \<in> set ps. q = 0 \<or> page_ok s q) \<and> (\<forall>a. blk 12 a = p \<longrightarrow> memory s' a = memory s a)"
  using assms by (rule ka.run_keeps)

theorem allocator_keeps_pages_witness:
  "\<exists>ps s'. pg_run kalloc kfree increase_count sample0 [PAlloc, PAlloc] = Ok (ps, s') \<and> kinv s' \<and> 0 < refs s' pgU \<and>
    pgU \<notin> set ps"
proof -
  have "page_ok sample0 pgU" by (simp add: sample_pages)
  moreover from this have "0 < refs sample0 pgU" by (simp add: sample_refs)
  moreover have "pg_legal_run kalloc kfree increase_count page_ok refs sample0 [PAlloc, PAlloc]"
    by (simp split: res.split)
  ultimately show ?thesis using allocator_keeps_pages [OF sample0_kinv, of pgU "[PAlloc, PAlloc]"] by auto
qed

text \<open>
  C15. A page is released by \<^verbatim>\<open>kfree\<close> only when its last user gives it up: from a count of k, k - 1
  calls leave the page's contents in place and only lower the count, and one more puts the page
  on the free list, from where \<^verbatim>\<open>kalloc\<close> hands it out next.
\<close>

theorem kfree_last_user:
  assumes "kinv s" and "page_ok s p" and "refs s p = k" and "0 < k"
  shows "\<exists>s'. kfree s p = Ok s' \<and> kinv s' \<and> refs s' p = k - 1 \<and>
    (if k = 1 then \<exists>s2. kalloc s' = Ok (p, s2) else memory s' = memory s \<and> freelist s' = freelist s)"
proof -
  obtain xs where xs: "kinv_on s xs" using assms(1) by (auto simp: kinv_def)
  obtain s' where s': "kfree s p = Ok s'" "kinv s'" "refs s' p = k - 1"
    using kfree_law [OF assms(1,2)] assms(2-4) by auto
  have "\<exists>s2. kalloc s' = Ok (p, s2)" if k: "k = 1"
  proof -
    obtain s1 where s1: "kfree s p = Ok s1" "kinv_on s1 (p # xs)" using kfree_last(1,2) [OF xs assms(2)] assms(3) k by blast
    show ?thesis using kalloc_nonempty(1) [OF s1(2)] s1(1) s'(1) by auto
  qed
  moreover have "memory s' = memory s \<and> freelist s' = freelist s" if k: "k \<noteq> 1"
    using kfree_shared(1) [OF xs assms(2)] assms(3,4) k s'(1) by auto
  ultimately show ?thesis using s' by auto
qed

theorem kfree_last_user_witness:
  "\<exists>s' s2. kfree sample0 pgU = Ok s' \<and> kalloc s' = Ok (pgU, s2)"
  using kfree_last_user [OF sample0_kinv, of pgU 1] sample_pages [of pgU] sample_refs [of pgU] by auto

text \<open>
  C17. A second release of a free page is not detected: the count is unsigned, so it wraps to 255
  and \<^verbatim>\<open>kfree\<close> takes the path of a shared page instead of its panic, with the page still free.
\<close>

theorem kfree_double_free:
  assumes "kinv s" and "page_ok s p" and "refs s p = 0"
  shows "\<exists>s'. kfree s p = Ok s' \<and> refs s' p = 255 \<and> memory s' = memory s \<and> freelist s' = freelist s"
proof -
  have c: "counter s (PA2COWINDEX p) = 0" using assms(3) by (simp add: refs_def unat_eq_0)
  have "unat (- 1 :: u8) = 255" by (simp add: unsigned_minus_1_eq_mask mask_eq_exp_minus_1)
  then show ?thesis using kfree_cases [OF assms(2)] c by (simp add: refs_def)
qed

theorem kfree_double_free_witness:
  "\<exists>s'. kfree sample0 pgF = Ok s' \<and> refs s' pgF = 255 \<and> freelist s' = pgF"
  using kfree_double_free [OF sample0_kinv, of pgF] sample_pages [of pgF] sample_refs [of pgF] by (auto simp: sample0_def)

text \<open>
  C18. Virtual address 0 cannot be written through the copy-on-write handler: \<^verbatim>\<open>copyout\<close> to it fails
  and so does a store when the page is not writable yet, even where the program may write page 0.
\<close>

theorem cow_address_zero:
  assumes "uwritable (memory s) r 0" and "\<not> bit (leaf (memory s) r 0) 2" and "0 < len"
  shows "copyout s r 0 src len = Ok (-1, s) \<and> ustore s r 0 b = Ok (False, s)"
  using assms by (simp add: copyout.simps handler_range ustore_def store_now_def Let_def)

lemma sample_cow_zero:
  defines "s \<equiv> sample0\<lparr>memory := st64 mem4 (slot pgT0 0 0) (cowed user_entry)\<rparr>"
  shows "uwritable (memory s) pgA 0" and "\<not> bit (leaf (memory s) pgA 0) 2"
proof -
  have "sep mem4 {pgA, pgB}" using vinv_sep [OF sample_mem4(1)] by simp
  then have "leaf (memory s) pgA 0 = cowed user_entry"
    using leaf_write_user [of mem4 "{pgA, pgB}" pgA 0 pgT0 pgA 0 "cowed user_entry"] sample_mem4(3) by (simp add: s_def)
  then show "uwritable (memory s) pgA 0" "\<not> bit (leaf (memory s) pgA 0) 2"
    using user_entry_props by (simp_all add: uwritable_def bit_cowed)
qed

theorem cow_address_zero_witness:
  "let s = sample0\<lparr>memory := st64 mem4 (slot pgT0 0 0) (cowed user_entry)\<rparr> in
   copyout s pgA 0 KERNBASE 8 = Ok (-1, s) \<and> ustore s pgA 0 7 = Ok (False, s)"
  using cow_address_zero [OF sample_cow_zero, of 8] by (simp add: Let_def)

end
