(* ===== verification/Locks.thy ===== *)
theory Locks
  imports Prelude
begin

text \<open>
  Spin locks (\<^verbatim>\<open>kernel/spinlock.c\<close>) and sleep locks (\<^verbatim>\<open>kernel/sleeplock.c\<close>). The loop of
  \<^verbatim>\<open>acquire\<close> is split at its atomic swap, so that the steps of several CPUs interleave as they
  do on the machine; the critical sections of the other theories are atomic because of what
  is proved here.
\<close>

section \<open>Spin locks\<close>

text \<open>A CPU: its interrupt-enable bit and the two fields of \<^verbatim>\<open>struct cpu\<close> that locks use.\<close>

record cpu =
  intr :: bool
  noff :: int
  intena :: bool

record spinlock =
  locked :: bool
  lcpu :: "nat option"

definition initlock :: spinlock where
  "initlock = \<lparr>locked = False, lcpu = None\<rparr>"

definition push_off :: "cpu \<Rightarrow> cpu" where
  "push_off c =
     (let old = intr c;
          c = c\<lparr>intr := False\<rparr>;
          c = (if noff c = 0 then c\<lparr>intena := old\<rparr> else c)
      in c\<lparr>noff := noff c + 1\<rparr>)"

definition pop_off :: "cpu \<Rightarrow> cpu res" where
  "pop_off c =
     (if intr c then Panic ''pop_off - interruptible''
      else if noff c < 1 then Panic ''pop_off''
      else
        let c = c\<lparr>noff := noff c - 1\<rparr> in
        Ok (if noff c = 0 \<and> intena c then c\<lparr>intr := True\<rparr> else c))"

definition holding :: "spinlock \<Rightarrow> nat \<Rightarrow> bool" where
  "holding lk me \<longleftrightarrow> locked lk \<and> lcpu lk = Some me"

text \<open>
  \<^verbatim>\<open>acquire\<close> up to its loop, one pass of the loop (the atomic swap), and the rest; \<open>None\<close> is a
  pass that finds the lock taken.
\<close>

definition acquire_enter :: "spinlock \<Rightarrow> nat \<Rightarrow> cpu \<Rightarrow> cpu res" where
  "acquire_enter lk me c =
     (let c = push_off c in if holding lk me then Panic ''acquire'' else Ok c)"

definition acquire_swap :: "spinlock \<Rightarrow> spinlock option" where
  "acquire_swap lk = (if locked lk then None else Some (lk\<lparr>locked := True\<rparr>))"

definition acquire_record :: "spinlock \<Rightarrow> nat \<Rightarrow> spinlock" where
  "acquire_record lk me = lk\<lparr>lcpu := Some me\<rparr>"

text \<open>The whole \<^verbatim>\<open>acquire\<close> when no other CPU runs in between: it spins for ever on a taken lock.\<close>

definition acquire :: "spinlock \<Rightarrow> nat \<Rightarrow> cpu \<Rightarrow> (spinlock \<times> cpu) res" where
  "acquire lk me c =
     bnd (acquire_enter lk me c) (\<lambda>c.
       case acquire_swap lk of
         None \<Rightarrow> Blocked
       | Some lk \<Rightarrow> Ok (acquire_record lk me, c))"

text \<open>\<^verbatim>\<open>release\<close> clears the owner, then the lock word, then restores interrupts.\<close>

definition release_owner :: "spinlock \<Rightarrow> nat \<Rightarrow> spinlock res" where
  "release_owner lk me = (if \<not> holding lk me then Panic ''release'' else Ok (lk\<lparr>lcpu := None\<rparr>))"

definition release_word :: "spinlock \<Rightarrow> spinlock" where
  "release_word lk = lk\<lparr>locked := False\<rparr>"

definition release :: "spinlock \<Rightarrow> nat \<Rightarrow> cpu \<Rightarrow> (spinlock \<times> cpu) res" where
  "release lk me c =
     bnd (release_owner lk me) (\<lambda>lk.
       bnd (pop_off c) (\<lambda>c. Ok (release_word lk, c)))"

section \<open>Several CPUs\<close>

text \<open>Where a CPU is in the code of the lock.\<close>

datatype lpc = Outside | Spinning | Swapped | Inside | Leaving | Restoring

record machine =
  lk :: spinlock
  cpus :: "nat \<Rightarrow> cpu"
  pc :: "nat \<Rightarrow> lpc"

inductive lstep :: "machine \<Rightarrow> machine \<Rightarrow> bool" where
  enter: "pc m i = Outside \<Longrightarrow> acquire_enter (lk m) i (cpus m i) = Ok c \<Longrightarrow>
    lstep m (m\<lparr>cpus := (cpus m)(i := c), pc := (pc m)(i := Spinning)\<rparr>)"
| spin: "pc m i = Spinning \<Longrightarrow> acquire_swap (lk m) = None \<Longrightarrow> lstep m m"
| swap: "pc m i = Spinning \<Longrightarrow> acquire_swap (lk m) = Some l \<Longrightarrow>
    lstep m (m\<lparr>lk := l, pc := (pc m)(i := Swapped)\<rparr>)"
| record_owner: "pc m i = Swapped \<Longrightarrow> lstep m (m\<lparr>lk := acquire_record (lk m) i, pc := (pc m)(i := Inside)\<rparr>)"
| leave: "pc m i = Inside \<Longrightarrow> release_owner (lk m) i = Ok l \<Longrightarrow>
    lstep m (m\<lparr>lk := l, pc := (pc m)(i := Leaving)\<rparr>)"
| drop: "pc m i = Leaving \<Longrightarrow> lstep m (m\<lparr>lk := release_word (lk m), pc := (pc m)(i := Restoring)\<rparr>)"
| restore: "pc m i = Restoring \<Longrightarrow> pop_off (cpus m i) = Ok c \<Longrightarrow>
    lstep m (m\<lparr>cpus := (cpus m)(i := c), pc := (pc m)(i := Outside)\<rparr>)"
| interrupts: "pc m i = Outside \<Longrightarrow> noff (cpus m i) = 0 \<Longrightarrow> lstep m (m\<lparr>cpus := (cpus m)(i := (cpus m i)\<lparr>intr := b\<rparr>)\<rparr>)"

definition owns :: "lpc \<Rightarrow> bool" where
  "owns p \<longleftrightarrow> p = Swapped \<or> p = Inside \<or> p = Leaving"

definition linit :: machine where
  "linit = \<lparr>lk = initlock, cpus = (\<lambda>_. \<lparr>intr = False, noff = 0, intena = False\<rparr>), pc = (\<lambda>_. Outside)\<rparr>"

text \<open>
  The invariant: the CPU that owns the lock, if one does, agrees with the lock word, the owner
  field names the CPU inside, and a CPU within the lock code has interrupts off.
\<close>

definition linv_on :: "machine \<Rightarrow> nat option \<Rightarrow> bool" where
  "linv_on m h \<longleftrightarrow>
     (\<forall>i. owns (pc m i) \<longleftrightarrow> h = Some i) \<and> (locked (lk m) \<longleftrightarrow> h \<noteq> None) \<and>
     (\<forall>i. lcpu (lk m) = Some i \<longleftrightarrow> pc m i = Inside) \<and>
     (\<forall>i. if pc m i = Outside then noff (cpus m i) = 0 else noff (cpus m i) = 1 \<and> \<not> intr (cpus m i))"

lemma linv_init: "linv_on linit None"
  by (simp add: linv_on_def linit_def initlock_def owns_def)

lemma owns_simps [simp]:
  "\<not> owns Outside" "\<not> owns Spinning" "owns Swapped" "owns Inside" "owns Leaving" "\<not> owns Restoring"
  by (simp_all add: owns_def)

lemma linv_owns: "linv_on m h \<Longrightarrow> owns (pc m i) \<longleftrightarrow> h = Some i"
  by (simp add: linv_on_def)

lemma linv_step:
  assumes "lstep m m'" and "linv_on m h"
  shows "\<exists>h'. linv_on m' h'"
  using assms
proof (induction rule: lstep.induct)
  case (enter m i c)
  then have "c = push_off (cpus m i)" by (auto simp: acquire_enter_def Let_def split: if_splits)
  moreover have "h \<noteq> Some i" using enter linv_owns [of m h i] by simp
  ultimately have "linv_on (m\<lparr>cpus := (cpus m)(i := c), pc := (pc m)(i := Spinning)\<rparr>) h"
    using enter unfolding linv_on_def by (auto simp: push_off_def Let_def split: if_splits)
  then show ?case by blast
next
  case (swap m i l)
  then have "linv_on (m\<lparr>lk := l, pc := (pc m)(i := Swapped)\<rparr>) (Some i)"
    unfolding linv_on_def acquire_swap_def by (auto split: if_splits)
  then show ?case by blast
next
  case (record_owner m i)
  then have "h = Some i" using linv_owns [of m h i] by simp
  with record_owner have "linv_on (m\<lparr>lk := acquire_record (lk m) i, pc := (pc m)(i := Inside)\<rparr>) (Some i)"
    unfolding linv_on_def acquire_record_def by (auto split: if_splits)
  then show ?case by blast
next
  case (leave m i l)
  moreover have "h = Some i" using leave linv_owns [of m h i] by simp
  ultimately have "linv_on (m\<lparr>lk := l, pc := (pc m)(i := Leaving)\<rparr>) h"
    unfolding linv_on_def release_owner_def holding_def by (auto split: if_splits)
  then show ?case by blast
next
  case (drop m i)
  moreover have "h = Some i" using drop linv_owns [of m h i] by simp
  ultimately have "linv_on (m\<lparr>lk := release_word (lk m), pc := (pc m)(i := Restoring)\<rparr>) None"
    unfolding linv_on_def release_word_def by (auto split: if_splits)
  then show ?case by blast
next
  case (restore m i c)
  moreover have "h \<noteq> Some i" using restore linv_owns [of m h i] by simp
  ultimately have "linv_on (m\<lparr>cpus := (cpus m)(i := c), pc := (pc m)(i := Outside)\<rparr>) h"
    unfolding linv_on_def pop_off_def by (auto simp: Let_def split: if_splits)
  then show ?case by blast
next
  case (interrupts m i b)
  then have "linv_on (m\<lparr>cpus := (cpus m)(i := (cpus m i)\<lparr>intr := b\<rparr>)\<rparr>) h"
    unfolding linv_on_def by auto
  then show ?case by blast
qed blast

lemma linv_reachable: "lstep\<^sup>*\<^sup>* linit m \<Longrightarrow> \<exists>h. linv_on m h"
  by (induction rule: rtranclp_induct) (use linv_init linv_step in blast)+

text \<open>
  C21. While a CPU is inside a spin-locked section no other CPU owns the lock, interrupts are off
  on it, \<^verbatim>\<open>holding\<close> says so, and its \<^verbatim>\<open>release\<close> does not panic.
\<close>

theorem spinlock_mutual_exclusion:
  assumes "lstep\<^sup>*\<^sup>* linit m" and "pc m i = Inside"
  shows "(\<forall>j. owns (pc m j) \<longleftrightarrow> j = i) \<and> \<not> intr (cpus m i) \<and> holding (lk m) i \<and>
    (\<exists>l c. release (lk m) i (cpus m i) = Ok (l, c) \<and> \<not> locked l)"
proof -
  obtain h where h: "linv_on m h" using linv_reachable [OF assms(1)] by blast
  have "h = Some i" using linv_owns [OF h, of i] assms(2) by simp
  moreover have "\<not> intr (cpus m i) \<and> noff (cpus m i) = 1"
    using h assms(2) unfolding linv_on_def by (metis lpc.distinct(5))
  ultimately show ?thesis using h assms(2)
    by (auto simp: linv_on_def holding_def release_def release_owner_def release_word_def pop_off_def Let_def)
qed

theorem spinlock_mutual_exclusion_witness:
  "\<exists>m :: machine. pc m 0 = Inside \<and> pc m 1 = Spinning \<and> holding (lk m) 0 \<and> \<not> intr (cpus m 0)"
proof -
  define m1 where "m1 = linit\<lparr>cpus := (cpus linit)(0 := push_off (cpus linit 0)), pc := (pc linit)(0 := Spinning)\<rparr>"
  define m2 where "m2 = m1\<lparr>lk := (lk m1)\<lparr>locked := True\<rparr>, pc := (pc m1)(0 := Swapped)\<rparr>"
  define m3 where "m3 = m2\<lparr>lk := acquire_record (lk m2) 0, pc := (pc m2)(0 := Inside)\<rparr>"
  define m4 where "m4 = m3\<lparr>cpus := (cpus m3)(1 := push_off (cpus m3 1)), pc := (pc m3)(1 := Spinning)\<rparr>"
  note d = linit_def initlock_def acquire_enter_def acquire_swap_def acquire_record_def holding_def Let_def
  have s1: "lstep linit m1" unfolding m1_def by (rule enter) (simp_all add: d)
  have s2: "lstep m1 m2" unfolding m2_def by (rule swap) (simp_all add: d m1_def)
  have s3: "lstep m2 m3" unfolding m3_def by (rule record_owner) (simp add: m2_def)
  have s4: "lstep m3 m4" unfolding m4_def by (rule enter) (simp_all add: d m1_def m2_def m3_def)
  have r: "lstep\<^sup>*\<^sup>* linit m4"
    by (rule converse_rtranclp_into_rtranclp [where r = lstep], rule s1, rule converse_rtranclp_into_rtranclp [where r = lstep],
      rule s2, rule converse_rtranclp_into_rtranclp [where r = lstep], rule s3, rule r_into_rtranclp [where r = lstep], rule s4)
  have p: "pc m4 0 = Inside" "pc m4 1 = Spinning" by (simp_all add: m4_def m3_def)
  show ?thesis using spinlock_mutual_exclusion [OF r p(1)] p by (intro exI [of _ m4]) simp
qed

section \<open>Nesting\<close>

primrec pop_offs :: "nat \<Rightarrow> cpu \<Rightarrow> cpu res" where
  "pop_offs 0 c = Ok c"
| "pop_offs (Suc n) c = bnd (pop_off c) (pop_offs n)"

lemma push_offs:
  "0 \<le> noff c \<Longrightarrow> (push_off ^^ Suc n) c =
    c\<lparr>intr := False, noff := noff c + int (Suc n), intena := (if noff c = 0 then intr c else intena c)\<rparr>"
proof (induction n)
  case 0
  then show ?case by (simp add: push_off_def Let_def)
next
  case (Suc n)
  have "(push_off ^^ Suc (Suc n)) c = push_off (c\<lparr>intr := False, noff := noff c + int (Suc n),
      intena := (if noff c = 0 then intr c else intena c)\<rparr>)"
    by (simp only: funpow.simps(2) [of "Suc n"] o_apply Suc.IH [OF Suc.prems])
  also have "\<dots> = c\<lparr>intr := False, noff := noff c + int (Suc (Suc n)), intena := (if noff c = 0 then intr c else intena c)\<rparr>"
    using Suc.prems by (simp add: push_off_def Let_def)
  finally show ?case .
qed

lemma pop_offs_nested:
  "\<not> intr c \<Longrightarrow> noff c = k + int n \<Longrightarrow> 0 < k \<Longrightarrow> pop_offs n c = Ok (c\<lparr>noff := k\<rparr>)"
proof (induction n arbitrary: c)
  case (Suc n)
  then have "pop_off c = Ok (c\<lparr>noff := k + int n\<rparr>)" by (simp add: pop_off_def Let_def)
  then show ?case using Suc.IH [of "c\<lparr>noff := k + int n\<rparr>"] Suc.prems by simp
qed simp

lemma pop_offs_Suc: "pop_offs (Suc n) c = bnd (pop_offs n c) pop_off"
proof (induction n arbitrary: c)
  case (Suc n)
  have "pop_offs (Suc (Suc n)) c = bnd (pop_off c) (\<lambda>c. bnd (pop_offs n c) pop_off)"
    using Suc by (cases "pop_off c") simp_all
  then show ?case by (cases "pop_off c") simp_all
next
  case 0
  show ?case by (cases "pop_off c") simp_all
qed

text \<open>
  C22. n calls of \<^verbatim>\<open>push_off\<close> are undone by n calls of \<^verbatim>\<open>pop_off\<close>, none of which panics: interrupts
  are off in between and at the end as they were at the start, on or off.
\<close>

theorem push_pop_nest:
  assumes "0 \<le> noff c" and "0 < noff c \<longrightarrow> \<not> intr c"
  shows "\<exists>c'. pop_offs n ((push_off ^^ n) c) = Ok c' \<and> intr c' = intr c \<and> noff c' = noff c \<and>
    (0 < n \<longrightarrow> \<not> intr ((push_off ^^ n) c))"
proof (cases n)
  case (Suc k)
  let ?c = "c\<lparr>intr := False, noff := noff c + int (Suc k), intena := (if noff c = 0 then intr c else intena c)\<rparr>"
  have "pop_offs k ?c = Ok (?c\<lparr>noff := noff c + 1\<rparr>)" using assms(1) by (intro pop_offs_nested) simp_all
  then have "pop_offs (Suc k) ?c = pop_off (?c\<lparr>noff := noff c + 1\<rparr>)" by (simp add: pop_offs_Suc del: pop_offs.simps)
  then show ?thesis using push_offs [OF assms(1), of k] assms
    by (auto simp: Suc pop_off_def Let_def simp del: pop_offs.simps funpow.simps)
qed simp

theorem push_pop_nest_witness:
  "\<exists>c'. pop_offs 2 ((push_off ^^ 2) \<lparr>intr = True, noff = 0, intena = False\<rparr>) = Ok c' \<and> intr c'"
  using push_pop_nest [of "\<lparr>intr = True, noff = 0, intena = False\<rparr>" 2] by auto

section \<open>Sleep locks\<close>

text \<open>
  \<^verbatim>\<open>acquiresleep\<close> sleeps while the lock is held; for a process that runs alone it never returns,
  and \<open>Blocked\<close> says so. The spin lock inside makes each operation one atomic step.
\<close>

record sleeplock =
  slocked :: bool
  spid :: int

definition initsleeplock :: sleeplock where
  "initsleeplock = \<lparr>slocked = False, spid = 0\<rparr>"

definition acquiresleep :: "int \<Rightarrow> sleeplock \<Rightarrow> sleeplock res" where
  "acquiresleep pid l = (if slocked l then Blocked else Ok (l\<lparr>slocked := True, spid := pid\<rparr>))"

definition releasesleep :: "sleeplock \<Rightarrow> sleeplock" where
  "releasesleep l = l\<lparr>slocked := False, spid := 0\<rparr>"

definition holdingsleep :: "int \<Rightarrow> sleeplock \<Rightarrow> bool" where
  "holdingsleep pid l \<longleftrightarrow> slocked l \<and> spid l = pid"

end
