(* ===== verification/Bytes.thy ===== *)
theory Bytes
  imports Prelude
begin

text \<open>
  Integers in a block of bytes: little-endian loads and stores of 16 and 32 bits, as the kernel
  makes them through pointers into \<^verbatim>\<open>b->data\<close>.
\<close>

type_synonym block = "nat \<Rightarrow> u8"

primrec ldn :: "nat \<Rightarrow> block \<Rightarrow> nat \<Rightarrow> nat" where
  "ldn 0 d p = 0"
| "ldn (Suc k) d p = unat (d p) + 256 * ldn k d (Suc p)"

primrec stn :: "nat \<Rightarrow> block \<Rightarrow> nat \<Rightarrow> nat \<Rightarrow> block" where
  "stn 0 d p v = d"
| "stn (Suc k) d p v = stn k (d(p := of_nat v)) (Suc p) (v div 256)"

definition ld32 :: "block \<Rightarrow> nat \<Rightarrow> u32" where "ld32 d p = of_nat (ldn 4 d p)"
definition st32 :: "block \<Rightarrow> nat \<Rightarrow> u32 \<Rightarrow> block" where "st32 d p w = stn 4 d p (unat w)"
definition ld16 :: "block \<Rightarrow> nat \<Rightarrow> u16" where "ld16 d p = of_nat (ldn 2 d p)"
definition st16 :: "block \<Rightarrow> nat \<Rightarrow> u16 \<Rightarrow> block" where "st16 d p w = stn 2 d p (unat w)"

lemma stn_frame: "i < p \<or> p + k \<le> i \<Longrightarrow> stn k d p v i = d i"
  by (induction k arbitrary: d p v) auto

lemma ldn_cong: "(\<And>i. p \<le> i \<Longrightarrow> i < p + k \<Longrightarrow> d i = d' i) \<Longrightarrow> ldn k d p = ldn k d' p"
proof (induction k arbitrary: p)
  case (Suc k)
  have "ldn k d (Suc p) = ldn k d' (Suc p)" using Suc.prems by (intro Suc.IH) simp
  then show ?case using Suc.prems [of p] by simp
qed simp

lemma ldn_stn: "v < 256 ^ k \<Longrightarrow> ldn k (stn k d p v) p = v"
proof (induction k arbitrary: d p v)
  case (Suc k)
  have "stn k (d(p := of_nat v)) (Suc p) (v div 256) p = of_nat v" by (simp add: stn_frame)
  moreover have "ldn k (stn k (d(p := of_nat v)) (Suc p) (v div 256)) (Suc p) = v div 256"
    using Suc.prems by (intro Suc.IH) (simp add: less_mult_imp_div_less mult.commute)
  moreover have "unat (of_nat v :: u8) = v mod 256" by (simp add: unat_of_nat take_bit_eq_mod)
  ultimately show ?case by simp
qed simp

lemma ldn_stn_other: "p + k \<le> q \<or> q + n \<le> p \<Longrightarrow> ldn k (stn n d q v) p = ldn k d p"
  by (rule ldn_cong) (auto simp: stn_frame)

lemma ldn_bound: "ldn k d p < 256 ^ k"
proof (induction k arbitrary: p)
  case (Suc k)
  have "unat (d p) < 256" using unsigned_less [of "d p"] by simp
  then show ?case using Suc [of "Suc p"] by simp
qed simp

lemma ld_st_simps [simp]:
  "ld32 (st32 d p w) p = w" "ld16 (st16 d p h) p = h"
  "p + 4 \<le> q \<or> q + 4 \<le> p \<Longrightarrow> ld32 (st32 d q w) p = ld32 d p"
  "p + 2 \<le> q \<or> q + 2 \<le> p \<Longrightarrow> ld16 (st16 d q h) p = ld16 d p"
  "p + 4 \<le> q \<or> q + 2 \<le> p \<Longrightarrow> ld32 (st16 d q h) p = ld32 d p"
  "p + 2 \<le> q \<or> q + 4 \<le> p \<Longrightarrow> ld16 (st32 d q w) p = ld16 d p"
proof -
  have w: "unat w < 256 ^ 4" by (rule order_less_le_trans [OF unsigned_less]) simp
  have h: "unat h < 256 ^ 2" by (rule order_less_le_trans [OF unsigned_less]) simp
  show "ld32 (st32 d p w) p = w" "ld16 (st16 d p h) p = h"
    unfolding ld32_def st32_def ld16_def st16_def ldn_stn [OF w] ldn_stn [OF h] by simp_all
qed (simp_all add: ld32_def st32_def ld16_def st16_def ldn_stn_other)

lemma ld_st_frame:
  "p + 4 \<le> i \<or> i < p \<Longrightarrow> st32 d p w i = d i" "p + 2 \<le> i \<or> i < p \<Longrightarrow> st16 d p h i = d i"
  by (auto simp: st32_def st16_def stn_frame)

lemma ld32_zero: "(\<And>i. p \<le> i \<Longrightarrow> i < p + 4 \<Longrightarrow> d i = 0) \<Longrightarrow> ld32 d p = 0"
  unfolding ld32_def using ldn_cong [of p 4 d "\<lambda>_. 0"] by (simp add: numeral_eq_Suc)

end
