(* ===== verification/Bio.thy ===== *)
theory Bio
  imports Locks Bytes
begin

text \<open>
  The buffer cache, \<^verbatim>\<open>kernel/bio.c\<close>: \<open>NBUF\<close> buffers on a doubly linked ring in order of use. A
  disk is a function from block numbers to blocks; the driver's \<^verbatim>\<open>virtio_disk_rw\<close> is modelled by
  its effect on buffer and disk, and the writes are recorded in order for the proofs about
  crashes. The refinement: the cache behaves as a table of blocks with a hold count and a lock
  each, and a block that nobody holds has on disk what a reader of the cache gets.
\<close>

section \<open>State\<close>



definition BSIZE :: nat where "BSIZE = 1024"
definition MAXOPBLOCKS :: nat where "MAXOPBLOCKS = 10"
definition NBUF :: nat where "NBUF = MAXOPBLOCKS * 3"

lemma NBUF_val: "NBUF = 30"
  by (simp add: NBUF_def MAXOPBLOCKS_def)

record buf =
  bvalid :: bool
  bdev :: u32
  blockno :: u32
  block :: sleeplock
  refcnt :: u32
  bprev :: nat
  bnext :: nat
  bdata :: block

text \<open>
  Buffer \<open>i\<close> is \<^verbatim>\<open>bcache.buf[i]\<close> and \<open>head\<close> is \<^verbatim>\<open>bcache.head\<close>. The field \<open>curpid\<close> is
  \<^verbatim>\<open>myproc()->pid\<close>.
\<close>

record bst =
  bufs :: "nat \<Rightarrow> buf"
  disk :: "u32 \<Rightarrow> block"
  dwrites :: "(u32 \<times> block) list"
  curpid :: int

definition head :: nat where "head = NBUF"

text \<open>A buffer as the loader leaves it, and the part of the state that the cache does not touch.\<close>

definition zero_buf :: buf where
  "zero_buf = \<lparr>bvalid = False, bdev = 0, blockno = 0, block = \<lparr>slocked = False, spid = 0\<rparr>, refcnt = 0,
     bprev = 0, bnext = 0, bdata = (\<lambda>_. 0)\<rparr>"

definition bframe :: "'a bst_scheme \<Rightarrow> 'a bst_scheme" where
  "bframe s = s\<lparr>bufs := (\<lambda>_. zero_buf), disk := (\<lambda>_ _. 0), dwrites := []\<rparr>"

definition upd_buf :: "'a bst_scheme \<Rightarrow> nat \<Rightarrow> (buf \<Rightarrow> buf) \<Rightarrow> 'a bst_scheme" where
  "upd_buf s b f = s\<lparr>bufs := (bufs s)(b := f (bufs s b))\<rparr>"

section \<open>Operations\<close>

definition virtio_disk_rw :: "'a bst_scheme \<Rightarrow> nat \<Rightarrow> bool \<Rightarrow> 'a bst_scheme" where
  "virtio_disk_rw s b wr =
     (let n = blockno (bufs s b) in
      if wr then s\<lparr>disk := (disk s)(n := bdata (bufs s b)), dwrites := dwrites s @ [(n, bdata (bufs s b))]\<rparr>
      else upd_buf s b (\<lambda>x. x\<lparr>bdata := disk s n\<rparr>))"

primrec binit_loop :: "nat list \<Rightarrow> 'a bst_scheme \<Rightarrow> 'a bst_scheme" where
  "binit_loop [] s = s"
| "binit_loop (b # bs) s =
     (let s = upd_buf s b (\<lambda>x. x\<lparr>bnext := bnext (bufs s head), bprev := head, block := initsleeplock\<rparr>);
          s = upd_buf s (bnext (bufs s head)) (\<lambda>x. x\<lparr>bprev := b\<rparr>);
          s = upd_buf s head (\<lambda>x. x\<lparr>bnext := b\<rparr>)
      in binit_loop bs s)"

definition binit :: "'a bst_scheme \<Rightarrow> 'a bst_scheme" where
  "binit s = binit_loop [0..<NBUF] (upd_buf s head (\<lambda>x. x\<lparr>bprev := head, bnext := head\<rparr>))"

text \<open>The two loops of \<^verbatim>\<open>bget\<close>; the ring has \<open>NBUF\<close> buffers, so \<open>NBUF + 1\<close> rounds are enough.\<close>

primrec bget_cached :: "nat \<Rightarrow> 'a bst_scheme \<Rightarrow> u32 \<Rightarrow> u32 \<Rightarrow> nat \<Rightarrow> nat option res" where
  "bget_cached 0 s dev n b = Undef"
| "bget_cached (Suc k) s dev n b =
     (if b = head then Ok None
      else if bdev (bufs s b) = dev \<and> blockno (bufs s b) = n then Ok (Some b)
      else bget_cached k s dev n (bnext (bufs s b)))"

primrec bget_unused :: "nat \<Rightarrow> 'a bst_scheme \<Rightarrow> nat \<Rightarrow> nat option res" where
  "bget_unused 0 s b = Undef"
| "bget_unused (Suc k) s b =
     (if b = head then Ok None
      else if refcnt (bufs s b) = 0 then Ok (Some b)
      else bget_unused k s (bprev (bufs s b)))"

definition acquire_buf :: "'a bst_scheme \<Rightarrow> nat \<Rightarrow> (nat \<times> 'a bst_scheme) res" where
  "acquire_buf s b = bnd (acquiresleep (curpid s) (block (bufs s b))) (\<lambda>l. Ok (b, upd_buf s b (\<lambda>x. x\<lparr>block := l\<rparr>)))"

definition bget :: "'a bst_scheme \<Rightarrow> u32 \<Rightarrow> u32 \<Rightarrow> (nat \<times> 'a bst_scheme) res" where
  "bget s dev n =
     bnd (bget_cached (NBUF + 1) s dev n (bnext (bufs s head))) (\<lambda>r.
       case r of
         Some b \<Rightarrow> acquire_buf (upd_buf s b (\<lambda>x. x\<lparr>refcnt := refcnt x + 1\<rparr>)) b
       | None \<Rightarrow>
           bnd (bget_unused (NBUF + 1) s (bprev (bufs s head))) (\<lambda>r.
             case r of
               Some b \<Rightarrow> acquire_buf (upd_buf s b (\<lambda>x. x\<lparr>bdev := dev, blockno := n, bvalid := False, refcnt := 1\<rparr>)) b
             | None \<Rightarrow> Panic ''bget: no buffers''))"

definition bread :: "'a bst_scheme \<Rightarrow> u32 \<Rightarrow> u32 \<Rightarrow> (nat \<times> 'a bst_scheme) res" where
  "bread s dev n =
     bnd (bget s dev n) (\<lambda>(b, s).
       if \<not> bvalid (bufs s b)
       then Ok (b, upd_buf (virtio_disk_rw s b False) b (\<lambda>x. x\<lparr>bvalid := True\<rparr>))
       else Ok (b, s))"

definition bwrite :: "'a bst_scheme \<Rightarrow> nat \<Rightarrow> 'a bst_scheme res" where
  "bwrite s b =
     (if \<not> holdingsleep (curpid s) (block (bufs s b)) then Panic ''bwrite'' else Ok (virtio_disk_rw s b True))"

definition move_front :: "'a bst_scheme \<Rightarrow> nat \<Rightarrow> 'a bst_scheme" where
  "move_front s b =
     (let s = upd_buf s (bnext (bufs s b)) (\<lambda>x. x\<lparr>bprev := bprev (bufs s b)\<rparr>);
          s = upd_buf s (bprev (bufs s b)) (\<lambda>x. x\<lparr>bnext := bnext (bufs s b)\<rparr>);
          s = upd_buf s b (\<lambda>x. x\<lparr>bnext := bnext (bufs s head), bprev := head\<rparr>);
          s = upd_buf s (bnext (bufs s head)) (\<lambda>x. x\<lparr>bprev := b\<rparr>)
      in upd_buf s head (\<lambda>x. x\<lparr>bnext := b\<rparr>))"

definition brelse :: "'a bst_scheme \<Rightarrow> nat \<Rightarrow> 'a bst_scheme res" where
  "brelse s b =
     (if \<not> holdingsleep (curpid s) (block (bufs s b)) then Panic ''brelse''
      else
        let s = upd_buf s b (\<lambda>x. x\<lparr>block := releasesleep (block x)\<rparr>);
            s = upd_buf s b (\<lambda>x. x\<lparr>refcnt := refcnt x - 1\<rparr>)
        in if refcnt (bufs s b) = 0 then Ok (move_front s b) else Ok s)"

definition bpin :: "'a bst_scheme \<Rightarrow> nat \<Rightarrow> 'a bst_scheme" where
  "bpin s b = upd_buf s b (\<lambda>x. x\<lparr>refcnt := refcnt x + 1\<rparr>)"

definition bunpin :: "'a bst_scheme \<Rightarrow> nat \<Rightarrow> 'a bst_scheme" where
  "bunpin s b = upd_buf s b (\<lambda>x. x\<lparr>refcnt := refcnt x - 1\<rparr>)"

text \<open>An assignment of a whole block, \<^verbatim>\<open>memmove(b->data, ..., BSIZE)\<close>.\<close>

definition set_data :: "'a bst_scheme \<Rightarrow> nat \<Rightarrow> block \<Rightarrow> 'a bst_scheme" where
  "set_data s b d = upd_buf s b (\<lambda>x. x\<lparr>bdata := d\<rparr>)"

section \<open>The ring\<close>

primrec seg :: "(nat \<Rightarrow> buf) \<Rightarrow> nat \<Rightarrow> nat list \<Rightarrow> nat \<Rightarrow> bool" where
  "seg B a [] c \<longleftrightarrow> bnext (B a) = c \<and> bprev (B c) = a"
| "seg B a (x # xs) c \<longleftrightarrow> bnext (B a) = x \<and> bprev (B x) = a \<and> seg B x xs c"

definition ring :: "(nat \<Rightarrow> buf) \<Rightarrow> nat list \<Rightarrow> bool" where
  "ring B xs \<longleftrightarrow> distinct xs \<and> set xs = {0..<NBUF} \<and> seg B head xs head"

lemma seg_append: "seg B a (xs @ y # ys) c \<longleftrightarrow> seg B a xs y \<and> seg B y ys c"
  by (induction xs arbitrary: a) auto

text \<open>A change of the links elsewhere keeps a segment.\<close>

lemma seg_cong:
  assumes "seg B a xs c" and "\<And>x. x \<in> insert a (set xs) \<Longrightarrow> bnext (B' x) = bnext (B x)"
    and "\<And>x. x \<in> insert c (set xs) \<Longrightarrow> bprev (B' x) = bprev (B x)"
  shows "seg B' a xs c"
  using assms by (induction xs arbitrary: a) auto

lemma ring_cong:
  assumes "ring B xs" and "\<And>x. bnext (B' x) = bnext (B x)" and "\<And>x. bprev (B' x) = bprev (B x)"
  shows "ring B' xs"
  using assms seg_cong [of B head xs head B'] by (simp add: ring_def)

lemma seg_first: "seg B a xs c \<Longrightarrow> bnext (B a) = hd (xs @ [c])"
  by (cases xs) auto

lemma seg_last: "seg B a xs c \<Longrightarrow> bprev (B c) = last (a # xs)"
  by (induction xs arbitrary: a) auto

lemma bget_cached_find:
  assumes "seg (bufs s) a xs head" and "head \<notin> set xs" and "length xs < k"
  shows "bget_cached k s dev n (bnext (bufs s a)) =
    Ok (find (\<lambda>b. bdev (bufs s b) = dev \<and> blockno (bufs s b) = n) xs)"
  using assms
proof (induction xs arbitrary: a k)
  case Nil
  then show ?case by (cases k) auto
next
  case (Cons x xs)
  then show ?case by (cases k) auto
qed

lemma bget_unused_find:
  assumes "seg (bufs s) head xs a" and "head \<notin> set xs" and "length xs < k"
  shows "bget_unused k s (bprev (bufs s a)) = Ok (find (\<lambda>b. refcnt (bufs s b) = 0) (rev xs))"
  using assms
proof (induction xs arbitrary: a k rule: rev_induct)
  case Nil
  then show ?case by (cases k) auto
next
  case (snoc x xs)
  have "seg (bufs s) head xs x" "bprev (bufs s a) = x" using snoc.prems(1) seg_append [of "bufs s" head xs x "[]" a] by auto
  with snoc show ?case by (cases k) auto
qed

lemma ring_lists:
  assumes "ring (bufs s) xs"
  shows "bget_cached (NBUF + 1) s dev n (bnext (bufs s head)) = Ok (find (\<lambda>b. bdev (bufs s b) = dev \<and> blockno (bufs s b) = n) xs)"
    and "bget_unused (NBUF + 1) s (bprev (bufs s head)) = Ok (find (\<lambda>b. refcnt (bufs s b) = 0) (rev xs))"
proof -
  have "length xs = NBUF" using assms distinct_card [of xs] by (simp add: ring_def)
  then show "bget_cached (NBUF + 1) s dev n (bnext (bufs s head)) = Ok (find (\<lambda>b. bdev (bufs s b) = dev \<and> blockno (bufs s b) = n) xs)"
    "bget_unused (NBUF + 1) s (bprev (bufs s head)) = Ok (find (\<lambda>b. refcnt (bufs s b) = 0) (rev xs))"
    using assms bget_cached_find [of s head xs "NBUF + 1"] bget_unused_find [of s xs head "NBUF + 1"]
    by (simp_all add: ring_def head_def del: bget_cached.simps bget_unused.simps)
qed

text \<open>Taking a buffer out of the ring and putting one in behind the head.\<close>

definition unlink :: "(nat \<Rightarrow> buf) \<Rightarrow> nat \<Rightarrow> nat \<Rightarrow> buf" where
  "unlink B b =
     (let B = B(bnext (B b) := (B (bnext (B b)))\<lparr>bprev := bprev (B b)\<rparr>)
      in B(bprev (B b) := (B (bprev (B b)))\<lparr>bnext := bnext (B b)\<rparr>))"

definition push :: "(nat \<Rightarrow> buf) \<Rightarrow> nat \<Rightarrow> nat \<Rightarrow> buf" where
  "push B b =
     (let B = B(b := (B b)\<lparr>bnext := bnext (B head), bprev := head\<rparr>);
          B = B(bnext (B head) := (B (bnext (B head)))\<lparr>bprev := b\<rparr>)
      in B(head := (B head)\<lparr>bnext := b\<rparr>))"

lemma unlink_links:
  assumes "bnext (B b) \<noteq> b"
  shows "bnext (unlink B b x) = (if x = bprev (B b) then bnext (B b) else bnext (B x))"
    and "bprev (unlink B b x) = (if x = bnext (B b) then bprev (B b) else bprev (B x))"
  using assms by (simp_all add: unlink_def Let_def)

lemma push_links:
  assumes "b \<noteq> head" and "bnext (B head) \<noteq> b"
  shows "bnext (push B b x) = (if x = head then b else if x = b then bnext (B head) else bnext (B x))"
    and "bprev (push B b x) = (if x = bnext (B head) then b else if x = b then head else bprev (B x))"
  using assms by (auto simp: push_def Let_def)

lemma seg_unlink:
  assumes "seg B a (xs @ b # ys) c" and "distinct (a # xs @ b # ys)" and "c \<notin> set (xs @ b # ys)"
  shows "seg (unlink B b) a (xs @ ys) c"
  using assms
proof (induction xs arbitrary: a)
  case Nil
  then have l: "bprev (B b) = a" "bnext (B b) = hd (ys @ [c])" using seg_first [of B b ys c] by auto
  have nb: "bnext (B b) \<noteq> b" using Nil.prems l(2) by (cases ys) auto
  note unlink_links = unlink_links [where B = B and b = b, OF nb]
  show ?case
  proof (cases ys)
    case Nil
    then show ?thesis using l by (simp add: unlink_links)
  next
    case (Cons y zs)
    have "seg (unlink B b) y zs c"
      by (rule seg_cong [of B]) (use Nil.prems Cons l in \<open>auto simp: unlink_links\<close>)
    then show ?thesis using Cons l by (simp add: unlink_links)
  qed
next
  case (Cons x xs)
  have l: "bprev (B b) = last (x # xs)" "bnext (B b) = hd (ys @ [c])"
    using Cons.prems(1) seg_append [of B x xs b ys c] seg_last [of B x xs b] seg_first [of B b ys c] by auto
  have ne: "a \<noteq> last (x # xs)" using Cons.prems(2) last_in_set [of "x # xs"] by auto
  have nb: "bnext (B b) \<noteq> b" using Cons.prems(2,3) l(2) by (cases ys) auto
  have "x \<noteq> hd (ys @ [c])" using Cons.prems(2,3) by (cases ys) auto
  then show ?case using Cons l ne by (simp add: unlink_links [where B = B and b = b, OF nb])
qed

lemma seg_push:
  assumes "seg B head ys head" and "b \<notin> set ys" and "b \<noteq> head" and "head \<notin> set ys" and "distinct ys"
  shows "seg (push B b) head (b # ys) head"
proof -
  have f: "bnext (B head) = hd (ys @ [head])" using seg_first [OF assms(1)] .
  then have ne: "bnext (B head) \<noteq> b" using assms by (cases ys) auto
  note l = push_links [where b = b and B = B, OF assms(3) ne]
  have "seg (push B b) b ys head"
  proof (cases ys)
    case Nil
    then show ?thesis using f assms by (simp add: l)
  next
    case (Cons y zs)
    have "seg (push B b) y zs head"
      by (rule seg_cong [of B]) (use assms Cons f in \<open>auto simp: l\<close>)
    then show ?thesis using f assms Cons by (simp add: l)
  qed
  then show ?thesis using f assms by (cases ys) (simp_all add: l)
qed

lemma move_front_bufs: "bufs (move_front s b) = push (unlink (bufs s) b) b"
  by (simp add: move_front_def push_def unlink_def upd_buf_def Let_def del: fun_upd_apply)

lemma ring_move_front:
  assumes "ring (bufs s) xs" and "b < NBUF"
  shows "ring (bufs (move_front s b)) (b # remove1 b xs)"
proof -
  have b: "b \<in> set xs" and d: "distinct xs" and h: "head \<notin> set xs" using assms by (auto simp: ring_def head_def)
  obtain as cs where xs: "xs = as @ b # cs" using split_list [OF b] by blast
  have "seg (unlink (bufs s) b) head (as @ cs) head"
    by (rule seg_unlink) (use assms d h in \<open>simp_all add: ring_def xs\<close>)
  then have "seg (push (unlink (bufs s) b) b) head (b # as @ cs) head"
    using seg_push [of "unlink (bufs s) b" "as @ cs" b] d h by (auto simp: xs)
  then show ?thesis using assms d by (auto simp: ring_def move_front_bufs xs remove1_append)
qed

lemma binit_loop_ring:
  assumes "seg (bufs s) head xs head" and "distinct (bs @ xs)" and "head \<notin> set (bs @ xs)"
  shows "seg (bufs (binit_loop bs s)) head (rev bs @ xs) head"
  using assms
proof (induction bs arbitrary: s xs)
  case (Cons b bs)
  define B where "B = (bufs s)(b := (bufs s b)\<lparr>block := initsleeplock\<rparr>)"
  have c: "x\<lparr>block := l, bnext := f, bprev := h\<rparr> = x\<lparr>bnext := f, bprev := h, block := l\<rparr>" for x :: buf and l f h
    by (cases x) simp
  have e: "binit_loop (b # bs) s = binit_loop bs (s\<lparr>bufs := push B b\<rparr>)"
    using Cons.prems(3) by (auto simp: push_def upd_buf_def Let_def B_def c)
  have "seg B head xs head" using Cons.prems(1) by (rule seg_cong) (simp_all add: B_def)
  then have "seg (push B b) head (b # xs) head" using Cons.prems by (intro seg_push) auto
  then show ?case unfolding e using Cons.IH [of "s\<lparr>bufs := push B b\<rparr>" "b # xs"] Cons.prems by simp
qed simp

lemma binit_ring: "ring (bufs (binit s)) (rev [0..<NBUF])"
  using binit_loop_ring [of "upd_buf s head (\<lambda>x. x\<lparr>bprev := head, bnext := head\<rparr>)" "[]" "[0..<NBUF]"]
  by (simp add: ring_def binit_def head_def upd_buf_def)

section \<open>The cache as a table of blocks\<close>

text \<open>
  What a client sees: for each block its contents, how many hold its buffer and who has it
  locked, the disk, and the writes made to it.
\<close>

record cache =
  cview :: "u32 \<Rightarrow> block"
  chold :: "u32 \<Rightarrow> nat"
  clock :: "u32 \<Rightarrow> int option"
  cdisk :: "u32 \<Rightarrow> block"
  cwrites :: "(u32 \<times> block) list"

definition cslot :: "u32 \<Rightarrow> (nat \<Rightarrow> buf) \<Rightarrow> u32 \<Rightarrow> nat option" where
  "cslot D B n = find (\<lambda>b. bdev (B b) = D \<and> blockno (B b) = n) [0..<NBUF]"

definition lockval :: "buf \<Rightarrow> int option" where
  "lockval x = (if slocked (block x) then Some (spid (block x)) else None)"

definition cabs :: "u32 \<Rightarrow> 'a bst_scheme \<Rightarrow> cache" where
  "cabs D s =
     \<lparr>cview = (\<lambda>n. case cslot D (bufs s) n of Some b \<Rightarrow> bdata (bufs s b) | None \<Rightarrow> disk s n),
      chold = (\<lambda>n. case cslot D (bufs s) n of Some b \<Rightarrow> unat (refcnt (bufs s b)) | None \<Rightarrow> 0),
      clock = (\<lambda>n. case cslot D (bufs s) n of Some b \<Rightarrow> lockval (bufs s b) | None \<Rightarrow> None),
      cdisk = disk s, cwrites = dwrites s\<rparr>"

text \<open>
  The invariant: the links form a ring, a block is in at most one buffer, a buffer of the device
  has its data, and an unheld one is unlocked and clean.
\<close>

definition bok :: "u32 \<Rightarrow> (u32 \<Rightarrow> block) \<Rightarrow> buf \<Rightarrow> bool" where
  "bok D d x \<longleftrightarrow> (if bdev x = D then bvalid x else refcnt x = 0) \<and>
     (refcnt x = 0 \<longrightarrow> \<not> slocked (block x) \<and> (bdev x = D \<longrightarrow> bdata x = d (blockno x)))"

definition bslots :: "u32 \<Rightarrow> (u32 \<Rightarrow> block) \<Rightarrow> (nat \<Rightarrow> buf) \<Rightarrow> bool" where
  "bslots D d B \<longleftrightarrow> (\<forall>b < NBUF. bok D d (B b)) \<and>
     (\<forall>b < NBUF. \<forall>c < NBUF. bdev (B b) = D \<and> bdev (B c) = D \<and> blockno (B b) = blockno (B c) \<longrightarrow> b = c)"

definition binv :: "u32 \<Rightarrow> 'a bst_scheme \<Rightarrow> bool" where
  "binv D s \<longleftrightarrow> (\<exists>xs. ring (bufs s) xs) \<and> bslots D (disk s) (bufs s)"

text \<open>Buffer \<open>b\<close> holds block \<open>n\<close>.\<close>

definition is_buf :: "u32 \<Rightarrow> 'a bst_scheme \<Rightarrow> nat \<Rightarrow> u32 \<Rightarrow> bool" where
  "is_buf D s b n \<longleftrightarrow> b < NBUF \<and> bdev (bufs s b) = D \<and> blockno (bufs s b) = n"

lemma cslot_Some:
  assumes "bslots D d B"
  shows "cslot D B n = Some b \<longleftrightarrow> b < NBUF \<and> bdev (B b) = D \<and> blockno (B b) = n"
proof
  assume "cslot D B n = Some b"
  then show "b < NBUF \<and> bdev (B b) = D \<and> blockno (B b) = n"
    unfolding cslot_def by (auto simp: find_Some_iff)
next
  assume b: "b < NBUF \<and> bdev (B b) = D \<and> blockno (B b) = n"
  then have "cslot D B n \<noteq> None" unfolding cslot_def find_None_iff by auto
  then obtain c where c: "cslot D B n = Some c" by blast
  then have "c < NBUF \<and> bdev (B c) = D \<and> blockno (B c) = n" unfolding cslot_def by (auto simp: find_Some_iff)
  then have "c = b" using assms b unfolding bslots_def by blast
  with c show "cslot D B n = Some b" by simp
qed

lemma cslot_None: "cslot D B n = None \<longleftrightarrow> (\<forall>b < NBUF. \<not> (bdev (B b) = D \<and> blockno (B b) = n))"
  by (auto simp: cslot_def find_None_iff)

lemma is_buf_slot: "binv D s \<Longrightarrow> is_buf D s b n \<longleftrightarrow> cslot D (bufs s) n = Some b"
  using cslot_Some [of D "disk s" "bufs s"] by (simp add: binv_def is_buf_def)

lemma cabs_buf:
  assumes "binv D s" and "is_buf D s b n"
  shows "cview (cabs D s) n = bdata (bufs s b)" and "chold (cabs D s) n = unat (refcnt (bufs s b))"
    and "clock (cabs D s) n = lockval (bufs s b)"
  using assms by (simp_all add: is_buf_slot cabs_def)

lemma cabs_clean:
  assumes "binv D s" and "chold (cabs D s) n = 0"
  shows "cview (cabs D s) n = disk s n" and "clock (cabs D s) n = None"
proof -
  have sl: "bslots D (disk s) (bufs s)" using assms(1) by (simp add: binv_def)
  have "cview (cabs D s) n = disk s n \<and> clock (cabs D s) n = None"
  proof (cases "cslot D (bufs s) n")
    case (Some b)
    then have b: "b < NBUF" "bdev (bufs s b) = D" "blockno (bufs s b) = n" using cslot_Some [OF sl] by auto
    then have "bok D (disk s) (bufs s b)" using sl by (simp add: bslots_def)
    moreover have "refcnt (bufs s b) = 0" using assms(2) Some by (simp add: cabs_def unat_eq_0)
    ultimately show ?thesis using Some b by (simp add: cabs_def bok_def lockval_def)
  qed (simp add: cabs_def)
  then show "cview (cabs D s) n = disk s n" and "clock (cabs D s) n = None" by auto
qed

lemma option_eqI: "(\<And>y. x = Some y \<longleftrightarrow> x' = Some y) \<Longrightarrow> x = x'"
  by (cases x; cases x') auto

text \<open>A change of one buffer that keeps its block, and a change of links only.\<close>

lemma bslots_upd:
  assumes "bslots D d B" and "b < NBUF" and "bdev (B b) = D" and "bdev x = D" and "blockno x = blockno (B b)" and "bok D d x"
  shows "bslots D d (B(b := x))"
proof -
  have same: "bdev ((B(b := x)) c) = bdev (B c)" "blockno ((B(b := x)) c) = blockno (B c)" for c using assms by simp_all
  have "bok D d ((B(b := x)) c)" if "c < NBUF" for c using assms that by (simp add: bslots_def)
  then show ?thesis using assms(1) unfolding bslots_def same by blast
qed

lemma slot_case_upd:
  assumes "\<And>m. cslot D B' m = cslot D B m" and "\<And>m. cslot D B m = Some b \<longleftrightarrow> m = n" and "B' = B(b := x)"
  shows "(\<lambda>m. case cslot D B' m of Some c \<Rightarrow> f (B' c) | None \<Rightarrow> g m) =
    (\<lambda>m. case cslot D B m of Some c \<Rightarrow> f (B c) | None \<Rightarrow> g m)(n := f x)"
proof
  fix m
  have "cslot D B n = Some b" using assms(2) by simp
  moreover have "m \<noteq> n \<Longrightarrow> cslot D B m \<noteq> Some b" using assms(2) by simp
  ultimately show "(case cslot D B' m of Some c \<Rightarrow> f (B' c) | None \<Rightarrow> g m) =
    ((\<lambda>m. case cslot D B m of Some c \<Rightarrow> f (B c) | None \<Rightarrow> g m)(n := f x)) m"
    using assms(1,3) by (auto split: option.splits)
qed

lemma binv_upd:
  assumes v: "binv D s" and b: "is_buf D s b n" and x: "bdev x = D" "blockno x = n" "bok D (disk s) x"
    "bnext x = bnext (bufs s b)" "bprev x = bprev (bufs s b)"
  defines "s' \<equiv> s\<lparr>bufs := (bufs s)(b := x)\<rparr>"
  shows "binv D s'" and "is_buf D s' = is_buf D s"
    and "cabs D s' = (cabs D s)\<lparr>cview := (cview (cabs D s))(n := bdata x),
      chold := (chold (cabs D s))(n := unat (refcnt x)), clock := (clock (cabs D s))(n := lockval x)\<rparr>"
proof -
  have b': "b < NBUF" "bdev (bufs s b) = D" "blockno (bufs s b) = n" using b by (simp_all add: is_buf_def)
  have sl: "bslots D (disk s) (bufs s)" using v by (simp add: binv_def)
  have sl': "bslots D (disk s) (bufs s')" unfolding s'_def using bslots_upd [OF sl b'(1,2)] x b' by simp
  obtain xs where "ring (bufs s) xs" using v by (auto simp: binv_def)
  then have "ring (bufs s') xs" by (rule ring_cong) (simp_all add: s'_def x)
  then show v': "binv D s'" using sl' by (auto simp: binv_def s'_def)
  show ib: "is_buf D s' = is_buf D s" using x b' by (auto simp: is_buf_def s'_def fun_eq_iff)
  have c1: "cslot D (bufs s') m = cslot D (bufs s) m" for m
    by (rule option_eqI) (use is_buf_slot [OF v', of _ m] is_buf_slot [OF v, of _ m] ib in simp)
  have c2: "cslot D (bufs s) m = Some b \<longleftrightarrow> m = n" for m using cslot_Some [OF sl] b' by auto
  have c3: "bufs s' = (bufs s)(b := x)" by (simp add: s'_def)
  note eqs = slot_case_upd [where f = bdata and g = "disk s", OF c1 c2 c3] slot_case_upd [where f = "\<lambda>x. unat (refcnt x)" and g = "\<lambda>_. 0", OF c1 c2 c3]
    slot_case_upd [where f = lockval and g = "\<lambda>_. None", OF c1 c2 c3]
  have d: "disk s' = disk s" "dwrites s' = dwrites s" by (simp_all add: s'_def)
  show "cabs D s' = (cabs D s)\<lparr>cview := (cview (cabs D s))(n := bdata x),
      chold := (chold (cabs D s))(n := unat (refcnt x)), clock := (clock (cabs D s))(n := lockval x)\<rparr>"
    unfolding cabs_def d by (simp add: eqs)
qed

lemma binv_links:
  assumes v: "binv D s" and r: "ring B xs"
    and eq: "\<And>x. bdev (B x) = bdev (bufs s x)" "\<And>x. blockno (B x) = blockno (bufs s x)" "\<And>x. bvalid (B x) = bvalid (bufs s x)"
      "\<And>x. refcnt (B x) = refcnt (bufs s x)" "\<And>x. block (B x) = block (bufs s x)" "\<And>x. bdata (B x) = bdata (bufs s x)"
  shows "binv D (s\<lparr>bufs := B\<rparr>)" and "is_buf D (s\<lparr>bufs := B\<rparr>) = is_buf D s" and "cabs D (s\<lparr>bufs := B\<rparr>) = cabs D s"
proof -
  have "bslots D (disk s) B" using v eq by (auto simp: binv_def bslots_def bok_def)
  then show "binv D (s\<lparr>bufs := B\<rparr>)" using r by (auto simp: binv_def)
  show "is_buf D (s\<lparr>bufs := B\<rparr>) = is_buf D s" by (simp add: is_buf_def eq fun_eq_iff)
  have "cslot D B = cslot D (bufs s)" by (simp add: cslot_def eq fun_eq_iff)
  moreover have "lockval (B x) = lockval (bufs s x)" for x by (simp add: lockval_def eq)
  ultimately show "cabs D (s\<lparr>bufs := B\<rparr>) = cabs D s" by (simp add: cabs_def eq cong: option.case_cong)
qed

text \<open>Recycling an unheld buffer for a block that no buffer has.\<close>

lemma binv_recycle:
  assumes v: "binv D s" and c: "c < NBUF" "refcnt (bufs s c) = 0" and none: "cslot D (bufs s) n = None"
    and x: "bdev x = D" "blockno x = n" "bvalid x" "refcnt x = 1" "bdata x = disk s n"
    "bnext x = bnext (bufs s c)" "bprev x = bprev (bufs s c)"
  defines "s' \<equiv> s\<lparr>bufs := (bufs s)(c := x)\<rparr>"
  shows "binv D s'" and "is_buf D s' c n" and "\<And>b m. is_buf D s b m \<Longrightarrow> 0 < chold (cabs D s) m \<Longrightarrow> is_buf D s' b m"
    and "cabs D s' = (cabs D s)\<lparr>chold := (chold (cabs D s))(n := 1), clock := (clock (cabs D s))(n := lockval x)\<rparr>"
proof -
  have sl: "bslots D (disk s) (bufs s)" using v by (simp add: binv_def)
  have no: "b < NBUF \<Longrightarrow> bdev (bufs s b) = D \<Longrightarrow> blockno (bufs s b) \<noteq> n" for b using none by (simp add: cslot_None)
  have sl': "bslots D (disk s) (bufs s')"
    unfolding bslots_def
  proof (intro conjI allI impI)
    fix b assume "b < NBUF"
    then show "bok D (disk s) (bufs s' b)" using sl x by (simp add: bslots_def s'_def bok_def)
  next
    fix b d assume b: "b < NBUF" "d < NBUF"
      "bdev (bufs s' b) = D \<and> bdev (bufs s' d) = D \<and> blockno (bufs s' b) = blockno (bufs s' d)"
    then show "b = d" using sl no [of b] no [of d] x by (auto simp: bslots_def s'_def split: if_splits)
  qed
  obtain xs where "ring (bufs s) xs" using v by (auto simp: binv_def)
  then have "ring (bufs s') xs" by (rule ring_cong) (simp_all add: s'_def x)
  then show v': "binv D s'" using sl' by (auto simp: binv_def s'_def)
  show ib: "is_buf D s' c n" using c x by (simp add: is_buf_def s'_def)
  show keep: "is_buf D s' b m" if "is_buf D s b m" "0 < chold (cabs D s) m" for b m
    using that cabs_buf(2) [OF v that(1)] c(2) by (auto simp: is_buf_def s'_def)
  have slot: "cslot D (bufs s') m = (if cslot D (bufs s) m = Some c then None else cslot D (bufs s) m)" if "m \<noteq> n" for m
  proof (rule option_eqI)
    fix b
    have "cslot D (bufs s') m = Some b \<longleftrightarrow> b \<noteq> c \<and> cslot D (bufs s) m = Some b"
      unfolding cslot_Some [OF sl'] cslot_Some [OF sl] using x that by (cases "b = c") (simp_all add: s'_def)
    then show "cslot D (bufs s') m = Some b \<longleftrightarrow>
        (if cslot D (bufs s) m = Some c then None else cslot D (bufs s) m) = Some b" by auto
  qed
  have sn: "cslot D (bufs s') n = Some c" using cslot_Some [OF sl'] ib by (simp add: is_buf_def)
  have cl: "bdata (bufs s c) = disk s m \<and> lockval (bufs s c) = None" if m: "cslot D (bufs s) m = Some c" for m
  proof -
    have "blockno (bufs s c) = m" "bdev (bufs s c) = D" using cslot_Some [OF sl, of m c] m by auto
    then show ?thesis using sl c by (auto simp: bslots_def bok_def lockval_def)
  qed
  have f: "disk s' = disk s" "dwrites s' = dwrites s" "bufs s' c = x" "\<And>b. b \<noteq> c \<Longrightarrow> bufs s' b = bufs s b"
    by (simp_all add: s'_def)
  have "cview (cabs D s') m = cview (cabs D s) m" for m
    using cl [of m] slot [of m] sn none x f by (cases "m = n"; cases "cslot D (bufs s) m") (auto simp: cabs_def)
  moreover have "chold (cabs D s') m = (if m = n then 1 else chold (cabs D s) m)" for m
    using slot [of m] sn none x f c by (cases "m = n"; cases "cslot D (bufs s) m") (auto simp: cabs_def)
  moreover have "clock (cabs D s') m = (if m = n then lockval x else clock (cabs D s) m)" for m
    using cl [of m] slot [of m] sn none x f by (cases "m = n"; cases "cslot D (bufs s) m") (auto simp: cabs_def)
  moreover have "cdisk (cabs D s') = cdisk (cabs D s)" "cwrites (cabs D s') = cwrites (cabs D s)" using f by (simp_all add: cabs_def)
  ultimately show "cabs D s' = (cabs D s)\<lparr>chold := (chold (cabs D s))(n := 1), clock := (clock (cabs D s))(n := lockval x)\<rparr>"
    by (intro cache.equality) (simp_all add: fun_eq_iff)
qed

lemma held_finite:
  assumes "binv D s"
  shows "finite {n. 0 < chold (cabs D s) n}"
proof -
  have "{n. 0 < chold (cabs D s) n} \<subseteq> (\<lambda>b. blockno (bufs s b)) ` {..<NBUF}"
    using cslot_Some [of D "disk s" "bufs s"] assms by (force simp: cabs_def binv_def split: option.splits)
  then show ?thesis by (rule finite_subset) simp
qed

lemma unheld_exists:
  assumes v: "binv D s" and "card {n. 0 < chold (cabs D s) n} < NBUF"
  shows "\<exists>c < NBUF. refcnt (bufs s c) = 0"
proof (rule ccontr)
  assume "\<not> ?thesis"
  then have nz: "refcnt (bufs s c) \<noteq> 0" if "c < NBUF" for c using that by blast
  have sl: "bslots D (disk s) (bufs s)" using v by (simp add: binv_def)
  then have dev: "bdev (bufs s c) = D" if "c < NBUF" for c
    using nz [OF that] that by (auto simp: bslots_def bok_def split: if_splits)
  then have inj: "inj_on (\<lambda>b. blockno (bufs s b)) {..<NBUF}" using sl unfolding inj_on_def bslots_def by auto
  have "(\<lambda>b. blockno (bufs s b)) ` {..<NBUF} \<subseteq> {n. 0 < chold (cabs D s) n}"
  proof
    fix n assume "n \<in> (\<lambda>b. blockno (bufs s b)) ` {..<NBUF}"
    then obtain b where b: "b < NBUF" "n = blockno (bufs s b)" by auto
    then have "is_buf D s b n" using dev by (simp add: is_buf_def)
    then show "n \<in> {n. 0 < chold (cabs D s) n}" using cabs_buf(2) [OF v] nz [OF b(1)] by (simp add: unat_gt_0)
  qed
  then have "card ((\<lambda>b. blockno (bufs s b)) ` {..<NBUF}) \<le> card {n. 0 < chold (cabs D s) n}"
    by (rule card_mono [OF held_finite [OF v]])
  then show False using assms(2) card_image [OF inj] by simp
qed

section \<open>The operations on the table\<close>

definition c_get :: "int \<Rightarrow> u32 \<Rightarrow> cache \<Rightarrow> cache" where
  "c_get pid n c = c\<lparr>chold := (chold c)(n := chold c n + 1), clock := (clock c)(n := Some pid)\<rparr>"

definition c_put :: "u32 \<Rightarrow> cache \<Rightarrow> cache" where
  "c_put n c = c\<lparr>chold := (chold c)(n := chold c n - 1), clock := (clock c)(n := None)\<rparr>"

definition c_write :: "u32 \<Rightarrow> cache \<Rightarrow> cache" where
  "c_write n c = c\<lparr>cdisk := (cdisk c)(n := cview c n), cwrites := cwrites c @ [(n, cview c n)]\<rparr>"

definition c_set :: "u32 \<Rightarrow> block \<Rightarrow> cache \<Rightarrow> cache" where
  "c_set n d c = c\<lparr>cview := (cview c)(n := d)\<rparr>"

definition c_pin :: "u32 \<Rightarrow> cache \<Rightarrow> cache" where
  "c_pin n c = c\<lparr>chold := (chold c)(n := chold c n + 1)\<rparr>"

definition c_unpin :: "u32 \<Rightarrow> cache \<Rightarrow> cache" where
  "c_unpin n c = c\<lparr>chold := (chold c)(n := chold c n - 1)\<rparr>"

lemmas c_defs = c_get_def c_put_def c_write_def c_set_def c_pin_def c_unpin_def

text \<open>A block can be read when it is not locked and a buffer holds it or is unheld.\<close>

definition readable :: "cache \<Rightarrow> u32 \<Rightarrow> bool" where
  "readable c n \<longleftrightarrow> clock c n = None \<and> (0 < chold c n \<or> card {n. 0 < chold c n} < NBUF) \<and> chold c n < 2 ^ 32 - 1"

lemma bufs_id: "s\<lparr>bufs := bufs s\<rparr> = s"
  by simp

lemma unat_Suc: "unat (x :: u32) < 2 ^ 32 - 1 \<Longrightarrow> unat (x + 1) = unat x + 1"
  by (simp add: unat_word_ariths)

lemma unat_Pred: "0 < unat (x :: u32) \<Longrightarrow> unat (x - 1) = unat x - 1"
proof -
  assume "0 < unat x"
  then have "1 \<le> x" by (simp add: word_le_nat_alt)
  then show ?thesis by (simp add: unat_sub)
qed

lemma find_SomeD: "find P xs = Some x \<Longrightarrow> x \<in> set xs \<and> P x"
  by (induction xs) (auto split: if_splits)

lemma bread_hit:
  assumes v: "binv D s" and b: "is_buf D s b n" and r: "readable (cabs D s) n"
  defines "x \<equiv> bufs s b\<lparr>refcnt := refcnt (bufs s b) + 1, block := block (bufs s b)\<lparr>slocked := True, spid := curpid s\<rparr>\<rparr>"
  shows "bread s D n = Ok (b, s\<lparr>bufs := (bufs s)(b := x)\<rparr>)"
proof -
  obtain xs where xs: "ring (bufs s) xs" using v by (auto simp: binv_def)
  have b': "b < NBUF" "bdev (bufs s b) = D" "blockno (bufs s b) = n" using b by (simp_all add: is_buf_def)
  have "find (\<lambda>b. bdev (bufs s b) = D \<and> blockno (bufs s b) = n) xs \<noteq> None"
    using xs b' by (auto simp: find_None_iff ring_def)
  then obtain c where c: "find (\<lambda>b. bdev (bufs s b) = D \<and> blockno (bufs s b) = n) xs = Some c" by blast
  then have "c \<in> set xs" "bdev (bufs s c) = D" "blockno (bufs s c) = n" by (auto simp: find_Some_iff)
  then have "is_buf D s c n" using xs by (simp add: ring_def is_buf_def)
  then have cb: "c = b" using is_buf_slot [OF v] b by simp
  have "\<not> slocked (block (bufs s b))" using r cabs_buf(3) [OF v b] by (simp add: readable_def lockval_def split: if_splits)
  moreover have "bvalid (bufs s b)" using v b' by (simp add: binv_def bslots_def bok_def split: if_splits)
  ultimately show ?thesis
    by (simp add: bread_def bget_def ring_lists [OF xs] c cb acquire_buf_def acquiresleep_def upd_buf_def x_def
      del: One_nat_def bget_cached.simps bget_unused.simps add_Suc_right)
qed

lemma bread_miss:
  assumes v: "binv D s" and xs: "ring (bufs s) xs" and none: "cslot D (bufs s) n = None" and r: "readable (cabs D s) n"
  shows "\<exists>c < NBUF. refcnt (bufs s c) = 0 \<and> find (\<lambda>b. refcnt (bufs s b) = 0) (rev xs) = Some c \<and> bread s D n = Ok (c, s\<lparr>bufs := (bufs s)(c :=
    bufs s c\<lparr>bdev := D, blockno := n, refcnt := 1, block := block (bufs s c)\<lparr>slocked := True, spid := curpid s\<rparr>,
      bdata := disk s n, bvalid := True\<rparr>)\<rparr>)"
proof -
  have n: "find (\<lambda>b. bdev (bufs s b) = D \<and> blockno (bufs s b) = n) xs = None"
    using none xs by (auto simp: find_None_iff cslot_None ring_def)
  have "chold (cabs D s) n = 0" using none by (simp add: cabs_def)
  then obtain c0 where "c0 < NBUF" "refcnt (bufs s c0) = 0" using unheld_exists [OF v] r by (auto simp: readable_def)
  then have "find (\<lambda>b. refcnt (bufs s b) = 0) (rev xs) \<noteq> None" using xs by (auto simp: find_None_iff ring_def)
  then obtain c where c: "find (\<lambda>b. refcnt (bufs s b) = 0) (rev xs) = Some c" by blast
  then have cs: "c \<in> set (rev xs)" "refcnt (bufs s c) = 0" using find_SomeD by fastforce+
  then have cn: "c < NBUF" using xs by (simp add: ring_def)
  have "\<not> slocked (block (bufs s c))" using v cn cs by (auto simp: binv_def bslots_def bok_def)
  then have "bread s D n = Ok (c, s\<lparr>bufs := (bufs s)(c :=
    bufs s c\<lparr>bdev := D, blockno := n, refcnt := 1, block := block (bufs s c)\<lparr>slocked := True, spid := curpid s\<rparr>,
      bdata := disk s n, bvalid := True\<rparr>)\<rparr>)"
    by (simp add: bread_def bget_def ring_lists [OF xs] n c acquire_buf_def acquiresleep_def upd_buf_def virtio_disk_rw_def Let_def
      del: One_nat_def bget_cached.simps bget_unused.simps add_Suc_right)
  then show ?thesis using cn cs c by blast
qed

lemma bread_law:
  assumes v: "binv D s" and r: "readable (cabs D s) n"
  shows "\<exists>b B. bread s D n = Ok (b, s\<lparr>bufs := B\<rparr>) \<and> binv D (s\<lparr>bufs := B\<rparr>) \<and> is_buf D (s\<lparr>bufs := B\<rparr>) b n \<and>
    (\<forall>c m. is_buf D s c m \<and> 0 < chold (cabs D s) m \<longrightarrow> is_buf D (s\<lparr>bufs := B\<rparr>) c m) \<and>
    cabs D (s\<lparr>bufs := B\<rparr>) = c_get (curpid s) n (cabs D s)"
proof (cases "cslot D (bufs s) n")
  case (Some b)
  then have b: "is_buf D s b n" using is_buf_slot [OF v] by simp
  let ?x = "bufs s b\<lparr>refcnt := refcnt (bufs s b) + 1, block := block (bufs s b)\<lparr>slocked := True, spid := curpid s\<rparr>\<rparr>"
  have u: "unat (refcnt ?x) = unat (refcnt (bufs s b)) + 1"
    using r cabs_buf(2) [OF v b] by (simp add: readable_def unat_Suc)
  then have "refcnt ?x \<noteq> 0" by (metis add_is_0 one_neq_zero unat_0)
  then have "bok D (disk s) ?x" using v b by (auto simp: bok_def binv_def bslots_def is_buf_def)
  then have n: "binv D (s\<lparr>bufs := (bufs s)(b := ?x)\<rparr>)" "is_buf D (s\<lparr>bufs := (bufs s)(b := ?x)\<rparr>) = is_buf D s"
    "cabs D (s\<lparr>bufs := (bufs s)(b := ?x)\<rparr>) = (cabs D s)\<lparr>cview := (cview (cabs D s))(n := bdata ?x),
      chold := (chold (cabs D s))(n := unat (refcnt ?x)), clock := (clock (cabs D s))(n := lockval ?x)\<rparr>"
    using binv_upd [OF v b, of ?x] b by (simp_all add: is_buf_def)
  have "cabs D (s\<lparr>bufs := (bufs s)(b := ?x)\<rparr>) = c_get (curpid s) n (cabs D s)"
    unfolding n(3) u c_get_def using cabs_buf(1,2) [OF v b] by (intro cache.equality) (simp_all add: fun_upd_idem lockval_def)
  then show ?thesis using bread_hit [OF v b r] n(1,2) b
    by (intro exI [of _ b] exI [of _ "(bufs s)(b := ?x)"]) simp
next
  case None
  obtain xs where xs: "ring (bufs s) xs" using v by (auto simp: binv_def)
  obtain c x where c: "c < NBUF" "refcnt (bufs s c) = 0" and rd: "bread s D n = Ok (c, s\<lparr>bufs := (bufs s)(c := x)\<rparr>)"
    and x: "x = bufs s c\<lparr>bdev := D, blockno := n, refcnt := 1, block := block (bufs s c)\<lparr>slocked := True, spid := curpid s\<rparr>,
      bdata := disk s n, bvalid := True\<rparr>" using bread_miss [OF v xs None r] by blast
  have xf: "bdev x = D" "blockno x = n" "bvalid x" "refcnt x = 1" "bdata x = disk s n"
    "bnext x = bnext (bufs s c)" "bprev x = bprev (bufs s c)" "lockval x = Some (curpid s)"
    by (simp_all add: x lockval_def)
  note rc = binv_recycle [OF v c None xf(1-7)]
  have "chold (cabs D s) n = 0" using None by (simp add: cabs_def)
  then have "cabs D (s\<lparr>bufs := (bufs s)(c := x)\<rparr>) = c_get (curpid s) n (cabs D s)" unfolding rc(4) xf(8) c_get_def by simp
  then show ?thesis using rd rc(1-3) by (intro exI [of _ c] exI [of _ "(bufs s)(c := x)"]) simp
qed

text \<open>The other operations work on a buffer of the block that the client holds.\<close>

lemma held_bok:
  assumes "binv D s" and "is_buf D s b n" and "bdev x = D" and "bvalid x" and "refcnt x \<noteq> 0"
  shows "bok D (disk s) x"
  using assms by (simp add: bok_def)

lemma buf_valid: "binv D s \<Longrightarrow> is_buf D s b n \<Longrightarrow> bvalid (bufs s b)"
  by (auto simp: binv_def bslots_def bok_def is_buf_def split: if_splits)

lemma set_data_law:
  assumes v: "binv D s" and b: "is_buf D s b n" and h: "0 < chold (cabs D s) n"
  shows "binv D (set_data s b d)" and "is_buf D (set_data s b d) = is_buf D s"
    and "cabs D (set_data s b d) = c_set n d (cabs D s)" and "set_data s b d = s\<lparr>bufs := bufs (set_data s b d)\<rparr>"
proof -
  let ?x = "bufs s b\<lparr>bdata := d\<rparr>"
  have e: "set_data s b d = s\<lparr>bufs := (bufs s)(b := ?x)\<rparr>" by (simp add: set_data_def upd_buf_def)
  have "refcnt (bufs s b) \<noteq> 0" using h cabs_buf(2) [OF v b] by auto
  then have ok: "bok D (disk s) ?x" using held_bok [OF v b, of ?x] buf_valid [OF v b] b by (simp add: is_buf_def)
  note u = binv_upd [OF v b, of ?x]
  show "binv D (set_data s b d)" "is_buf D (set_data s b d) = is_buf D s" unfolding e using u(1,2) ok b by (simp_all add: is_buf_def)
  have "cabs D (set_data s b d) = (cabs D s)\<lparr>cview := (cview (cabs D s))(n := bdata ?x),
      chold := (chold (cabs D s))(n := unat (refcnt ?x)), clock := (clock (cabs D s))(n := lockval ?x)\<rparr>"
    unfolding e using u(3) ok b by (simp add: is_buf_def)
  then show "cabs D (set_data s b d) = c_set n d (cabs D s)"
    unfolding c_set_def using cabs_buf(2,3) [OF v b] by (intro cache.equality) (simp_all add: fun_upd_idem lockval_def)
  show "set_data s b d = s\<lparr>bufs := bufs (set_data s b d)\<rparr>" unfolding e by simp
qed

lemma bwrite_law:
  assumes v: "binv D s" and b: "is_buf D s b n" and l: "clock (cabs D s) n = Some (curpid s)"
  shows "bwrite s b = Ok (virtio_disk_rw s b True)" and "binv D (virtio_disk_rw s b True)"
    and "is_buf D (virtio_disk_rw s b True) = is_buf D s"
    and "cabs D (virtio_disk_rw s b True) = c_write n (cabs D s)"
    and "bst.more (virtio_disk_rw s b True) = bst.more s" and "curpid (virtio_disk_rw s b True) = curpid s"
proof -
  have b': "b < NBUF" "bdev (bufs s b) = D" "blockno (bufs s b) = n" using b by (simp_all add: is_buf_def)
  show "bwrite s b = Ok (virtio_disk_rw s b True)"
    using l cabs_buf(3) [OF v b] by (auto simp: bwrite_def holdingsleep_def lockval_def split: if_splits)
  have e: "virtio_disk_rw s b True = s\<lparr>disk := (disk s)(n := bdata (bufs s b)), dwrites := dwrites s @ [(n, bdata (bufs s b))]\<rparr>"
    using b' by (simp add: virtio_disk_rw_def)
  have "bok D ((disk s)(n := bdata (bufs s b))) (bufs s c)" if "c < NBUF" for c
  proof (cases "c = b")
    case True
    then show ?thesis using v b' by (auto simp: binv_def bslots_def bok_def)
  next
    case False
    then have "bdev (bufs s c) = D \<longrightarrow> blockno (bufs s c) \<noteq> n" using v b' that unfolding binv_def bslots_def by blast
    then show ?thesis using v that by (auto simp: binv_def bslots_def bok_def)
  qed
  then show "binv D (virtio_disk_rw s b True)" using v unfolding e by (simp add: binv_def bslots_def)
  show "is_buf D (virtio_disk_rw s b True) = is_buf D s" unfolding e by (simp add: is_buf_def fun_eq_iff)
  have "cslot D (bufs s) n = Some b" using is_buf_slot [OF v] b by simp
  then have "(\<lambda>m. case cslot D (bufs s) m of Some b \<Rightarrow> bdata (bufs s b) | None \<Rightarrow> ((disk s)(n := bdata (bufs s b))) m) =
      (\<lambda>m. case cslot D (bufs s) m of Some b \<Rightarrow> bdata (bufs s b) | None \<Rightarrow> disk s m)"
    by (auto simp: fun_eq_iff split: option.splits)
  then show "cabs D (virtio_disk_rw s b True) = c_write n (cabs D s)"
    unfolding e c_write_def cabs_buf(1) [OF v b] by (simp add: cabs_def cong: option.case_cong)
  show "bst.more (virtio_disk_rw s b True) = bst.more s" "curpid (virtio_disk_rw s b True) = curpid s" unfolding e by simp_all
qed

lemma unlink_keeps:
  "bdev (unlink B b x) = bdev (B x)" "blockno (unlink B b x) = blockno (B x)" "bvalid (unlink B b x) = bvalid (B x)"
  "refcnt (unlink B b x) = refcnt (B x)" "block (unlink B b x) = block (B x)" "bdata (unlink B b x) = bdata (B x)"
  by (simp_all add: unlink_def Let_def)

lemma push_keeps:
  "bdev (push B b x) = bdev (B x)" "blockno (push B b x) = blockno (B x)" "bvalid (push B b x) = bvalid (B x)"
  "refcnt (push B b x) = refcnt (B x)" "block (push B b x) = block (B x)" "bdata (push B b x) = bdata (B x)"
  by (simp_all add: push_def Let_def)

lemma move_front_law:
  assumes v: "binv D s" and b: "b < NBUF"
  shows "binv D (move_front s b)" and "is_buf D (move_front s b) = is_buf D s" and "cabs D (move_front s b) = cabs D s"
    and "move_front s b = s\<lparr>bufs := bufs (move_front s b)\<rparr>"
proof -
  obtain xs where xs: "ring (bufs s) xs" using v by (auto simp: binv_def)
  show e: "move_front s b = s\<lparr>bufs := bufs (move_front s b)\<rparr>" by (simp add: move_front_def upd_buf_def Let_def)
  have eq: "bdev (bufs (move_front s b) x) = bdev (bufs s x)" "blockno (bufs (move_front s b) x) = blockno (bufs s x)"
    "bvalid (bufs (move_front s b) x) = bvalid (bufs s x)" "refcnt (bufs (move_front s b) x) = refcnt (bufs s x)"
    "block (bufs (move_front s b) x) = block (bufs s x)" "bdata (bufs (move_front s b) x) = bdata (bufs s x)" for x
    by (simp_all add: move_front_bufs push_keeps unlink_keeps)
  note l = binv_links [OF v ring_move_front [OF xs b] eq]
  show "binv D (move_front s b)" "is_buf D (move_front s b) = is_buf D s" "cabs D (move_front s b) = cabs D s"
    using l unfolding e [symmetric] .
qed

lemma brelse_eq:
  assumes v: "binv D s" and b: "is_buf D s b n" and l: "clock (cabs D s) n = Some (curpid s)"
  defines "x \<equiv> bufs s b\<lparr>block := releasesleep (block (bufs s b)), refcnt := refcnt (bufs s b) - 1\<rparr>"
  shows "brelse s b = (if refcnt (bufs s b) = 1 then Ok (move_front (s\<lparr>bufs := (bufs s)(b := x)\<rparr>) b)
    else Ok (s\<lparr>bufs := (bufs s)(b := x)\<rparr>))"
  using l cabs_buf(3) [OF v b]
  by (auto simp: brelse_def holdingsleep_def lockval_def upd_buf_def Let_def x_def split: if_splits)

lemma brelse_law:
  assumes v: "binv D s" and b: "is_buf D s b n" and l: "clock (cabs D s) n = Some (curpid s)" and h: "0 < chold (cabs D s) n"
    and clean: "chold (cabs D s) n = 1 \<Longrightarrow> cview (cabs D s) n = disk s n"
  shows "\<exists>B. brelse s b = Ok (s\<lparr>bufs := B\<rparr>) \<and> binv D (s\<lparr>bufs := B\<rparr>) \<and> is_buf D (s\<lparr>bufs := B\<rparr>) = is_buf D s \<and>
    cabs D (s\<lparr>bufs := B\<rparr>) = c_put n (cabs D s)"
proof -
  have b': "b < NBUF" "bdev (bufs s b) = D" "blockno (bufs s b) = n" using b by (simp_all add: is_buf_def)
  define x where "x = bufs s b\<lparr>block := releasesleep (block (bufs s b)), refcnt := refcnt (bufs s b) - 1\<rparr>"
  define s1 where "s1 = s\<lparr>bufs := (bufs s)(b := x)\<rparr>"
  have u: "unat (refcnt x) = chold (cabs D s) n - 1"
    using h cabs_buf(2) [OF v b] by (simp add: x_def unat_Pred)
  have "bok D (disk s) x"
    using buf_valid [OF v b] b' u clean h cabs_buf(1) [OF v b]
    by (auto simp: bok_def x_def releasesleep_def unat_eq_0 [symmetric])
  then have n: "binv D s1" "is_buf D s1 = is_buf D s" "cabs D s1 = (cabs D s)\<lparr>cview := (cview (cabs D s))(n := bdata x),
      chold := (chold (cabs D s))(n := unat (refcnt x)), clock := (clock (cabs D s))(n := lockval x)\<rparr>"
    unfolding s1_def using binv_upd [OF v b, of x] b' by (simp_all add: x_def)
  have a: "cabs D s1 = c_put n (cabs D s)"
    unfolding n(3) u c_put_def using cabs_buf(1) [OF v b]
    by (intro cache.equality) (simp_all add: fun_upd_idem lockval_def releasesleep_def x_def)
  have e: "brelse s b = (if refcnt x = 0 then Ok (move_front s1 b) else Ok s1)"
    using brelse_eq [OF v b l] by (simp add: x_def s1_def)
  show ?thesis
  proof (cases "refcnt x = 0")
    case True
    note m = move_front_law [OF n(1) b'(1)]
    have eq: "s\<lparr>bufs := bufs (move_front s1 b)\<rparr> = move_front s1 b" unfolding s1_def by (subst (2) m(4) [unfolded s1_def]) simp
    show ?thesis using e True m(1-3) n(2) a by (intro exI [of _ "bufs (move_front s1 b)"]) (simp add: eq)
  next
    case False
    then show ?thesis using e n(1,2) a by (intro exI [of _ "(bufs s)(b := x)"]) (simp add: s1_def)
  qed
qed

lemma bpin_law:
  assumes v: "binv D s" and b: "is_buf D s b n" and h: "0 < chold (cabs D s) n" "chold (cabs D s) n < 2 ^ 32 - 1"
  shows "binv D (bpin s b)" and "is_buf D (bpin s b) = is_buf D s" and "cabs D (bpin s b) = c_pin n (cabs D s)"
    and "bpin s b = s\<lparr>bufs := bufs (bpin s b)\<rparr>"
proof -
  have b': "b < NBUF" "bdev (bufs s b) = D" "blockno (bufs s b) = n" using b by (simp_all add: is_buf_def)
  define x where "x = bufs s b\<lparr>refcnt := refcnt (bufs s b) + 1\<rparr>"
  have e: "bpin s b = s\<lparr>bufs := (bufs s)(b := x)\<rparr>" by (simp add: bpin_def upd_buf_def x_def)
  have u: "unat (refcnt x) = chold (cabs D s) n + 1" using h cabs_buf(2) [OF v b] by (simp add: x_def unat_Suc)
  have "bok D (disk s) x" using buf_valid [OF v b] b' u by (auto simp: bok_def x_def unat_eq_0 [symmetric])
  then have n: "binv D (bpin s b)" "is_buf D (bpin s b) = is_buf D s" "cabs D (bpin s b) = (cabs D s)\<lparr>cview := (cview (cabs D s))(n := bdata x),
      chold := (chold (cabs D s))(n := unat (refcnt x)), clock := (clock (cabs D s))(n := lockval x)\<rparr>"
    unfolding e using binv_upd [OF v b, of x] b' by (simp_all add: x_def)
  then show "binv D (bpin s b)" "is_buf D (bpin s b) = is_buf D s" by simp_all
  show "cabs D (bpin s b) = c_pin n (cabs D s)"
    unfolding n(3) u c_pin_def using cabs_buf(1,3) [OF v b]
    by (intro cache.equality) (simp_all add: fun_upd_idem lockval_def x_def)
  show "bpin s b = s\<lparr>bufs := bufs (bpin s b)\<rparr>" unfolding e by simp
qed

lemma bunpin_law:
  assumes v: "binv D s" and b: "is_buf D s b n" and h: "1 < chold (cabs D s) n"
  shows "binv D (bunpin s b)" and "is_buf D (bunpin s b) = is_buf D s" and "cabs D (bunpin s b) = c_unpin n (cabs D s)"
    and "bunpin s b = s\<lparr>bufs := bufs (bunpin s b)\<rparr>"
proof -
  have b': "b < NBUF" "bdev (bufs s b) = D" "blockno (bufs s b) = n" using b by (simp_all add: is_buf_def)
  define x where "x = bufs s b\<lparr>refcnt := refcnt (bufs s b) - 1\<rparr>"
  have e: "bunpin s b = s\<lparr>bufs := (bufs s)(b := x)\<rparr>" by (simp add: bunpin_def upd_buf_def x_def)
  have u: "unat (refcnt x) = chold (cabs D s) n - 1" using h cabs_buf(2) [OF v b] by (simp add: x_def unat_Pred)
  have "bok D (disk s) x" using buf_valid [OF v b] b' u h by (auto simp: bok_def x_def unat_eq_0 [symmetric])
  then have n: "binv D (bunpin s b)" "is_buf D (bunpin s b) = is_buf D s" "cabs D (bunpin s b) = (cabs D s)\<lparr>cview := (cview (cabs D s))(n := bdata x),
      chold := (chold (cabs D s))(n := unat (refcnt x)), clock := (clock (cabs D s))(n := lockval x)\<rparr>"
    unfolding e using binv_upd [OF v b, of x] b' by (simp_all add: x_def)
  then show "binv D (bunpin s b)" "is_buf D (bunpin s b) = is_buf D s" by simp_all
  show "cabs D (bunpin s b) = c_unpin n (cabs D s)"
    unfolding n(3) u c_unpin_def using cabs_buf(1,3) [OF v b]
    by (intro cache.equality) (simp_all add: fun_upd_idem lockval_def x_def)
  show "bunpin s b = s\<lparr>bufs := bufs (bunpin s b)\<rparr>" unfolding e by simp
qed

section \<open>The contract of the buffer cache\<close>

locale block_cache =
  fixes inv :: "'s \<Rightarrow> bool" and tab :: "'s \<Rightarrow> cache" and handle :: "'s \<Rightarrow> nat \<Rightarrow> u32 \<Rightarrow> bool"
    and frame :: "'s \<Rightarrow> 's" and me :: "'s \<Rightarrow> int" and dat :: "'s \<Rightarrow> nat \<Rightarrow> block"
    and rd :: "'s \<Rightarrow> u32 \<Rightarrow> (nat \<times> 's) res" and rel :: "'s \<Rightarrow> nat \<Rightarrow> 's res" and wr :: "'s \<Rightarrow> nat \<Rightarrow> 's res"
    and asg :: "'s \<Rightarrow> nat \<Rightarrow> block \<Rightarrow> 's" and pin :: "'s \<Rightarrow> nat \<Rightarrow> 's" and unpin :: "'s \<Rightarrow> nat \<Rightarrow> 's"
  assumes frame_me: "me (frame s) = me s"
    and unheld_clean: "inv s \<Longrightarrow> chold (tab s) n = 0 \<Longrightarrow> cview (tab s) n = cdisk (tab s) n"
    and dat_law: "inv s \<Longrightarrow> handle s b n \<Longrightarrow> dat s b = cview (tab s) n"
    and rd_law: "inv s \<Longrightarrow> readable (tab s) n \<Longrightarrow> \<exists>b s'. rd s n = Ok (b, s') \<and> inv s' \<and> handle s' b n \<and>
      (\<forall>c m. handle s c m \<and> 0 < chold (tab s) m \<longrightarrow> handle s' c m) \<and> tab s' = c_get (me s) n (tab s) \<and> frame s' = frame s"
    and rel_law: "inv s \<Longrightarrow> handle s b n \<Longrightarrow> clock (tab s) n = Some (me s) \<Longrightarrow> 0 < chold (tab s) n \<Longrightarrow>
      (chold (tab s) n = 1 \<Longrightarrow> cview (tab s) n = cdisk (tab s) n) \<Longrightarrow>
      \<exists>s'. rel s b = Ok s' \<and> inv s' \<and> handle s' = handle s \<and> tab s' = c_put n (tab s) \<and> frame s' = frame s"
    and wr_law: "inv s \<Longrightarrow> handle s b n \<Longrightarrow> clock (tab s) n = Some (me s) \<Longrightarrow>
      \<exists>s'. wr s b = Ok s' \<and> inv s' \<and> handle s' = handle s \<and> tab s' = c_write n (tab s) \<and> frame s' = frame s"
    and asg_law: "inv s \<Longrightarrow> handle s b n \<Longrightarrow> 0 < chold (tab s) n \<Longrightarrow>
      inv (asg s b d) \<and> handle (asg s b d) = handle s \<and> tab (asg s b d) = c_set n d (tab s) \<and> frame (asg s b d) = frame s"
    and pin_law: "inv s \<Longrightarrow> handle s b n \<Longrightarrow> 0 < chold (tab s) n \<Longrightarrow> chold (tab s) n < 2 ^ 32 - 1 \<Longrightarrow>
      inv (pin s b) \<and> handle (pin s b) = handle s \<and> tab (pin s b) = c_pin n (tab s) \<and> frame (pin s b) = frame s"
    and unpin_law: "inv s \<Longrightarrow> handle s b n \<Longrightarrow> 1 < chold (tab s) n \<Longrightarrow>
      inv (unpin s b) \<and> handle (unpin s b) = handle s \<and> tab (unpin s b) = c_unpin n (tab s) \<and> frame (unpin s b) = frame s"

context block_cache begin

lemma me_frame: "frame s' = frame s \<Longrightarrow> me s' = me s"
  by (metis frame_me)

text \<open>Reading a block and giving it back changes nothing that a client sees.\<close>

lemma read_rel:
  assumes v: "inv s" and r: "readable (tab s) n"
  shows "\<exists>b s1 s2. rd s n = Ok (b, s1) \<and> inv s1 \<and> handle s1 b n \<and> dat s1 b = cview (tab s) n \<and> frame s1 = frame s \<and>
    tab s1 = c_get (me s) n (tab s) \<and> rel s1 b = Ok s2 \<and> inv s2 \<and> tab s2 = tab s \<and> frame s2 = frame s"
proof -
  obtain b s1 where s1: "rd s n = Ok (b, s1)" "inv s1" "handle s1 b n" "tab s1 = c_get (me s) n (tab s)" "frame s1 = frame s"
    using rd_law [OF v r] by blast
  have c: "clock (tab s1) n = Some (me s1)" "chold (tab s1) n = chold (tab s) n + 1" "cview (tab s1) = cview (tab s)"
    "cdisk (tab s1) = cdisk (tab s)" using s1(4) me_frame [OF s1(5)] by (simp_all add: c_get_def)
  obtain s2 where s2: "rel s1 b = Ok s2" "inv s2" "tab s2 = c_put n (tab s1)" "frame s2 = frame s1"
    using rel_law [OF s1(2,3) c(1)] c unheld_clean [OF v, of n] by auto
  have "tab s2 = tab s" unfolding s2(3) s1(4) using r
    by (intro cache.equality) (simp_all add: c_defs readable_def fun_upd_idem)
  then show ?thesis using s1 s2 dat_law [OF s1(2,3)] c(3) by auto
qed

text \<open>
  Reading two blocks, copying the first into the second and writing the second to disk, in the
  two forms of the log: with and without a pin to drop.
\<close>

lemma copy_held:
  assumes v: "inv s" and ne: "l \<noteq> d" and t: "tab s = c_get (me s) d (c_get (me s) l c)" and h: "handle s bl l" "handle s bd d"
    and free: "clock c l = None" "clock c d = None" and clean: "chold c l = 0 \<Longrightarrow> cview c l = cdisk c l"
    and dp: "dr \<Longrightarrow> 0 < chold c d"
  shows "\<exists>s'. bnd (wr (asg s bd (dat s bl)) bd) (\<lambda>s. bnd (rel (if dr then unpin s bd else s) bl) (\<lambda>s. rel s bd)) = Ok s' \<and>
    inv s' \<and> frame s' = frame s \<and>
    tab s' = (let c = c_write d (c_set d (cview c l) c) in if dr then c_unpin d c else c)"
proof -
  define s3 where "s3 = asg s bd (dat s bl)"
  have dl: "dat s bl = cview c l" using dat_law [OF v h(1)] t by (simp add: c_get_def)
  have s3: "inv s3" "handle s3 = handle s" "tab s3 = c_set d (cview c l) (tab s)" "frame s3 = frame s"
    using asg_law [OF v h(2)] t dl by (auto simp: s3_def c_get_def)
  obtain s4 where s4: "wr s3 bd = Ok s4" "inv s4" "handle s4 = handle s" "tab s4 = c_write d (tab s3)" "frame s4 = frame s"
    using wr_law [OF s3(1), of bd d] s3 h(2) t me_frame [OF s3(4)] by (auto simp: c_get_def c_set_def)
  define s5 where "s5 = (if dr then unpin s4 bd else s4)"
  have s5: "inv s5" "handle s5 = handle s" "tab s5 = (if dr then c_unpin d (tab s4) else tab s4)" "frame s5 = frame s"
    using unpin_law [OF s4(2), of bd d] s4 s3(3) h(2) t dp by (auto simp: s5_def c_defs)
  have t5: "clock (tab s5) l = Some (me s)" "clock (tab s5) d = Some (me s)" "chold (tab s5) l = chold c l + 1"
    "chold (tab s5) d = chold c d + (if dr then 0 else 1)"
    "cview (tab s5) = (cview c)(d := cview c l)" "cdisk (tab s5) = (cdisk c)(d := cview c l)"
    using s5(3) s4(4) s3(3) t ne by (auto simp: c_defs)
  obtain s6 where s6: "rel s5 bl = Ok s6" "inv s6" "handle s6 = handle s" "tab s6 = c_put l (tab s5)" "frame s6 = frame s"
    using rel_law [OF s5(1), of bl l] s5(2,4) h(1) t5 ne clean me_frame [OF s5(4)] by auto
  have hd: "0 < chold (tab s5) d" using t5(4) dp by (cases dr) auto
  obtain s7 where s7: "rel s6 bd = Ok s7" "inv s7" "tab s7 = c_put d (tab s6)" "frame s7 = frame s"
    using rel_law [OF s6(2), of bd d] s6(3,4,5) h(2) t5(2,5,6) hd ne me_frame [OF s6(5)] by (auto simp: c_put_def)
  have "tab s7 = (let c = c_write d (c_set d (cview c l) c) in if dr then c_unpin d c else c)"
    unfolding s7(3) s6(4) s5(3) s4(4) s3(3) t using free ne
    by (intro cache.equality) (auto simp: c_defs fun_eq_iff Let_def)
  then show ?thesis using s4(1) s6(1) s7 by (simp add: s3_def [symmetric] s5_def [symmetric])
qed

lemma update_write:
  assumes v: "inv s" and r: "readable (tab s) n"
  shows "\<exists>b s1 s'. rd s n = Ok (b, s1) \<and> dat s1 b = cview (tab s) n \<and> frame s1 = frame s \<and>
    bnd (wr (asg s1 b d) b) (\<lambda>s. rel s b) = Ok s' \<and> inv s' \<and> frame s' = frame s \<and>
    tab s' = c_write n (c_set n d (tab s))"
proof -
  obtain b s1 where s1: "rd s n = Ok (b, s1)" "inv s1" "handle s1 b n" "tab s1 = c_get (me s) n (tab s)" "frame s1 = frame s"
    using rd_law [OF v r] by blast
  have s2: "inv (asg s1 b d)" "handle (asg s1 b d) = handle s1" "tab (asg s1 b d) = c_set n d (tab s1)" "frame (asg s1 b d) = frame s"
    using asg_law [OF s1(2,3)] s1(4,5) by (auto simp: c_get_def)
  obtain s3 where s3: "wr (asg s1 b d) b = Ok s3" "inv s3" "handle s3 = handle s1" "tab s3 = c_write n (c_set n d (tab s1))" "frame s3 = frame s"
    using wr_law [OF s2(1), of b n] s2 s1(3,4) me_frame [OF s2(4)] by (auto simp: c_get_def c_set_def)
  obtain s4 where s4: "rel s3 b = Ok s4" "inv s4" "tab s4 = c_put n (tab s3)" "frame s4 = frame s"
    using rel_law [OF s3(2), of b n] s3(3-5) s1(3,4) me_frame [OF s3(5)] by (auto simp: c_defs)
  have "tab s4 = c_write n (c_set n d (tab s))"
    unfolding s4(3) s3(4) s1(4) using r by (intro cache.equality) (auto simp: c_defs readable_def fun_eq_iff)
  then show ?thesis using s1 s3(1) s4 dat_law [OF s1(2,3)] by (auto simp: c_get_def)
qed

lemma two_reads:
  assumes v: "inv s" and r: "readable (tab s) m" "readable (c_get (me s) m (tab s)) n"
  shows "\<exists>b1 s1 b2 s2. rd s m = Ok (b1, s1) \<and> frame s1 = frame s \<and> rd s1 n = Ok (b2, s2) \<and> inv s2 \<and> handle s2 b1 m \<and> handle s2 b2 n \<and>
    tab s2 = c_get (me s) n (c_get (me s) m (tab s)) \<and> frame s2 = frame s \<and> me s2 = me s"
proof -
  obtain b1 s1 where s1: "rd s m = Ok (b1, s1)" "inv s1" "handle s1 b1 m" "tab s1 = c_get (me s) m (tab s)" "frame s1 = frame s"
    using rd_law [OF v r(1)] by blast
  note m1 = me_frame [OF s1(5)]
  obtain b2 s2 where s2: "rd s1 n = Ok (b2, s2)" "inv s2" "handle s2 b2 n" "tab s2 = c_get (me s) n (tab s1)" "frame s2 = frame s"
    and k: "\<forall>c k. handle s1 c k \<and> 0 < chold (tab s1) k \<longrightarrow> handle s2 c k"
    using rd_law [OF s1(2), of n] r(2) s1(4,5) m1 by auto
  have "handle s2 b1 m" using k s1(3,4) by (auto simp: c_get_def)
  then show ?thesis using s1 s2 me_frame [OF s2(5)] by (intro exI [of _ b1] exI [of _ s1] exI [of _ b2] exI [of _ s2]) simp
qed

lemma copy_forward:
  assumes v: "inv s" and ne: "l \<noteq> d" and r: "readable (tab s) l" "readable (c_get (me s) l (tab s)) d"
    and dp: "dr \<Longrightarrow> 0 < chold (tab s) d"
  shows "\<exists>s'. bnd (rd s l) (\<lambda>(bl, s). bnd (rd s d) (\<lambda>(bd, s). bnd (wr (asg s bd (dat s bl)) bd) (\<lambda>s.
      bnd (rel (if dr then unpin s bd else s) bl) (\<lambda>s. rel s bd)))) = Ok s' \<and> inv s' \<and> frame s' = frame s \<and>
    tab s' = (let c = c_write d (c_set d (cview (tab s) l) (tab s)) in if dr then c_unpin d c else c)"
proof -
  obtain bl s1 bd s2 where s2: "rd s l = Ok (bl, s1)" "rd s1 d = Ok (bd, s2)" "inv s2" "handle s2 bl l" "handle s2 bd d"
    "tab s2 = c_get (me s) d (c_get (me s) l (tab s))" "frame s2 = frame s" "me s2 = me s"
    using two_reads [OF v r] by blast
  then show ?thesis
    using copy_held [OF s2(3) ne, of "tab s" bl bd dr] r ne dp unheld_clean [OF v, of l] by (auto simp: readable_def c_get_def)
qed

lemma copy_backward:
  assumes v: "inv s" and ne: "l \<noteq> d" and r: "readable (tab s) d" "readable (c_get (me s) d (tab s)) l"
  shows "\<exists>s'. bnd (rd s d) (\<lambda>(bd, s). bnd (rd s l) (\<lambda>(bl, s). bnd (wr (asg s bd (dat s bl)) bd) (\<lambda>s.
      bnd (rel s bl) (\<lambda>s. rel s bd)))) = Ok s' \<and> inv s' \<and> frame s' = frame s \<and>
    tab s' = c_write d (c_set d (cview (tab s) l) (tab s))"
proof -
  obtain bd s1 bl s2 where s2: "rd s d = Ok (bd, s1)" "rd s1 l = Ok (bl, s2)" "inv s2" "handle s2 bd d" "handle s2 bl l"
    "tab s2 = c_get (me s) l (c_get (me s) d (tab s))" "frame s2 = frame s" "me s2 = me s"
    using two_reads [OF v r] by blast
  have "tab s2 = c_get (me s2) d (c_get (me s2) l (tab s))"
    unfolding s2(6,8) using ne by (intro cache.equality) (auto simp: c_get_def fun_eq_iff)
  then show ?thesis
    using copy_held [OF s2(3) ne, of "tab s" bl bd False] s2 r ne unheld_clean [OF v, of l] by (auto simp: readable_def c_get_def)
qed

end

interpretation bc: block_cache "binv D" "cabs D" "is_buf D" bframe curpid "\<lambda>s b. bdata (bufs s b)" "\<lambda>s. bread s D" brelse bwrite
    set_data bpin bunpin for D
proof
  fix s :: "'a bst_scheme" and b n d
  have fr: "bframe (s\<lparr>bufs := B\<rparr>) = bframe s" for B by (simp add: bframe_def)
  show "curpid (bframe s) = curpid s" by (simp add: bframe_def)
  assume v: "binv D s"
  show "chold (cabs D s) n = 0 \<Longrightarrow> cview (cabs D s) n = cdisk (cabs D s) n"
    using cabs_clean(1) [OF v] by (simp add: cabs_def)
  show "\<exists>b s'. bread s D n = Ok (b, s') \<and> binv D s' \<and> is_buf D s' b n \<and>
      (\<forall>c m. is_buf D s c m \<and> 0 < chold (cabs D s) m \<longrightarrow> is_buf D s' c m) \<and> cabs D s' = c_get (curpid s) n (cabs D s) \<and>
      bframe s' = bframe s" if "readable (cabs D s) n"
    using bread_law [OF v that] fr by blast
  assume b: "is_buf D s b n"
  show "bdata (bufs s b) = cview (cabs D s) n" using cabs_buf(1) [OF v b] by simp
  show "\<exists>s'. brelse s b = Ok s' \<and> binv D s' \<and> is_buf D s' = is_buf D s \<and> cabs D s' = c_put n (cabs D s) \<and> bframe s' = bframe s"
    if "clock (cabs D s) n = Some (curpid s)" "0 < chold (cabs D s) n" "chold (cabs D s) n = 1 \<Longrightarrow> cview (cabs D s) n = cdisk (cabs D s) n"
  proof -
    have "cdisk (cabs D s) = disk s" by (simp add: cabs_def)
    then show ?thesis using brelse_law [OF v b that(1,2)] that(3) fr by auto
  qed
  show "\<exists>s'. bwrite s b = Ok s' \<and> binv D s' \<and> is_buf D s' = is_buf D s \<and> cabs D s' = c_write n (cabs D s) \<and> bframe s' = bframe s"
    if "clock (cabs D s) n = Some (curpid s)"
    using bwrite_law(1-4) [OF v b that] by (auto simp: bframe_def virtio_disk_rw_def Let_def)
  show "binv D (set_data s b d) \<and> is_buf D (set_data s b d) = is_buf D s \<and> cabs D (set_data s b d) = c_set n d (cabs D s) \<and>
      bframe (set_data s b d) = bframe s" if "0 < chold (cabs D s) n"
    using set_data_law(1-3) [OF v b that] by (simp add: set_data_def upd_buf_def fr)
  show "binv D (bpin s b) \<and> is_buf D (bpin s b) = is_buf D s \<and> cabs D (bpin s b) = c_pin n (cabs D s) \<and> bframe (bpin s b) = bframe s"
    if "0 < chold (cabs D s) n" "chold (cabs D s) n < 2 ^ 32 - 1"
    using bpin_law(1-3) [OF v b that] by (simp add: bpin_def upd_buf_def fr)
  show "binv D (bunpin s b) \<and> is_buf D (bunpin s b) = is_buf D s \<and> cabs D (bunpin s b) = c_unpin n (cabs D s) \<and> bframe (bunpin s b) = bframe s"
    if "1 < chold (cabs D s) n"
    using bunpin_law(1-3) [OF v b that] by (simp add: bunpin_def upd_buf_def fr)
qed

section \<open>Properties\<close>

lemma find_rev_last: "find P (rev xs) = Some c \<Longrightarrow> c = last (filter P xs)"
  by (induction xs rule: rev_induct) (auto split: if_splits)

lemma binit_loop_keeps:
  "disk (binit_loop bs s) = disk s" "dwrites (binit_loop bs s) = dwrites s" "bframe (binit_loop bs s) = bframe s"
  "refcnt (bufs (binit_loop bs s) x) = refcnt (bufs s x)" "bdev (bufs (binit_loop bs s) x) = bdev (bufs s x)"
  by (induction bs arbitrary: s) (simp_all add: upd_buf_def Let_def bframe_def)

lemma binit_loop_locks:
  "\<not> slocked (block (bufs s x)) \<Longrightarrow> \<not> slocked (block (bufs (binit_loop bs s) x))"
proof (induction bs arbitrary: s)
  case (Cons b bs)
  define s1 where "s1 = upd_buf s b (\<lambda>x. x\<lparr>bnext := bnext (bufs s head), bprev := head, block := initsleeplock\<rparr>)"
  define s2 where "s2 = upd_buf s1 (bnext (bufs s1 head)) (\<lambda>x. x\<lparr>bprev := b\<rparr>)"
  have "\<not> slocked (block (bufs s1 x))" using Cons.prems by (simp add: s1_def upd_buf_def initsleeplock_def)
  then have "\<not> slocked (block (bufs s2 x))" by (auto simp: s2_def upd_buf_def)
  then have "\<not> slocked (block (bufs (upd_buf s2 head (\<lambda>x. x\<lparr>bnext := b\<rparr>)) x))" by (auto simp: upd_buf_def)
  then show ?case using Cons.IH by (simp add: Let_def s1_def s2_def)
qed simp

text \<open>After \<^verbatim>\<open>binit\<close> the cache is empty.\<close>

definition c_boot :: "(u32 \<Rightarrow> block) \<Rightarrow> (u32 \<times> block) list \<Rightarrow> cache" where
  "c_boot d ws = \<lparr>cview = d, chold = (\<lambda>_. 0), clock = (\<lambda>_. None), cdisk = d, cwrites = ws\<rparr>"

lemma binit_law:
  assumes "bufs s = (\<lambda>_. zero_buf)" and "D \<noteq> 0"
  shows "binv D (binit s)" and "cabs D (binit s) = c_boot (disk s) (dwrites s)" and "bframe (binit s) = bframe s"
proof -
  let ?s = "upd_buf s head (\<lambda>x. x\<lparr>bprev := head, bnext := head\<rparr>)"
  have f: "refcnt (bufs ?s x) = 0" "bdev (bufs ?s x) = 0" "\<not> slocked (block (bufs ?s x))" "disk ?s = disk s" "dwrites ?s = dwrites s"
    "bframe ?s = bframe s" for x using assms(1) by (simp_all add: upd_buf_def zero_buf_def bframe_def)
  have g: "refcnt (bufs (binit s) x) = 0" "bdev (bufs (binit s) x) = 0" "\<not> slocked (block (bufs (binit s) x))" for x
    using f binit_loop_keeps(4,5) [of "[0..<NBUF]" ?s x] binit_loop_locks [of ?s x "[0..<NBUF]"] by (simp_all add: binit_def)
  show "binv D (binit s)" using binit_ring [of s] g assms(2) by (auto simp: binv_def bslots_def bok_def)
  have "cslot D (bufs (binit s)) n = None" for n using g assms(2) by (simp add: cslot_None)
  moreover have "disk (binit s) = disk s" "dwrites (binit s) = dwrites s"
    using f binit_loop_keeps(1,2) [of "[0..<NBUF]" ?s] by (simp_all add: binit_def)
  ultimately show "cabs D (binit s) = c_boot (disk s) (dwrites s)" by (simp add: cabs_def c_boot_def)
  show "bframe (binit s) = bframe s" using f binit_loop_keeps(3) [of "[0..<NBUF]" ?s] by (simp add: binit_def)
qed

lemma readable_boot: "readable (c_boot d ws) n"
  by (simp add: readable_def c_boot_def NBUF_val)

definition bst0 :: "(u32 \<Rightarrow> block) \<Rightarrow> bst" where
  "bst0 d = \<lparr>bufs = (\<lambda>_. zero_buf), disk = d, dwrites = [], curpid = 1\<rparr>"

text \<open>
  C23. \<^verbatim>\<open>bread\<close> refines the table of blocks: on an unlocked block with a buffer to spare it returns a
  buffer with the block's contents, locked for the caller and held once more, and no other
  block's contents, holders or locks change, nor the disk; and \<^verbatim>\<open>brelse\<close> of that buffer takes the table
  back to what it was.
\<close>

theorem bread_refines:
  assumes "binv D s" and "readable (cabs D s) n"
  shows "\<exists>b s'. bread s D n = Ok (b, s') \<and> bdata (bufs s' b) = cview (cabs D s) n \<and> binv D s' \<and>
    cabs D s' = c_get (curpid s) n (cabs D s) \<and> (\<exists>t. brelse s' b = Ok t \<and> binv D t \<and> cabs D t = cabs D s)"
proof -
  obtain b B where r: "bread s D n = Ok (b, s\<lparr>bufs := B\<rparr>)" and v: "binv D (s\<lparr>bufs := B\<rparr>)" "is_buf D (s\<lparr>bufs := B\<rparr>) b n"
    and c: "cabs D (s\<lparr>bufs := B\<rparr>) = c_get (curpid s) n (cabs D s)"
    using bread_law [OF assms] by blast
  have g: "clock (cabs D s) n = None" using assms(2) by (simp add: readable_def)
  have "\<exists>t. brelse (s\<lparr>bufs := B\<rparr>) b = Ok t \<and> binv D t \<and> cabs D t = c_put n (c_get (curpid s) n (cabs D s))"
    using brelse_law [OF v] cabs_clean(1) [OF assms(1), of n] unfolding c by (auto simp: c_get_def)
  moreover have "c_put n (c_get (curpid s) n (cabs D s)) = cabs D s"
    using g by (simp add: c_put_def c_get_def fun_upd_idem)
  ultimately show ?thesis using r v c cabs_buf(1) [OF v] by (intro exI [of _ b] exI [of _ "s\<lparr>bufs := B\<rparr>"]) (simp add: c_get_def)
qed

theorem bread_refines_witness:
  "\<exists>b s'. bread (binit (bst0 (\<lambda>n _. ucast n))) 1 7 = Ok (b, s') \<and> bdata (bufs s' b) = (\<lambda>_. 7) \<and> clock (cabs 1 s') 7 = Some 1 \<and>
    (\<exists>t. brelse s' b = Ok t \<and> clock (cabs 1 t) 7 = None)"
proof -
  let ?s = "binit (bst0 (\<lambda>n _. ucast n))"
  note i = binit_law [of "bst0 (\<lambda>n _. ucast n)" 1]
  have v: "binv 1 ?s" and c: "cabs 1 ?s = c_boot (\<lambda>n _. ucast n) []" using i by (simp_all add: bst0_def)
  have p: "curpid ?s = 1" using i(3) bc.frame_me [of ?s] bc.frame_me [of "bst0 (\<lambda>n _. ucast n)"] by (simp add: bst0_def)
  have r: "readable (cabs 1 ?s) 7" unfolding c by (rule readable_boot)
  show ?thesis using bread_refines [OF v r] unfolding c p by (auto simp: c_boot_def c_get_def)
qed

text \<open>
  C24. The cache replaces the least recently used block: a block that is not cached takes the last
  unheld buffer of the ring, and a buffer that its last holder releases moves to the front.
\<close>

theorem cache_lru:
  assumes "binv D s" and "ring (bufs s) xs"
  shows "(cslot D (bufs s) n = None \<and> readable (cabs D s) n \<longrightarrow>
      (\<exists>s'. bread s D n = Ok (last (filter (\<lambda>b. refcnt (bufs s b) = 0) xs), s') \<and> ring (bufs s') xs)) \<and>
    (is_buf D s b n \<and> clock (cabs D s) n = Some (curpid s) \<and> chold (cabs D s) n = 1 \<longrightarrow>
      (\<exists>s'. brelse s b = Ok s' \<and> ring (bufs s') (b # remove1 b xs)))"
proof (intro conjI impI)
  assume n: "cslot D (bufs s) n = None \<and> readable (cabs D s) n"
  obtain c x where c: "find (\<lambda>b. refcnt (bufs s b) = 0) (rev xs) = Some c" and rd: "bread s D n = Ok (c, s\<lparr>bufs := (bufs s)(c := x)\<rparr>)"
    and x: "bnext x = bnext (bufs s c)" "bprev x = bprev (bufs s c)"
    using bread_miss [OF assms, of n] n by force
  have "c = last (filter (\<lambda>b. refcnt (bufs s b) = 0) xs)" by (rule find_rev_last [OF c])
  moreover have "ring ((bufs s)(c := x)) xs" by (rule ring_cong [OF assms(2)]) (use x in auto)
  ultimately show "\<exists>s'. bread s D n = Ok (last (filter (\<lambda>b. refcnt (bufs s b) = 0) xs), s') \<and> ring (bufs s') xs" using rd by auto
next
  assume h: "is_buf D s b n \<and> clock (cabs D s) n = Some (curpid s) \<and> chold (cabs D s) n = 1"
  then have b: "is_buf D s b n" and "unat (refcnt (bufs s b)) = 1" using cabs_buf(2) [OF assms(1)] by auto
  then have one: "refcnt (bufs s b) = 1" by (simp add: word_unat_eq_iff)
  let ?x = "bufs s b\<lparr>block := releasesleep (block (bufs s b)), refcnt := refcnt (bufs s b) - 1\<rparr>"
  have "ring ((bufs s)(b := ?x)) xs" by (rule ring_cong [OF assms(2)]) auto
  then have "ring (bufs (move_front (s\<lparr>bufs := (bufs s)(b := ?x)\<rparr>) b)) (b # remove1 b xs)"
    using ring_move_front [of "s\<lparr>bufs := (bufs s)(b := ?x)\<rparr>" xs b] b by (simp add: is_buf_def)
  then show "\<exists>s'. brelse s b = Ok s' \<and> ring (bufs s') (b # remove1 b xs)"
    using brelse_eq [OF assms(1) b] h one by simp
qed

theorem cache_lru_witness:
  "\<exists>s'. bread (binit (bst0 (\<lambda>_ _. 0))) 1 7 = Ok (0, s') \<and> ring (bufs s') (rev [0..<NBUF])"
proof -
  let ?s = "binit (bst0 (\<lambda>_ _. 0))"
  have v: "binv 1 ?s" and c: "cabs 1 ?s = c_boot (\<lambda>_ _. 0) []" using binit_law [of "bst0 (\<lambda>_ _. 0)" 1] by (simp_all add: bst0_def)
  have n: "cslot 1 (bufs ?s) 7 = None"
    using binit_loop_keeps(5) [of "[0..<NBUF]" "upd_buf (bst0 (\<lambda>_ _. 0)) head (\<lambda>x. x\<lparr>bprev := head, bnext := head\<rparr>)"]
    by (simp add: cslot_None binit_def bst0_def zero_buf_def upd_buf_def)
  have z: "refcnt (bufs ?s x) = 0" for x
    using binit_loop_keeps(4) [of "[0..<NBUF]" "upd_buf (bst0 (\<lambda>_ _. 0)) head (\<lambda>x. x\<lparr>bprev := head, bnext := head\<rparr>)" x]
    by (simp add: binit_def bst0_def zero_buf_def upd_buf_def)
  have "last (rev [0..<NBUF]) = 0" by (simp add: last_rev NBUF_val)
  then show ?thesis using cache_lru [OF v binit_ring, of 7] n readable_boot unfolding c by (simp add: z)
qed

end
