(* ===== verification/Log.thy ===== *)
theory Log
  imports Bio
begin

text \<open>
  The redo log, \<^verbatim>\<open>kernel/log.c\<close>, on top of the buffer cache. A transaction collects the numbers of
  the blocks it changes and pins their buffers; the commit copies them to the log, writes the
  header, which is the commit point, installs them and clears the header. The theory proves that
  a crash between any two disk writes of a commit or of a recovery leaves a disk from which
  recovery restores all of the transaction or nothing of it.
\<close>

section \<open>State\<close>

definition LOGSIZE :: nat where "LOGSIZE = MAXOPBLOCKS * 3"

lemma LOGSIZE_val: "LOGSIZE = 30"
  by (simp add: LOGSIZE_def MAXOPBLOCKS_def)

record superblock =
  sb_magic :: u32
  sb_size :: u32
  sb_nblocks :: u32
  sb_ninodes :: u32
  sb_nlog :: u32
  sb_logstart :: u32
  sb_inodestart :: u32
  sb_bmapstart :: u32

text \<open>\<^verbatim>\<open>struct log\<close> with its header; \<open>lhblock\<close> is the array \<^verbatim>\<open>log.lh.block\<close>.\<close>

record logst = bst +
  lstart :: u32
  lsize :: int
  outstanding :: int
  committing :: bool
  ldev :: u32
  lhn :: int
  lhblock :: "nat \<Rightarrow> u32"

section \<open>Operations\<close>

definition install_one :: "bool \<Rightarrow> 'a logst_scheme \<Rightarrow> nat \<Rightarrow> 'a logst_scheme res" where
  "install_one recovering s tail =
     (if tail \<ge> LOGSIZE then Undef
      else bnd (bread s (ldev s) (lstart s + of_nat tail + 1)) (\<lambda>(lbuf, s).
        bnd (bread s (ldev s) (lhblock s tail)) (\<lambda>(dbuf, s).
          bnd (bwrite (set_data s dbuf (bdata (bufs s lbuf))) dbuf) (\<lambda>s.
            bnd (brelse (if \<not> recovering then bunpin s dbuf else s) lbuf) (\<lambda>s. brelse s dbuf)))))"

primrec install_loop :: "bool \<Rightarrow> nat \<Rightarrow> nat \<Rightarrow> 'a logst_scheme \<Rightarrow> 'a logst_scheme res" where
  "install_loop recovering 0 tail s = Ok s"
| "install_loop recovering (Suc k) tail s =
     bnd (install_one recovering s tail) (install_loop recovering k (Suc tail))"

definition install_trans :: "'a logst_scheme \<Rightarrow> bool \<Rightarrow> 'a logst_scheme res" where
  "install_trans s recovering = install_loop recovering (nat (lhn s)) 0 s"

primrec read_head_loop :: "nat \<Rightarrow> nat \<Rightarrow> block \<Rightarrow> (nat \<Rightarrow> u32) \<Rightarrow> (nat \<Rightarrow> u32) res" where
  "read_head_loop 0 i d bs = Ok bs"
| "read_head_loop (Suc k) i d bs =
     (if i \<ge> LOGSIZE then Undef else read_head_loop k (Suc i) d (bs(i := ld32 d (4 + 4 * i))))"

definition read_head :: "'a logst_scheme \<Rightarrow> 'a logst_scheme res" where
  "read_head s =
     bnd (bread s (ldev s) (lstart s)) (\<lambda>(b, s).
       let d = bdata (bufs s b); s = s\<lparr>lhn := sint (ld32 d 0)\<rparr> in
       bnd (read_head_loop (nat (lhn s)) 0 d (lhblock s)) (\<lambda>bs. brelse (s\<lparr>lhblock := bs\<rparr>) b))"

primrec write_head_loop :: "nat \<Rightarrow> nat \<Rightarrow> (nat \<Rightarrow> u32) \<Rightarrow> block \<Rightarrow> block res" where
  "write_head_loop 0 i bs d = Ok d"
| "write_head_loop (Suc k) i bs d =
     (if i \<ge> LOGSIZE then Undef else write_head_loop k (Suc i) bs (st32 d (4 + 4 * i) (bs i)))"

definition write_head :: "'a logst_scheme \<Rightarrow> 'a logst_scheme res" where
  "write_head s =
     bnd (bread s (ldev s) (lstart s)) (\<lambda>(b, s).
       bnd (write_head_loop (nat (lhn s)) 0 (lhblock s) (st32 (bdata (bufs s b)) 0 (of_int (lhn s)))) (\<lambda>d.
         bnd (bwrite (set_data s b d) b) (\<lambda>s. brelse s b)))"

definition recover_from_log :: "'a logst_scheme \<Rightarrow> 'a logst_scheme res" where
  "recover_from_log s =
     bnd (read_head s) (\<lambda>s.
       bnd (install_trans s True) (\<lambda>s. write_head (s\<lparr>lhn := 0\<rparr>)))"

definition initlog :: "'a logst_scheme \<Rightarrow> u32 \<Rightarrow> superblock \<Rightarrow> 'a logst_scheme res" where
  "initlog s dev sb =
     (if 4 + 4 * LOGSIZE \<ge> BSIZE then Panic ''initlog: too big logheader''
      else recover_from_log (s\<lparr>lstart := sb_logstart sb, lsize := sint (sb_nlog sb), ldev := dev\<rparr>))"

text \<open>\<^verbatim>\<open>begin_op\<close> sleeps until there is room in the log and no commit is running.\<close>

definition begin_op :: "'a logst_scheme \<Rightarrow> 'a logst_scheme res" where
  "begin_op s =
     (if committing s then Blocked
      else if lhn s + (outstanding s + 1) * int MAXOPBLOCKS > int LOGSIZE then Blocked
      else Ok (s\<lparr>outstanding := outstanding s + 1\<rparr>))"

definition write_log_one :: "'a logst_scheme \<Rightarrow> nat \<Rightarrow> 'a logst_scheme res" where
  "write_log_one s tail =
     (if tail \<ge> LOGSIZE then Undef
      else bnd (bread s (ldev s) (lstart s + of_nat tail + 1)) (\<lambda>(to, s).
        bnd (bread s (ldev s) (lhblock s tail)) (\<lambda>(from, s).
          bnd (bwrite (set_data s to (bdata (bufs s from))) to) (\<lambda>s.
            bnd (brelse s from) (\<lambda>s. brelse s to)))))"

primrec write_log_loop :: "nat \<Rightarrow> nat \<Rightarrow> 'a logst_scheme \<Rightarrow> 'a logst_scheme res" where
  "write_log_loop 0 tail s = Ok s"
| "write_log_loop (Suc k) tail s = bnd (write_log_one s tail) (write_log_loop k (Suc tail))"

definition write_log :: "'a logst_scheme \<Rightarrow> 'a logst_scheme res" where
  "write_log s = write_log_loop (nat (lhn s)) 0 s"

definition commit :: "'a logst_scheme \<Rightarrow> 'a logst_scheme res" where
  "commit s =
     (if lhn s > 0 then
        bnd (write_log s) (\<lambda>s.
          bnd (write_head s) (\<lambda>s.
            bnd (install_trans s False) (\<lambda>s. write_head (s\<lparr>lhn := 0\<rparr>))))
      else Ok s)"

text \<open>
  The last \<^verbatim>\<open>end_op\<close> commits. Its \<^verbatim>\<open>wakeup\<close> of the processes asleep in \<^verbatim>\<open>begin_op\<close> acts on the process table,
  which is not part of this state: a \<open>Blocked\<close> call of \<^verbatim>\<open>begin_op\<close> is one that is made again.
\<close>

definition end_op :: "'a logst_scheme \<Rightarrow> 'a logst_scheme res" where
  "end_op s =
     (let s = s\<lparr>outstanding := outstanding s - 1\<rparr> in
      if committing s then Panic ''log.committing''
      else if outstanding s = 0 then
        bnd (commit (s\<lparr>committing := True\<rparr>)) (\<lambda>s. Ok (s\<lparr>committing := False\<rparr>))
      else Ok s)"

primrec log_index :: "nat \<Rightarrow> nat \<Rightarrow> (nat \<Rightarrow> u32) \<Rightarrow> u32 \<Rightarrow> nat" where
  "log_index 0 i bs n = i"
| "log_index (Suc k) i bs n = (if bs i = n then i else log_index k (Suc i) bs n)"

definition log_write :: "'a logst_scheme \<Rightarrow> nat \<Rightarrow> 'a logst_scheme res" where
  "log_write s b =
     (if lhn s \<ge> int LOGSIZE \<or> lhn s \<ge> lsize s - 1 then Panic ''too big a transaction''
      else if outstanding s < 1 then Panic ''log_write outside of trans''
      else
        let n = blockno (bufs s b); i = log_index (nat (lhn s)) 0 (lhblock s) n;
            s = s\<lparr>lhblock := (lhblock s)(i := n)\<rparr>
        in Ok (if int i = lhn s then (bpin s b)\<lparr>lhn := lhn s + 1\<rparr> else s))"

section \<open>The commit on the table of blocks\<close>

lemma bframe_eq: "bframe s' = bframe s \<Longrightarrow> s' = s\<lparr>bufs := bufs s', disk := disk s', dwrites := dwrites s'\<rparr>"
  by (cases s; cases s') (simp add: bframe_def)

lemma log_frame:
  assumes "bframe s' = bframe s"
  shows "lstart s' = lstart s" "lsize s' = lsize s" "outstanding s' = outstanding s" "committing s' = committing s"
    "ldev s' = ldev s" "lhn s' = lhn s" "lhblock s' = lhblock s" "curpid s' = curpid s"
proof -
  note e = bframe_eq [OF assms]
  show "lstart s' = lstart s" "lsize s' = lsize s" "outstanding s' = outstanding s" "committing s' = committing s"
    "ldev s' = ldev s" "lhn s' = lhn s" "lhblock s' = lhblock s" "curpid s' = curpid s"
    by (subst e, simp)+
qed

definition c_copy :: "u32 \<Rightarrow> u32 \<Rightarrow> cache \<Rightarrow> cache" where
  "c_copy l d c = c_write d (c_set d (cview c l) c)"

text \<open>Nothing is locked, and a buffer is to spare.\<close>

definition idle :: "cache \<Rightarrow> bool" where
  "idle c \<longleftrightarrow> (\<forall>m. clock c m = None) \<and> (\<forall>m. chold c m < 2 ^ 32 - 1) \<and> card {n. 0 < chold c n} < NBUF"

lemma card_insert_le: "card (insert x A) \<le> card A + 1"
  by (cases "finite A") (simp_all add: card_insert_if)

lemma idle_pair:
  assumes "idle c" and "l \<noteq> d" and "0 < chold c d \<or> 0 < chold c l \<or> card {n. 0 < chold c n} + 1 < NBUF"
  shows "readable c l" and "readable (c_get p l c) d"
proof -
  show "readable c l" using assms(1) by (simp add: idle_def readable_def)
  have "{n. 0 < chold (c_get p l c) n} = insert l {n. 0 < chold c n}" by (auto simp: c_get_def)
  then have "0 < chold c d \<or> card {n. 0 < chold (c_get p l c) n} < NBUF"
    using assms(1,3) card_insert_le [of l "{n. 0 < chold c n}"] insert_absorb [of l "{n. 0 < chold c n}"] by (auto simp: idle_def)
  then show "readable (c_get p l c) d" using assms(1,2) by (auto simp: idle_def readable_def c_get_def)
qed

lemma idle_copy: "idle (c_copy l d c) = idle c" "chold (c_copy l d c) = chold c"
  by (simp_all add: idle_def c_copy_def c_write_def c_set_def)

lemma idle_unpin:
  assumes "idle c" and "finite {n. 0 < chold c n}"
  shows "idle (c_unpin d c)"
proof -
  have "{n. 0 < chold (c_unpin d c) n} \<subseteq> {n. 0 < chold c n}" by (auto simp: c_unpin_def)
  then have "card {n. 0 < chold (c_unpin d c) n} \<le> card {n. 0 < chold c n}" by (rule card_mono [OF assms(2)])
  moreover have "chold c d - 1 < 2 ^ 32 - 1" using assms(1) by (meson diff_le_self idle_def le_less_trans)
  ultimately show ?thesis using assms(1) by (auto simp: idle_def c_unpin_def)
qed

lemma write_log_one_law:
  assumes v: "binv D s" and d: "ldev s = D" and i: "idle (cabs D s)" and t: "tail < LOGSIZE"
    and ne: "lhblock s tail \<noteq> lstart s + of_nat tail + 1" and h: "0 < chold (cabs D s) (lhblock s tail)"
  shows "\<exists>s'. write_log_one s tail = Ok s' \<and> binv D s' \<and> bframe s' = bframe s \<and>
    cabs D s' = c_copy (lhblock s tail) (lstart s + of_nat tail + 1) (cabs D s)"
proof -
  let ?d = "lstart s + of_nat tail + 1" and ?l = "lhblock s tail"
  have r: "readable (cabs D s) ?d" "readable (c_get (curpid s) ?d (cabs D s)) ?l"
    using idle_pair [OF i ne [symmetric]] h by auto
  obtain bd s1 bl s2 where s2: "bread s D ?d = Ok (bd, s1)" "bframe s1 = bframe s" "bread s1 D ?l = Ok (bl, s2)" "binv D s2"
    "is_buf D s2 bd ?d" "is_buf D s2 bl ?l" "cabs D s2 = c_get (curpid s) ?l (c_get (curpid s) ?d (cabs D s))" "bframe s2 = bframe s"
    "curpid s2 = curpid s" using bc.two_reads [OF v r] by blast
  have "cabs D s2 = c_get (curpid s2) ?d (c_get (curpid s2) ?l (cabs D s))"
    unfolding s2(7,9) using ne by (intro cache.equality) (auto simp: c_get_def fun_eq_iff)
  from bc.copy_held [OF s2(4) ne this s2(6,5), of False] obtain s' where
    "bnd (bwrite (set_data s2 bd (bdata (bufs s2 bl))) bd) (\<lambda>s. bnd (brelse s bl) (\<lambda>s. brelse s bd)) = Ok s'"
    "binv D s'" "bframe s' = bframe s" "cabs D s' = c_copy ?l ?d (cabs D s)"
    using i h s2(8) by (auto simp: idle_def c_copy_def)
  then show ?thesis using s2(1,3) t d log_frame(5,7) [OF s2(2)] by (auto simp: write_log_one_def)
qed

lemma install_one_law:
  assumes v: "binv D s" and d: "ldev s = D" and i: "idle (cabs D s)" and t: "tail < LOGSIZE"
    and ne: "lstart s + of_nat tail + 1 \<noteq> lhblock s tail"
    and h: "0 < chold (cabs D s) (lhblock s tail) \<or> recovering \<and> card {n. 0 < chold (cabs D s) n} + 1 < NBUF"
  shows "\<exists>s'. install_one recovering s tail = Ok s' \<and> binv D s' \<and> bframe s' = bframe s \<and>
    cabs D s' = (if recovering then (\<lambda>c. c) else c_unpin (lhblock s tail))
      (c_copy (lstart s + of_nat tail + 1) (lhblock s tail) (cabs D s))"
proof -
  let ?l = "lstart s + of_nat tail + 1" and ?d = "lhblock s tail"
  have r: "readable (cabs D s) ?l" "readable (c_get (curpid s) ?l (cabs D s)) ?d" using idle_pair [OF i ne] h by auto
  obtain bl s1 bd s2 where s2: "bread s D ?l = Ok (bl, s1)" "bframe s1 = bframe s" "bread s1 D ?d = Ok (bd, s2)" "binv D s2"
    "is_buf D s2 bl ?l" "is_buf D s2 bd ?d" "cabs D s2 = c_get (curpid s) ?d (c_get (curpid s) ?l (cabs D s))" "bframe s2 = bframe s"
    "curpid s2 = curpid s" using bc.two_reads [OF v r] by blast
  have t2: "cabs D s2 = c_get (curpid s2) ?d (c_get (curpid s2) ?l (cabs D s))" unfolding s2(7,9) ..
  from bc.copy_held [OF s2(4) ne t2 s2(5,6), of "\<not> recovering"] obtain s' where
    "bnd (bwrite (set_data s2 bd (bdata (bufs s2 bl))) bd)
       (\<lambda>s. bnd (brelse (if \<not> recovering then bunpin s bd else s) bl) (\<lambda>s. brelse s bd)) = Ok s'"
    "binv D s'" "bframe s' = bframe s" "cabs D s' = (if recovering then (\<lambda>c. c) else c_unpin ?d) (c_copy ?l ?d (cabs D s))"
    using i h s2(8) bc.unheld_clean [OF v, of ?l] by (auto simp: idle_def c_copy_def)
  then show ?thesis using s2(1,3) t d log_frame(5,7) [OF s2(2)] by (auto simp: install_one_def)
qed

lemma log_upd_simps [simp]:
  "binv D (s\<lparr>lhn := i\<rparr>) = binv D s" "binv D (s\<lparr>lhblock := bs\<rparr>) = binv D s" "binv D (s\<lparr>outstanding := i\<rparr>) = binv D s"
  "binv D (s\<lparr>committing := t\<rparr>) = binv D s" "binv D (s\<lparr>lstart := w\<rparr>) = binv D s" "binv D (s\<lparr>lsize := i\<rparr>) = binv D s"
  "binv D (s\<lparr>ldev := w\<rparr>) = binv D s"
  "cabs D (s\<lparr>lhn := i\<rparr>) = cabs D s" "cabs D (s\<lparr>lhblock := bs\<rparr>) = cabs D s" "cabs D (s\<lparr>outstanding := i\<rparr>) = cabs D s"
  "cabs D (s\<lparr>committing := t\<rparr>) = cabs D s" "cabs D (s\<lparr>lstart := w\<rparr>) = cabs D s" "cabs D (s\<lparr>lsize := i\<rparr>) = cabs D s"
  "cabs D (s\<lparr>ldev := w\<rparr>) = cabs D s"
  "is_buf D (s\<lparr>lhn := i\<rparr>) = is_buf D s" "is_buf D (s\<lparr>lhblock := bs\<rparr>) = is_buf D s"
  by (simp_all add: binv_def cabs_def is_buf_def fun_eq_iff cong: option.case_cong)

lemma upt_first: "[t..<t + Suc k] = t # [Suc t..<Suc t + k]"
  by (simp add: upt_conv_Cons)

lemma write_log_loop_law:
  assumes "binv D s" and "ldev s = D" and "idle (cabs D s)" and "t + k \<le> LOGSIZE"
    and "\<And>i. t \<le> i \<Longrightarrow> i < t + k \<Longrightarrow> lhblock s i \<noteq> lstart s + of_nat i + 1 \<and> 0 < chold (cabs D s) (lhblock s i)"
  shows "\<exists>s'. write_log_loop k t s = Ok s' \<and> binv D s' \<and> bframe s' = bframe s \<and>
    cabs D s' = foldl (\<lambda>c i. c_copy (lhblock s i) (lstart s + of_nat i + 1) c) (cabs D s) [t..<t + k]"
  using assms
proof (induction k arbitrary: t s)
  case (Suc k)
  obtain s1 where s1: "write_log_one s t = Ok s1" "binv D s1" "bframe s1 = bframe s"
    "cabs D s1 = c_copy (lhblock s t) (lstart s + of_nat t + 1) (cabs D s)"
    using write_log_one_law [OF Suc.prems(1-3), of t] Suc.prems(4,5) by auto
  note f = log_frame [OF s1(3)]
  have "idle (cabs D s1)" "chold (cabs D s1) = chold (cabs D s)" using Suc.prems(3) by (simp_all add: s1(4) idle_copy)
  then obtain s2 where "write_log_loop k (Suc t) s1 = Ok s2" "binv D s2" "bframe s2 = bframe s1"
    "cabs D s2 = foldl (\<lambda>c i. c_copy (lhblock s i) (lstart s + of_nat i + 1) c) (cabs D s1) [Suc t..<Suc t + k]"
    using Suc.IH [OF s1(2), of "Suc t"] Suc.prems f by auto
  then show ?case using s1 unfolding upt_first by simp
qed simp

lemma install_loop_law:
  assumes "binv D s" and "ldev s = D" and "idle (cabs D s)" and "t + k \<le> LOGSIZE"
    and "\<And>i. t \<le> i \<Longrightarrow> i < t + k \<Longrightarrow> lstart s + of_nat i + 1 \<noteq> lhblock s i"
    and "if recovering then card {n. 0 < chold (cabs D s) n} + 1 < NBUF
      else inj_on (lhblock s) {t..<t + k} \<and> (\<forall>i \<in> {t..<t + k}. 0 < chold (cabs D s) (lhblock s i))"
  shows "\<exists>s'. install_loop recovering k t s = Ok s' \<and> binv D s' \<and> bframe s' = bframe s \<and>
    cabs D s' = foldl (\<lambda>c i. (if recovering then (\<lambda>c. c) else c_unpin (lhblock s i)) (c_copy (lstart s + of_nat i + 1) (lhblock s i) c))
      (cabs D s) [t..<t + k]"
  using assms
proof (induction k arbitrary: t s)
  case (Suc k)
  have h: "0 < chold (cabs D s) (lhblock s t) \<or> recovering \<and> card {n. 0 < chold (cabs D s) n} + 1 < NBUF"
    using Suc.prems(6) by (cases recovering) auto
  obtain s1 where s1: "install_one recovering s t = Ok s1" "binv D s1" "bframe s1 = bframe s"
    "cabs D s1 = (if recovering then (\<lambda>c. c) else c_unpin (lhblock s t)) (c_copy (lstart s + of_nat t + 1) (lhblock s t) (cabs D s))"
    using install_one_law [OF Suc.prems(1-3), of t recovering] Suc.prems(4,5) h by auto
  note f = log_frame [OF s1(3)]
  have i1: "idle (cabs D s1)" using Suc.prems(3) idle_unpin [of "c_copy (lstart s + of_nat t + 1) (lhblock s t) (cabs D s)"]
    held_finite [OF Suc.prems(1)] by (simp add: s1(4) idle_copy)
  have h1: "chold (cabs D s1) m = (if \<not> recovering \<and> m = lhblock s t then chold (cabs D s) m - 1 else chold (cabs D s) m)" for m
    by (simp add: s1(4) idle_copy c_unpin_def)
  have p1: "if recovering then card {n. 0 < chold (cabs D s1) n} + 1 < NBUF
      else inj_on (lhblock s) {Suc t..<Suc t + k} \<and> (\<forall>i \<in> {Suc t..<Suc t + k}. 0 < chold (cabs D s1) (lhblock s i))"
  proof (cases recovering)
    case True
    then show ?thesis using Suc.prems(6) h1 by simp
  next
    case False
    then have j: "inj_on (lhblock s) {t..<t + Suc k}" and pos: "\<forall>i \<in> {t..<t + Suc k}. 0 < chold (cabs D s) (lhblock s i)"
      using Suc.prems(6) by simp_all
    have "lhblock s i \<noteq> lhblock s t" if "i \<in> {Suc t..<Suc t + k}" for i
      using inj_onD [OF j, of i t] that by auto
    then show ?thesis using False h1 pos inj_on_subset [OF j, of "{Suc t..<Suc t + k}"] by auto
  qed
  obtain s2 where "install_loop recovering k (Suc t) s1 = Ok s2" "binv D s2" "bframe s2 = bframe s1"
    "cabs D s2 = foldl (\<lambda>c i. (if recovering then (\<lambda>c. c) else c_unpin (lhblock s i)) (c_copy (lstart s + of_nat i + 1) (lhblock s i) c))
      (cabs D s1) [Suc t..<Suc t + k]"
    using Suc.IH [OF s1(2), of "Suc t", unfolded f, OF Suc.prems(2) i1 _ _ p1] Suc.prems(4,5) by auto
  then show ?case using s1 unfolding upt_first by simp
qed simp

lemma write_head_loop_law:
  "i + k \<le> LOGSIZE \<Longrightarrow> \<exists>d'. write_head_loop k i bs d = Ok d' \<and> ld32 d' 0 = ld32 d 0 \<and>
    (\<forall>j. i \<le> j \<and> j < i + k \<longrightarrow> ld32 d' (4 + 4 * j) = bs j) \<and> (\<forall>j < i. ld32 d' (4 + 4 * j) = ld32 d (4 + 4 * j))"
proof (induction k arbitrary: i d)
  case (Suc k)
  let ?d = "st32 d (4 + 4 * i) (bs i)"
  obtain d' where d': "write_head_loop k (Suc i) bs ?d = Ok d'" "ld32 d' 0 = ld32 ?d 0"
    "\<forall>j. Suc i \<le> j \<and> j < Suc i + k \<longrightarrow> ld32 d' (4 + 4 * j) = bs j" "\<forall>j < Suc i. ld32 d' (4 + 4 * j) = ld32 ?d (4 + 4 * j)"
    using Suc.IH [of "Suc i" ?d] Suc.prems by auto
  have "ld32 d' (4 + 4 * j) = bs j" if "i \<le> j \<and> j < i + Suc k" for j
    using d'(3,4) that by (cases "j = i") auto
  moreover have "ld32 d' (4 + 4 * j) = ld32 d (4 + 4 * j)" if "j < i" for j using d'(4) that by simp
  ultimately show ?case using d'(1,2) Suc.prems by auto
qed auto

lemma read_head_loop_law:
  "i + k \<le> LOGSIZE \<Longrightarrow> \<exists>bs'. read_head_loop k i d bs = Ok bs' \<and> (\<forall>j. i \<le> j \<and> j < i + k \<longrightarrow> bs' j = ld32 d (4 + 4 * j)) \<and>
    (\<forall>j < i. bs' j = bs j)"
proof (induction k arbitrary: i bs)
  case (Suc k)
  define bi where "bi = bs(i := ld32 d (4 + 4 * i))"
  obtain bs' where b: "read_head_loop k (Suc i) d bi = Ok bs'"
    "\<forall>j. Suc i \<le> j \<and> j < Suc i + k \<longrightarrow> bs' j = ld32 d (4 + 4 * j)" "\<forall>j < Suc i. bs' j = bi j"
    using Suc.IH [of "Suc i" bi] Suc.prems by auto
  have "bs' j = ld32 d (4 + 4 * j)" if "i \<le> j \<and> j < i + Suc k" for j using b(2,3) that by (cases "j = i") (auto simp: bi_def)
  moreover have "bs' j = bs j" if "j < i" for j using b(3) that by (simp add: bi_def)
  ultimately show ?case using b(1) Suc.prems by (auto simp: bi_def)
qed auto

lemma write_head_law:
  assumes v: "binv D s" and d: "ldev s = D" and i: "idle (cabs D s)" and n: "0 \<le> lhn s" "nat (lhn s) \<le> LOGSIZE"
  shows "\<exists>s' h. write_head s = Ok s' \<and> binv D s' \<and> bframe s' = bframe s \<and> cabs D s' = c_write (lstart s) (c_set (lstart s) h (cabs D s)) \<and>
    ld32 h 0 = of_int (lhn s) \<and> (\<forall>j < nat (lhn s). ld32 h (4 + 4 * j) = lhblock s j)"
proof -
  obtain h where h: "write_head_loop (nat (lhn s)) 0 (lhblock s) (st32 (cview (cabs D s) (lstart s)) 0 (of_int (lhn s))) = Ok h"
    "ld32 h 0 = of_int (lhn s)" "\<forall>j < nat (lhn s). ld32 h (4 + 4 * j) = lhblock s j"
    using write_head_loop_law [of 0 "nat (lhn s)" "lhblock s" "st32 (cview (cabs D s) (lstart s)) 0 (of_int (lhn s))"] n(2) by auto
  have r: "readable (cabs D s) (lstart s)" using i by (simp add: idle_def readable_def)
  obtain b s1 s' where s1: "bread s D (lstart s) = Ok (b, s1)" "bdata (bufs s1 b) = cview (cabs D s) (lstart s)" "bframe s1 = bframe s"
    "bnd (bwrite (set_data s1 b h) b) (\<lambda>s. brelse s b) = Ok s'" "binv D s'" "bframe s' = bframe s"
    "cabs D s' = c_write (lstart s) (c_set (lstart s) h (cabs D s))" using bc.update_write [OF v r, of h] by blast
  have "write_head s = Ok s'" unfolding write_head_def d using s1(1,2,4) h(1) log_frame(6,7) [OF s1(3)] by simp
  then show ?thesis using s1 h by blast
qed

lemma read_head_law:
  assumes v: "binv D s" and d: "ldev s = D" and r: "readable (cabs D s) (lstart s)"
    and n: "nat (sint (ld32 (cview (cabs D s) (lstart s)) 0)) \<le> LOGSIZE"
  defines "h \<equiv> cview (cabs D s) (lstart s)"
  shows "\<exists>s' bs. read_head s = Ok s' \<and> binv D s' \<and> bframe s' = bframe (s\<lparr>lhn := sint (ld32 h 0), lhblock := bs\<rparr>) \<and> cabs D s' = cabs D s \<and>
    (\<forall>j < nat (sint (ld32 h 0)). bs j = ld32 h (4 + 4 * j))"
proof -
  obtain b s1 where s1: "bread s D (lstart s) = Ok (b, s1)" "binv D s1" "is_buf D s1 b (lstart s)"
    "cabs D s1 = c_get (curpid s) (lstart s) (cabs D s)" "bframe s1 = bframe s" using bc.rd_law [OF v r] by blast
  have dat: "bdata (bufs s1 b) = h" using bc.dat_law [OF s1(2,3)] s1(4) by (simp add: h_def c_get_def)
  obtain bs where bs: "read_head_loop (nat (sint (ld32 h 0))) 0 h (lhblock s1) = Ok bs" "\<forall>j < nat (sint (ld32 h 0)). bs j = ld32 h (4 + 4 * j)"
    using read_head_loop_law [of 0 "nat (sint (ld32 h 0))" h "lhblock s1"] n by (auto simp: h_def)
  let ?s = "s1\<lparr>lhn := sint (ld32 h 0), lhblock := bs\<rparr>"
  have p: "curpid ?s = curpid s" using log_frame(8) [OF s1(5)] by simp
  obtain s' where s': "brelse ?s b = Ok s'" "binv D s'" "cabs D s' = c_put (lstart s) (cabs D ?s)" "bframe s' = bframe ?s"
    using bc.rel_law [of D ?s b "lstart s"] s1 p bc.unheld_clean [OF v, of "lstart s"] by (auto simp: c_get_def)
  have "cabs D s' = cabs D s" unfolding s'(3) using r s1(4)
    by (intro cache.equality) (simp_all add: c_defs readable_def fun_upd_idem)
  moreover have "read_head s = Ok s'" unfolding read_head_def d using s1(1) dat bs(1) s'(1) by (simp add: Let_def)
  moreover have "bframe ?s = bframe (s\<lparr>lhn := sint (ld32 h 0), lhblock := bs\<rparr>)"
    using bframe_eq [OF s1(5)] by (cases s; cases s1) (simp add: bframe_def)
  ultimately show ?thesis using s' bs(2) by auto
qed

section \<open>Disk writes\<close>

definition wapply :: "(u32 \<times> block) list \<Rightarrow> (u32 \<Rightarrow> block) \<Rightarrow> u32 \<Rightarrow> block" where
  "wapply ws d = foldl (\<lambda>d w. d(fst w := snd w)) d ws"

lemma wapply_simps [simp]:
  "wapply [] d = d" "wapply (w # ws) d = wapply ws (d(fst w := snd w))" "wapply (xs @ ys) d = wapply ys (wapply xs d)"
  by (simp_all add: wapply_def)

lemma wapply_other: "n \<notin> fst ` set ws \<Longrightarrow> wapply ws d n = d n"
  by (induction ws arbitrary: d) simp_all

text \<open>The contents of a block to which every write has the same data.\<close>

lemma wapply_same: "\<forall>w \<in> set ws. fst w = n \<longrightarrow> snd w = y \<Longrightarrow> d n = y \<or> n \<in> fst ` set ws \<Longrightarrow> wapply ws d n = y"
proof (induction ws arbitrary: d)
  case (Cons w ws)
  have "(d(fst w := snd w)) n = y \<or> n \<in> fst ` set ws" using Cons.prems by (cases "n = fst w") simp_all
  then show ?case using Cons.IH [of "d(fst w := snd w)"] Cons.prems(1) by (simp del: fun_upd_apply)
qed simp

lemma wkeys: "m \<in> fst ` set (map (\<lambda>i. (k i, w i)) [0..<n]) \<longleftrightarrow> (\<exists>i < n. m = k i)"
  by (auto simp: image_image)

text \<open>A sequence of copies between blocks that do not overlap.\<close>

lemma copies:
  fixes f :: "nat \<Rightarrow> cache \<Rightarrow> cache"
  assumes "\<And>i j. i \<in> set js \<Longrightarrow> j \<in> set js \<Longrightarrow> src i \<noteq> dst j"
    and keep: "\<And>i c. cview (f i c) = cview c \<and> cdisk (f i c) = cdisk c \<and> cwrites (f i c) = cwrites c"
  shows "let c' = foldl (\<lambda>c i. f i (c_copy (src i) (dst i) c)) c js; ws = map (\<lambda>i. (dst i, cview c (src i))) js in
    cview c' = wapply ws (cview c) \<and> cdisk c' = wapply ws (cdisk c) \<and> cwrites c' = cwrites c @ ws"
  using assms(1)
proof (induction js arbitrary: c)
  case (Cons t ts)
  define c1 where "c1 = f t (c_copy (src t) (dst t) c)"
  have c: "cview c1 = (cview c)(dst t := cview c (src t))" "cdisk c1 = (cdisk c)(dst t := cview c (src t))"
    "cwrites c1 = cwrites c @ [(dst t, cview c (src t))]"
    using keep [of t "c_copy (src t) (dst t) c"] by (simp_all add: c1_def c_copy_def c_write_def c_set_def)
  have m: "map (\<lambda>i. (dst i, cview c1 (src i))) ts = map (\<lambda>i. (dst i, cview c (src i))) ts"
    using Cons.prems by (auto simp: c(1))
  show ?case using Cons.IH [of c1] Cons.prems c unfolding m by (simp add: Let_def c1_def [symmetric] del: fun_upd_apply)
qed (simp add: Let_def)

lemma copies_hold:
  "chold (foldl (\<lambda>c i. c_copy (src i) (dst i) c) c js) = chold c \<and> clock (foldl (\<lambda>c i. c_copy (src i) (dst i) c) c js) = clock c"
  by (induction js arbitrary: c) (simp_all add: c_copy_def c_write_def c_set_def)

lemma copies_unpin_hold:
  assumes "inj_on dst (set js)" and "distinct js"
  shows "chold (foldl (\<lambda>c i. c_unpin (dst i) (c_copy (src i) (dst i) c)) c js) m =
      (if m \<in> dst ` set js then chold c m - 1 else chold c m) \<and>
    clock (foldl (\<lambda>c i. c_unpin (dst i) (c_copy (src i) (dst i) c)) c js) = clock c"
  using assms
proof (induction js arbitrary: c)
  case (Cons i js)
  let ?c = "c_unpin (dst i) (c_copy (src i) (dst i) c)"
  have "chold ?c = (chold c)(dst i := chold c (dst i) - 1)" "clock ?c = clock c"
    by (simp_all add: c_unpin_def c_copy_def c_write_def c_set_def)
  moreover have "dst i \<notin> dst ` set js" using Cons.prems by auto
  ultimately show ?case using Cons.IH [of ?c] Cons.prems by (auto simp: inj_on_def)
qed simp

section \<open>The commit\<close>

text \<open>Block \<open>m\<close> is one of the log's: the header and its data blocks.\<close>

definition in_log :: "u32 \<Rightarrow> u32 \<Rightarrow> bool" where
  "in_log L m \<longleftrightarrow> unat (m - L) < LOGSIZE"

lemma unat_log_index: "i < LOGSIZE \<Longrightarrow> unat (of_nat i + 1 :: u32) = i + 1"
  by (simp add: LOGSIZE_val unat_word_ariths unat_of_nat take_bit_nat_eq_self)

lemma in_log_data: "i + 1 < LOGSIZE \<Longrightarrow> in_log L (L + of_nat i + 1)" "in_log L L"
proof -
  have "L + of_nat i + 1 - L = of_nat i + 1" by simp
  then show "i + 1 < LOGSIZE \<Longrightarrow> in_log L (L + of_nat i + 1)" using unat_log_index [of i] unfolding in_log_def by simp
qed (simp add: in_log_def LOGSIZE_val)

lemma log_data_inj: "i < LOGSIZE \<Longrightarrow> j < LOGSIZE \<Longrightarrow> L + of_nat i + 1 = (L + of_nat j + 1 :: u32) \<longleftrightarrow> i = j"
proof -
  assume i: "i < LOGSIZE" "j < LOGSIZE"
  have "L + of_nat i + 1 = (L + of_nat j + 1 :: u32) \<longleftrightarrow> of_nat i + 1 = (of_nat j + 1 :: u32)" by simp
  also have "\<dots> \<longleftrightarrow> i + 1 = j + 1" unfolding word_unat_eq_iff unat_log_index [OF i(1)] unat_log_index [OF i(2)] ..
  finally show ?thesis by simp
qed

lemma log_data_ne: "i < LOGSIZE \<Longrightarrow> L + of_nat i + 1 \<noteq> (L :: u32)"
proof -
  assume "i < LOGSIZE"
  then have "unat (of_nat i + 1 :: u32) = i + 1" by (rule unat_log_index)
  then have "(of_nat i + 1 :: u32) \<noteq> 0" by (metis add_is_0 one_neq_zero unat_0)
  then show ?thesis by (simp add: add.assoc)
qed

text \<open>
  Between the operations of a transaction: nothing is locked, each logged block is pinned once and
  no other block is held, every block that is not logged is clean, and the header on disk is empty.
\<close>

definition log_ok :: "'a logst_scheme \<Rightarrow> bool" where
  "log_ok s \<longleftrightarrow> binv (ldev s) s \<and> idle (cabs (ldev s) s) \<and> 0 \<le> lhn s \<and> nat (lhn s) < LOGSIZE \<and>
     inj_on (lhblock s) {..<nat (lhn s)} \<and>
     (\<forall>i < nat (lhn s). \<not> in_log (lstart s) (lhblock s i)) \<and>
     (\<forall>m. chold (cabs (ldev s) s) m = (if m \<in> lhblock s ` {..<nat (lhn s)} then 1 else 0)) \<and>
     (\<forall>m. \<not> in_log (lstart s) m \<and> m \<notin> lhblock s ` {..<nat (lhn s)} \<longrightarrow> cview (cabs (ldev s) s) m = disk s m) \<and>
     ld32 (disk s (lstart s)) 0 = 0"

text \<open>The disk writes of a commit, with the two headers that it writes.\<close>

definition commit_writes :: "u32 \<Rightarrow> nat \<Rightarrow> (nat \<Rightarrow> u32) \<Rightarrow> (nat \<Rightarrow> block) \<Rightarrow> block \<Rightarrow> block \<Rightarrow> (u32 \<times> block) list" where
  "commit_writes L n bs v h1 h0 =
     map (\<lambda>i. (L + of_nat i + 1, v i)) [0..<n] @ (L, h1) # map (\<lambda>i. (bs i, v i)) [0..<n] @ [(L, h0)]"

lemma c_head:
  "cview (c_write n (c_set n h c)) = (cview c)(n := h)" "cdisk (c_write n (c_set n h c)) = (cdisk c)(n := h)"
  "cwrites (c_write n (c_set n h c)) = cwrites c @ [(n, h)]" "chold (c_write n (c_set n h c)) = chold c"
  "clock (c_write n (c_set n h c)) = clock c" "idle (c_write n (c_set n h c)) = idle c"
  by (simp_all add: c_write_def c_set_def idle_def)

lemma write_log_law:
  assumes v: "binv D s" and f: "ldev s = D" "lstart s = L" "lhn s = int n" "lhblock s = bs" and n: "n \<le> LOGSIZE"
    and i: "idle (cabs D s)" and ne: "\<And>i j. i < n \<Longrightarrow> j < n \<Longrightarrow> bs i \<noteq> L + of_nat j + 1"
    and pin: "\<And>i. i < n \<Longrightarrow> 0 < chold (cabs D s) (bs i)"
  defines "ws \<equiv> map (\<lambda>i. (L + of_nat i + 1, cview (cabs D s) (bs i))) [0..<n]"
  shows "\<exists>s'. write_log s = Ok s' \<and> binv D s' \<and> bframe s' = bframe s \<and> cview (cabs D s') = wapply ws (cview (cabs D s)) \<and>
    cdisk (cabs D s') = wapply ws (cdisk (cabs D s)) \<and> cwrites (cabs D s') = cwrites (cabs D s) @ ws \<and>
    chold (cabs D s') = chold (cabs D s) \<and> clock (cabs D s') = clock (cabs D s)"
proof -
  obtain s1 where s1: "write_log s = Ok s1" "binv D s1" "bframe s1 = bframe s"
    "cabs D s1 = foldl (\<lambda>c i. c_copy (bs i) (L + of_nat i + 1) c) (cabs D s) [0..<n]"
    using write_log_loop_law [OF v f(1) i, of 0 n] n ne pin unfolding write_log_def f by auto
  note cs = copies [where js = "[0..<n]" and src = bs and dst = "\<lambda>i. L + of_nat i + 1" and f = "\<lambda>_ c. c" and c = "cabs D s"]
  have "bs i \<noteq> L + of_nat j + 1" if "i \<in> set [0..<n]" "j \<in> set [0..<n]" for i j using ne that by simp
  then have "cview (cabs D s1) = wapply ws (cview (cabs D s)) \<and> cdisk (cabs D s1) = wapply ws (cdisk (cabs D s)) \<and>
      cwrites (cabs D s1) = cwrites (cabs D s) @ ws"
    using cs unfolding s1(4) ws_def Let_def by blast
  moreover have "chold (cabs D s1) = chold (cabs D s) \<and> clock (cabs D s1) = clock (cabs D s)"
    unfolding s1(4) by (rule copies_hold)
  ultimately show ?thesis using s1(1-3) by blast
qed

lemma install_commit_law:
  assumes v: "binv D s" and f: "ldev s = D" "lstart s = L" "lhn s = int n" "lhblock s = bs" and n: "n \<le> LOGSIZE"
    and i: "idle (cabs D s)" and ne: "\<And>i j. i < n \<Longrightarrow> j < n \<Longrightarrow> L + of_nat i + 1 \<noteq> bs j"
    and inj: "inj_on bs {..<n}" and pin: "\<And>i. i < n \<Longrightarrow> 0 < chold (cabs D s) (bs i)"
  defines "ws \<equiv> map (\<lambda>i. (bs i, cview (cabs D s) (L + of_nat i + 1))) [0..<n]"
  shows "\<exists>s'. install_trans s False = Ok s' \<and> binv D s' \<and> bframe s' = bframe s \<and> cview (cabs D s') = wapply ws (cview (cabs D s)) \<and>
    cdisk (cabs D s') = wapply ws (cdisk (cabs D s)) \<and> cwrites (cabs D s') = cwrites (cabs D s) @ ws \<and>
    (\<forall>m. chold (cabs D s') m = (if m \<in> bs ` {..<n} then chold (cabs D s) m - 1 else chold (cabs D s) m)) \<and>
    clock (cabs D s') = clock (cabs D s) \<and> idle (cabs D s')"
proof -
  have p: "if False then card {n. 0 < chold (cabs D s) n} + 1 < NBUF
      else inj_on bs {0..<0 + n} \<and> (\<forall>i \<in> {0..<0 + n}. 0 < chold (cabs D s) (bs i))"
    using inj pin by (simp add: lessThan_atLeast0)
  obtain s1 where s1: "install_trans s False = Ok s1" "binv D s1" "bframe s1 = bframe s"
    "cabs D s1 = foldl (\<lambda>c i. c_unpin (bs i) (c_copy (L + of_nat i + 1) (bs i) c)) (cabs D s) [0..<n]"
    using install_loop_law [OF v f(1) i, of 0 n False, unfolded f, OF _ _ p] n ne unfolding install_trans_def f by auto
  note cs = copies [where js = "[0..<n]" and dst = bs and src = "\<lambda>i. L + of_nat i + 1" and f = "\<lambda>i. c_unpin (bs i)" and c = "cabs D s"]
  have "L + of_nat i + 1 \<noteq> bs j" if "i \<in> set [0..<n]" "j \<in> set [0..<n]" for i j using ne that by simp
  moreover have "cview (c_unpin m c) = cview c \<and> cdisk (c_unpin m c) = cdisk c \<and> cwrites (c_unpin m c) = cwrites c" for m c
    by (simp add: c_unpin_def)
  ultimately have "cview (cabs D s1) = wapply ws (cview (cabs D s)) \<and> cdisk (cabs D s1) = wapply ws (cdisk (cabs D s)) \<and>
      cwrites (cabs D s1) = cwrites (cabs D s) @ ws"
    using cs unfolding s1(4) ws_def Let_def by blast
  moreover have h: "chold (cabs D s1) m = (if m \<in> bs ` {..<n} then chold (cabs D s) m - 1 else chold (cabs D s) m) \<and>
      clock (cabs D s1) = clock (cabs D s)" for m
    unfolding s1(4) using copies_unpin_hold [of bs "[0..<n]"] inj by (simp add: lessThan_atLeast0)
  moreover have "idle (cabs D s1)"
  proof -
    have "{m. 0 < chold (cabs D s1) m} \<subseteq> {m. 0 < chold (cabs D s) m}" using h by (auto split: if_splits)
    then have "card {m. 0 < chold (cabs D s1) m} \<le> card {m. 0 < chold (cabs D s) m}" by (rule card_mono [OF held_finite [OF v]])
    moreover have "chold (cabs D s1) m \<le> chold (cabs D s) m" for m using h by simp
    ultimately show ?thesis using i h unfolding idle_def by (metis le_less_trans)
  qed
  ultimately show ?thesis using s1(1-3) by blast
qed

lemma log_okD:
  assumes "log_ok s"
  shows "binv (ldev s) s" "idle (cabs (ldev s) s)" "lhn s = int (nat (lhn s))" "nat (lhn s) < LOGSIZE"
    "inj_on (lhblock s) {..<nat (lhn s)}" "\<And>i. i < nat (lhn s) \<Longrightarrow> \<not> in_log (lstart s) (lhblock s i)"
    "\<And>i. i < nat (lhn s) \<Longrightarrow> 0 < chold (cabs (ldev s) s) (lhblock s i)" "ld32 (disk s (lstart s)) 0 = 0"
    "\<And>m. \<not> in_log (lstart s) m \<Longrightarrow> m \<notin> lhblock s ` {..<nat (lhn s)} \<Longrightarrow> cview (cabs (ldev s) s) m = disk s m"
    "\<And>m. chold (cabs (ldev s) s) m = (if m \<in> lhblock s ` {..<nat (lhn s)} then 1 else 0)"
  using assms by (simp_all add: log_ok_def)

lemma log_sep:
  assumes "\<not> in_log L m" and "j + 1 < LOGSIZE"
  shows "m \<noteq> L + of_nat j + 1" and "m \<noteq> L"
  using assms in_log_data by auto

lemma commit_law:
  assumes ok: "log_ok s" and pos: "0 < lhn s" and f: "ldev s = D" "lstart s = L" "nat (lhn s) = n" "lhblock s = bs"
  defines "c \<equiv> cabs D s"
  shows "\<exists>s' h1 h0. commit s = Ok s' \<and> binv D s' \<and> bframe s' = bframe (s\<lparr>lhn := 0\<rparr>) \<and>
    ld32 h1 0 = of_nat n \<and> (\<forall>j < n. ld32 h1 (4 + 4 * j) = bs j) \<and> ld32 h0 0 = 0 \<and>
    cwrites (cabs D s') = cwrites c @ commit_writes L n bs (\<lambda>i. cview c (bs i)) h1 h0 \<and>
    cdisk (cabs D s') = wapply (commit_writes L n bs (\<lambda>i. cview c (bs i)) h1 h0) (cdisk c) \<and>
    (\<forall>m. \<not> in_log L m \<longrightarrow> cview (cabs D s') m = cview c m) \<and> idle (cabs D s') \<and>
    (\<forall>m. chold (cabs D s') m = (if m \<in> bs ` {..<n} then chold c m - 1 else chold c m))"
proof -
  define v where "v i = cview c (bs i)" for i
  note o = log_okD [OF ok, unfolded f]
  have n: "n \<le> LOGSIZE" and ln: "lhn s = int n" using o(3,4) f(3) by simp_all
  have sep: "bs i \<noteq> L + of_nat j + 1" "L + of_nat j + 1 \<noteq> bs i" "bs i \<noteq> L" if "i < n" "j < n" for i j
    using log_sep [OF o(6) [OF that(1)], of j] that o(4) by auto
  define ws1 where "ws1 = map (\<lambda>i. (L + of_nat i + 1, v i)) [0..<n]"
  define ws2 where "ws2 = map (\<lambda>i. (bs i, v i)) [0..<n]"
  obtain s1 where s1: "write_log s = Ok s1" "binv D s1" "bframe s1 = bframe s" "cview (cabs D s1) = wapply ws1 (cview c)"
    "cdisk (cabs D s1) = wapply ws1 (cdisk c)" "cwrites (cabs D s1) = cwrites c @ ws1" "chold (cabs D s1) = chold c" "clock (cabs D s1) = clock c"
    using write_log_law [OF o(1) f(1,2) ln f(4) n o(2) sep(1) o(7)] unfolding ws1_def v_def c_def by blast
  note f1 = log_frame [OF s1(3), unfolded f ln]
  have i1: "idle (cabs D s1)" using o(2) s1(7,8) by (simp add: idle_def c_def)
  obtain s2 h1 where s2: "write_head s1 = Ok s2" "binv D s2" "bframe s2 = bframe s1"
    "cabs D s2 = c_write L (c_set L h1 (cabs D s1))" "ld32 h1 0 = of_nat n" "\<forall>j < n. ld32 h1 (4 + 4 * j) = bs j"
    using write_head_law [OF s1(2) f1(5) i1, unfolded f1] n by auto
  note f2 = log_frame [OF s2(3), unfolded f1]
  have v2: "cview (cabs D s2) (L + of_nat i + 1) = v i" if "i < n" for i
  proof -
    have "L + of_nat i + 1 \<in> fst ` set ws1" using that by (simp add: ws1_def image_image)
    moreover have "\<forall>w \<in> set ws1. fst w = L + of_nat i + 1 \<longrightarrow> snd w = v i"
      using that log_data_inj [of _ i L] o(4) by (auto simp: ws1_def)
    ultimately have "wapply ws1 (cview c) (L + of_nat i + 1) = v i" by (intro wapply_same) simp_all
    then show ?thesis using log_data_ne [of i L] that o(4) unfolding s2(4) c_head(1) s1(4) by simp
  qed
  have i2: "idle (cabs D s2)" "chold (cabs D s2) = chold c" using i1 s1(7) by (simp_all add: s2(4) c_head)
  have w2: "map (\<lambda>i. (bs i, cview (cabs D s2) (L + of_nat i + 1))) [0..<n] = ws2" using v2 by (simp add: ws2_def)
  have p2: "0 < chold (cabs D s2) (bs i)" if "i < n" for i using o(7) [OF that] i2(2) by (simp add: c_def)
  obtain s3 where s3: "install_trans s2 False = Ok s3" "binv D s3" "bframe s3 = bframe s2" "cview (cabs D s3) = wapply ws2 (cview (cabs D s2))"
    "cdisk (cabs D s3) = wapply ws2 (cdisk (cabs D s2))" "cwrites (cabs D s3) = cwrites (cabs D s2) @ ws2"
    "\<forall>m. chold (cabs D s3) m = (if m \<in> bs ` {..<n} then chold c m - 1 else chold c m)" "idle (cabs D s3)"
    using install_commit_law [OF s2(2) f2(5,1,6,7) n i2(1) sep(2) o(5) p2] unfolding w2 i2(2) by blast
  note f3 = log_frame [OF s3(3), unfolded f2]
  have "binv D (s3\<lparr>lhn := 0\<rparr>)" "ldev (s3\<lparr>lhn := 0\<rparr>) = D" "idle (cabs D (s3\<lparr>lhn := 0\<rparr>))" using s3(2,8) f3(5) by simp_all
  from write_head_law [OF this] obtain s4 h0 where s4: "write_head (s3\<lparr>lhn := 0\<rparr>) = Ok s4" "binv D s4" "bframe s4 = bframe (s3\<lparr>lhn := 0\<rparr>)"
    "cabs D s4 = c_write L (c_set L h0 (cabs D s3))" "ld32 h0 0 = 0" using f3(1) by auto
  have W: "commit_writes L n bs v h1 h0 = ws1 @ (L, h1) # ws2 @ [(L, h0)]" by (simp add: commit_writes_def ws1_def ws2_def)
  have "commit s = Ok s4" using pos s1(1) s2(1) s3(1) s4(1) by (simp add: commit_def)
  moreover have "bframe s4 = bframe (s\<lparr>lhn := 0\<rparr>)"
    unfolding s4(3) using s3(3) s2(3) s1(3) by (cases s; cases s3) (simp add: bframe_def)
  moreover have "cwrites (cabs D s4) = cwrites c @ commit_writes L n bs v h1 h0"
    unfolding W s4(4) c_head s3(6) s2(4) s1(6) by simp
  moreover have "cdisk (cabs D s4) = wapply (commit_writes L n bs v h1 h0) (cdisk c)"
    unfolding W s4(4) c_head s3(5) s2(4) s1(5) by simp
  moreover have "cview (cabs D s4) m = cview c m" if m: "\<not> in_log L m" for m
  proof -
    have mL: "m \<noteq> L" using log_sep(2) [OF m, of 0] by (simp add: LOGSIZE_val)
    have "m \<noteq> L + of_nat x + 1" if "x < n" for x using log_sep(1) [OF m, of x] o(4) that by simp
    then have "m \<notin> fst ` set ws1" unfolding ws1_def wkeys by blast
    then have e: "cview (cabs D s2) m = cview c m" using mL by (simp add: s2(4) c_head s1(4) wapply_other)
    have "wapply ws2 (cview (cabs D s2)) m = cview c m"
      by (rule wapply_same) (auto simp: ws2_def v_def e)
    then show ?thesis using mL by (simp add: s4(4) c_head s3(4))
  qed
  moreover have "idle (cabs D s4)" "chold (cabs D s4) = chold (cabs D s3)" using s3(8) by (simp_all add: s4(4) c_head)
  ultimately show ?thesis using s4(2,5) s2(5,6) s3(7) unfolding v_def by auto
qed

section \<open>Recovery\<close>

text \<open>The machine when the kernel starts on a disk, and the part of \<^verbatim>\<open>fsinit\<close> that recovers it.\<close>

definition log_boot :: "(u32 \<Rightarrow> block) \<Rightarrow> logst" where
  "log_boot d = \<lparr>bufs = (\<lambda>_. zero_buf), disk = d, dwrites = [], curpid = 1, lstart = 0, lsize = 0, outstanding = 0,
     committing = False, ldev = 0, lhn = 0, lhblock = (\<lambda>_. 0)\<rparr>"

definition recover :: "(u32 \<Rightarrow> block) \<Rightarrow> u32 \<Rightarrow> superblock \<Rightarrow> logst res" where
  "recover d dev sb = initlog (binit (log_boot d)) dev sb"

definition hdn :: "block \<Rightarrow> nat" where "hdn h = nat (sint (ld32 h 0))"
definition hdb :: "block \<Rightarrow> nat \<Rightarrow> u32" where "hdb h i = ld32 h (4 + 4 * i)"

definition header_ok :: "u32 \<Rightarrow> block \<Rightarrow> bool" where
  "header_ok L h \<longleftrightarrow> hdn h < LOGSIZE \<and> (\<forall>i < hdn h. \<not> in_log L (hdb h i))"

text \<open>The writes of a recovery, but for the last, and the disk that they make.\<close>

definition replay_writes :: "u32 \<Rightarrow> (u32 \<Rightarrow> block) \<Rightarrow> (u32 \<times> block) list" where
  "replay_writes L d = map (\<lambda>i. (hdb (d L) i, d (L + of_nat i + 1))) [0..<hdn (d L)]"

definition replay :: "u32 \<Rightarrow> (u32 \<Rightarrow> block) \<Rightarrow> u32 \<Rightarrow> block" where
  "replay L d = wapply (replay_writes L d) d"

lemma install_recover_law:
  assumes v: "binv D s" and f: "ldev s = D" "lstart s = L" "nat (lhn s) = n" "lhblock s = bs" and n: "n \<le> LOGSIZE"
    and i: "idle (cabs D s)" and ne: "\<And>i j. i < n \<Longrightarrow> j < n \<Longrightarrow> L + of_nat i + 1 \<noteq> bs j" and z: "chold (cabs D s) = (\<lambda>_. 0)"
  defines "ws \<equiv> map (\<lambda>i. (bs i, cview (cabs D s) (L + of_nat i + 1))) [0..<n]"
  shows "\<exists>s'. install_trans s True = Ok s' \<and> binv D s' \<and> bframe s' = bframe s \<and> cview (cabs D s') = wapply ws (cview (cabs D s)) \<and>
    cdisk (cabs D s') = wapply ws (cdisk (cabs D s)) \<and> cwrites (cabs D s') = cwrites (cabs D s) @ ws \<and>
    chold (cabs D s') = (\<lambda>_. 0) \<and> clock (cabs D s') = clock (cabs D s)"
proof -
  have p: "if True then card {n. 0 < chold (cabs D s) n} + 1 < NBUF
      else inj_on bs {0..<0 + n} \<and> (\<forall>i \<in> {0..<0 + n}. 0 < chold (cabs D s) (bs i))"
    by (simp add: z NBUF_val)
  obtain s1 where s1: "install_trans s True = Ok s1" "binv D s1" "bframe s1 = bframe s"
    "cabs D s1 = foldl (\<lambda>c i. c_copy (L + of_nat i + 1) (bs i) c) (cabs D s) [0..<n]"
    using install_loop_law [OF v f(1) i, of 0 n True, unfolded f, OF _ _ p] n ne unfolding install_trans_def f by auto
  note cs = copies [where js = "[0..<n]" and dst = bs and src = "\<lambda>i. L + of_nat i + 1" and f = "\<lambda>_ c. c" and c = "cabs D s"]
  have "L + of_nat i + 1 \<noteq> bs j" if "i \<in> set [0..<n]" "j \<in> set [0..<n]" for i j using ne that by simp
  then have "cview (cabs D s1) = wapply ws (cview (cabs D s)) \<and> cdisk (cabs D s1) = wapply ws (cdisk (cabs D s)) \<and>
      cwrites (cabs D s1) = cwrites (cabs D s) @ ws"
    using cs unfolding s1(4) ws_def Let_def by blast
  moreover have "chold (cabs D s1) = (\<lambda>_. 0) \<and> clock (cabs D s1) = clock (cabs D s)"
    using copies_hold [of "\<lambda>i. L + of_nat i + 1" bs "cabs D s" "[0..<n]"] unfolding s1(4) by (simp add: z)
  ultimately show ?thesis using s1(1-3) by blast
qed

lemma recover_law:
  assumes ok: "header_ok L (d L)" and sb: "sb_logstart sb = L" and D: "D \<noteq> 0"
  shows "\<exists>s' h. recover d D sb = Ok s' \<and> ld32 h 0 = 0 \<and> dwrites s' = replay_writes L d @ [(L, h)] \<and>
    disk s' = wapply (replay_writes L d @ [(L, h)]) d \<and> log_ok s' \<and> lhn s' = 0 \<and> outstanding s' = 0 \<and> \<not> committing s' \<and>
    lstart s' = L \<and> ldev s' = D \<and> lsize s' = sint (sb_nlog sb) \<and> cview (cabs D s') = disk s' \<and> chold (cabs D s') = (\<lambda>_. 0)"
proof -
  define s0 where "s0 = (binit (log_boot d))\<lparr>lstart := L, lsize := sint (sb_nlog sb), ldev := D\<rparr>"
  have lb: "bufs (log_boot d) = (\<lambda>_. zero_buf)" "disk (log_boot d) = d" "dwrites (log_boot d) = []" "lhblock (log_boot d) = (\<lambda>_. 0)"
    "outstanding (log_boot d) = 0" "\<not> committing (log_boot d)" by (simp_all add: log_boot_def)
  note b = binit_law [OF lb(1) D]
  have v0: "binv D s0" and c0: "cabs D s0 = c_boot d []" using b lb by (simp_all add: s0_def)
  have f0: "ldev s0 = D" "lstart s0 = L" "lhblock s0 = (\<lambda>_. 0)" "outstanding s0 = 0" "\<not> committing s0" "lsize s0 = sint (sb_nlog sb)"
    using log_frame [OF b(3)] lb by (simp_all add: s0_def)
  have h: "cview (cabs D s0) (lstart s0) = d L" by (simp add: c0 c_boot_def f0)
  obtain s1 bs where s1: "read_head s0 = Ok s1" "binv D s1" "bframe s1 = bframe (s0\<lparr>lhn := sint (ld32 (d L) 0), lhblock := bs\<rparr>)"
    "cabs D s1 = c_boot d []" "\<And>j. j < hdn (d L) \<Longrightarrow> bs j = hdb (d L) j"
    using read_head_law [OF v0 f0(1), unfolded h] readable_boot ok by (auto simp: c0 header_ok_def hdn_def hdb_def)
  note f1 = log_frame [OF s1(3), simplified, unfolded f0]
  have n1: "nat (lhn s1) = hdn (d L)" by (simp add: f1 hdn_def)
  have i1: "idle (cabs D s1)" by (simp add: s1(4) idle_def c_boot_def NBUF_val)
  have ne: "L + of_nat i + 1 \<noteq> bs j" if "i < hdn (d L)" "j < hdn (d L)" for i j
    using log_sep(1) [of L "hdb (d L) j" i] ok that s1(5) by (auto simp: header_ok_def)
  have w: "map (\<lambda>i. (bs i, cview (cabs D s1) (L + of_nat i + 1))) [0..<hdn (d L)] = replay_writes L d"
    using s1(5) by (simp add: replay_writes_def s1(4) c_boot_def)
  obtain s2 where s2: "install_trans s1 True = Ok s2" "binv D s2" "bframe s2 = bframe s1" "cdisk (cabs D s2) = wapply (replay_writes L d) d"
    "cwrites (cabs D s2) = replay_writes L d" "chold (cabs D s2) = (\<lambda>_. 0)" "clock (cabs D s2) = (\<lambda>_. None)"
    using install_recover_law [OF s1(2) f1(5,1) n1 f1(7) _ i1 ne] ok unfolding w by (auto simp: s1(4) c_boot_def header_ok_def)
  note f2 = log_frame [OF s2(3), unfolded f1]
  have "binv D (s2\<lparr>lhn := 0\<rparr>)" "ldev (s2\<lparr>lhn := 0\<rparr>) = D" "idle (cabs D (s2\<lparr>lhn := 0\<rparr>))"
    using s2(2,6,7) f2(5) by (simp_all add: idle_def NBUF_val)
  from write_head_law [OF this] obtain s3 h where s3: "write_head (s2\<lparr>lhn := 0\<rparr>) = Ok s3" "binv D s3" "bframe s3 = bframe (s2\<lparr>lhn := 0\<rparr>)"
    "cabs D s3 = c_write L (c_set L h (cabs D s2))" "ld32 h 0 = 0" using f2(1) by auto
  note f3 = log_frame [OF s3(3), simplified, unfolded f2]
  have k: "cdisk (cabs D s3) = disk s3" "cwrites (cabs D s3) = dwrites s3" by (simp_all add: cabs_def)
  have z: "chold (cabs D s3) = (\<lambda>_. 0)" "clock (cabs D s3) = (\<lambda>_. None)" using s2(6,7) by (simp_all add: s3(4) c_head)
  have cv: "cview (cabs D s3) = disk s3" using bc.unheld_clean [OF s3(2)] z(1) k(1) by (simp add: fun_eq_iff)
  have dk: "disk s3 = wapply (replay_writes L d @ [(L, h)]) d" "dwrites s3 = replay_writes L d @ [(L, h)]"
    using s2(4,5) by (simp_all add: k [symmetric] s3(4) c_head)
  have "log_ok s3" unfolding log_ok_def f3
    using s3(2,5) z cv by (simp add: idle_def NBUF_val LOGSIZE_val dk(1))
  moreover have "recover d D sb = Ok s3"
    using s1(1) s2(1) s3(1) by (simp add: recover_def initlog_def recover_from_log_def LOGSIZE_val BSIZE_def sb s0_def [symmetric])
  ultimately show ?thesis using s3(5) dk z(1) f3 cv f0 by auto
qed

section \<open>Crashes\<close>

lemma wapply_keys: "m \<in> fst ` set ws \<Longrightarrow> wapply ws d m = wapply ws e m"
proof (induction ws arbitrary: d e)
  case (Cons w ws)
  show ?case
  proof (cases "m \<in> fst ` set ws")
    case False
    then show ?thesis using Cons.prems by (simp add: wapply_other)
  qed (simp add: Cons.IH)
qed simp

lemma wapply_again: "set vs \<subseteq> set ws \<Longrightarrow> wapply ws (wapply vs d) m = wapply ws d m"
proof (cases "m \<in> fst ` set ws")
  case False
  moreover assume "set vs \<subseteq> set ws"
  ultimately have "m \<notin> fst ` set vs" by blast
  with False show ?thesis by (simp add: wapply_other)
qed (rule wapply_keys)

lemma replay_keys:
  assumes "header_ok L (d L)" and "w \<in> set (replay_writes L d)"
  shows "\<not> in_log L (fst w)"
  using assms by (auto simp: replay_writes_def header_ok_def)

lemma outside_log:
  assumes "\<And>w. w \<in> set ws \<Longrightarrow> \<not> in_log L (fst w)" and "in_log L m"
  shows "wapply ws d m = d m"
  using assms by (intro wapply_other) auto

lemma hdn_zero: "ld32 h 0 = 0 \<Longrightarrow> hdn h = 0" "ld32 h 0 = 0 \<Longrightarrow> header_ok L h"
  by (simp_all add: hdn_def header_ok_def LOGSIZE_val)

lemma replay_empty: "hdn (d L) = 0 \<Longrightarrow> replay L d = d"
  by (simp add: replay_def replay_writes_def)

lemma replay_writes_cong:
  assumes "e L = d L" and "\<And>i. i < hdn (d L) \<Longrightarrow> e (L + of_nat i + 1) = d (L + of_nat i + 1)"
  shows "replay_writes L e = replay_writes L d"
  using assms by (simp add: replay_writes_def)

text \<open>A crash during recovery: recovering again gives the same disk.\<close>

lemma recovery_prefix:
  fixes k :: nat
  assumes ok: "header_ok L (d L)" and h: "ld32 h 0 = 0" and m: "\<not> in_log L m"
  defines "ws \<equiv> replay_writes L d @ [(L, h)]"
  defines "e \<equiv> wapply (take k ws) d"
  shows "header_ok L (e L)" and "replay L e m = replay L d m"
proof -
  have mL: "m \<noteq> L" using m in_log_data(2) by auto
  have "header_ok L (e L) \<and> replay L e m = replay L d m"
  proof (cases "k \<le> length (replay_writes L d)")
    case True
    then have e: "e = wapply (take k (replay_writes L d)) d" by (simp add: e_def ws_def)
    have keys: "\<not> in_log L (fst w)" if "w \<in> set (take k (replay_writes L d))" for w
      using replay_keys [of L d w, OF ok in_set_takeD [OF that]] .
    have L: "e L = d L" unfolding e by (rule outside_log [OF keys in_log_data(2)])
    moreover have "e (L + of_nat i + 1) = d (L + of_nat i + 1)" if "i < hdn (d L)" for i
      unfolding e by (rule outside_log [OF keys in_log_data(1)]) (use that ok in \<open>simp_all add: header_ok_def\<close>)
    ultimately have "replay_writes L e = replay_writes L d" by (rule replay_writes_cong)
    then have "replay L e m = replay L d m" unfolding replay_def e by (simp add: wapply_again set_take_subset)
    then show ?thesis using L ok by simp
  next
    case False
    then have e: "e = (wapply (replay_writes L d) d)(L := h)" by (simp add: e_def ws_def)
    then show ?thesis using hdn_zero [OF h] mL replay_empty [of e L] by (simp add: replay_def)
  qed
  then show "header_ok L (e L)" and "replay L e m = replay L d m" by simp_all
qed

text \<open>A crash during a commit: the old contents before the header is written, the new ones after.\<close>

lemma commit_prefix:
  fixes k :: nat
  assumes n: "n < LOGSIZE" and bs: "\<And>i. i < n \<Longrightarrow> \<not> in_log L (bs i)" and d0: "ld32 (d L) 0 = 0"
    and h1: "ld32 h1 0 = of_nat n" "\<And>j. j < n \<Longrightarrow> ld32 h1 (4 + 4 * j) = bs j" and h0: "ld32 h0 0 = 0" and m: "\<not> in_log L m"
    and clean: "m \<notin> bs ` {..<n} \<Longrightarrow> d m = w m"
  defines "e \<equiv> wapply (take k (commit_writes L n bs (\<lambda>i. w (bs i)) h1 h0)) d"
  shows "header_ok L (e L)" and "replay L e m = (if k \<le> n then d m else w m)"
proof -
  define ws1 where "ws1 = map (\<lambda>i. (L + of_nat i + 1, w (bs i))) [0..<n]"
  define ws2 where "ws2 = map (\<lambda>i. (bs i, w (bs i))) [0..<n]"
  have W: "commit_writes L n bs (\<lambda>i. w (bs i)) h1 h0 = ws1 @ (L, h1) # ws2 @ [(L, h0)]" by (simp add: commit_writes_def ws1_def ws2_def)
  have mL: "m \<noteq> L" using m in_log_data(2) by auto
  have k1: "\<not> (fst x = m \<or> fst x = L)" if "x \<in> set ws1" for x
  proof -
    obtain i where i: "i < n" "fst x = L + of_nat i + 1" using \<open>x \<in> set ws1\<close> by (auto simp: ws1_def)
    then have "in_log L (fst x)" "fst x \<noteq> L" using in_log_data(1) [of i L] log_data_ne [of i L] n by simp_all
    then show ?thesis using m by blast
  qed
  define e1 where "e1 = (wapply ws1 d)(L := h1)"
  have "m \<notin> fst ` set ws1" using k1 by blast
  then have e1m: "e1 m = d m" using mL wapply_other [of m ws1 d] by (simp add: e1_def)
  have lg1: "e1 (L + of_nat i + 1) = w (bs i)" if "i < n" for i
  proof -
    have "L + of_nat i + 1 \<in> fst ` set ws1" unfolding ws1_def wkeys using that by blast
    moreover have "snd x = w (bs i)" if x: "x \<in> set ws1" "fst x = L + of_nat i + 1" for x
    proof -
      obtain j where j: "j < n" "x = (L + of_nat j + 1, w (bs j))" using x(1) by (auto simp: ws1_def)
      then have "j = i" using x(2) log_data_inj [of j i L] \<open>i < n\<close> n by simp
      then show ?thesis using j by simp
    qed
    ultimately have "wapply ws1 d (L + of_nat i + 1) = w (bs i)" by (intro wapply_same ballI impI disjI2)
    then show ?thesis using log_data_ne [of i L] that n by (simp add: e1_def)
  qed
  have new: "wapply ws2 x m = w m" if "m \<notin> bs ` {..<n} \<Longrightarrow> x m = w m" for x
    by (rule wapply_same) (use that in \<open>auto simp: ws2_def image_image lessThan_atLeast0\<close>)
  have "header_ok L (e L) \<and> replay L e m = (if k \<le> n then d m else w m)"
  proof -
    consider "k \<le> n" | "n < k" "k \<le> 2 * n + 1" | "2 * n + 1 < k" by linarith
    then show ?thesis
    proof cases
      case 1
      then have e: "e = wapply (take k ws1) d" by (simp add: e_def W ws1_def)
      have "L \<notin> fst ` set (take k ws1)" "m \<notin> fst ` set (take k ws1)" using k1 in_set_takeD by fast+
      then have "e L = d L" "e m = d m" by (simp_all add: e wapply_other)
      then show ?thesis using 1 hdn_zero [OF d0] replay_empty [of e L] by simp
    next
      case 2
      then obtain j where j: "k = n + 1 + j" "j \<le> n" by (intro that [of "k - n - 1"]) simp_all
      have e: "e = wapply (take j ws2) e1" using j by (simp add: e_def W ws1_def ws2_def e1_def)
      have keys: "\<not> in_log L (fst x)" if "x \<in> set (take j ws2)" for x
        using in_set_takeD [OF that] bs by (auto simp: ws2_def)
      have eL: "e L = h1" unfolding e using outside_log [OF keys in_log_data(2)] by (simp add: e1_def)
      have lg: "e (L + of_nat i + 1) = w (bs i)" if "i < n" for i
        unfolding e using outside_log [OF keys in_log_data(1)] lg1 [OF that] that n by simp
      have "sint (of_nat n :: u32) = int n" using n by (simp add: LOGSIZE_val signed_of_nat signed_take_bit_int_eq_self)
      then have hn: "hdn h1 = n" by (simp add: hdn_def h1(1))
      have "replay_writes L e = ws2" using lg h1(2) by (simp add: replay_writes_def ws2_def eL hn hdb_def)
      then have "replay L e m = wapply ws2 e1 m" unfolding replay_def e by (simp add: wapply_again set_take_subset)
      also have "\<dots> = w m" by (rule new) (simp add: e1m clean)
      finally show ?thesis using 2 eL hn n bs h1(2) by (simp add: header_ok_def hdb_def)
    next
      case 3
      then have e: "e = (wapply ws2 e1)(L := h0)" by (simp add: e_def W ws1_def ws2_def e1_def)
      have "wapply ws2 e1 m = w m" by (rule new) (simp add: e1m clean)
      then show ?thesis using 3 e hdn_zero [OF h0] replay_empty [of e L] mL by simp
    qed
  qed
  then show "header_ok L (e L)" and "replay L e m = (if k \<le> n then d m else w m)" by simp_all
qed

text \<open>The end of the last outstanding operation.\<close>

lemma log_ok_flags [simp]:
  "log_ok (s\<lparr>committing := b\<rparr>) = log_ok s" "log_ok (s\<lparr>outstanding := k\<rparr>) = log_ok s"
  by (simp_all add: log_ok_def)

lemma end_op_law:
  assumes ok: "log_ok s" and o: "outstanding s = 1" "\<not> committing s" and f: "ldev s = D" "lstart s = L"
  shows "\<exists>s' ws n. end_op s = Ok s' \<and> log_ok s' \<and> lhn s' = 0 \<and> outstanding s' = 0 \<and> \<not> committing s' \<and> ldev s' = D \<and> lstart s' = L \<and>
    dwrites s' = dwrites s @ ws \<and> disk s' = wapply ws (disk s) \<and>
    (\<forall>m. \<not> in_log L m \<longrightarrow> cview (cabs D s') m = cview (cabs D s) m) \<and>
    (\<forall>k m. header_ok L (wapply (take k ws) (disk s) L) \<and> (\<not> in_log L m \<longrightarrow>
       replay L (wapply (take k ws) (disk s)) m = (if k \<le> n then disk s m else cview (cabs D s) m))) \<and>
    n \<le> length ws \<and> (n = length ws \<longrightarrow> (\<forall>m. \<not> in_log L m \<longrightarrow> disk s m = cview (cabs D s) m))"
proof -
  note k = log_okD [OF ok, unfolded f]
  show ?thesis
  proof (cases "lhn s = 0")
    case True
    then have "end_op s = Ok (s\<lparr>outstanding := 0, committing := False\<rparr>)"
      using o by (simp add: end_op_def commit_def Let_def)
    moreover have "header_ok L (disk s L)" "replay L (disk s) = disk s"
      using hdn_zero [OF k(8)] replay_empty by simp_all
    moreover have "disk s m = cview (cabs D s) m" if "\<not> in_log L m" for m using k(9) [OF that] True by simp
    ultimately show ?thesis using ok True f by (intro exI [of _ "s\<lparr>outstanding := 0, committing := False\<rparr>"] exI [of _ "[]"] exI [of _ 0]) simp
  next
    case False
    define n where "n = nat (lhn s)"
    define s0 where "s0 = s\<lparr>outstanding := 0, committing := True\<rparr>"
    define w where "w = cview (cabs D s)"
    have c0: "cabs D s0 = cabs D s" by (simp add: s0_def)
    have f0: "log_ok s0" "0 < lhn s0" "ldev s0 = D" "lstart s0 = L" "nat (lhn s0) = n" "lhblock s0 = lhblock s"
      using ok False f k(3) by (simp_all add: s0_def n_def split: if_splits)
    obtain s1 h1 h0 where s1: "commit s0 = Ok s1" "binv D s1" "bframe s1 = bframe (s0\<lparr>lhn := 0\<rparr>)"
      "ld32 h1 0 = of_nat n" "\<forall>j < n. ld32 h1 (4 + 4 * j) = lhblock s j" "ld32 h0 0 = 0"
      "dwrites s1 = dwrites s @ commit_writes L n (lhblock s) (\<lambda>i. w (lhblock s i)) h1 h0"
      "disk s1 = wapply (commit_writes L n (lhblock s) (\<lambda>i. w (lhblock s i)) h1 h0) (disk s)"
      "\<forall>m. \<not> in_log L m \<longrightarrow> cview (cabs D s1) m = w m" "idle (cabs D s1)"
      "\<forall>m. chold (cabs D s1) m = (if m \<in> lhblock s ` {..<n} then chold (cabs D s) m - 1 else chold (cabs D s) m)"
      using commit_law [OF f0] unfolding c0 w_def by (auto simp: cabs_def)
    define ws where "ws = commit_writes L n (lhblock s) (\<lambda>i. w (lhblock s i)) h1 h0"
    note f1 = log_frame [OF s1(3), simplified, unfolded f0]
    have pre: "header_ok L (wapply (take k ws) (disk s) L) \<and> (\<not> in_log L m \<longrightarrow> replay L (wapply (take k ws) (disk s)) m = (if k \<le> n then disk s m else w m))" for k m
    proof -
      have "header_ok L (wapply (take k ws) (disk s) L) \<and> replay L (wapply (take k ws) (disk s)) m = (if k \<le> n then disk s m else w m)"
        if m: "\<not> in_log L m" for m
        using commit_prefix [where n = n and L = L and bs = "lhblock s" and d = "disk s" and w = w and ?h1.0 = h1 and ?h0.0 = h0 and m = m and k = k]
          k(4,6,8) k(9) [OF m] s1(4-6) m unfolding n_def [symmetric] ws_def w_def by simp
      moreover have "\<not> in_log L (L - 1)" by (simp add: in_log_def LOGSIZE_val unsigned_minus_1_eq_mask mask_eq_exp_minus_1)
      ultimately show ?thesis by blast
    qed
    have len: "length ws = 2 * n + 2" by (simp add: ws_def commit_writes_def)
    have dL: "disk s1 L = h0" unfolding s1(8) by (simp add: commit_writes_def)
    have "replay L (disk s1) m = disk s1 m" for m using replay_empty [of "disk s1" L] hdn_zero(1) [OF s1(6)] dL by simp
    then have new: "disk s1 m = w m" if "\<not> in_log L m" for m
      using pre [of "length ws" m] that unfolding s1(8) ws_def [symmetric] by (simp add: len)
    have "log_ok s1" unfolding log_ok_def f1 using s1(2,6,9,10,11) k(10) dL new by (simp add: LOGSIZE_val n_def)
    moreover have "end_op s = Ok (s1\<lparr>committing := False\<rparr>)" using o s1(1) by (simp add: end_op_def Let_def s0_def)
    ultimately show ?thesis using s1(7-9) [folded ws_def] pre len f1 unfolding w_def
      by (intro exI [of _ "s1\<lparr>committing := False\<rparr>"] exI [of _ ws] exI [of _ n]) (simp add: s0_def)
  qed
qed

section \<open>Adding a block to the transaction\<close>

lemma log_index_spec:
  "(i \<le> log_index k i bs n \<and> log_index k i bs n < i + k \<and> bs (log_index k i bs n) = n) \<or>
   (log_index k i bs n = i + k \<and> (\<forall>j. i \<le> j \<and> j < i + k \<longrightarrow> bs j \<noteq> n))"
proof (induction k arbitrary: i)
  case (Suc k)
  have "i \<le> j \<longleftrightarrow> j = i \<or> Suc i \<le> j" for j by auto
  then show ?case using Suc.IH [of "Suc i"] by auto
qed auto

lemma log_index_cases:
  assumes "i = log_index k 0 bs n"
  shows "n \<in> bs ` {..<k} \<and> i < k \<and> bs i = n \<or> n \<notin> bs ` {..<k} \<and> i = k"
  using log_index_spec [of 0 k bs n] assms by (auto intro: image_eqI [OF sym])

text \<open>
  The pattern of all writers of the file system: read a block, change its buffer, log it and
  release it. The block is added to the transaction once, however often it is written.
\<close>

lemma log_write_law:
  assumes v: "binv D s" "is_buf D s b n" "0 < chold (cabs D s) n" "chold (cabs D s) n < 2 ^ 32 - 1"
    and o: "1 \<le> outstanding s" and room: "0 \<le> lhn s" "lhn s < int LOGSIZE - 1" "lhn s < lsize s - 1"
    and f: "nat (lhn s) = N" "lhblock s = bs"
  shows "\<exists>s'. log_write s b = Ok s' \<and> binv D s' \<and> is_buf D s' b n \<and>
    cabs D s' = (if n \<in> bs ` {..<N} then cabs D s else c_pin n (cabs D s)) \<and>
    lhn s' = (if n \<in> bs ` {..<N} then lhn s else lhn s + 1) \<and>
    lhblock s' = (if n \<in> bs ` {..<N} then bs else bs(N := n)) \<and> bframe s' = bframe (s\<lparr>lhn := lhn s', lhblock := lhblock s'\<rparr>)"
proof -
  have bn: "blockno (bufs s b) = n" using v(2) by (simp add: is_buf_def)
  have e: "log_write s b = (let i = log_index N 0 bs n; s1 = s\<lparr>lhblock := bs(i := n)\<rparr> in
      Ok (if i = N then (bpin s1 b)\<lparr>lhn := lhn s + 1\<rparr> else s1))"
    using o room f by (auto simp: log_write_def Let_def bn)
  consider "n \<in> bs ` {..<N}" "log_index N 0 bs n < N" "bs (log_index N 0 bs n) = n" | "n \<notin> bs ` {..<N}" "log_index N 0 bs n = N"
    using log_index_cases [OF refl] by blast
  then show ?thesis
  proof cases
    case 1
    then have "log_write s b = Ok (s\<lparr>lhblock := bs\<rparr>)" by (simp add: e fun_upd_idem)
    then show ?thesis using 1 v by simp
  next
    case 2
    have v1: "binv D (s\<lparr>lhblock := bs(N := n)\<rparr>)" "is_buf D (s\<lparr>lhblock := bs(N := n)\<rparr>) b n"
      "0 < chold (cabs D (s\<lparr>lhblock := bs(N := n)\<rparr>)) n" "chold (cabs D (s\<lparr>lhblock := bs(N := n)\<rparr>)) n < 2 ^ 32 - 1"
      using v by simp_all
    note p = bc.pin_law [OF v1]
    have "log_write s b = Ok ((bpin (s\<lparr>lhblock := bs(N := n)\<rparr>) b)\<lparr>lhn := lhn s + 1\<rparr>)" using 2 by (simp add: e)
    moreover have "bframe ((bpin (s\<lparr>lhblock := bs(N := n)\<rparr>) b)\<lparr>lhn := lhn s + 1\<rparr>) = bframe (s\<lparr>lhn := lhn s + 1, lhblock := bs(N := n)\<rparr>)"
      by (cases s) (simp add: bframe_def bpin_def upd_buf_def)
    moreover have "lhblock (bpin (s\<lparr>lhblock := bs(N := n)\<rparr>) b) = bs(N := n)" by (simp add: bpin_def upd_buf_def)
    ultimately show ?thesis using 2 p v1(2) by simp
  qed
qed

lemma logged_update:
  assumes ok: "log_ok s" and o: "1 \<le> outstanding s" and room: "lhn s < int LOGSIZE - 1" "lhn s < lsize s - 1"
    and n: "\<not> in_log (lstart s) n" and f: "ldev s = D"
  shows "\<exists>b s1 s'. bread s D n = Ok (b, s1) \<and> bdata (bufs s1 b) = cview (cabs D s) n \<and>
    bnd (log_write (set_data s1 b x) b) (\<lambda>s. brelse s b) = Ok s' \<and> log_ok s' \<and>
    cview (cabs D s') = (cview (cabs D s))(n := x) \<and> disk s' = disk s \<and> dwrites s' = dwrites s \<and>
    lhblock s' ` {..<nat (lhn s')} = insert n (lhblock s ` {..<nat (lhn s)}) \<and>
    lhn s' = (if n \<in> lhblock s ` {..<nat (lhn s)} then lhn s else lhn s + 1) \<and>
    bframe s' = bframe (s\<lparr>lhn := lhn s', lhblock := lhblock s'\<rparr>)"
proof -
  note k = log_okD [OF ok, unfolded f]
  define N where "N = nat (lhn s)"
  define bs where "bs = lhblock s"
  note k' = k [folded N_def bs_def]
  have r: "readable (cabs D s) n" using k'(2) by (simp add: readable_def idle_def)
  obtain b s1 where s1: "bread s D n = Ok (b, s1)" "binv D s1" "is_buf D s1 b n" "cabs D s1 = c_get (curpid s) n (cabs D s)"
    "bframe s1 = bframe s" using bc.rd_law [OF k'(1) r] by blast
  note f1 = log_frame [OF s1(5)]
  have d1: "bdata (bufs s1 b) = cview (cabs D s) n" using bc.dat_law [OF s1(2,3)] s1(4) by (simp add: c_get_def)
  define s2 where "s2 = set_data s1 b x"
  have s2: "binv D s2" "is_buf D s2 = is_buf D s1" "cabs D s2 = c_set n x (cabs D s1)" "bframe s2 = bframe s"
    using bc.asg_law [OF s1(2,3)] s1(4,5) unfolding s2_def by (simp_all add: c_get_def)
  note f2 = log_frame [OF s2(4), folded bs_def]
  have is2: "is_buf D s2 b n" and l2: "nat (lhn s2) = N" using s1(3) s2(2) f2(6) by (simp_all add: N_def)
  have h2: "chold (cabs D s2) n = (if n \<in> bs ` {..<N} then 2 else 1)" "clock (cabs D s2) n = Some (curpid s)"
    using k'(10) by (simp_all add: s2(3) s1(4) c_set_def c_get_def)
  then have h2': "0 < chold (cabs D s2) n" "chold (cabs D s2) n < 2 ^ 32 - 1" by simp_all
  obtain s3 where s3: "log_write s2 b = Ok s3" "binv D s3" "is_buf D s3 b n" "cabs D s3 = (if n \<in> bs ` {..<N} then cabs D s2 else c_pin n (cabs D s2))"
    "lhn s3 = (if n \<in> bs ` {..<N} then lhn s else lhn s + 1)" "lhblock s3 = (if n \<in> bs ` {..<N} then bs else bs(N := n))"
    "bframe s3 = bframe (s2\<lparr>lhn := lhn s3, lhblock := lhblock s3\<rparr>)"
    using log_write_law [OF s2(1) is2 _ _ _ _ _ _ l2 f2(7)] h2'(1,2) o room k(3) unfolding f2 by (auto split: if_splits)
  have b3: "bframe s3 = bframe (s\<lparr>lhn := lhn s3, lhblock := lhblock s3\<rparr>)" unfolding s3(7) using s2(4) by (cases s; cases s2) (simp add: bframe_def)
  note f3 = log_frame [OF b3, simplified]
  have h3: "clock (cabs D s3) n = Some (curpid s3)" "chold (cabs D s3) n = 2" using h2 s3(4) f3(8) by (simp_all add: c_pin_def)
  obtain s4 where s4: "brelse s3 b = Ok s4" "binv D s4" "cabs D s4 = c_put n (cabs D s3)" "bframe s4 = bframe s3"
    using bc.rel_law [OF s2(1)] bc.rel_law [OF s3(2,3) h3(1)] h3(2) by auto
  note f4 = log_frame [OF s4(4)]
  have c4: "cview (cabs D s4) = (cview (cabs D s))(n := x)" "cdisk (cabs D s4) = cdisk (cabs D s)" "cwrites (cabs D s4) = cwrites (cabs D s)"
    "clock (cabs D s4) = (clock (cabs D s))(n := None)" "chold (cabs D s4) = (chold (cabs D s))(n := 1)"
    using h3(2) by (auto simp: s4(3) s3(4) s2(3) s1(4) c_defs k'(10))
  have N: "lhn s = int N" using k'(3) .
  have img: "lhblock s4 ` {..<nat (lhn s4)} = insert n (bs ` {..<N})"
  proof (cases "n \<in> bs ` {..<N}")
    case False
    then have "nat (lhn s4) = Suc N" "lhblock s4 = bs(N := n)" using s3(5,6) f4(6,7) N by simp_all
    then show ?thesis by (auto simp: lessThan_Suc)
  qed (use s3(5,6) f4(6,7) N in auto)
  have "inj_on (lhblock s4) {..<nat (lhn s4)}"
  proof (cases "n \<in> bs ` {..<N}")
    case False
    then have "nat (lhn s4) = Suc N" "lhblock s4 = bs(N := n)" using s3(5,6) f4(6,7) N by simp_all
    then show ?thesis using k'(5) False by (auto simp: lessThan_Suc inj_on_def)
  qed (use s3(5,6) f4(6,7) N k'(5) in simp)
  moreover have n4: "0 \<le> lhn s4" "nat (lhn s4) < LOGSIZE" using s3(5) f4(6) N room(1) by auto
  moreover have ch: "chold (cabs D s4) m = (if m \<in> insert n (bs ` {..<N}) then 1 else 0)" for m using c4(5) k'(10) by simp
  moreover have "idle (cabs D s4)"
  proof -
    have "{m. 0 < chold (cabs D s4) m} = lhblock s4 ` {..<nat (lhn s4)}" unfolding img ch by auto
    then have "card {m. 0 < chold (cabs D s4) m} < NBUF"
      using card_image_le [of "{..<nat (lhn s4)}" "lhblock s4"] n4(2) by (simp add: LOGSIZE_val NBUF_val)
    then show ?thesis using k'(2) ch by (simp add: idle_def c4(4))
  qed
  moreover have "\<forall>i < nat (lhn s4). \<not> in_log (lstart s) (lhblock s4 i)" using img n k'(6) by (metis (no_types, lifting) imageE image_eqI insertE lessThan_iff)
  moreover have dk: "disk s4 = disk s" "dwrites s4 = dwrites s" using c4(2,3) by (simp_all add: cabs_def)
  moreover have e4: "ldev s4 = D" "lstart s4 = lstart s" using f4 f3 f by simp_all
  ultimately have "log_ok s4" unfolding log_ok_def e4 img using s4(2) k'(8,9) c4(1) by simp
  moreover have "bframe s4 = bframe (s\<lparr>lhn := lhn s4, lhblock := lhblock s4\<rparr>)" unfolding s4(4) f4 using b3 .
  moreover have "bnd (log_write (set_data s1 b x) b) (\<lambda>s. brelse s b) = Ok s4" using s3(1) s4(1) by (simp add: s2_def)
  moreover have "lhn s4 = (if n \<in> lhblock s ` {..<nat (lhn s)} then lhn s else lhn s + 1)" using s3(5) f4(6) by (simp add: N_def bs_def)
  ultimately show ?thesis using s1(1) d1 c4(1) img dk unfolding N_def bs_def by blast
qed

section \<open>Properties\<close>

text \<open>A machine that has started on a disk of zeros and has logged one block.\<close>

definition sb0 :: superblock where
  "sb0 = \<lparr>sb_magic = 0x10203040, sb_size = 2000, sb_nblocks = 1954, sb_ninodes = 200, sb_nlog = 30, sb_logstart = 2,
     sb_inodestart = 32, sb_bmapstart = 45\<rparr>"

lemma recover_sb0:
  "\<exists>s :: logst. recover (\<lambda>_ _. 0) 1 sb0 = Ok s \<and> log_ok s \<and> lhn s = 0 \<and> outstanding s = 0 \<and> \<not> committing s \<and> lstart s = 2 \<and>
    ldev s = 1 \<and> lsize s = 30"
proof -
  have "header_ok 2 (\<lambda>_. 0 :: u8)" "sb_logstart sb0 = 2" "(1 :: u32) \<noteq> 0" "sint (sb_nlog sb0) = 30"
    by (simp_all add: header_ok_def LOGSIZE_val hdn_def sb0_def ld32_zero)
  then show ?thesis using recover_law [of 2 "\<lambda>_ _. 0" sb0 1] by auto
qed

lemma logged_sb0:
  "\<exists>s :: logst. log_ok s \<and> lhn s = 1 \<and> outstanding s = 1 \<and> \<not> committing s \<and> lstart s = 2 \<and> ldev s = 1 \<and> lsize s = 30 \<and>
    cview (cabs 1 s) 100 = (\<lambda>_. 7)"
proof -
  obtain s :: logst where s: "log_ok s" "lhn s = 0" "outstanding s = 0" "\<not> committing s" "lstart s = 2" "ldev s = 1" "lsize s = 30"
    using recover_sb0 by blast
  let ?s = "s\<lparr>outstanding := 1\<rparr>"
  have p: "log_ok ?s" "1 \<le> outstanding ?s" "lhn ?s < int LOGSIZE - 1" "lhn ?s < lsize ?s - 1" "\<not> in_log (lstart ?s) 100" "ldev ?s = 1"
    using s by (simp_all add: LOGSIZE_val in_log_def)
  obtain s' where s': "log_ok s'" "cview (cabs 1 s') = (cview (cabs 1 ?s))(100 := (\<lambda>_. 7))" "lhn s' = 1"
    "bframe s' = bframe (?s\<lparr>lhn := lhn s', lhblock := lhblock s'\<rparr>)"
    using logged_update [OF p, where x = "\<lambda>_. 7"] s(2) by auto
  then show ?thesis using s log_frame [OF s'(4)] by (intro exI [of _ s']) simp
qed

text \<open>
  C19. The commit of a transaction is atomic. The last \<^verbatim>\<open>end_op\<close> succeeds and writes a sequence of
  blocks to the disk; if the machine stops after any \<open>k\<close> of these writes, the recovery of the next
  start succeeds and leaves outside the log either all contents from before the transaction
  (\<open>k \<le> n\<close>, the header is not yet written) or all contents that the transaction gave. When \<^verbatim>\<open>end_op\<close>
  returns, the new contents are in their places on the disk.
\<close>

theorem commit_atomic:
  assumes "log_ok s" and "outstanding s = 1" and "\<not> committing s" and "sb_logstart sb = lstart s" and "ldev s \<noteq> 0"
  shows "\<exists>s' ws n. end_op s = Ok s' \<and> log_ok s' \<and> dwrites s' = dwrites s @ ws \<and> disk s' = wapply ws (disk s) \<and>
    (\<forall>k. \<exists>r. recover (wapply (take k ws) (disk s)) (ldev s) sb = Ok r \<and>
      (\<forall>m. \<not> in_log (lstart s) m \<longrightarrow> disk r m = (if k \<le> n then disk s m else cview (cabs (ldev s) s) m))) \<and>
    (\<forall>m. \<not> in_log (lstart s) m \<longrightarrow> disk s' m = cview (cabs (ldev s) s) m)"
proof -
  define L where "L = lstart s"
  define D where "D = ldev s"
  obtain s' ws n where e: "end_op s = Ok s'" "log_ok s'" "lhn s' = 0" "lstart s' = L" "ldev s' = D" "dwrites s' = dwrites s @ ws"
    "disk s' = wapply ws (disk s)" "\<forall>m. \<not> in_log L m \<longrightarrow> cview (cabs D s') m = cview (cabs D s) m"
    "\<And>k m. header_ok L (wapply (take k ws) (disk s) L) \<and> (\<not> in_log L m \<longrightarrow>
       replay L (wapply (take k ws) (disk s)) m = (if k \<le> n then disk s m else cview (cabs D s) m))"
    using end_op_law [OF assms(1-3) D_def [symmetric] L_def [symmetric]] by blast
  have r: "\<exists>r. recover (wapply (take k ws) (disk s)) D sb = Ok r \<and>
      (\<forall>m. \<not> in_log L m \<longrightarrow> disk r m = (if k \<le> n then disk s m else cview (cabs D s) m))" for k
  proof -
    let ?d = "wapply (take k ws) (disk s)"
    obtain r h where r: "recover ?d D sb = Ok r" "disk r = wapply (replay_writes L ?d @ [(L, h)]) ?d"
      using recover_law [of L ?d sb D] e(9) [of k] assms(4,5) by (auto simp: L_def D_def)
    have "disk r m = replay L ?d m" if "\<not> in_log L m" for m
      using that in_log_data(2) [of L] by (auto simp: r(2) replay_def)
    then show ?thesis using r(1) e(9) [of k] by auto
  qed
  have "disk s' m = cview (cabs D s) m" if "\<not> in_log L m" for m
    using log_okD(9) [OF e(2), of m] e(3-5,8) that by simp
  then show ?thesis using e(1,2,6,7) r unfolding D_def L_def by blast
qed

theorem commit_atomic_witness: "\<exists>s s' :: logst. log_ok s \<and> lhn s = 1 \<and> end_op s = Ok s' \<and> log_ok s' \<and> disk s' 100 = (\<lambda>_. 7)"
proof -
  obtain s :: logst where s: "log_ok s" "lhn s = 1" "outstanding s = 1" "\<not> committing s" "lstart s = 2" "ldev s = 1"
    "cview (cabs 1 s) 100 = (\<lambda>_. 7)" using logged_sb0 by blast
  have "\<not> in_log 2 100" by (simp add: in_log_def LOGSIZE_val)
  then show ?thesis using commit_atomic [OF s(1,3,4), of sb0] s by (auto simp: sb0_def)
qed

text \<open>
  C20. Recovery may itself be interrupted: if the machine stops after any number of the writes of a
  recovery, recovering the resulting disk succeeds again and gives the same contents outside the
  log as the uninterrupted recovery.
\<close>

theorem recovery_restartable:
  assumes "header_ok (sb_logstart sb) (d (sb_logstart sb))" and "dev \<noteq> 0"
  shows "\<exists>s. recover d dev sb = Ok s \<and> log_ok s \<and>
    (\<forall>k. \<exists>r. recover (wapply (take k (dwrites s)) d) dev sb = Ok r \<and> (\<forall>m. \<not> in_log (sb_logstart sb) m \<longrightarrow> disk r m = disk s m))"
proof -
  define L where "L = sb_logstart sb"
  have ok: "header_ok L (d L)" using assms(1) by (simp add: L_def)
  have out: "wapply (replay_writes L e @ [(L, h)]) e m = replay L e m" if "\<not> in_log L m" for e h m
    using that in_log_data(2) [of L] by (auto simp: replay_def)
  obtain s h where s: "recover d dev sb = Ok s" "ld32 h 0 = 0" "dwrites s = replay_writes L d @ [(L, h)]"
    "disk s = wapply (replay_writes L d @ [(L, h)]) d" "log_ok s"
    using recover_law [where L = L and d = d and sb = sb and D = dev, OF ok L_def [symmetric] assms(2)] by blast
  have "\<exists>r. recover (wapply (take k (dwrites s)) d) dev sb = Ok r \<and> (\<forall>m. \<not> in_log L m \<longrightarrow> disk r m = disk s m)" for k
  proof -
    let ?e = "wapply (take k (dwrites s)) d"
    note p = recovery_prefix [where L = L and d = d and h = h and k = k, OF ok s(2), folded s(3)]
    have "\<not> in_log L (L - 1)" by (simp add: in_log_def LOGSIZE_val unsigned_minus_1_eq_mask mask_eq_exp_minus_1)
    then have e: "header_ok L (?e L)" by (rule p(1))
    obtain r g where r: "recover ?e dev sb = Ok r" "disk r = wapply (replay_writes L ?e @ [(L, g)]) ?e"
      using recover_law [where L = L and d = ?e and sb = sb and D = dev, OF e L_def [symmetric] assms(2)] by blast
    have "disk r m = disk s m" if "\<not> in_log L m" for m unfolding r(2) s(4) out [OF that] by (rule p(2) [OF that])
    then show ?thesis using r(1) by blast
  qed
  then show ?thesis using s(1,5) unfolding L_def by blast
qed

theorem recovery_restartable_witness: "\<exists>s :: logst. recover (\<lambda>_ _. 0) 1 sb0 = Ok s \<and> log_ok s"
proof -
  have "header_ok (sb_logstart sb0) (\<lambda>_. 0 :: u8)" by (simp add: header_ok_def LOGSIZE_val hdn_def ld32_zero)
  then show ?thesis using recovery_restartable [of sb0 "\<lambda>_ _. 0" 1] by auto
qed

text \<open>One logged assignment of a block.\<close>

definition log_assign :: "'a logst_scheme \<Rightarrow> u32 \<Rightarrow> block \<Rightarrow> 'a logst_scheme res" where
  "log_assign s n x = bnd (bread s (ldev s) n) (\<lambda>(b, s). bnd (log_write (set_data s b x) b) (\<lambda>s. brelse s b))"

text \<open>
  C25. Log absorption. A second update of a block in the same transaction, which the first one left with
  room in the log, succeeds, takes no further room in the log, and the cache then shows the second
  contents; the disk is not touched before the commit.
\<close>

theorem log_absorbs:
  assumes "log_ok s" and "1 \<le> outstanding s" and "lhn s < 28" and "lsize s = 30" and "\<not> in_log (lstart s) n"
  shows "\<exists>s1 s2. log_assign s n x = Ok s1 \<and> log_assign s1 n y = Ok s2 \<and> log_ok s2 \<and> lhn s2 = lhn s1 \<and> lhn s1 \<le> lhn s + 1 \<and>
    cview (cabs (ldev s) s2) = (cview (cabs (ldev s) s))(n := y) \<and> disk s2 = disk s \<and> dwrites s2 = dwrites s"
proof -
  have r: "lhn s < int LOGSIZE - 1" "lhn s < lsize s - 1" using assms(3,4) by (simp_all add: LOGSIZE_val)
  obtain b s1 t where s1: "bread s (ldev s) n = Ok (b, t)" "bnd (log_write (set_data t b x) b) (\<lambda>s. brelse s b) = Ok s1" "log_ok s1"
    "cview (cabs (ldev s) s1) = (cview (cabs (ldev s) s))(n := x)" "disk s1 = disk s" "dwrites s1 = dwrites s"
    "lhblock s1 ` {..<nat (lhn s1)} = insert n (lhblock s ` {..<nat (lhn s)})"
    "lhn s1 = (if n \<in> lhblock s ` {..<nat (lhn s)} then lhn s else lhn s + 1)" "bframe s1 = bframe (s\<lparr>lhn := lhn s1, lhblock := lhblock s1\<rparr>)"
    using logged_update [OF assms(1,2) r assms(5) refl, where x = x] by blast
  note f = log_frame [OF s1(9), simplified]
  have p: "1 \<le> outstanding s1" "lhn s1 < int LOGSIZE - 1" "lhn s1 < lsize s1 - 1" "\<not> in_log (lstart s1) n" "ldev s1 = ldev s"
    using assms(2-5) s1(8) by (simp_all add: f LOGSIZE_val)
  obtain b' t' s2 where s2: "bread s1 (ldev s) n = Ok (b', t')" "bnd (log_write (set_data t' b' y) b') (\<lambda>s. brelse s b') = Ok s2" "log_ok s2"
    "cview (cabs (ldev s) s2) = (cview (cabs (ldev s) s1))(n := y)" "disk s2 = disk s1" "dwrites s2 = dwrites s1"
    "lhn s2 = (if n \<in> lhblock s1 ` {..<nat (lhn s1)} then lhn s1 else lhn s1 + 1)"
    using logged_update [OF s1(3) p, where x = y] by blast
  have "log_assign s n x = Ok s1" "log_assign s1 n y = Ok s2" using s1(1,2) s2(1,2) p(5) by (simp_all add: log_assign_def)
  moreover have "lhn s2 = lhn s1" using s2(7) s1(7) by simp
  ultimately show ?thesis using s1(4-6,8) s2(3-6) by auto
qed

theorem log_absorbs_witness:
  "\<exists>s s1 :: logst. log_ok s \<and> log_assign s 100 (\<lambda>_. 9) = Ok s1"
proof -
  obtain s :: logst where s: "log_ok s" "lhn s = 1" "outstanding s = 1" "lstart s = 2" "ldev s = 1" "lsize s = 30"
    using logged_sb0 by blast
  then have "1 \<le> outstanding s" "lhn s < 28" "\<not> in_log (lstart s) 100" by (simp_all add: in_log_def LOGSIZE_val)
  then show ?thesis using log_absorbs [OF s(1) _ _ s(6), of 100 "\<lambda>_. 9" "\<lambda>_. 9"] s(1,5) by auto
qed

text \<open>
  C26. The reservation of \<^verbatim>\<open>begin_op\<close> promises one block more than the log accepts. With the log of
  30 blocks that \<^verbatim>\<open>mkfs\<close> makes, three operations of \<^verbatim>\<open>MAXOPBLOCKS\<close> = 10 blocks each are admitted
  together, but \<^verbatim>\<open>log_write\<close> panics once 29 blocks are logged, whatever block it is given.
\<close>

theorem reservation_exceeds_log:
  assumes "\<not> committing s" and "lhn s = 0" and "outstanding s = 0" and "lsize s = 30"
  shows "bnd (begin_op s) (\<lambda>s. bnd (begin_op s) begin_op) = Ok (s\<lparr>outstanding := 3\<rparr>) \<and>
    log_write (s\<lparr>outstanding := 3, lhn := 3 * int MAXOPBLOCKS - 1, lhblock := bs\<rparr>) b = Panic ''too big a transaction''"
  using assms by (simp_all add: begin_op_def log_write_def LOGSIZE_val MAXOPBLOCKS_def)

theorem reservation_exceeds_log_witness:
  "\<exists>s :: logst. log_ok s \<and> bnd (begin_op s) (\<lambda>s. bnd (begin_op s) begin_op) = Ok (s\<lparr>outstanding := 3\<rparr>)"
proof -
  obtain s :: logst where s: "log_ok s" "lhn s = 0" "outstanding s = 0" "\<not> committing s" "lsize s = 30" using recover_sb0 by blast
  then show ?thesis using reservation_exceeds_log [OF s(4,2,3,5)] by blast
qed

end
