(* ===== verification/Ptable.thy ===== *)
theory Ptable
  imports Vm Bytes
begin

text \<open>
  The process table, \<^verbatim>\<open>kernel/proc.h\<close> and the part of \<^verbatim>\<open>kernel/proc.c\<close> that needs memory only:
  allocation and release of process slots, \<^verbatim>\<open>growproc\<close>, \<^verbatim>\<open>sleep\<close> and \<^verbatim>\<open>wakeup\<close>, \<^verbatim>\<open>kill\<close>, \<^verbatim>\<open>wait\<close>, and
  the copies between kernel objects and user or kernel addresses. A process is the index of its
  slot in \<^verbatim>\<open>proc[]\<close>; each section under \<^verbatim>\<open>p->lock\<close> or \<^verbatim>\<open>wait_lock\<close> is one step.
\<close>

section \<open>Data\<close>

datatype procstate = UNUSED | USED | SLEEPING | RUNNABLE | RUNNING | ZOMBIE

text \<open>A sleep channel is the address of a kernel object; the objects that the kernel sleeps on.\<close>

datatype chan = ChNone | ChProc nat | ChTicks | ChPipeRead u64 | ChPipeWrite u64 | ChCons | ChUart | ChBuf nat | ChDiskFree

text \<open>The callee-saved registers \<^verbatim>\<open>s0\<close> to \<^verbatim>\<open>s11\<close> are \<open>cx_s\<close>.\<close>

record pcontext =
  cx_ra :: u64
  cx_sp :: u64
  cx_s :: "nat \<Rightarrow> u64"

text \<open>\<open>p_trapframe\<close> is the address of the trapframe page, whose fields live in memory.\<close>

record proc =
  p_state :: procstate
  p_chan :: chan
  p_killed :: bool
  p_xstate :: u32
  p_pid :: int
  p_parent :: "nat option"
  p_kstack :: u64
  p_sz :: u64
  p_pagetable :: u64
  p_trapframe :: u64
  p_context :: pcontext
  p_ofile :: "nat \<Rightarrow> nat option"
  p_cwd :: "nat option"
  p_name :: cstr

definition NOFILE :: nat where "NOFILE = 16"

text \<open>
  The process table with the machine's memory. \<open>me\<close> is \<^verbatim>\<open>myproc()\<close>. The addresses \<open>trampoline\<close> and
  \<open>forkret_pc\<close> are the linker's; \<open>xfer\<close> is where a kernel object lies whose bytes are copied from or
  to user memory, and \<open>locals\<close> is the kernel stack slot of a local variable.
\<close>

record ptab =
  kmem :: kst
  procs :: "nat \<Rightarrow> proc"
  nextpid :: int
  initproc :: "nat option"
  me :: nat
  trampoline :: u64
  forkret_pc :: u64
  xfer :: u64
  locals :: u64

definition upd_proc :: "'a ptab_scheme \<Rightarrow> nat \<Rightarrow> (proc \<Rightarrow> proc) \<Rightarrow> 'a ptab_scheme" where
  "upd_proc s i f = s\<lparr>procs := (procs s)(i := f (procs s i))\<rparr>"

definition myproc :: "'a ptab_scheme \<Rightarrow> proc" where
  "myproc s = procs s (me s)"

definition set_mem :: "'a ptab_scheme \<Rightarrow> mem \<Rightarrow> 'a ptab_scheme" where
  "set_mem s m = s\<lparr>kmem := (kmem s)\<lparr>memory := m\<rparr>\<rparr>"

text \<open>Offsets of fields in \<^verbatim>\<open>struct trapframe\<close>.\<close>

definition tf_kernel_satp :: u64 where "tf_kernel_satp = 0"
definition tf_kernel_sp :: u64 where "tf_kernel_sp = 8"
definition tf_kernel_trap :: u64 where "tf_kernel_trap = 16"
definition tf_epc :: u64 where "tf_epc = 24"
definition tf_kernel_hartid :: u64 where "tf_kernel_hartid = 32"
definition tf_sp :: u64 where "tf_sp = 48"
definition tf_a0 :: u64 where "tf_a0 = 112"
definition tf_a1 :: u64 where "tf_a1 = 120"
definition tf_a7 :: u64 where "tf_a7 = 168"
definition tf_size :: nat where "tf_size = 288"

definition tf_get :: "'a ptab_scheme \<Rightarrow> nat \<Rightarrow> u64 \<Rightarrow> u64" where
  "tf_get s i off = ld64 (memory (kmem s)) (p_trapframe (procs s i) + off)"

definition tf_set :: "'a ptab_scheme \<Rightarrow> nat \<Rightarrow> u64 \<Rightarrow> u64 \<Rightarrow> 'a ptab_scheme" where
  "tf_set s i off v = set_mem s (st64 (memory (kmem s)) (p_trapframe (procs s i) + off) v)"

text \<open>A table as the kernel's zeroed data has it, over a given memory.\<close>

definition zero_proc :: proc where
  "zero_proc = \<lparr>p_state = UNUSED, p_chan = ChNone, p_killed = False, p_xstate = 0, p_pid = 0, p_parent = None, p_kstack = 0, p_sz = 0,
     p_pagetable = 0, p_trapframe = 0, p_context = \<lparr>cx_ra = 0, cx_sp = 0, cx_s = (\<lambda>_. 0)\<rparr>, p_ofile = (\<lambda>_. None), p_cwd = None,
     p_name = (\<lambda>_. 0)\<rparr>"

definition zero_ptab :: "kst \<Rightarrow> ptab" where
  "zero_ptab k = \<lparr>kmem = k, procs = (\<lambda>_. zero_proc), nextpid = 1, initproc = None, me = 0, trampoline = KERNBASE,
     forkret_pc = KERNBASE, xfer = KERNBASE, locals = KERNBASE\<rparr>"

section \<open>Allocation\<close>

definition procinit :: "'a ptab_scheme \<Rightarrow> 'a ptab_scheme" where
  "procinit s = s\<lparr>procs := (\<lambda>i. if i < NPROC then (procs s i)\<lparr>p_state := UNUSED, p_kstack := KSTACK (of_nat i)\<rparr> else procs s i)\<rparr>"

text \<open>\<^verbatim>\<open>nextpid\<close> is an \<^verbatim>\<open>int\<close>: its overflow is undefined.\<close>

definition allocpid :: "'a ptab_scheme \<Rightarrow> (int \<times> 'a ptab_scheme) res" where
  "allocpid s = (if nextpid s \<ge> 2 ^ 31 - 1 then Undef else Ok (nextpid s, s\<lparr>nextpid := nextpid s + 1\<rparr>))"

definition proc_pagetable :: "'a ptab_scheme \<Rightarrow> nat \<Rightarrow> (u64 \<times> 'a ptab_scheme) res" where
  "proc_pagetable s i =
     bnd (uvmcreate (kmem s)) (\<lambda>(pagetable, k).
       if pagetable = 0 then Ok (0, s\<lparr>kmem := k\<rparr>)
       else bnd (mappages k pagetable TRAMPOLINE PGSIZE (trampoline s) (PTE_R OR PTE_X)) (\<lambda>(r, k).
         if r < 0 then bnd (uvmfree k pagetable 0) (\<lambda>k. Ok (0, s\<lparr>kmem := k\<rparr>))
         else bnd (mappages k pagetable TRAPFRAME PGSIZE (p_trapframe (procs s i)) (PTE_R OR PTE_W)) (\<lambda>(r, k).
           if r < 0 then bnd (uvmunmap k pagetable TRAMPOLINE 1 False) (\<lambda>k.
             bnd (uvmfree k pagetable 0) (\<lambda>k. Ok (0, s\<lparr>kmem := k\<rparr>)))
           else Ok (pagetable, s\<lparr>kmem := k\<rparr>))))"

definition proc_freepagetable :: "kst \<Rightarrow> u64 \<Rightarrow> u64 \<Rightarrow> kst res" where
  "proc_freepagetable k pagetable sz =
     bnd (uvmunmap k pagetable TRAMPOLINE 1 False) (\<lambda>k.
       bnd (uvmunmap k pagetable TRAPFRAME 1 False) (\<lambda>k. uvmfree k pagetable sz))"

definition freeproc :: "'a ptab_scheme \<Rightarrow> nat \<Rightarrow> 'a ptab_scheme res" where
  "freeproc s i =
     (let p = procs s i in
      bnd (if p_trapframe p \<noteq> 0 then kfree (kmem s) (p_trapframe p) else Ok (kmem s)) (\<lambda>k.
        bnd (if p_pagetable p \<noteq> 0 then proc_freepagetable k (p_pagetable p) (p_sz p) else Ok k) (\<lambda>k.
          Ok (upd_proc (s\<lparr>kmem := k\<rparr>) i (\<lambda>p. p\<lparr>p_trapframe := 0, p_pagetable := 0, p_sz := 0, p_pid := 0, p_parent := None,
            p_name := (p_name p)(0 := 0), p_chan := ChNone, p_killed := False, p_xstate := 0, p_state := UNUSED\<rparr>)))))"

text \<open>The first unused slot from \<open>i\<close> on.\<close>

primrec unused_slot :: "(nat \<Rightarrow> proc) \<Rightarrow> nat \<Rightarrow> nat \<Rightarrow> nat option" where
  "unused_slot ps i 0 = None"
| "unused_slot ps i (Suc k) = (if p_state (ps i) = UNUSED then Some i else unused_slot ps (Suc i) k)"

definition allocproc :: "'a ptab_scheme \<Rightarrow> (nat option \<times> 'a ptab_scheme) res" where
  "allocproc s =
     (case unused_slot (procs s) 0 NPROC of
        None \<Rightarrow> Ok (None, s)
      | Some i \<Rightarrow>
          bnd (allocpid s) (\<lambda>(pid, s).
            let s = upd_proc s i (\<lambda>p. p\<lparr>p_pid := pid, p_state := USED\<rparr>) in
            bnd (kalloc (kmem s)) (\<lambda>(tf, k).
              let s = upd_proc (s\<lparr>kmem := k\<rparr>) i (\<lambda>p. p\<lparr>p_trapframe := tf\<rparr>) in
              if tf = 0 then bnd (freeproc s i) (\<lambda>s. Ok (None, s))
              else bnd (proc_pagetable s i) (\<lambda>(pt, s).
                let s = upd_proc s i (\<lambda>p. p\<lparr>p_pagetable := pt\<rparr>) in
                if pt = 0 then bnd (freeproc s i) (\<lambda>s. Ok (None, s))
                else Ok (Some i, upd_proc s i (\<lambda>p. p\<lparr>p_context :=
                  \<lparr>cx_ra = forkret_pc s, cx_sp = p_kstack p + PGSIZE, cx_s = (\<lambda>_. 0)\<rparr>\<rparr>))))))"

definition growproc :: "'a ptab_scheme \<Rightarrow> int \<Rightarrow> (int \<times> 'a ptab_scheme) res" where
  "growproc s n =
     (let p = myproc s; sz = p_sz p in
      if n > 0 then
        bnd (uvmalloc (kmem s) (p_pagetable p) sz (sz + of_int n) PTE_W) (\<lambda>(sz, k).
          if sz = 0 then Ok (-1, s\<lparr>kmem := k\<rparr>)
          else Ok (0, upd_proc (s\<lparr>kmem := k\<rparr>) (me s) (\<lambda>p. p\<lparr>p_sz := sz\<rparr>)))
      else if n < 0 then
        bnd (uvmdealloc (kmem s) (p_pagetable p) sz (sz + of_int n)) (\<lambda>(sz, k).
          Ok (0, upd_proc (s\<lparr>kmem := k\<rparr>) (me s) (\<lambda>p. p\<lparr>p_sz := sz\<rparr>)))
      else Ok (0, s))"

section \<open>Sleeping and waking\<close>

text \<open>
  \<^verbatim>\<open>sleep\<close> up to the switch to the scheduler, and what it does after it is woken. The caller's
  condition lock is released between the two.
\<close>

definition sleep_enter :: "'a ptab_scheme \<Rightarrow> chan \<Rightarrow> 'a ptab_scheme" where
  "sleep_enter s ch = upd_proc s (me s) (\<lambda>p. p\<lparr>p_chan := ch, p_state := SLEEPING\<rparr>)"

definition sleep_exit :: "'a ptab_scheme \<Rightarrow> 'a ptab_scheme" where
  "sleep_exit s = upd_proc s (me s) (\<lambda>p. p\<lparr>p_chan := ChNone\<rparr>)"

definition wakeup_one :: "'a ptab_scheme \<Rightarrow> chan \<Rightarrow> nat \<Rightarrow> 'a ptab_scheme" where
  "wakeup_one s ch i =
     (if i \<noteq> me s \<and> p_state (procs s i) = SLEEPING \<and> p_chan (procs s i) = ch
      then upd_proc s i (\<lambda>p. p\<lparr>p_state := RUNNABLE\<rparr>) else s)"

primrec wakeup_loop :: "'a ptab_scheme \<Rightarrow> chan \<Rightarrow> nat \<Rightarrow> nat \<Rightarrow> 'a ptab_scheme" where
  "wakeup_loop s ch i 0 = s"
| "wakeup_loop s ch i (Suc k) =
     wakeup_loop (wakeup_one s ch i) ch (Suc i) k"

definition wakeup :: "'a ptab_scheme \<Rightarrow> chan \<Rightarrow> 'a ptab_scheme" where
  "wakeup s ch = wakeup_loop s ch 0 NPROC"

definition yield_enter :: "'a ptab_scheme \<Rightarrow> 'a ptab_scheme" where
  "yield_enter s = upd_proc s (me s) (\<lambda>p. p\<lparr>p_state := RUNNABLE\<rparr>)"

definition setkilled :: "'a ptab_scheme \<Rightarrow> nat \<Rightarrow> 'a ptab_scheme" where
  "setkilled s i = upd_proc s i (\<lambda>p. p\<lparr>p_killed := True\<rparr>)"

definition killed :: "'a ptab_scheme \<Rightarrow> nat \<Rightarrow> bool" where
  "killed s i = p_killed (procs s i)"

primrec kill_loop :: "'a ptab_scheme \<Rightarrow> int \<Rightarrow> nat \<Rightarrow> nat \<Rightarrow> int \<times> 'a ptab_scheme" where
  "kill_loop s pid i 0 = (-1, s)"
| "kill_loop s pid i (Suc k) =
     (if p_pid (procs s i) = pid
      then (0, upd_proc s i (\<lambda>p. p\<lparr>p_killed := True, p_state := (if p_state p = SLEEPING then RUNNABLE else p_state p)\<rparr>))
      else kill_loop s pid (Suc i) k)"

definition kill :: "'a ptab_scheme \<Rightarrow> int \<Rightarrow> int \<times> 'a ptab_scheme" where
  "kill s pid = kill_loop s pid 0 NPROC"

primrec reparent_loop :: "'a ptab_scheme \<Rightarrow> nat \<Rightarrow> nat \<Rightarrow> nat \<Rightarrow> 'a ptab_scheme" where
  "reparent_loop s p i 0 = s"
| "reparent_loop s p i (Suc k) =
     reparent_loop (if p_parent (procs s i) = Some p
       then let s = upd_proc s i (\<lambda>q. q\<lparr>p_parent := initproc s\<rparr>) in
            (case initproc s of Some q \<Rightarrow> wakeup s (ChProc q) | None \<Rightarrow> wakeup s ChNone)
       else s) p (Suc i) k"

definition reparent :: "'a ptab_scheme \<Rightarrow> nat \<Rightarrow> 'a ptab_scheme" where
  "reparent s p = reparent_loop s p 0 NPROC"

section \<open>Copying to and from a process\<close>

text \<open>
  The bytes of a kernel object \<open>bs\<close> go to a user address of the current process or to a kernel
  address; \<open>either_copyin\<close> gives the new bytes of the object, part of which may have changed even
  when it fails.
\<close>

definition copyout_obj :: "'a ptab_scheme \<Rightarrow> u64 \<Rightarrow> u64 \<Rightarrow> u8 list \<Rightarrow> (int \<times> 'a ptab_scheme) res" where
  "copyout_obj s pagetable dst bs =
     (let k = (kmem s)\<lparr>memory := write_mem (memory (kmem s)) (xfer s) bs\<rparr> in
      bnd (copyout k pagetable dst (xfer s) (of_nat (length bs))) (\<lambda>(r, k). Ok (r, s\<lparr>kmem := k\<rparr>)))"

definition copyin_obj :: "'a ptab_scheme \<Rightarrow> u64 \<Rightarrow> u64 \<Rightarrow> u8 list \<Rightarrow> (int \<times> u8 list \<times> 'a ptab_scheme) res" where
  "copyin_obj s pagetable src bs =
     (let k = (kmem s)\<lparr>memory := write_mem (memory (kmem s)) (xfer s) bs\<rparr> in
      bnd (copyin k pagetable (xfer s) src (of_nat (length bs))) (\<lambda>(r, k).
        Ok (r, read_mem (memory k) (xfer s) (length bs), s\<lparr>kmem := k\<rparr>)))"

definition either_copyout :: "'a ptab_scheme \<Rightarrow> bool \<Rightarrow> u64 \<Rightarrow> u8 list \<Rightarrow> (int \<times> 'a ptab_scheme) res" where
  "either_copyout s user_dst dst bs =
     (if user_dst then copyout_obj s (p_pagetable (myproc s)) dst bs
      else Ok (0, set_mem s (write_mem (memory (kmem s)) dst bs)))"

definition either_copyin :: "'a ptab_scheme \<Rightarrow> u8 list \<Rightarrow> bool \<Rightarrow> u64 \<Rightarrow> (int \<times> u8 list \<times> 'a ptab_scheme) res" where
  "either_copyin s bs user_src src =
     (if user_src then copyin_obj s (p_pagetable (myproc s)) src bs
      else Ok (0, read_mem (memory (kmem s)) src (length bs), s))"

section \<open>Waiting for a child\<close>

text \<open>One scan of \<^verbatim>\<open>wait\<close>: a result, or \<open>None\<close> with whether there are children.\<close>

primrec wait_scan :: "'a ptab_scheme \<Rightarrow> u64 \<Rightarrow> nat \<Rightarrow> nat \<Rightarrow> bool \<Rightarrow> (int option \<times> bool \<times> 'a ptab_scheme) res" where
  "wait_scan s addr i 0 havekids = Ok (None, havekids, s)"
| "wait_scan s addr i (Suc k) havekids =
     (if p_parent (procs s i) = Some (me s) then
        if p_state (procs s i) = ZOMBIE then
          let pid = p_pid (procs s i) in
          bnd (if addr \<noteq> 0 then copyout_obj s (p_pagetable (myproc s)) addr (le_bytes 4 (ucast (p_xstate (procs s i)))) else Ok (0, s))
            (\<lambda>(r, s). if r < 0 then Ok (Some (-1), True, s)
              else bnd (freeproc s i) (\<lambda>s. Ok (Some pid, True, s)))
        else wait_scan s addr (Suc i) k True
      else wait_scan s addr (Suc i) k havekids)"

text \<open>\<^verbatim>\<open>wait\<close> returns a value or goes to sleep on its own slot, to scan again when it is woken.\<close>

definition wait :: "'a ptab_scheme \<Rightarrow> u64 \<Rightarrow> (int option \<times> 'a ptab_scheme) res" where
  "wait s addr =
     bnd (wait_scan s addr 0 NPROC False) (\<lambda>(r, havekids, s).
       case r of Some v \<Rightarrow> Ok (Some v, s)
       | None \<Rightarrow> if \<not> havekids \<or> killed s (me s) then Ok (Some (-1), s)
                 else Ok (None, sleep_enter s (ChProc (me s))))"

section \<open>Lemmas\<close>

lemma upd_proc_simps [simp]:
  "procs (upd_proc s i f) = (procs s)(i := f (procs s i))" "kmem (upd_proc s i f) = kmem s" "me (upd_proc s i f) = me s"
  "nextpid (upd_proc s i f) = nextpid s" "initproc (upd_proc s i f) = initproc s" "xfer (upd_proc s i f) = xfer s"
  by (simp_all add: upd_proc_def)

lemma unused_slot_first:
  "unused_slot ps i k = Some j \<longleftrightarrow> i \<le> j \<and> j < i + k \<and> p_state (ps j) = UNUSED \<and> (\<forall>m. i \<le> m \<and> m < j \<longrightarrow> p_state (ps m) \<noteq> UNUSED)"
proof (induction k arbitrary: i)
  case (Suc k)
  show ?case
  proof (cases "p_state (ps i) = UNUSED")
    case True
    then show ?thesis by (auto simp: not_less [symmetric])
  next
    case False
    then have "i \<le> m \<and> m < j \<longrightarrow> p_state (ps m) \<noteq> UNUSED" if "Suc i \<le> m \<and> m < j \<longrightarrow> p_state (ps m) \<noteq> UNUSED" for m
      using that by (cases "m = i") auto
    then show ?thesis using False Suc.IH [of "Suc i"] by (auto simp: Suc_le_eq)
  qed
qed auto

lemma kill_loop_first:
  "i \<le> j \<Longrightarrow> j < i + k \<Longrightarrow> p_pid (procs s j) = pid \<Longrightarrow> \<forall>m. i \<le> m \<and> m < j \<longrightarrow> p_pid (procs s m) \<noteq> pid \<Longrightarrow>
   kill_loop s pid i k =
     (0, upd_proc s j (\<lambda>p. p\<lparr>p_killed := True, p_state := (if p_state p = SLEEPING then RUNNABLE else p_state p)\<rparr>))"
proof (induction k arbitrary: i)
  case (Suc k)
  show ?case
  proof (cases "i = j")
    case False
    then have "Suc i \<le> j" "p_pid (procs s i) \<noteq> pid" using Suc.prems by auto
    then show ?thesis using Suc.IH [of "Suc i"] Suc.prems by simp
  qed (use Suc.prems in simp)
qed simp

lemma kill_loop_none: "\<forall>m. i \<le> m \<and> m < i + k \<longrightarrow> p_pid (procs s m) \<noteq> pid \<Longrightarrow> kill_loop s pid i k = (-1, s)"
proof (induction k arbitrary: i)
  case (Suc k)
  then have "p_pid (procs s i) \<noteq> pid" by simp
  then show ?case using Suc by simp
qed simp

lemma proc_pagetable_procs: "proc_pagetable s i = Ok (pt, t) \<Longrightarrow> procs t = procs s"
  by (auto simp: proc_pagetable_def split: if_splits)

lemma allocproc_slot:
  assumes "allocproc s = Ok (Some j, t)"
  shows "unused_slot (procs s) 0 NPROC = Some j" and "p_killed (procs t j) = p_killed (procs s j)"
  using assms by (auto simp: allocproc_def allocpid_def Let_def split: option.splits if_splits dest!: proc_pagetable_procs)

text \<open>What \<^verbatim>\<open>wakeup\<close> does: it makes runnable exactly the other processes that sleep on the channel.\<close>

definition woken :: "nat \<Rightarrow> chan \<Rightarrow> nat \<Rightarrow> proc \<Rightarrow> proc" where
  "woken m ch i p = (if i \<noteq> m \<and> p_state p = SLEEPING \<and> p_chan p = ch then p\<lparr>p_state := RUNNABLE\<rparr> else p)"

lemma wakeup_one_simps:
  "me (wakeup_one s ch i) = me s" "wakeup_one s ch i = s\<lparr>procs := procs (wakeup_one s ch i)\<rparr>"
  "procs (wakeup_one s ch i) = (procs s)(i := woken (me s) ch i (procs s i))"
  by (auto simp: wakeup_one_def upd_proc_def woken_def fun_eq_iff)

lemma wakeup_loop_procs:
  "procs (wakeup_loop s ch i k) j = (if i \<le> j \<and> j < i + k then woken (me s) ch j (procs s j) else procs s j)"
proof (induction k arbitrary: s i)
  case (Suc k)
  show ?case unfolding wakeup_loop.simps Suc.IH wakeup_one_simps(1,3) by (cases "j = i") simp_all
qed auto

lemma wakeup_loop_frame: "wakeup_loop s ch i k = s\<lparr>procs := procs (wakeup_loop s ch i k)\<rparr>"
proof (induction k arbitrary: s i)
  case (Suc k)
  have "(wakeup_one s ch i)\<lparr>procs := P\<rparr> = s\<lparr>procs := P\<rparr>" for P by (subst wakeup_one_simps(2)) simp
  then show ?case unfolding wakeup_loop.simps by (metis Suc.IH)
qed simp

lemma wakeup_procs: "procs (wakeup s ch) j = (if j < NPROC then woken (me s) ch j (procs s j) else procs s j)"
  by (simp add: wakeup_def wakeup_loop_procs)

lemma wakeup_frame: "wakeup s ch = s\<lparr>procs := procs (wakeup s ch)\<rparr>"
  unfolding wakeup_def by (rule wakeup_loop_frame)

section \<open>Properties\<close>

text \<open>
  \<^verbatim>\<open>kill(pid)\<close> marks the one process with that pid as killed and makes it runnable if it sleeps;
  no other slot changes, and an unknown pid changes nothing and gives -1.
\<close>

lemma kill_spec:
  assumes "\<forall>j < NPROC. \<forall>k < NPROC. p_pid (procs s j) = pid \<and> p_pid (procs s k) = pid \<longrightarrow> j = k" and "kill s pid = (r, t)"
  shows "(r = 0 \<longleftrightarrow> (\<exists>j < NPROC. p_pid (procs s j) = pid)) \<and> (r = 0 \<or> r = -1 \<and> t = s) \<and>
    (\<forall>j. procs t j = (if j < NPROC \<and> p_pid (procs s j) = pid
       then (procs s j)\<lparr>p_killed := True, p_state := (if p_state (procs s j) = SLEEPING then RUNNABLE else p_state (procs s j))\<rparr> else procs s j))"
proof (cases "\<exists>j < NPROC. p_pid (procs s j) = pid")
  case True
  then obtain j where j: "j < NPROC" "p_pid (procs s j) = pid" by blast
  then have "\<forall>m. 0 \<le> m \<and> m < j \<longrightarrow> p_pid (procs s m) \<noteq> pid" using assms(1) by (metis less_trans nat_neq_iff)
  from kill_loop_first [of 0 j NPROC s pid, OF _ _ j(2) this] j assms(2) have
    t: "r = 0" "t = upd_proc s j (\<lambda>p. p\<lparr>p_killed := True, p_state := (if p_state p = SLEEPING then RUNNABLE else p_state p)\<rparr>)"
    by (simp_all add: kill_def)
  have "i < NPROC \<and> p_pid (procs s i) = pid \<longleftrightarrow> i = j" for i using assms(1) j by blast
  then show ?thesis using True by (simp add: t)
next
  case False
  then have "kill_loop s pid 0 NPROC = (-1, s)" by (intro kill_loop_none) simp
  then show ?thesis using False assms(2) by (auto simp: kill_def)
qed

text \<open>
  C29. \<^verbatim>\<open>kill(0)\<close> is not refused although no process has pid 0: it succeeds on the first free slot,
  which has pid 0, and the mark stays when \<^verbatim>\<open>allocproc\<close> hands that slot to the next new process,
  which is then born killed.
\<close>

theorem kill_zero_marks_next:
  assumes "unused_slot (procs s) 0 NPROC = Some i" and "p_pid (procs s i) = 0" and "\<forall>j < i. p_pid (procs s j) \<noteq> 0"
  shows "kill s 0 = (0, upd_proc s i (\<lambda>p. p\<lparr>p_killed := True\<rparr>)) \<and>
    (\<forall>j t. allocproc (snd (kill s 0)) = Ok (Some j, t) \<longrightarrow> j = i \<and> p_killed (procs t j))"
proof -
  have i: "i < NPROC" "p_state (procs s i) = UNUSED" using assms(1) by (simp_all add: unused_slot_first)
  have "kill s 0 = (0, upd_proc s i (\<lambda>p. p\<lparr>p_killed := True, p_state := (if p_state p = SLEEPING then RUNNABLE else p_state p)\<rparr>))"
    unfolding kill_def using i assms by (intro kill_loop_first) auto
  moreover have "(procs s i)\<lparr>p_killed := True, p_state := UNUSED\<rparr> = (procs s i)\<lparr>p_killed := True\<rparr>" using i(2) by (cases "procs s i") simp
  ultimately have k: "kill s 0 = (0, upd_proc s i (\<lambda>p. p\<lparr>p_killed := True\<rparr>))" using i(2) by (simp add: upd_proc_def)
  moreover have "unused_slot (procs (upd_proc s i (\<lambda>p. p\<lparr>p_killed := True\<rparr>))) 0 NPROC = Some i"
    using assms(1) by (auto simp: unused_slot_first)
  ultimately show ?thesis using allocproc_slot by fastforce
qed

theorem kill_zero_marks_next_witness:
  "\<exists>s :: ptab. unused_slot (procs s) 0 NPROC = Some 0 \<and> kill s 0 = (0, upd_proc s 0 (\<lambda>p. p\<lparr>p_killed := True\<rparr>))"
proof -
  let ?s = "zero_ptab \<lparr>memory = (\<lambda>_. 0), freelist = 0, counter = (\<lambda>_. 0), kend = KERNBASE\<rparr>"
  have u: "unused_slot (procs ?s) 0 NPROC = Some 0" "p_pid (procs ?s 0) = 0" by (simp_all add: unused_slot_first zero_ptab_def zero_proc_def NPROC_def)
  then show ?thesis using kill_zero_marks_next [OF u] by blast
qed

end
