(* ===== verification/Sched.thy ===== *)
theory Sched
  imports Ptable Locks
begin

text \<open>
  Scheduling on several CPUs, \<^verbatim>\<open>scheduler\<close>, \<^verbatim>\<open>sched\<close>, \<^verbatim>\<open>yield\<close>, \<^verbatim>\<open>sleep\<close>, \<^verbatim>\<open>wakeup\<close> and
  the end of \<^verbatim>\<open>exit\<close> of \<^verbatim>\<open>kernel/proc.c\<close>, with \<^verbatim>\<open>p->lock\<close> and the other spinlocks, in steps small enough to show why \<^verbatim>\<open>p->lock\<close> is held across \<^verbatim>\<open>swtch\<close>: a
  process never runs on two CPUs, \<^verbatim>\<open>sched\<close> never panics, and a wakeup is never lost.
\<close>

section \<open>The switch\<close>

definition sched :: "bool \<Rightarrow> cpu \<Rightarrow> procstate \<Rightarrow> cpu res" where
  "sched holds c st =
     (if \<not> holds then Panic ''sched p->lock''
      else if noff c \<noteq> 1 then Panic ''sched locks''
      else if st = RUNNING then Panic ''sched running''
      else if intr c then Panic ''sched interruptible''
      else Ok c)"

text \<open>
  Where a CPU is: in the loop of \<^verbatim>\<open>scheduler\<close> about to take the lock of a slot (\<open>Scan\<close>), holding
  it (\<open>Held\<close>), in the process just switched to, which still holds its own lock (\<open>Entering\<close>), running
  the process, which holds some of the other spinlocks of the kernel (\<open>Runs\<close>), and back in the
  scheduler with the lock still held (\<open>Back\<close>). A process gives the CPU up in \<^verbatim>\<open>yield\<close>, \<^verbatim>\<open>sleep\<close> or
  \<^verbatim>\<open>exit\<close>. \<open>YieldLk\<close>, \<open>SleepLk\<close> and \<open>ExitLk\<close> have just taken \<^verbatim>\<open>p->lock\<close>, \<open>SleepRel\<close> has released
  the lock it was given, \<open>ExitSet\<close> has set \<open>ZOMBIE\<close>, and \<open>Switching\<close> calls \<^verbatim>\<open>sched\<close>; \<open>Retake\<close> is at the
  end of \<^verbatim>\<open>sleep\<close>, about to take the lock again.
\<close>

datatype klk = WaitLock | OtherLock nat

text \<open>What a process does next when \<^verbatim>\<open>scheduler\<close> switches to it: the code its saved context is in.\<close>

datatype kctx = AtForkret | AfterYield | AfterSleep klk | AfterExit

datatype cpc = Scan nat | Held nat | Entering nat | Runs nat "klk list" | YieldLk nat "klk list" | SleepLk nat klk
  | SleepRel nat klk | Retake nat klk | ExitLk nat | ExitSet nat | Switching nat "klk list" kctx | Back nat

record sst =
  plock :: "nat \<Rightarrow> nat option"
  klock :: "klk \<Rightarrow> nat option"
  pst :: "nat \<Rightarrow> procstate"
  pctx :: "nat \<Rightarrow> kctx"
  cproc :: "nat \<Rightarrow> nat option"
  ccpu :: "nat \<Rightarrow> cpu"
  cpc :: "nat \<Rightarrow> cpc"

text \<open>The next slot of the loop over \<^verbatim>\<open>proc[]\<close>.\<close>

definition next_slot :: "nat \<Rightarrow> nat" where
  "next_slot i = Suc i mod NPROC"

text \<open>
  \<^verbatim>\<open>scheduler\<close>, with the switch into a process: \<^verbatim>\<open>swtch\<close> saves where the process is on the way out, and
  the process goes on from there when it is picked again. \<^verbatim>\<open>intena\<close> is restored from its stack.
\<close>

inductive scheduler_step :: "sst \<Rightarrow> sst \<Rightarrow> bool" where
  acquire_slot: "cpc s c = Scan i \<Longrightarrow> plock s i = None \<Longrightarrow>
    scheduler_step s (s\<lparr>plock := (plock s)(i \<mapsto> c), ccpu := (ccpu s)(c := push_off (ccpu s c)), cpc := (cpc s)(c := Held i)\<rparr>)"
| skip_slot: "cpc s c = Held i \<Longrightarrow> pst s i \<noteq> RUNNABLE \<Longrightarrow> pop_off (ccpu s c) = Ok u \<Longrightarrow>
    scheduler_step s (s\<lparr>plock := (plock s)(i := None), ccpu := (ccpu s)(c := u), cpc := (cpc s)(c := Scan (next_slot i))\<rparr>)"
| pick: "cpc s c = Held i \<Longrightarrow> pst s i = RUNNABLE \<Longrightarrow>
    scheduler_step s (s\<lparr>pst := (pst s)(i := RUNNING), cproc := (cproc s)(c \<mapsto> i), cpc := (cpc s)(c := Entering i)\<rparr>)"
| go_on: "cpc s c = Back i \<Longrightarrow> pop_off (ccpu s c) = Ok u \<Longrightarrow>
    scheduler_step s (s\<lparr>plock := (plock s)(i := None), ccpu := (ccpu s)(c := u), cpc := (cpc s)(c := Scan (next_slot i))\<rparr>)"

text \<open>\<^verbatim>\<open>sched\<close>: its checks and the switch to the scheduler, which clears \<^verbatim>\<open>c->proc\<close>.\<close>

inductive sched_step :: "sst \<Rightarrow> sst \<Rightarrow> bool" where
  switch: "cpc s c = Switching i ls k \<Longrightarrow> sched (plock s i = Some c) (ccpu s c) (pst s i) = Ok u \<Longrightarrow>
    sched_step s (s\<lparr>pctx := (pctx s)(i := k), ccpu := (ccpu s)(c := u), cproc := (cproc s)(c := None), cpc := (cpc s)(c := Back i)\<rparr>)"

text \<open>\<^verbatim>\<open>yield\<close>, called for a timer interrupt: interrupts were on when it arrived, and the trap turns them off.\<close>

inductive yield_step :: "sst \<Rightarrow> sst \<Rightarrow> bool" where
  yield_acquire: "cpc s c = Runs i ls \<Longrightarrow> intr (ccpu s c) \<Longrightarrow> plock s i = None \<Longrightarrow>
    yield_step s (s\<lparr>plock := (plock s)(i \<mapsto> c), ccpu := (ccpu s)(c := push_off ((ccpu s c)\<lparr>intr := False\<rparr>)),
      cpc := (cpc s)(c := YieldLk i ls)\<rparr>)"
| yield_set: "cpc s c = YieldLk i ls \<Longrightarrow>
    yield_step s (s\<lparr>pst := (pst s)(i := RUNNABLE), cpc := (cpc s)(c := Switching i ls AfterYield)\<rparr>)"
| yield_return: "cpc s c = Entering i \<Longrightarrow> pctx s i = AfterYield \<Longrightarrow> pop_off ((ccpu s c)\<lparr>intena := b\<rparr>) = Ok u \<Longrightarrow>
    yield_step s (s\<lparr>plock := (plock s)(i := None), ccpu := (ccpu s)(c := u), cpc := (cpc s)(c := Runs i [])\<rparr>)"

text \<open>\<^verbatim>\<open>sleep\<close>, which its callers enter with no spinlock but the one they pass.\<close>

inductive sleep_step :: "sst \<Rightarrow> sst \<Rightarrow> bool" where
  sleep_acquire: "cpc s c = Runs i [l] \<Longrightarrow> plock s i = None \<Longrightarrow>
    sleep_step s (s\<lparr>plock := (plock s)(i \<mapsto> c), ccpu := (ccpu s)(c := push_off (ccpu s c)), cpc := (cpc s)(c := SleepLk i l)\<rparr>)"
| sleep_release: "cpc s c = SleepLk i l \<Longrightarrow> pop_off (ccpu s c) = Ok u \<Longrightarrow>
    sleep_step s (s\<lparr>klock := (klock s)(l := None), ccpu := (ccpu s)(c := u), cpc := (cpc s)(c := SleepRel i l)\<rparr>)"
| sleep_set: "cpc s c = SleepRel i l \<Longrightarrow>
    sleep_step s (s\<lparr>pst := (pst s)(i := SLEEPING), cpc := (cpc s)(c := Switching i [] (AfterSleep l))\<rparr>)"
| sleep_tidy: "cpc s c = Entering i \<Longrightarrow> pctx s i = AfterSleep l \<Longrightarrow> pop_off ((ccpu s c)\<lparr>intena := b\<rparr>) = Ok u \<Longrightarrow>
    sleep_step s (s\<lparr>plock := (plock s)(i := None), ccpu := (ccpu s)(c := u), cpc := (cpc s)(c := Retake i l)\<rparr>)"
| sleep_retake: "cpc s c = Retake i l \<Longrightarrow> klock s l = None \<Longrightarrow>
    sleep_step s (s\<lparr>klock := (klock s)(l \<mapsto> c), ccpu := (ccpu s)(c := push_off (ccpu s c)), cpc := (cpc s)(c := Runs i [l])\<rparr>)"

text \<open>\<^verbatim>\<open>exit\<close> once it has \<^verbatim>\<open>wait_lock\<close>.\<close>

inductive exit_step :: "sst \<Rightarrow> sst \<Rightarrow> bool" where
  exit_acquire: "cpc s c = Runs i [WaitLock] \<Longrightarrow> plock s i = None \<Longrightarrow>
    exit_step s (s\<lparr>plock := (plock s)(i \<mapsto> c), ccpu := (ccpu s)(c := push_off (ccpu s c)), cpc := (cpc s)(c := ExitLk i)\<rparr>)"
| exit_set: "cpc s c = ExitLk i \<Longrightarrow> exit_step s (s\<lparr>pst := (pst s)(i := ZOMBIE), cpc := (cpc s)(c := ExitSet i)\<rparr>)"
| exit_release: "cpc s c = ExitSet i \<Longrightarrow> pop_off (ccpu s c) = Ok u \<Longrightarrow>
    exit_step s (s\<lparr>klock := (klock s)(WaitLock := None), ccpu := (ccpu s)(c := u), cpc := (cpc s)(c := Switching i [] AfterExit)\<rparr>)"

text \<open>
  All CPUs together. Besides the functions above, a new process leaves \<^verbatim>\<open>forkret\<close>, a running process
  takes and releases spinlocks, interrupts go on and off where no lock is held, and the functions
  that take another \<^verbatim>\<open>p->lock\<close> for one change of state, \<^verbatim>\<open>wakeup\<close> and \<^verbatim>\<open>kill\<close>, \<^verbatim>\<open>allocproc\<close>, \<^verbatim>\<open>fork\<close> and
  \<^verbatim>\<open>wait\<close>, do so in one step.
\<close>

inductive sstep :: "sst \<Rightarrow> sst \<Rightarrow> bool" where
  in_scheduler: "scheduler_step s t \<Longrightarrow> sstep s t"
| in_sched: "sched_step s t \<Longrightarrow> sstep s t"
| in_yield: "yield_step s t \<Longrightarrow> sstep s t"
| in_sleep: "sleep_step s t \<Longrightarrow> sstep s t"
| in_exit: "exit_step s t \<Longrightarrow> sstep s t"
| forkret: "cpc s c = Entering i \<Longrightarrow> pctx s i = AtForkret \<Longrightarrow> pop_off ((ccpu s c)\<lparr>intena := b\<rparr>) = Ok u \<Longrightarrow>
    sstep s (s\<lparr>plock := (plock s)(i := None), ccpu := (ccpu s)(c := u), cpc := (cpc s)(c := Runs i [])\<rparr>)"
| get_lock: "cpc s c = Runs i ls \<Longrightarrow> klock s l = None \<Longrightarrow>
    sstep s (s\<lparr>klock := (klock s)(l \<mapsto> c), ccpu := (ccpu s)(c := push_off (ccpu s c)), cpc := (cpc s)(c := Runs i (l # ls))\<rparr>)"
| put_lock: "cpc s c = Runs i ls \<Longrightarrow> l \<in> set ls \<Longrightarrow> pop_off (ccpu s c) = Ok u \<Longrightarrow>
    sstep s (s\<lparr>klock := (klock s)(l := None), ccpu := (ccpu s)(c := u), cpc := (cpc s)(c := Runs i (remove1 l ls))\<rparr>)"
| wake: "plock s q = None \<Longrightarrow> pst s q = SLEEPING \<Longrightarrow> sstep s (s\<lparr>pst := (pst s)(q := RUNNABLE)\<rparr>)"
| create: "plock s q = None \<Longrightarrow> pst s q = UNUSED \<Longrightarrow>
    sstep s (s\<lparr>pctx := (pctx s)(q := AtForkret), pst := (pst s)(q := USED)\<rparr>)"
| start: "plock s q = None \<Longrightarrow> pst s q = USED \<Longrightarrow> st \<in> {RUNNABLE, UNUSED} \<Longrightarrow> sstep s (s\<lparr>pst := (pst s)(q := st)\<rparr>)"
| reap: "plock s q = None \<Longrightarrow> pst s q = ZOMBIE \<Longrightarrow> sstep s (s\<lparr>pst := (pst s)(q := UNUSED)\<rparr>)"
| interrupt: "cpc s c = Scan i \<or> cpc s c = Runs i [] \<Longrightarrow>
    sstep s (s\<lparr>ccpu := (ccpu s)(c := (ccpu s c)\<lparr>intr := b\<rparr>)\<rparr>)"

definition sinit :: "(nat \<Rightarrow> procstate) \<Rightarrow> sst" where
  "sinit ps = \<lparr>plock = (\<lambda>_. None), klock = (\<lambda>_. None), pst = ps, pctx = (\<lambda>_. AtForkret), cproc = (\<lambda>_. None),
     ccpu = (\<lambda>_. \<lparr>intr = True, noff = 0, intena = True\<rparr>), cpc = (\<lambda>_. Scan 0)\<rparr>"

text \<open>The \<^verbatim>\<open>p->lock\<close> and the other spinlocks that a CPU holds at each place.\<close>

fun locks :: "cpc \<Rightarrow> nat option" where
  "locks (Scan i) = None"
| "locks (Runs i ls) = None"
| "locks (Retake i l) = None"
| "locks (Held i) = Some i"
| "locks (Entering i) = Some i"
| "locks (YieldLk i ls) = Some i"
| "locks (SleepLk i l) = Some i"
| "locks (SleepRel i l) = Some i"
| "locks (ExitLk i) = Some i"
| "locks (ExitSet i) = Some i"
| "locks (Switching i ls k) = Some i"
| "locks (Back i) = Some i"

fun klocks :: "cpc \<Rightarrow> klk list" where
  "klocks (Runs i ls) = ls"
| "klocks (YieldLk i ls) = ls"
| "klocks (SleepLk i l) = [l]"
| "klocks (ExitLk i) = [WaitLock]"
| "klocks (ExitSet i) = [WaitLock]"
| "klocks (Switching i ls k) = ls"
| "klocks _ = []"

text \<open>The process whose kernel stack a CPU uses, and whether it is still \<open>RUNNING\<close> or on its way out.\<close>

fun runs :: "cpc \<Rightarrow> nat option" where
  "runs (Entering i) = Some i"
| "runs (Runs i ls) = Some i"
| "runs (YieldLk i ls) = Some i"
| "runs (SleepLk i l) = Some i"
| "runs (SleepRel i l) = Some i"
| "runs (Retake i l) = Some i"
| "runs (ExitLk i) = Some i"
| "runs _ = None"

fun leaves :: "cpc \<Rightarrow> nat option" where
  "leaves (ExitSet i) = Some i"
| "leaves (Switching i ls k) = Some i"
| "leaves _ = None"

definition stack_of :: "cpc \<Rightarrow> nat option" where
  "stack_of w = (case runs w of Some i \<Rightarrow> Some i | None \<Rightarrow> leaves w)"

fun exiting :: "cpc \<Rightarrow> bool" where
  "exiting (ExitSet i) = True"
| "exiting (Switching i ls k) = (k = AfterExit)"
| "exiting _ = False"

text \<open>A process that gives up the CPU has no spinlock left but its own.\<close>

fun clean :: "cpc \<Rightarrow> bool" where
  "clean (YieldLk i ls) = (ls = [])"
| "clean (Switching i ls k) = (ls = [])"
| "clean _ = True"

definition sinv :: "sst \<Rightarrow> bool" where
  "sinv s \<longleftrightarrow> (\<forall>c i. plock s i = Some c \<longleftrightarrow> locks (cpc s c) = Some i) \<and>
     (\<forall>c l. klock s l = Some c \<longleftrightarrow> l \<in> set (klocks (cpc s c))) \<and> (\<forall>c. distinct (klocks (cpc s c))) \<and>
     (\<forall>c i. runs (cpc s c) = Some i \<longrightarrow> pst s i = RUNNING) \<and>
     (\<forall>c d i. runs (cpc s c) = Some i \<and> runs (cpc s d) = Some i \<longrightarrow> c = d) \<and>
     (\<forall>c i. leaves (cpc s c) = Some i \<longrightarrow> pst s i \<noteq> RUNNING \<and> (exiting (cpc s c) \<longrightarrow> pst s i = ZOMBIE)) \<and>
     (\<forall>c. cproc s c = stack_of (cpc s c)) \<and>
     (\<forall>c. noff (ccpu s c) = int (length (klocks (cpc s c))) + of_bool (locks (cpc s c) \<noteq> None)) \<and>
     (\<forall>c. noff (ccpu s c) \<noteq> 0 \<longrightarrow> \<not> intr (ccpu s c)) \<and>
     (\<forall>i. pctx s i = AfterExit \<longrightarrow> pst s i = ZOMBIE \<or> pst s i = UNUSED) \<and> (\<forall>c. clean (cpc s c))"

lemma sinvD:
  assumes "sinv s"
  shows "\<And>c i. plock s i = Some c \<longleftrightarrow> locks (cpc s c) = Some i" "\<And>c l. klock s l = Some c \<longleftrightarrow> l \<in> set (klocks (cpc s c))"
    "\<And>c. distinct (klocks (cpc s c))" "\<And>c i. runs (cpc s c) = Some i \<Longrightarrow> pst s i = RUNNING"
    "\<And>c d i. runs (cpc s c) = Some i \<Longrightarrow> runs (cpc s d) = Some i \<Longrightarrow> c = d"
    "\<And>c i. leaves (cpc s c) = Some i \<Longrightarrow> pst s i \<noteq> RUNNING \<and> (exiting (cpc s c) \<longrightarrow> pst s i = ZOMBIE)"
    "\<And>c. cproc s c = stack_of (cpc s c)"
    "\<And>c. noff (ccpu s c) = int (length (klocks (cpc s c))) + of_bool (locks (cpc s c) \<noteq> None)"
    "\<And>c. noff (ccpu s c) \<noteq> 0 \<Longrightarrow> \<not> intr (ccpu s c)"
    "\<And>i. pctx s i = AfterExit \<Longrightarrow> pst s i = ZOMBIE \<or> pst s i = UNUSED" "\<And>c. clean (cpc s c)"
  using assms unfolding sinv_def by simp_all

lemma push_noff: "noff (push_off c) = noff c + 1 \<and> \<not> intr (push_off c)"
  by (simp add: push_off_def Let_def)

lemma pop_noff: "pop_off c = Ok u \<Longrightarrow> noff u = noff c - 1 \<and> (noff u \<noteq> 0 \<longrightarrow> \<not> intr u)"
  by (auto simp: pop_off_def Let_def split: if_splits)

lemma leaves_locks: "leaves w = Some i \<Longrightarrow> locks w = Some i \<and> runs w = None"
  by (cases w) auto

lemma sinv_at:
  assumes "sinv s" and "cpc s c = w"
  shows "\<And>i. locks w = Some i \<Longrightarrow> plock s i = Some c" "\<And>l. l \<in> set (klocks w) \<Longrightarrow> klock s l = Some c" "distinct (klocks w)"
    "\<And>i. runs w = Some i \<Longrightarrow> pst s i = RUNNING" "\<And>i. leaves w = Some i \<Longrightarrow> pst s i \<noteq> RUNNING \<and> (exiting w \<longrightarrow> pst s i = ZOMBIE)"
    "cproc s c = stack_of w" "clean w"
  using sinvD(1-4,6,7,11) [OF assms(1)] unfolding assms(2) [symmetric] by simp_all

text \<open>One CPU moves to another place, with the locks, states and its registers adjusted.\<close>

lemma sinv_move:
  assumes v: "sinv s" and w: "cpc t = (cpc s)(c := w)"
    and pl: "\<And>i. plock t i = (if locks w = Some i then Some c else if locks (cpc s c) = Some i then None else plock s i)"
    and kl: "\<And>l. klock t l = (if l \<in> set (klocks w) then Some c else if l \<in> set (klocks (cpc s c)) then None else klock s l)"
    and new: "\<And>i. locks w = Some i \<Longrightarrow> plock s i = None \<or> plock s i = Some c"
    and knew: "\<And>l. l \<in> set (klocks w) \<Longrightarrow> klock s l = None \<or> klock s l = Some c" "distinct (klocks w)"
    and ps: "\<And>i. pst t i \<noteq> pst s i \<Longrightarrow> plock s i = Some c \<and> (pst s i \<noteq> RUNNING \<or> runs (cpc s c) = Some i)"
    and run: "\<And>i. runs w = Some i \<Longrightarrow> pst t i = RUNNING \<and> (runs (cpc s c) = Some i \<or> pst s i \<noteq> RUNNING)"
    and lv: "\<And>i. leaves w = Some i \<Longrightarrow> pst t i \<noteq> RUNNING \<and> (exiting w \<longrightarrow> pst t i = ZOMBIE)"
    and cp: "cproc t = (cproc s)(c := stack_of w)" and u: "ccpu t = (ccpu s)(c := u)"
    and n: "noff u = int (length (klocks w)) + of_bool (locks w \<noteq> None)" "noff u \<noteq> 0 \<Longrightarrow> \<not> intr u"
    and ctx: "\<And>i. pctx t i = AfterExit \<Longrightarrow> pst t i = ZOMBIE \<or> pst t i = UNUSED" and cl: "clean w"
  shows "sinv t"
proof -
  note d = sinvD [OF v]
  have f1: "plock t i = Some e \<longleftrightarrow> locks (cpc t e) = Some i" for i e
    using d(1) [of i e] d(1) [of i c] new [of i] unfolding pl w by auto
  have f2: "klock t l = Some e \<longleftrightarrow> l \<in> set (klocks (cpc t e))" for l e
    using d(2) [of l e] d(2) [of l c] knew(1) [of l] unfolding kl w by auto
  have f3: "distinct (klocks (cpc t e))" for e using d(3) knew(2) unfolding w by simp
  have f4: "pst t i = RUNNING" if "runs (cpc t e) = Some i" for i e
  proof (cases "e = c")
    case False
    then have e: "runs (cpc s e) = Some i" using that w by simp
    show ?thesis using ps [of i] d(4) [OF e] d(5) [OF e, of c] False by metis
  qed (use that run [of i] w in simp)
  have f5: "e = f" if "runs (cpc t e) = Some i" "runs (cpc t f) = Some i" for e f i
    using that d(4) [of e i] d(4) [of f i] d(5) [of e i f] d(5) [of e i c] d(5) [of f i c] run [of i]
    unfolding w by (auto split: if_splits)
  have f6: "pst t i \<noteq> RUNNING \<and> (exiting (cpc t e) \<longrightarrow> pst t i = ZOMBIE)" if "leaves (cpc t e) = Some i" for i e
  proof (cases "e = c")
    case False
    then have e: "leaves (cpc s e) = Some i" using that w by simp
    then have "plock s i = Some e" using d(1) leaves_locks by blast
    then have "pst t i = pst s i" using ps [of i] False by auto
    then show ?thesis using d(6) [OF e] False w by simp
  qed (use that lv [of i] w in simp)
  have f7: "cproc t e = stack_of (cpc t e)" for e using d(7) unfolding cp w by simp
  have f8: "noff (ccpu t e) = int (length (klocks (cpc t e))) + of_bool (locks (cpc t e) \<noteq> None)" for e
    using d(8) n(1) unfolding u w by simp
  have f9: "\<not> intr (ccpu t e)" if "noff (ccpu t e) \<noteq> 0" for e using that d(9) n(2) unfolding u by (simp split: if_splits)
  have f10: "clean (cpc t e)" for e using d(11) cl unfolding w by simp
  show ?thesis unfolding sinv_def using f1 f2 f3 f4 f5 f6 f7 f8 f9 ctx f10 by blast
qed

lemma sinv_idle:
  assumes "sinv s" and "plock s q = None" and "pst s q \<noteq> RUNNING" and "st \<noteq> RUNNING"
    and "pctx s q = AfterExit \<Longrightarrow> st = ZOMBIE \<or> st = UNUSED"
  shows "sinv (s\<lparr>pst := (pst s)(q := st)\<rparr>)"
proof -
  note d = sinvD [OF assms(1)]
  have "runs (cpc s c) \<noteq> Some q" for c using d(4) [of c q] assms(3) by blast
  moreover have "leaves (cpc s c) \<noteq> Some q" for c using d(1) [of q c] leaves_locks [of "cpc s c" q] assms(2) by auto
  ultimately show ?thesis using assms unfolding sinv_def by simp
qed

lemma scheduler_step_sinv:
  assumes "scheduler_step s t" and v: "sinv s"
  shows "sinv t"
  using assms(1)
proof cases
  case (acquire_slot c i)
  have w: "cpc t = (cpc s)(c := Held i)" using acquire_slot by simp
  show ?thesis using acquire_slot sinvD(7,8,9) [OF v, of c] sinvD(10) [OF v] push_noff
    by (intro sinv_move [OF v w, where u = "push_off (ccpu s c)"]) (auto simp: stack_of_def fun_upd_idem)
next
  case (skip_slot c i u)
  have w: "cpc t = (cpc s)(c := Scan (next_slot i))" using skip_slot by simp
  show ?thesis using skip_slot sinvD(7,8,9) [OF v, of c] sinvD(10) [OF v] pop_noff [of "ccpu s c" u]
    by (intro sinv_move [OF v w, where u = u]) (auto simp: stack_of_def fun_upd_idem)
next
  case (pick c i)
  have w: "cpc t = (cpc s)(c := Entering i)" using pick by simp
  have l: "plock s i = Some c" using sinvD(1) [OF v] pick by simp
  show ?thesis using pick l sinvD(8,9) [OF v, of c] sinvD(10) [OF v] sinvD(10) [OF v, of i]
    by (intro sinv_move [OF v w, where u = "ccpu s c"]) (auto simp: stack_of_def fun_upd_idem split: if_splits)
next
  case (go_on c i u)
  have w: "cpc t = (cpc s)(c := Scan (next_slot i))" using go_on by simp
  show ?thesis using go_on sinvD(7,8,9) [OF v, of c] sinvD(10) [OF v] pop_noff [of "ccpu s c" u]
    by (intro sinv_move [OF v w, where u = u]) (auto simp: stack_of_def fun_upd_idem)
qed

text \<open>The checks of \<^verbatim>\<open>sched\<close> pass, a release passes those of \<^verbatim>\<open>pop_off\<close>, and stacks are not shared.\<close>

lemma sinv_sched:
  assumes "sinv s" and "cpc s c = Switching i ls k"
  shows "sched (plock s i = Some c) (ccpu s c) (pst s i) = Ok (ccpu s c)"
  using sinv_at [OF assms] sinvD(8,9) [OF assms(1), of c] assms(2) by (simp add: sched_def)

lemma sinv_pop:
  assumes "sinv s" and "locks (cpc s c) \<noteq> None \<or> klocks (cpc s c) \<noteq> []"
  shows "\<exists>u. pop_off (ccpu s c) = Ok u"
proof -
  have "1 \<le> noff (ccpu s c)" using sinvD(8) [OF assms(1), of c] assms(2) by (cases "klocks (cpc s c)") auto
  then show ?thesis using sinvD(9) [OF assms(1), of c] by (simp add: pop_off_def Let_def)
qed

lemma sinv_stack:
  assumes v: "sinv s" and "stack_of (cpc s c) = Some p" and "stack_of (cpc s d) = Some p"
  shows "c = d"
proof -
  have st: "runs (cpc s e) = Some p \<or> leaves (cpc s e) = Some p" if "stack_of (cpc s e) = Some p" for e
    using that by (simp add: stack_of_def split: option.splits)
  show ?thesis
  proof (cases "leaves (cpc s c) = Some p \<or> leaves (cpc s d) = Some p")
    case True
    then have "pst s p \<noteq> RUNNING" using sinvD(6) [OF v] by blast
    then have "leaves (cpc s c) = Some p" "leaves (cpc s d) = Some p" using st assms(2,3) sinvD(4) [OF v] by blast+
    then have "plock s p = Some c" "plock s p = Some d" using sinvD(1) [OF v] leaves_locks by blast+
    then show ?thesis by simp
  next
    case False
    then show ?thesis using st assms(2,3) sinvD(5) [OF v] by blast
  qed
qed

lemma sched_step_sinv:
  assumes "sched_step s t" and v: "sinv s"
  shows "sinv t"
  using assms(1)
proof cases
  case (switch c i ls k u)
  have w: "cpc t = (cpc s)(c := Back i)" using switch by simp
  have u: "u = ccpu s c" "noff (ccpu s c) = 1" using switch by (auto simp: sched_def split: if_splits)
  have ls: "ls = []" using sinvD(8) [OF v, of c] switch u by simp
  have l: "plock s i = Some c" using sinvD(1) [OF v] switch by simp
  have "pst s i \<noteq> RUNNING \<and> (k = AfterExit \<longrightarrow> pst s i = ZOMBIE)" using sinvD(6) [OF v, of c i] switch by simp
  then show ?thesis using switch u l ls sinvD(9) [OF v, of c] sinvD(10) [OF v] sinvD(10) [OF v, of i]
    by (intro sinv_move [OF v w, where u = u]) (auto simp: stack_of_def fun_upd_idem split: if_splits)
qed

lemma yield_step_sinv:
  assumes "yield_step s t" and v: "sinv s"
  shows "sinv t"
  using assms(1)
proof cases
  case (yield_acquire c i ls)
  have w: "cpc t = (cpc s)(c := YieldLk i ls)" using yield_acquire by simp
  have "pst s i = RUNNING" "\<And>l. l \<in> set ls \<Longrightarrow> klock s l = Some c" "distinct ls" "cproc s c = Some i"
    using sinv_at [OF v yield_acquire(2)] by (simp_all add: stack_of_def)
  moreover have "ls = []" using yield_acquire(2,3) sinvD(8,9) [OF v, of c] by auto
  ultimately show ?thesis using yield_acquire sinvD(8) [OF v, of c] sinvD(10) [OF v] push_noff
    by (intro sinv_move [OF v w, where u = "push_off ((ccpu s c)\<lparr>intr := False\<rparr>)"]) (auto simp: stack_of_def fun_upd_idem)
next
  case (yield_set c i ls)
  have w: "cpc t = (cpc s)(c := Switching i ls AfterYield)" using yield_set by simp
  have "pst s i = RUNNING" "\<And>l. l \<in> set ls \<Longrightarrow> klock s l = Some c" "distinct ls" "cproc s c = Some i" "plock s i = Some c" "ls = []"
    using sinv_at [OF v yield_set(2)] by (simp_all add: stack_of_def)
  then show ?thesis using yield_set sinvD(8,9) [OF v, of c] sinvD(10) [OF v] sinvD(10) [OF v, of i]
    by (intro sinv_move [OF v w, where u = "ccpu s c"]) (auto simp: stack_of_def fun_upd_idem split: if_splits)
next
  case (yield_return c i b u)
  have w: "cpc t = (cpc s)(c := Runs i [])" using yield_return by simp
  have "pst s i = RUNNING" "cproc s c = Some i" using sinv_at [OF v yield_return(2)] by (simp_all add: stack_of_def)
  then show ?thesis using yield_return sinvD(8) [OF v, of c] sinvD(10) [OF v] pop_noff [OF yield_return(4)]
    by (intro sinv_move [OF v w, where u = u]) (auto simp: stack_of_def fun_upd_idem)
qed

lemma sleep_step_sinv:
  assumes "sleep_step s t" and v: "sinv s"
  shows "sinv t"
  using assms(1)
proof cases
  case (sleep_acquire c i l)
  have w: "cpc t = (cpc s)(c := SleepLk i l)" using sleep_acquire by simp
  have "pst s i = RUNNING" "klock s l = Some c" "cproc s c = Some i" using sinv_at [OF v sleep_acquire(2)] by (simp_all add: stack_of_def)
  then show ?thesis using sleep_acquire sinvD(8) [OF v, of c] sinvD(10) [OF v] push_noff
    by (intro sinv_move [OF v w, where u = "push_off (ccpu s c)"]) (auto simp: stack_of_def fun_upd_idem)
next
  case (sleep_release c i l u)
  have w: "cpc t = (cpc s)(c := SleepRel i l)" using sleep_release by simp
  have "pst s i = RUNNING" "plock s i = Some c" "cproc s c = Some i" using sinv_at [OF v sleep_release(2)] by (simp_all add: stack_of_def)
  then show ?thesis using sleep_release sinvD(8) [OF v, of c] sinvD(10) [OF v] pop_noff [OF sleep_release(3)]
    by (intro sinv_move [OF v w, where u = u]) (auto simp: stack_of_def fun_upd_idem)
next
  case (sleep_set c i l)
  have w: "cpc t = (cpc s)(c := Switching i [] (AfterSleep l))" using sleep_set by simp
  have "pst s i = RUNNING" "plock s i = Some c" "cproc s c = Some i" using sinv_at [OF v sleep_set(2)] by (simp_all add: stack_of_def)
  then show ?thesis using sleep_set sinvD(8,9) [OF v, of c] sinvD(10) [OF v] sinvD(10) [OF v, of i]
    by (intro sinv_move [OF v w, where u = "ccpu s c"]) (auto simp: stack_of_def fun_upd_idem split: if_splits)
next
  case (sleep_tidy c i l b u)
  have w: "cpc t = (cpc s)(c := Retake i l)" using sleep_tidy by simp
  have "pst s i = RUNNING" "cproc s c = Some i" using sinv_at [OF v sleep_tidy(2)] by (simp_all add: stack_of_def)
  then show ?thesis using sleep_tidy sinvD(8) [OF v, of c] sinvD(10) [OF v] pop_noff [OF sleep_tidy(4)]
    by (intro sinv_move [OF v w, where u = u]) (auto simp: stack_of_def fun_upd_idem)
next
  case (sleep_retake c i l)
  have w: "cpc t = (cpc s)(c := Runs i [l])" using sleep_retake by simp
  have "pst s i = RUNNING" "cproc s c = Some i" using sinv_at [OF v sleep_retake(2)] by (simp_all add: stack_of_def)
  then show ?thesis using sleep_retake sinvD(8) [OF v, of c] sinvD(10) [OF v] push_noff
    by (intro sinv_move [OF v w, where u = "push_off (ccpu s c)"]) (auto simp: stack_of_def fun_upd_idem)
qed

lemma exit_step_sinv:
  assumes "exit_step s t" and v: "sinv s"
  shows "sinv t"
  using assms(1)
proof cases
  case (exit_acquire c i)
  have w: "cpc t = (cpc s)(c := ExitLk i)" using exit_acquire by simp
  have "pst s i = RUNNING" "klock s WaitLock = Some c" "cproc s c = Some i"
    using sinv_at [OF v exit_acquire(2)] by (simp_all add: stack_of_def)
  then show ?thesis using exit_acquire sinvD(8) [OF v, of c] sinvD(10) [OF v] push_noff
    by (intro sinv_move [OF v w, where u = "push_off (ccpu s c)"]) (auto simp: stack_of_def fun_upd_idem)
next
  case (exit_set c i)
  have w: "cpc t = (cpc s)(c := ExitSet i)" using exit_set by simp
  have "pst s i = RUNNING" "klock s WaitLock = Some c" "cproc s c = Some i" "plock s i = Some c"
    using sinv_at [OF v exit_set(2)] by (simp_all add: stack_of_def)
  then show ?thesis using exit_set sinvD(8,9) [OF v, of c] sinvD(10) [OF v] sinvD(10) [OF v, of i]
    by (intro sinv_move [OF v w, where u = "ccpu s c"]) (auto simp: stack_of_def fun_upd_idem split: if_splits)
next
  case (exit_release c i u)
  have w: "cpc t = (cpc s)(c := Switching i [] AfterExit)" using exit_release by simp
  have "pst s i = ZOMBIE" "cproc s c = Some i" "plock s i = Some c"
    using sinv_at [OF v exit_release(2)] by (simp_all add: stack_of_def)
  then show ?thesis using exit_release sinvD(8) [OF v, of c] sinvD(10) [OF v] pop_noff [OF exit_release(3)]
    by (intro sinv_move [OF v w, where u = u]) (auto simp: stack_of_def fun_upd_idem)
qed

lemma sstep_sinv:
  assumes "sstep s t" and v: "sinv s"
  shows "sinv t"
  using assms(1)
proof cases
  case (forkret c i b u)
  have w: "cpc t = (cpc s)(c := Runs i [])" using forkret by simp
  have "pst s i = RUNNING" "cproc s c = Some i" using sinv_at [OF v forkret(2)] by (simp_all add: stack_of_def)
  then show ?thesis using forkret sinvD(8) [OF v, of c] sinvD(10) [OF v] pop_noff [OF forkret(4)]
    by (intro sinv_move [OF v w, where u = u]) (auto simp: stack_of_def fun_upd_idem)
next
  case (get_lock c i ls l)
  have w: "cpc t = (cpc s)(c := Runs i (l # ls))" using get_lock by simp
  have "pst s i = RUNNING" "\<And>l. l \<in> set ls \<Longrightarrow> klock s l = Some c" "distinct ls" "cproc s c = Some i"
    using sinv_at [OF v get_lock(2)] by (simp_all add: stack_of_def)
  then show ?thesis using get_lock sinvD(8) [OF v, of c] sinvD(10) [OF v] push_noff
    by (intro sinv_move [OF v w, where u = "push_off (ccpu s c)"]) (auto simp: stack_of_def fun_upd_idem)
next
  case (put_lock c i ls l u)
  have w: "cpc t = (cpc s)(c := Runs i (remove1 l ls))" using put_lock by simp
  have "pst s i = RUNNING" "\<And>l. l \<in> set ls \<Longrightarrow> klock s l = Some c" "distinct ls" "cproc s c = Some i"
    using sinv_at [OF v put_lock(2)] by (simp_all add: stack_of_def)
  moreover have "int (length (remove1 l ls)) = int (length ls) - 1"
    using length_pos_if_in_set [OF put_lock(3)] by (simp only: length_remove1 put_lock(3) if_True)
  ultimately show ?thesis using put_lock sinvD(8) [OF v, of c] sinvD(10) [OF v] pop_noff [OF put_lock(4)]
    by (intro sinv_move [OF v w, where u = u]) (auto simp: stack_of_def fun_upd_idem)
next
  case (create q)
  have "sinv (s\<lparr>pctx := (pctx s)(q := AtForkret)\<rparr>)" using v unfolding sinv_def by simp
  from sinv_idle [OF this, of q USED] show ?thesis using create by simp
next
  case (interrupt c i b)
  have "noff (ccpu s c) = 0" using sinvD(8) [OF v, of c] interrupt(2) by auto
  then show ?thesis using v unfolding sinv_def interrupt(1) by auto
next
  case (wake q)
  show ?thesis unfolding wake(1) by (rule sinv_idle [OF v wake(2)]) (use wake(3) sinvD(10) [OF v, of q] in auto)
next
  case (start q st)
  show ?thesis unfolding start(1) by (rule sinv_idle [OF v start(2)]) (use start(3,4) sinvD(10) [OF v, of q] in auto)
next
  case (reap q)
  show ?thesis unfolding reap(1) by (rule sinv_idle [OF v reap(2)]) (use reap(3) in auto)
qed (use v scheduler_step_sinv sched_step_sinv yield_step_sinv sleep_step_sinv exit_step_sinv in blast)+

lemma sinit_sinv: "RUNNING \<notin> range ps \<Longrightarrow> sinv (sinit ps)"
  by (auto simp: sinv_def sinit_def stack_of_def)

lemma srun_sinv: "sstep\<^sup>*\<^sup>* s t \<Longrightarrow> sinv s \<Longrightarrow> sinv t"
  by (induction rule: rtranclp_induct) (auto intro: sstep_sinv)

text \<open>
  C27. In every reachable state of the schedulers of all CPUs, no two CPUs use the kernel stack of
  the same process and \<^verbatim>\<open>c->proc\<close> names the process whose stack the CPU uses. A process that gives the
  CPU up, in \<^verbatim>\<open>yield\<close>, in \<^verbatim>\<open>sleep\<close> after it has released the lock it was given, or in \<^verbatim>\<open>exit\<close> after it
  has released \<^verbatim>\<open>wait_lock\<close>, passes all checks of \<^verbatim>\<open>sched\<close>; every lock that a CPU is to release at its
  place is its own and passes the checks of \<^verbatim>\<open>pop_off\<close>, a running process does not hold its own lock,
  and no process comes back from the \<^verbatim>\<open>sched\<close> of \<^verbatim>\<open>exit\<close>.
\<close>

theorem one_cpu_per_process:
  assumes "RUNNING \<notin> range ps" and "sstep\<^sup>*\<^sup>* (sinit ps) s"
  shows "(stack_of (cpc s c) = Some p \<and> stack_of (cpc s d) = Some p \<longrightarrow> c = d) \<and> cproc s c = stack_of (cpc s c) \<and>
    (cpc s c = Switching p ls k \<longrightarrow> sched (plock s p = Some c) (ccpu s c) (pst s p) = Ok (ccpu s c)) \<and>
    (locks (cpc s c) = Some p \<longrightarrow> plock s p = Some c) \<and> (\<forall>l \<in> set (klocks (cpc s c)). klock s l = Some c) \<and>
    (locks (cpc s c) \<noteq> None \<or> klocks (cpc s c) \<noteq> [] \<longrightarrow> (\<exists>u. pop_off (ccpu s c) = Ok u)) \<and>
    (cpc s c = Runs p ls \<longrightarrow> plock s p \<noteq> Some c) \<and> (cpc s c = Entering p \<longrightarrow> pctx s p \<noteq> AfterExit)"
proof -
  have v: "sinv s" by (rule srun_sinv [OF assms(2) sinit_sinv [OF assms(1)]])
  note i = sinvD [OF v]
  have "c = d" if cd: "stack_of (cpc s c) = Some p" "stack_of (cpc s d) = Some p" by (rule sinv_stack [OF v cd])
  moreover have "sched (plock s p = Some c) (ccpu s c) (pst s p) = Ok (ccpu s c)" if "cpc s c = Switching p ls k"
    by (rule sinv_sched [OF v that])
  moreover have "\<exists>u. pop_off (ccpu s c) = Ok u" if "locks (cpc s c) \<noteq> None \<or> klocks (cpc s c) \<noteq> []"
    by (rule sinv_pop [OF v that])
  moreover have "plock s p \<noteq> Some c" if "cpc s c = Runs p ls" using i(1) [of p c] that by simp
  moreover have "pctx s p \<noteq> AfterExit" if "cpc s c = Entering p" using i(4) [of c p] i(10) [of p] that by auto
  ultimately show ?thesis using i(1,2,7) by blast
qed

theorem one_cpu_per_process_witness:
  "\<exists>s. sstep\<^sup>*\<^sup>* (sinit (\<lambda>_. RUNNABLE)) s \<and> cpc s 0 = Switching 0 [] (AfterSleep WaitLock) \<and> cproc s 0 = Some 0 \<and>
    sched (plock s 0 = Some 0) (ccpu s 0) (pst s 0) = Ok (ccpu s 0)"
proof -
  define s0 where "s0 = sinit (\<lambda>_. RUNNABLE)"
  define s1 where "s1 = s0\<lparr>plock := (plock s0)(0 \<mapsto> 0), ccpu := (ccpu s0)(0 := push_off (ccpu s0 0)), cpc := (cpc s0)(0 := Held 0)\<rparr>"
  define s2 where "s2 = s1\<lparr>pst := (pst s1)(0 := RUNNING), cproc := (cproc s1)(0 \<mapsto> 0), cpc := (cpc s1)(0 := Entering 0)\<rparr>"
  define s3 where "s3 = s2\<lparr>plock := (plock s2)(0 := None), ccpu := (ccpu s2)(0 := \<lparr>intr = True, noff = 0, intena = True\<rparr>), cpc := (cpc s2)(0 := Runs 0 [])\<rparr>"
  define s4 where "s4 = s3\<lparr>klock := (klock s3)(WaitLock \<mapsto> 0), ccpu := (ccpu s3)(0 := push_off (ccpu s3 0)), cpc := (cpc s3)(0 := Runs 0 [WaitLock])\<rparr>"
  define s5 where "s5 = s4\<lparr>plock := (plock s4)(0 \<mapsto> 0), ccpu := (ccpu s4)(0 := push_off (ccpu s4 0)), cpc := (cpc s4)(0 := SleepLk 0 WaitLock)\<rparr>"
  define s6 where "s6 = s5\<lparr>klock := (klock s5)(WaitLock := None), ccpu := (ccpu s5)(0 := \<lparr>intr = False, noff = 1, intena = True\<rparr>), cpc := (cpc s5)(0 := SleepRel 0 WaitLock)\<rparr>"
  define s7 where "s7 = s6\<lparr>pst := (pst s6)(0 := SLEEPING), cpc := (cpc s6)(0 := Switching 0 [] (AfterSleep WaitLock))\<rparr>"
  note d = s0_def s1_def s2_def s3_def s4_def s5_def s6_def s7_def sinit_def push_off_def pop_off_def Let_def
  have a: "sstep s0 s1" unfolding s1_def by (rule in_scheduler, rule acquire_slot) (simp_all add: d)
  have b: "sstep s1 s2" unfolding s2_def by (rule in_scheduler, rule pick) (simp_all add: d)
  have e: "sstep s2 s3" unfolding s3_def by (rule forkret [where b = True]) (simp_all add: d)
  have f: "sstep s3 s4" unfolding s4_def by (rule get_lock) (simp_all add: d)
  have g: "sstep s4 s5" unfolding s5_def by (rule in_sleep, rule sleep_acquire) (simp_all add: d)
  have h: "sstep s5 s6" unfolding s6_def by (rule in_sleep, rule sleep_release) (simp_all add: d)
  have i: "sstep s6 s7" unfolding s7_def by (rule in_sleep, rule sleep_set) (simp_all add: d)
  note into = rtranclp.rtrancl_into_rtrancl
  have r: "sstep\<^sup>*\<^sup>* (sinit (\<lambda>_. RUNNABLE)) s7" unfolding s0_def [symmetric]
    by (rule into [OF into [OF into [OF into [OF into [OF into [OF r_into_rtranclp [of sstep, OF a] b] e] f] g] h] i])
  have pc: "cpc s7 0 = Switching 0 [] (AfterSleep WaitLock)" by (simp add: s7_def)
  have "RUNNING \<notin> range (\<lambda>_ :: nat. RUNNABLE)" by auto
  from one_cpu_per_process [OF this r, of 0 0 0 "[]" "AfterSleep WaitLock"] have
    "cproc s7 0 = stack_of (cpc s7 0)" "sched (plock s7 0 = Some 0) (ccpu s7 0) (pst s7 0) = Ok (ccpu s7 0)" using pc by blast+
  moreover have "stack_of (cpc s7 0) = Some 0" by (simp add: pc stack_of_def)
  ultimately show ?thesis using r pc by (intro exI [of _ s7] conjI) simp_all
qed

section \<open>No lost wakeup\<close>

text \<open>
  Any number of processes share a condition under a lock \<^verbatim>\<open>lk\<close> and the channel \<open>ChTicks\<close>, as \<^verbatim>\<open>ticks\<close>
  is shared under \<^verbatim>\<open>tickslock\<close>. A process that finds the condition false calls \<^verbatim>\<open>sleep\<close>; one that
  makes it true calls \<^verbatim>\<open>wakeup\<close> before it releases the lock. \<open>Sleep1\<close> holds \<^verbatim>\<open>lk\<close> and its own
  \<^verbatim>\<open>p->lock\<close>, \<open>Sleep2\<close> has released \<^verbatim>\<open>lk\<close>; \<open>Waking i\<close> is at slot \<open>i\<close> of the loop of \<^verbatim>\<open>wakeup\<close>.
\<close>

datatype upc = Idle | HasLk | Sleep1 | Sleep2 | Asleep | Woken | Waking nat

record wst =
  wt :: ptab
  wlk :: "nat option"
  wpl :: "nat \<Rightarrow> bool"
  cnd :: bool
  upc :: "nat \<Rightarrow> upc"

inductive wstep :: "wst \<Rightarrow> wst \<Rightarrow> bool" where
  get_lk: "upc s p = Idle \<Longrightarrow> wlk s = None \<Longrightarrow> wstep s (s\<lparr>wlk := Some p, upc := (upc s)(p := HasLk)\<rparr>)"
| put_lk: "upc s p = HasLk \<Longrightarrow> wstep s (s\<lparr>wlk := None, upc := (upc s)(p := Idle)\<rparr>)"
| clear: "upc s p = HasLk \<Longrightarrow> wstep s (s\<lparr>cnd := False\<rparr>)"
| fulfil: "upc s p = HasLk \<Longrightarrow> wstep s (s\<lparr>cnd := True, upc := (upc s)(p := Waking 0)\<rparr>)"
| sleep1: "upc s p = HasLk \<Longrightarrow> \<not> cnd s \<Longrightarrow> \<not> wpl s p \<Longrightarrow> p < NPROC \<Longrightarrow> wstep s (s\<lparr>wpl := (wpl s)(p := True), upc := (upc s)(p := Sleep1)\<rparr>)"
| sleep2: "upc s p = Sleep1 \<Longrightarrow> wstep s (s\<lparr>wlk := None, upc := (upc s)(p := Sleep2)\<rparr>)"
| sleep3: "upc s p = Sleep2 \<Longrightarrow>
    wstep s (s\<lparr>wt := sleep_enter ((wt s)\<lparr>me := p\<rparr>) ChTicks, wpl := (wpl s)(p := False), upc := (upc s)(p := Asleep)\<rparr>)"
| dispatch: "upc s p = Asleep \<Longrightarrow> p_state (procs (wt s) p) = RUNNABLE \<Longrightarrow>
    wstep s (s\<lparr>wt := sleep_exit (upd_proc ((wt s)\<lparr>me := p\<rparr>) p (\<lambda>q. q\<lparr>p_state := RUNNING\<rparr>)), upc := (upc s)(p := Woken)\<rparr>)"
| retake: "upc s p = Woken \<Longrightarrow> wlk s = None \<Longrightarrow> wstep s (s\<lparr>wlk := Some p, upc := (upc s)(p := HasLk)\<rparr>)"
| visit: "upc s p = Waking i \<Longrightarrow> i < NPROC \<Longrightarrow> i = p \<or> \<not> wpl s i \<Longrightarrow>
    wstep s (s\<lparr>wt := wakeup_one ((wt s)\<lparr>me := p\<rparr>) ChTicks i, upc := (upc s)(p := Waking (Suc i))\<rparr>)"
| woke: "upc s p = Waking NPROC \<Longrightarrow> wstep s (s\<lparr>upc := (upc s)(p := HasLk)\<rparr>)"
| spurious: "\<not> wpl s p \<Longrightarrow> wstep s (s\<lparr>wt := snd (kill_loop (wt s) (p_pid (procs (wt s) p)) p 1)\<rparr>)"

fun holds_lk :: "upc \<Rightarrow> bool" where
  "holds_lk HasLk = True"
| "holds_lk Sleep1 = True"
| "holds_lk (Waking i) = True"
| "holds_lk _ = False"

definition sleeps :: "wst \<Rightarrow> nat \<Rightarrow> bool" where
  "sleeps s p \<longleftrightarrow> p_state (procs (wt s) p) = SLEEPING \<and> p_chan (procs (wt s) p) = ChTicks"

text \<open>A process in \<^verbatim>\<open>wakeup\<close> has yet to look at slot \<open>p\<close>.\<close>

definition will_wake :: "wst \<Rightarrow> nat \<Rightarrow> bool" where
  "will_wake s p \<longleftrightarrow> (\<exists>q i. upc s q = Waking i \<and> i \<le> p)"

definition winv :: "wst \<Rightarrow> bool" where
  "winv s \<longleftrightarrow> (\<forall>p. holds_lk (upc s p) \<longleftrightarrow> wlk s = Some p) \<and>
     (\<forall>p. wpl s p \<longleftrightarrow> upc s p = Sleep1 \<or> upc s p = Sleep2) \<and>
     (\<forall>p. sleeps s p \<longrightarrow> upc s p = Asleep \<and> p < NPROC) \<and>
     (\<forall>p. upc s p \<in> {Sleep1, Sleep2} \<longrightarrow> p < NPROC) \<and>
     (\<forall>p. upc s p = Sleep1 \<longrightarrow> \<not> cnd s) \<and>
     (\<forall>p. (upc s p = Sleep2 \<or> sleeps s p) \<and> cnd s \<longrightarrow> will_wake s p)"

lemma winvD:
  assumes "winv s"
  shows "\<And>p. holds_lk (upc s p) \<longleftrightarrow> wlk s = Some p" "\<And>p. wpl s p \<longleftrightarrow> upc s p = Sleep1 \<or> upc s p = Sleep2"
    "\<And>p. sleeps s p \<Longrightarrow> upc s p = Asleep \<and> p < NPROC" "\<And>p. upc s p = Sleep1 \<or> upc s p = Sleep2 \<Longrightarrow> p < NPROC" "\<And>p. upc s p = Sleep1 \<Longrightarrow> \<not> cnd s"
    "\<And>p. upc s p = Sleep2 \<or> sleeps s p \<Longrightarrow> cnd s \<Longrightarrow> will_wake s p"
  using assms unfolding winv_def by (simp, simp, simp, blast, blast, blast)

text \<open>One process moves to another place.\<close>

lemma winv_move:
  assumes v: "winv s" and u: "upc t = (upc s)(p := w)"
    and l: "wlk t = (if holds_lk w then Some p else if holds_lk (upc s p) then None else wlk s)" "holds_lk w \<Longrightarrow> wlk s = None \<or> wlk s = Some p"
    and b: "\<And>x. wpl t x = (if x = p then w = Sleep1 \<or> w = Sleep2 else wpl s x)" "w = Sleep1 \<or> w = Sleep2 \<or> w = Asleep \<Longrightarrow> p < NPROC"
    and sl: "\<And>x. sleeps t x \<Longrightarrow> if x = p then w = Asleep else sleeps s x"
    and c: "cnd t = cnd s" "w = Sleep1 \<Longrightarrow> \<not> cnd s" and ww: "\<And>x. upc t x = Sleep2 \<or> sleeps t x \<Longrightarrow> cnd s \<Longrightarrow> will_wake s x \<Longrightarrow> will_wake t x"
    and own: "w = Sleep2 \<Longrightarrow> upc s p = Sleep1" "w = Asleep \<Longrightarrow> upc s p = Sleep2"
  shows "winv t"
proof -
  note d = winvD [OF v]
  have f1: "holds_lk (upc t x) \<longleftrightarrow> wlk t = Some x" for x using d(1) [of x] d(1) [of p] l unfolding u by auto
  have f2: "wpl t x \<longleftrightarrow> upc t x = Sleep1 \<or> upc t x = Sleep2" for x using d(2) [of x] unfolding u b(1) by auto
  have f3: "upc t x = Asleep \<and> x < NPROC" if "sleeps t x" for x
    using sl [OF that] d(3) [of x] b(2) unfolding u by (auto split: if_splits)
  have f4: "x < NPROC" if "upc t x = Sleep1 \<or> upc t x = Sleep2" for x
    using that d(4) [of x] b(2) unfolding u by (auto split: if_splits)
  have f5: "\<not> cnd t" if "upc t x = Sleep1" for x using that d(5) [of x] c unfolding u by (auto split: if_splits)
  have f6: "will_wake t x" if x: "upc t x = Sleep2 \<or> sleeps t x" "cnd t" for x
  proof (rule ww [OF x(1)])
    show cs: "cnd s" using x(2) c(1) by simp
    show "will_wake s x"
    proof (cases "x = p")
      case True
      then have "w = Sleep2 \<or> w = Asleep" using x(1) sl [of p] by (auto simp: u)
      then show ?thesis using own True x(1) d(5) [of p] d(6) [of p] cs by (auto simp: u)
    qed (use x(1) sl [of x] d(6) [of x] cs in \<open>auto simp: u\<close>)
  qed
  show ?thesis unfolding winv_def using f1 f2 f3 f4 f5 f6 by simp
qed

lemma will_wake_keep:
  assumes "will_wake s x" and "upc t = (upc s)(p := w)" and "\<And>i. upc s p \<noteq> Waking i"
  shows "will_wake t x"
  using assms unfolding will_wake_def by (metis fun_upd_other)

lemma sleeps_cong: "wt t = wt s \<Longrightarrow> sleeps t = sleeps s"
  by (simp add: sleeps_def fun_eq_iff)

lemma wstep_winv:
  assumes "wstep s t" and v: "winv s"
  shows "winv t"
  using assms(1)
proof cases
  case (get_lk p)
  have u: "upc t = (upc s)(p := HasLk)" using get_lk(1) by simp
  have e: "wlk t = Some p" "cnd t = cnd s" using get_lk(1) by simp_all
  have sl: "sleeps t = sleeps s" by (rule sleeps_cong) (simp add: get_lk(1))
  have k: "will_wake s x \<Longrightarrow> will_wake t x" for x using will_wake_keep [OF _ u] get_lk(2) by simp
  have l: "wpl t x \<longleftrightarrow> (if x = p then HasLk = Sleep1 \<or> HasLk = Sleep2 else wpl s x)" for x using get_lk winvD(2) [OF v, of p] by simp
  have n: "sleeps s x \<Longrightarrow> x \<noteq> p" for x using winvD(3) [OF v, of x] get_lk(2) by auto
  show ?thesis using get_lk(2-) winvD(1,4,5) [OF v, of p] n
    by (intro winv_move [OF v u]) (simp_all add: k sl e l)
next
  case (put_lk p)
  have u: "upc t = (upc s)(p := Idle)" using put_lk(1) by simp
  have e: "wlk t = None" "cnd t = cnd s" using put_lk(1) by simp_all
  have sl: "sleeps t = sleeps s" by (rule sleeps_cong) (simp add: put_lk(1))
  have k: "will_wake s x \<Longrightarrow> will_wake t x" for x using will_wake_keep [OF _ u] put_lk(2) by simp
  have l: "wpl t x \<longleftrightarrow> (if x = p then Idle = Sleep1 \<or> Idle = Sleep2 else wpl s x)" for x using put_lk winvD(2) [OF v, of p] by simp
  have n: "sleeps s x \<Longrightarrow> x \<noteq> p" for x using winvD(3) [OF v, of x] put_lk(2) by auto
  show ?thesis using put_lk(2-) winvD(1,4,5) [OF v, of p] n
    by (intro winv_move [OF v u]) (simp_all add: k sl e l)
next
  case (clear p)
  have "sleeps t = sleeps s" by (rule sleeps_cong) (simp add: clear(1))
  then show ?thesis using v clear(1) by (simp add: winv_def)
next
  case (fulfil p)
  have e: "upc t = (upc s)(p := Waking 0)" "wlk t = wlk s" "wpl t = wpl s" "sleeps t = sleeps s"
    using fulfil(1) by (simp_all add: sleeps_def fun_eq_iff)
  have w: "will_wake t x" for x unfolding will_wake_def by (rule exI [of _ p], rule exI [of _ 0]) (simp add: e)
  have p: "wlk s = Some p" "\<not> wpl s p" "\<not> sleeps s p" using winvD(1,2,3) [OF v, of p] fulfil(2) by auto
  have "upc s x \<noteq> Sleep1" for x using winvD(1) [OF v, of x] p(1) fulfil(2) by auto
  moreover have "holds_lk (upc t x) \<longleftrightarrow> wlk s = Some x" for x using winvD(1) [OF v, of x] p(1) by (simp add: e)
  moreover have "wpl s x \<longleftrightarrow> upc t x = Sleep1 \<or> upc t x = Sleep2" for x using winvD(2) [OF v, of x] p(2) fulfil(2) by (auto simp: e)
  moreover have "upc t x = Asleep \<and> x < NPROC" if "sleeps s x" for x using winvD(3) [OF v that] that p(3) by (auto simp: e)
  moreover have "x < NPROC" if "upc t x = Sleep1 \<or> upc t x = Sleep2" for x using winvD(4) [OF v, of x] that by (auto simp: e split: if_splits)
  ultimately show ?thesis unfolding winv_def e(2-4) using w by (simp add: e(1))
next
  case (sleep1 p)
  have u: "upc t = (upc s)(p := Sleep1)" using sleep1(1) by simp
  have e: "wlk t = wlk s" "cnd t = cnd s" using sleep1(1) by simp_all
  have sl: "sleeps t = sleeps s" by (rule sleeps_cong) (simp add: sleep1(1))
  have k: "will_wake s x \<Longrightarrow> will_wake t x" for x using will_wake_keep [OF _ u] sleep1(2) by simp
  have l: "wpl t x \<longleftrightarrow> (if x = p then Sleep1 = Sleep1 \<or> Sleep1 = Sleep2 else wpl s x)" for x using sleep1 winvD(2) [OF v, of p] by simp
  have n: "sleeps s x \<Longrightarrow> x \<noteq> p" for x using winvD(3) [OF v, of x] sleep1(2) by auto
  show ?thesis using sleep1(2-) winvD(1,4,5) [OF v, of p] n
    by (intro winv_move [OF v u]) (simp_all add: k sl e l)
next
  case (sleep2 p)
  have u: "upc t = (upc s)(p := Sleep2)" using sleep2(1) by simp
  have e: "wlk t = None" "cnd t = cnd s" using sleep2(1) by simp_all
  have sl: "sleeps t = sleeps s" by (rule sleeps_cong) (simp add: sleep2(1))
  have k: "will_wake s x \<Longrightarrow> will_wake t x" for x using will_wake_keep [OF _ u] sleep2(2) by simp
  have l: "wpl t x \<longleftrightarrow> (if x = p then Sleep2 = Sleep1 \<or> Sleep2 = Sleep2 else wpl s x)" for x using sleep2 winvD(2) [OF v, of p] by simp
  have n: "sleeps s x \<Longrightarrow> x \<noteq> p" for x using winvD(3) [OF v, of x] sleep2(2) by auto
  show ?thesis using sleep2(2-) winvD(1,4,5) [OF v, of p] n
    by (intro winv_move [OF v u]) (simp_all add: k sl e l)
next
  case (sleep3 p)
  have u: "upc t = (upc s)(p := Asleep)" and e: "wlk t = wlk s" "cnd t = cnd s" "wpl t = (wpl s)(p := False)" using sleep3(1) by simp_all
  have sl: "sleeps t x \<longleftrightarrow> x = p \<or> sleeps s x" for x
    using sleep3(1) by (simp add: sleeps_def sleep_enter_def upd_proc_def)
  have k: "will_wake s x \<Longrightarrow> will_wake t x" for x using will_wake_keep [OF _ u] sleep3(2) by simp
  show ?thesis using sleep3(2) winvD(1,4) [OF v, of p]
    by (intro winv_move [OF v u]) (simp_all add: k sl e, auto)
next
  case (dispatch p)
  have sl: "sleeps t x \<longleftrightarrow> x \<noteq> p \<and> sleeps s x" for x
    using dispatch(1) by (simp add: sleeps_def sleep_exit_def upd_proc_def)
  have u: "upc t = (upc s)(p := Woken)" using dispatch(1) by simp
  have k: "will_wake s x \<Longrightarrow> will_wake t x" for x using will_wake_keep [OF _ u] dispatch(2) by simp
  have e: "wlk t = wlk s" "wpl t = wpl s" "cnd t = cnd s" using dispatch(1) by simp_all
  show ?thesis using dispatch(2) winvD(1,2) [OF v, of p]
    by (intro winv_move [OF v u]) (simp_all add: k sl e)
next
  case (retake p)
  have u: "upc t = (upc s)(p := HasLk)" using retake(1) by simp
  have e: "wlk t = Some p" "cnd t = cnd s" using retake(1) by simp_all
  have sl: "sleeps t = sleeps s" by (rule sleeps_cong) (simp add: retake(1))
  have k: "will_wake s x \<Longrightarrow> will_wake t x" for x using will_wake_keep [OF _ u] retake(2) by simp
  have l: "wpl t x \<longleftrightarrow> (if x = p then HasLk = Sleep1 \<or> HasLk = Sleep2 else wpl s x)" for x using retake winvD(2) [OF v, of p] by simp
  have n: "sleeps s x \<Longrightarrow> x \<noteq> p" for x using winvD(3) [OF v, of x] retake(2) by auto
  show ?thesis using retake(2-) winvD(1,4,5) [OF v, of p] n
    by (intro winv_move [OF v u]) (simp_all add: k sl e l)
next
  case (visit p i)
  have u: "upc t = (upc s)(p := Waking (Suc i))" and e: "wlk t = wlk s" "cnd t = cnd s" "wpl t = wpl s" using visit(1) by simp_all
  have sl: "sleeps t x \<longleftrightarrow> sleeps s x \<and> \<not> (x = i \<and> i \<noteq> p)" for x
    unfolding visit(1) by (auto simp: sleeps_def wakeup_one_def upd_proc_def)
  have n: "sleeps s x \<Longrightarrow> x \<noteq> p" for x using winvD(3) [OF v, of x] visit(2) by auto
  have k: "will_wake t x" if x: "upc t x = Sleep2 \<or> sleeps t x" and "will_wake s x" for x
  proof -
    obtain q j where q: "upc s q = Waking j" "j \<le> x" using \<open>will_wake s x\<close> by (auto simp: will_wake_def)
    have "upc s x = Sleep2 \<and> x \<noteq> p \<or> sleeps t x" using x by (simp add: u split: if_splits)
    then have "x \<noteq> i" using visit(4) sl [of x] n [of x] winvD(2) [OF v, of x] by auto
    show ?thesis unfolding will_wake_def
    proof (intro exI conjI)
      show "upc t q = Waking (if q = p then Suc i else j)" using q by (simp add: u)
      show "(if q = p then Suc i else j) \<le> x" using q visit(2) \<open>x \<noteq> i\<close> by auto
    qed
  qed
  show ?thesis using visit(2) winvD(1,2) [OF v, of p] n
    by (intro winv_move [OF v u]) (simp_all add: k e, simp add: sl)
next
  case (woke p)
  have u: "upc t = (upc s)(p := HasLk)" and e: "wlk t = wlk s" "cnd t = cnd s" "wpl t = wpl s" using woke(1) by simp_all
  have sl: "sleeps t = sleeps s" by (rule sleeps_cong) (simp add: woke(1))
  have n: "sleeps s x \<Longrightarrow> x \<noteq> p" for x using winvD(3) [OF v, of x] woke(2) by auto
  have k: "will_wake t x" if x: "upc t x = Sleep2 \<or> sleeps t x" and "will_wake s x" for x
  proof -
    obtain q j where q: "upc s q = Waking j" "j \<le> x" using \<open>will_wake s x\<close> by (auto simp: will_wake_def)
    have "x < NPROC" using x winvD(3,4) [OF v, of x] by (auto simp: sl u split: if_splits)
    then have "q \<noteq> p" using woke(2) q by auto
    then show ?thesis unfolding will_wake_def using q by (intro exI [of _ q] exI [of _ j]) (simp add: u)
  qed
  show ?thesis using woke(2) winvD(1,2) [OF v, of p] n
    by (intro winv_move [OF v u]) (simp_all add: k e, simp add: sl)
next
  case (spurious p)
  have e: "upc t = upc s" "wlk t = wlk s" "wpl t = wpl s" "cnd t = cnd s" "will_wake t = will_wake s"
    using spurious(1) by (simp_all add: will_wake_def fun_eq_iff)
  have sl: "sleeps s x" if "sleeps t x" for x
    using that unfolding spurious(1) by (auto simp: sleeps_def upd_proc_def split: if_splits)
  have "upc s x = Asleep \<and> x < NPROC" if "sleeps t x" for x using winvD(3) [OF v sl [OF that]] .
  moreover have "will_wake s x" if "upc s x = Sleep2 \<or> sleeps t x" "cnd s" for x using winvD(6) [OF v, of x] sl [of x] that by blast
  ultimately show ?thesis using winvD(1,2,4,5) [OF v] unfolding winv_def e by simp
qed

definition winit :: "ptab \<Rightarrow> bool \<Rightarrow> wst" where
  "winit s c = \<lparr>wt = s, wlk = None, wpl = (\<lambda>_. False), cnd = c, upc = (\<lambda>_. Idle)\<rparr>"

lemma wrun_winv: "wstep\<^sup>*\<^sup>* s t \<Longrightarrow> winv s \<Longrightarrow> winv t"
  by (induction rule: rtranclp_induct) (auto intro: wstep_winv)

text \<open>
  C28. No wakeup is lost: with any number of processes that sleep for a condition and make it true
  in any interleaving, whenever the condition holds and its lock is free, no process sleeps on
  the channel; while the lock is held, a sleeping process has its wakeup still to come.
\<close>

theorem no_lost_wakeup:
  assumes "\<forall>p. p_state (procs s p) \<noteq> SLEEPING" and "wstep\<^sup>*\<^sup>* (winit s c) t" and "cnd t" and "sleeps t p"
  shows "\<exists>q i. wlk t = Some q \<and> upc t q = Waking i \<and> i \<le> p"
proof -
  have "winv (winit s c)" using assms(1) by (auto simp: winv_def winit_def sleeps_def)
  then have v: "winv t" by (rule wrun_winv [OF assms(2)])
  from winvD(6) [OF v, of p] assms(3,4) obtain q i where "upc t q = Waking i" "i \<le> p" by (auto simp: will_wake_def)
  then show ?thesis using winvD(1) [OF v, of q] by (intro exI [of _ q] exI [of _ i]) simp
qed

theorem no_lost_wakeup_witness:
  "\<exists>t q i. wstep\<^sup>*\<^sup>* (winit (zero_ptab \<lparr>memory = (\<lambda>_. 0), freelist = 0, counter = (\<lambda>_. 0), kend = KERNBASE\<rparr>) False) t \<and>
    cnd t \<and> sleeps t 0 \<and> wlk t = Some q \<and> upc t q = Waking i"
proof -
  let ?k = "zero_ptab \<lparr>memory = (\<lambda>_. 0), freelist = 0, counter = (\<lambda>_. 0), kend = KERNBASE\<rparr>"
  define s0 where "s0 = winit ?k False"
  define s1 where "s1 = s0\<lparr>wlk := Some 0, upc := (upc s0)(0 := HasLk)\<rparr>"
  define s2 where "s2 = s1\<lparr>wpl := (wpl s1)(0 := True), upc := (upc s1)(0 := Sleep1)\<rparr>"
  define s3 where "s3 = s2\<lparr>wlk := None, upc := (upc s2)(0 := Sleep2)\<rparr>"
  define s4 where "s4 = s3\<lparr>wt := sleep_enter ((wt s3)\<lparr>me := 0\<rparr>) ChTicks, wpl := (wpl s3)(0 := False), upc := (upc s3)(0 := Asleep)\<rparr>"
  define s5 where "s5 = s4\<lparr>wlk := Some 1, upc := (upc s4)(1 := HasLk)\<rparr>"
  define s6 where "s6 = s5\<lparr>cnd := True, upc := (upc s5)(1 := Waking 0)\<rparr>"
  note d = s0_def s1_def s2_def s3_def s4_def s5_def s6_def winit_def
  have a: "wstep s0 s1" unfolding s1_def by (rule wstep.get_lk) (simp_all add: d)
  have b: "wstep s1 s2" unfolding s2_def by (rule wstep.sleep1) (simp_all add: d NPROC_def)
  have c: "wstep s2 s3" unfolding s3_def by (rule wstep.sleep2) (simp_all add: d)
  have e: "wstep s3 s4" unfolding s4_def by (rule wstep.sleep3) (simp_all add: d)
  have f: "wstep s4 s5" unfolding s5_def by (rule wstep.get_lk) (simp_all add: d)
  have g: "wstep s5 s6" unfolding s6_def by (rule wstep.fulfil) (simp_all add: d)
  note into = rtranclp.rtrancl_into_rtrancl
  have r: "wstep\<^sup>*\<^sup>* (winit ?k False) s6" unfolding s0_def [symmetric]
    by (rule into [OF into [OF into [OF into [OF into [OF r_into_rtranclp [of wstep, OF a] b] c] e] f] g])
  have h: "cnd s6" "sleeps s6 0" by (simp_all add: d sleeps_def sleep_enter_def upd_proc_def)
  have "\<forall>p. p_state (procs ?k p) \<noteq> SLEEPING" by (simp add: zero_ptab_def zero_proc_def)
  from no_lost_wakeup [OF this r h] show ?thesis using r h by blast
qed

end
