(* ===== verification/Fs.thy ===== *)
theory Fs
  imports Log Ptable
begin

text \<open>
  The file system below the system calls, \<^verbatim>\<open>kernel/fs.c\<close>: superblock, block bitmap, inodes in
  memory and on disk, file contents, directories and path names. The functions run on behalf of
  the current process; a sleep lock that another process holds gives \<open>Blocked\<close>. An inode pointer
  is the index of its entry in \<^verbatim>\<open>itable\<close>, a null pointer is \<open>None\<close>.
\<close>

section \<open>Data\<close>

definition ROOTINO :: u32 where "ROOTINO = 1"
definition ROOTDEV :: u32 where "ROOTDEV = 1"
definition FSMAGIC :: u32 where "FSMAGIC = 0x10203040"
definition NDIRECT :: nat where "NDIRECT = 12"
definition NINDIRECT :: nat where "NINDIRECT = BSIZE div 4"
definition MAXFILE :: nat where "MAXFILE = NDIRECT + NINDIRECT"
definition IPB :: nat where "IPB = BSIZE div 64"
definition BPB :: nat where "BPB = BSIZE * 8"
definition DIRSIZ :: nat where "DIRSIZ = 14"
definition NINODE :: nat where "NINODE = 50"
definition T_DIR :: u16 where "T_DIR = 1"
definition T_FILE :: u16 where "T_FILE = 2"
definition T_DEVICE :: u16 where "T_DEVICE = 3"

text \<open>The on-disk inode, \<^verbatim>\<open>struct dinode\<close>, and the in-memory one.\<close>

record dinode =
  d_type :: u16
  d_major :: u16
  d_minor :: u16
  d_nlink :: u16
  d_size :: u32
  d_addrs :: "nat \<Rightarrow> u32"

record inode =
  i_dev :: u32
  i_inum :: u32
  i_ref :: int
  i_lock :: sleeplock
  i_valid :: bool
  i_d :: dinode

record fsst = logst +
  pt :: ptab
  fsb :: superblock
  itab :: "nat \<Rightarrow> inode"

definition upd_inode :: "'a fsst_scheme \<Rightarrow> nat \<Rightarrow> (inode \<Rightarrow> inode) \<Rightarrow> 'a fsst_scheme" where
  "upd_inode s ip f = s\<lparr>itab := (itab s)(ip := f (itab s ip))\<rparr>"

definition upd_dinode :: "'a fsst_scheme \<Rightarrow> nat \<Rightarrow> (dinode \<Rightarrow> dinode) \<Rightarrow> 'a fsst_scheme" where
  "upd_dinode s ip f = upd_inode s ip (\<lambda>x. x\<lparr>i_d := f (i_d x)\<rparr>)"

definition IBLOCK :: "u32 \<Rightarrow> superblock \<Rightarrow> u32" where
  "IBLOCK i sb = i div of_nat IPB + sb_inodestart sb"

definition BBLOCK :: "u32 \<Rightarrow> superblock \<Rightarrow> u32" where
  "BBLOCK b sb = b div of_nat BPB + sb_bmapstart sb"

section \<open>Superblock\<close>

definition readsb :: "'a fsst_scheme \<Rightarrow> u32 \<Rightarrow> 'a fsst_scheme res" where
  "readsb s dev =
     bnd (bread s dev 1) (\<lambda>(bp, s).
       let d = bdata (bufs s bp) in
       brelse (s\<lparr>fsb := \<lparr>sb_magic = ld32 d 0, sb_size = ld32 d 4, sb_nblocks = ld32 d 8, sb_ninodes = ld32 d 12,
         sb_nlog = ld32 d 16, sb_logstart = ld32 d 20, sb_inodestart = ld32 d 24, sb_bmapstart = ld32 d 28\<rparr>\<rparr>) bp)"

definition fsinit :: "'a fsst_scheme \<Rightarrow> u32 \<Rightarrow> 'a fsst_scheme res" where
  "fsinit s dev =
     bnd (readsb s dev) (\<lambda>s.
       if sb_magic (fsb s) \<noteq> FSMAGIC then Panic ''invalid file system'' else initlog s dev (fsb s))"

section \<open>Blocks\<close>

definition bzero :: "'a fsst_scheme \<Rightarrow> u32 \<Rightarrow> u32 \<Rightarrow> 'a fsst_scheme res" where
  "bzero s dev bno =
     bnd (bread s dev bno) (\<lambda>(bp, s).
       bnd (log_write (set_data s bp (\<lambda>i. if i < BSIZE then 0 else bdata (bufs s bp) i)) bp) (\<lambda>s. brelse s bp))"

definition bitmask :: "nat \<Rightarrow> u8" where
  "bitmask bi = push_bit (bi mod 8) 1"

text \<open>The first clear bit from \<open>bi\<close> on among \<open>k\<close> bits of a bitmap block.\<close>

primrec free_bit :: "block \<Rightarrow> nat \<Rightarrow> nat \<Rightarrow> nat option" where
  "free_bit d bi 0 = None"
| "free_bit d bi (Suc k) = (if d (bi div 8) AND bitmask bi = 0 then Some bi else free_bit d (Suc bi) k)"

text \<open>\<^verbatim>\<open>b\<close> is an \<^verbatim>\<open>int\<close>: its overflow is undefined.\<close>

function balloc_loop :: "nat \<Rightarrow> 'a fsst_scheme \<Rightarrow> u32 \<Rightarrow> nat \<Rightarrow> (u32 \<times> 'a fsst_scheme) res" where
  "balloc_loop sz s dev b =
     (if b < sz then
        bnd (bread s dev (BBLOCK (of_nat b) (fsb s))) (\<lambda>(bp, s).
          let d = bdata (bufs s bp) in
          case free_bit d 0 (min BPB (sz - b)) of
            Some bi \<Rightarrow>
              bnd (log_write (set_data s bp (d(bi div 8 := d (bi div 8) OR bitmask bi))) bp) (\<lambda>s.
                bnd (brelse s bp) (\<lambda>s. bnd (bzero s dev (of_nat (b + bi))) (\<lambda>s. Ok (of_nat (b + bi), s))))
          | None \<Rightarrow> bnd (brelse s bp) (\<lambda>s. if b + BPB \<ge> 2 ^ 31 then Undef else balloc_loop sz s dev (b + BPB)))
      else Ok (0, s))"
  by pat_completeness auto

termination
  by (relation "measure (\<lambda>(sz, s, dev, b). sz - b)") (auto simp: BPB_def BSIZE_def)

declare balloc_loop.simps [simp del]

definition balloc :: "'a fsst_scheme \<Rightarrow> u32 \<Rightarrow> (u32 \<times> 'a fsst_scheme) res" where
  "balloc s dev = balloc_loop (unat (sb_size (fsb s))) s dev 0"

definition bfree :: "'a fsst_scheme \<Rightarrow> u32 \<Rightarrow> u32 \<Rightarrow> 'a fsst_scheme res" where
  "bfree s dev b =
     bnd (bread s dev (BBLOCK b (fsb s))) (\<lambda>(bp, s).
       let d = bdata (bufs s bp); bi = unat b mod BPB; m = bitmask bi in
       if d (bi div 8) AND m = 0 then Panic ''freeing free block''
       else bnd (log_write (set_data s bp (d(bi div 8 := d (bi div 8) AND NOT m))) bp) (\<lambda>s. brelse s bp))"

section \<open>Inodes\<close>

definition zero_dinode :: dinode where
  "zero_dinode = \<lparr>d_type = 0, d_major = 0, d_minor = 0, d_nlink = 0, d_size = 0, d_addrs = (\<lambda>_. 0)\<rparr>"

definition iinit :: "'a fsst_scheme \<Rightarrow> 'a fsst_scheme" where
  "iinit s = s\<lparr>itab := (\<lambda>i. if i < NINODE then (itab s i)\<lparr>i_lock := initsleeplock\<rparr> else itab s i)\<rparr>"

text \<open>The fields of the \<^verbatim>\<open>struct dinode\<close> at byte \<open>p\<close> of a block.\<close>

primrec st_addrs :: "block \<Rightarrow> nat \<Rightarrow> (nat \<Rightarrow> u32) \<Rightarrow> nat \<Rightarrow> block" where
  "st_addrs d p a 0 = d"
| "st_addrs d p a (Suc k) = st32 (st_addrs d p a k) (p + 4 * k) (a k)"

definition ld_dinode :: "block \<Rightarrow> nat \<Rightarrow> dinode" where
  "ld_dinode d p = \<lparr>d_type = ld16 d p, d_major = ld16 d (p + 2), d_minor = ld16 d (p + 4), d_nlink = ld16 d (p + 6),
     d_size = ld32 d (p + 8), d_addrs = (\<lambda>i. if i \<le> NDIRECT then ld32 d (p + 12 + 4 * i) else 0)\<rparr>"

definition st_dinode :: "block \<Rightarrow> nat \<Rightarrow> dinode \<Rightarrow> block" where
  "st_dinode d p x =
     (let d = st16 d p (d_type x);
          d = st16 d (p + 2) (d_major x);
          d = st16 d (p + 4) (d_minor x);
          d = st16 d (p + 6) (d_nlink x);
          d = st32 d (p + 8) (d_size x)
      in st_addrs d (p + 12) (d_addrs x) (NDIRECT + 1))"

definition dip_off :: "u32 \<Rightarrow> nat" where
  "dip_off inum = unat inum mod IPB * 64"

text \<open>The scan of \<^verbatim>\<open>iget\<close>: the entry found, or the first empty one.\<close>

primrec iget_scan :: "(nat \<Rightarrow> inode) \<Rightarrow> u32 \<Rightarrow> u32 \<Rightarrow> nat \<Rightarrow> nat \<Rightarrow> nat option \<Rightarrow> nat option \<times> nat option" where
  "iget_scan it dev inum i 0 free = (None, free)"
| "iget_scan it dev inum i (Suc k) free =
     (if i_ref (it i) > 0 \<and> i_dev (it i) = dev \<and> i_inum (it i) = inum then (Some i, free)
      else iget_scan it dev inum (Suc i) k (if free = None \<and> i_ref (it i) = 0 then Some i else free))"

definition iget :: "'a fsst_scheme \<Rightarrow> u32 \<Rightarrow> u32 \<Rightarrow> (nat \<times> 'a fsst_scheme) res" where
  "iget s dev inum =
     (case iget_scan (itab s) dev inum 0 NINODE None of
        (Some ip, _) \<Rightarrow> Ok (ip, upd_inode s ip (\<lambda>x. x\<lparr>i_ref := i_ref x + 1\<rparr>))
      | (None, None) \<Rightarrow> Panic ''iget: no inodes''
      | (None, Some ip) \<Rightarrow> Ok (ip, upd_inode s ip (\<lambda>x. x\<lparr>i_dev := dev, i_inum := inum, i_ref := 1, i_valid := False\<rparr>)))"

function ialloc_loop :: "nat \<Rightarrow> 'a fsst_scheme \<Rightarrow> u32 \<Rightarrow> u16 \<Rightarrow> nat \<Rightarrow> (nat option \<times> 'a fsst_scheme) res" where
  "ialloc_loop n s dev type inum =
     (if inum < n then
        bnd (bread s dev (IBLOCK (of_nat inum) (fsb s))) (\<lambda>(bp, s).
          let d = bdata (bufs s bp); p = dip_off (of_nat inum) in
          if ld16 d p = 0 then
            bnd (log_write (set_data s bp (st16 (st_dinode d p zero_dinode) p type)) bp) (\<lambda>s.
              bnd (brelse s bp) (\<lambda>s. bnd (iget s dev (of_nat inum)) (\<lambda>(ip, s). Ok (Some ip, s))))
          else bnd (brelse s bp) (\<lambda>s. ialloc_loop n s dev type (Suc inum)))
      else Ok (None, s))"
  by pat_completeness auto

termination
  by (relation "measure (\<lambda>(n, s, dev, type, inum). n - inum)") auto

declare ialloc_loop.simps [simp del]

definition ialloc :: "'a fsst_scheme \<Rightarrow> u32 \<Rightarrow> u16 \<Rightarrow> (nat option \<times> 'a fsst_scheme) res" where
  "ialloc s dev type = ialloc_loop (unat (sb_ninodes (fsb s))) s dev type 1"

definition iupdate :: "'a fsst_scheme \<Rightarrow> nat \<Rightarrow> 'a fsst_scheme res" where
  "iupdate s ip =
     bnd (bread s (i_dev (itab s ip)) (IBLOCK (i_inum (itab s ip)) (fsb s))) (\<lambda>(bp, s).
       bnd (log_write (set_data s bp (st_dinode (bdata (bufs s bp)) (dip_off (i_inum (itab s ip))) (i_d (itab s ip)))) bp)
         (\<lambda>s. brelse s bp))"

definition idup :: "'a fsst_scheme \<Rightarrow> nat \<Rightarrow> 'a fsst_scheme" where
  "idup s ip = upd_inode s ip (\<lambda>x. x\<lparr>i_ref := i_ref x + 1\<rparr>)"

definition ilock :: "'a fsst_scheme \<Rightarrow> nat option \<Rightarrow> 'a fsst_scheme res" where
  "ilock s ipo =
     (case ipo of None \<Rightarrow> Panic ''ilock'' | Some ip \<Rightarrow>
       if i_ref (itab s ip) < 1 then Panic ''ilock''
       else bnd (acquiresleep (curpid s) (i_lock (itab s ip))) (\<lambda>l.
         let s = upd_inode s ip (\<lambda>x. x\<lparr>i_lock := l\<rparr>) in
         if \<not> i_valid (itab s ip) then
           bnd (bread s (i_dev (itab s ip)) (IBLOCK (i_inum (itab s ip)) (fsb s))) (\<lambda>(bp, s).
             let s = upd_inode s ip (\<lambda>x. x\<lparr>i_d := ld_dinode (bdata (bufs s bp)) (dip_off (i_inum x))\<rparr>) in
             bnd (brelse s bp) (\<lambda>s.
               let s = upd_inode s ip (\<lambda>x. x\<lparr>i_valid := True\<rparr>) in
               if d_type (i_d (itab s ip)) = 0 then Panic ''ilock: no type'' else Ok s))
         else Ok s))"

definition iunlock :: "'a fsst_scheme \<Rightarrow> nat option \<Rightarrow> 'a fsst_scheme res" where
  "iunlock s ipo =
     (case ipo of None \<Rightarrow> Panic ''iunlock'' | Some ip \<Rightarrow>
       if \<not> holdingsleep (curpid s) (i_lock (itab s ip)) \<or> i_ref (itab s ip) < 1 then Panic ''iunlock''
       else Ok (upd_inode s ip (\<lambda>x. x\<lparr>i_lock := releasesleep (i_lock x)\<rparr>)))"

section \<open>Contents\<close>

definition bmap :: "'a fsst_scheme \<Rightarrow> nat \<Rightarrow> nat \<Rightarrow> (u32 \<times> 'a fsst_scheme) res" where
  "bmap s ip bn =
     (let dev = i_dev (itab s ip) in
      if bn < NDIRECT then
        if d_addrs (i_d (itab s ip)) bn = 0 then
          bnd (balloc s dev) (\<lambda>(addr, s).
            if addr = 0 then Ok (0, s)
            else Ok (addr, upd_dinode s ip (\<lambda>x. x\<lparr>d_addrs := (d_addrs x)(bn := addr)\<rparr>)))
        else Ok (d_addrs (i_d (itab s ip)) bn, s)
      else if bn - NDIRECT < NINDIRECT then
        bnd (if d_addrs (i_d (itab s ip)) NDIRECT = 0 then
               bnd (balloc s dev) (\<lambda>(addr, s).
                 if addr = 0 then Ok (0, s)
                 else Ok (addr, upd_dinode s ip (\<lambda>x. x\<lparr>d_addrs := (d_addrs x)(NDIRECT := addr)\<rparr>)))
             else Ok (d_addrs (i_d (itab s ip)) NDIRECT, s)) (\<lambda>(addr, s).
          if addr = 0 then Ok (0, s)
          else bnd (bread s dev addr) (\<lambda>(bp, s).
            let p = 4 * (bn - NDIRECT); addr = ld32 (bdata (bufs s bp)) p in
            bnd (if addr = 0 then
                   bnd (balloc s dev) (\<lambda>(addr, s).
                     if addr \<noteq> 0 then bnd (log_write (set_data s bp (st32 (bdata (bufs s bp)) p addr)) bp) (\<lambda>s. Ok (addr, s))
                     else Ok (addr, s))
                 else Ok (addr, s)) (\<lambda>(addr, s).
              bnd (brelse s bp) (\<lambda>s. Ok (addr, s)))))
      else Panic ''bmap: out of range'')"

primrec itrunc_direct :: "'a fsst_scheme \<Rightarrow> nat \<Rightarrow> nat \<Rightarrow> nat \<Rightarrow> 'a fsst_scheme res" where
  "itrunc_direct s ip i 0 = Ok s"
| "itrunc_direct s ip i (Suc k) =
     bnd (if d_addrs (i_d (itab s ip)) i \<noteq> 0 then
            bnd (bfree s (i_dev (itab s ip)) (d_addrs (i_d (itab s ip)) i)) (\<lambda>s.
              Ok (upd_dinode s ip (\<lambda>x. x\<lparr>d_addrs := (d_addrs x)(i := 0)\<rparr>)))
          else Ok s) (\<lambda>s. itrunc_direct s ip (Suc i) k)"

primrec itrunc_indirect :: "'a fsst_scheme \<Rightarrow> u32 \<Rightarrow> nat \<Rightarrow> nat \<Rightarrow> nat \<Rightarrow> 'a fsst_scheme res" where
  "itrunc_indirect s dev bp j 0 = Ok s"
| "itrunc_indirect s dev bp j (Suc k) =
     bnd (let a = ld32 (bdata (bufs s bp)) (4 * j) in if a \<noteq> 0 then bfree s dev a else Ok s)
       (\<lambda>s. itrunc_indirect s dev bp (Suc j) k)"

definition itrunc :: "'a fsst_scheme \<Rightarrow> nat \<Rightarrow> 'a fsst_scheme res" where
  "itrunc s ip =
     bnd (itrunc_direct s ip 0 NDIRECT) (\<lambda>s.
       bnd (let ind = d_addrs (i_d (itab s ip)) NDIRECT; dev = i_dev (itab s ip) in
            if ind \<noteq> 0 then
              bnd (bread s dev ind) (\<lambda>(bp, s).
                bnd (itrunc_indirect s dev bp 0 NINDIRECT) (\<lambda>s.
                  bnd (brelse s bp) (\<lambda>s.
                    bnd (bfree s dev (d_addrs (i_d (itab s ip)) NDIRECT)) (\<lambda>s.
                      Ok (upd_dinode s ip (\<lambda>x. x\<lparr>d_addrs := (d_addrs x)(NDIRECT := 0)\<rparr>))))))
            else Ok s) (\<lambda>s.
         iupdate (upd_dinode s ip (\<lambda>x. x\<lparr>d_size := 0\<rparr>)) ip))"

definition iput :: "'a fsst_scheme \<Rightarrow> nat \<Rightarrow> 'a fsst_scheme res" where
  "iput s ip =
     bnd (if i_ref (itab s ip) = 1 \<and> i_valid (itab s ip) \<and> d_nlink (i_d (itab s ip)) = 0 then
            bnd (acquiresleep (curpid s) (i_lock (itab s ip))) (\<lambda>l.
              bnd (itrunc (upd_inode s ip (\<lambda>x. x\<lparr>i_lock := l\<rparr>)) ip) (\<lambda>s.
                bnd (iupdate (upd_dinode s ip (\<lambda>x. x\<lparr>d_type := 0\<rparr>)) ip) (\<lambda>s.
                  Ok (upd_inode s ip (\<lambda>x. x\<lparr>i_valid := False, i_lock := releasesleep (i_lock x)\<rparr>)))))
          else Ok s) (\<lambda>s. Ok (upd_inode s ip (\<lambda>x. x\<lparr>i_ref := i_ref x - 1\<rparr>)))"

definition iunlockput :: "'a fsst_scheme \<Rightarrow> nat \<Rightarrow> 'a fsst_scheme res" where
  "iunlockput s ip = bnd (iunlock s (Some ip)) (\<lambda>s. iput s ip)"

section \<open>Reading and writing\<close>

record stat =
  st_dev :: u32
  st_ino :: u32
  st_type :: u16
  st_nlink :: u16
  st_size :: u64

definition stati :: "'a fsst_scheme \<Rightarrow> nat \<Rightarrow> stat" where
  "stati s ip =
     (let x = itab s ip in
      \<lparr>st_dev = i_dev x, st_ino = i_inum x, st_type = d_type (i_d x), st_nlink = d_nlink (i_d x), st_size = ucast (d_size (i_d x))\<rparr>)"

text \<open>What of a request falls into the block of offset \<open>off\<close>.\<close>

definition blk_part :: "u32 \<Rightarrow> u32 \<Rightarrow> u32" where
  "blk_part off left = min left (of_nat BSIZE - off mod of_nat BSIZE)"

lemma blk_part_unat: "unat (blk_part off left) = min (unat left) (BSIZE - unat off mod BSIZE)"
proof -
  have "unat (off mod 1024) = unat off mod 1024" by (simp add: unat_mod)
  moreover have "off mod 1024 \<le> 1024" by (simp add: word_le_nat_alt unat_mod)
  ultimately have "unat (1024 - off mod 1024 :: u32) = 1024 - unat off mod 1024" by (simp add: unat_sub)
  then show ?thesis by (simp add: blk_part_def BSIZE_def min_def word_le_nat_alt)
qed

lemma blk_part_step:
  assumes "tot < n" and "m = blk_part off (n - tot)"
  shows "unat (tot + m) = unat tot + unat m" and "0 < unat m" and "unat tot + unat m \<le> unat n" and "unat m \<le> BSIZE - unat off mod BSIZE"
proof -
  have d: "unat (n - tot) = unat n - unat tot" using assms(1) by (simp add: unat_sub less_imp_le)
  have lt: "unat tot < unat n" using assms(1) by (simp add: word_less_nat_alt)
  have "unat off mod BSIZE < BSIZE" by (simp add: BSIZE_def)
  then show p: "0 < unat m" and q: "unat tot + unat m \<le> unat n" and "unat m \<le> BSIZE - unat off mod BSIZE"
    using lt d by (simp_all add: assms(2) blk_part_unat)
  have "unat n < 2 ^ 32" by (rule order_less_le_trans [OF unsigned_less]) simp
  then have "unat tot + unat m < 2 ^ 32" using q by simp
  then show "unat (tot + m) = unat tot + unat m" by (simp add: unat_word_ariths)
qed

lemma blk_part_measure: "tot < n \<Longrightarrow> unat n - unat (tot + blk_part off (n - tot)) < unat n - unat tot"
  using blk_part_step [OF _ refl, of tot n off] by simp

definition read_blk :: "block \<Rightarrow> nat \<Rightarrow> nat \<Rightarrow> u8 list" where
  "read_blk d p n = map (\<lambda>i. d (p + i)) [0..<n]"

definition write_blk :: "block \<Rightarrow> nat \<Rightarrow> u8 list \<Rightarrow> block" where
  "write_blk d p bs = (\<lambda>i. if p \<le> i \<and> i < p + length bs then bs ! (i - p) else d i)"

function readi_loop :: "'a fsst_scheme \<Rightarrow> nat \<Rightarrow> bool \<Rightarrow> u64 \<Rightarrow> u32 \<Rightarrow> u32 \<Rightarrow> u32 \<Rightarrow> (u32 \<times> 'a fsst_scheme) res" where
  "readi_loop s ip user_dst dst off n tot =
     (if tot < n then
        bnd (bmap s ip (unat off div BSIZE)) (\<lambda>(addr, s).
          if addr = 0 then Ok (tot, s)
          else bnd (bread s (i_dev (itab s ip)) addr) (\<lambda>(bp, s).
            let m = blk_part off (n - tot) in
            bnd (either_copyout (pt s) user_dst dst (read_blk (bdata (bufs s bp)) (unat off mod BSIZE) (unat m))) (\<lambda>(r, p).
              bnd (brelse (s\<lparr>pt := p\<rparr>) bp) (\<lambda>s.
                if r = -1 then Ok (-1, s)
                else readi_loop s ip user_dst (dst + ucast m) (off + m) n (tot + m)))))
      else Ok (tot, s))"
  by pat_completeness auto

termination
  by (relation "measure (\<lambda>(s, ip, u, dst, off, n, tot). unat n - unat tot)") (auto intro: blk_part_measure)

declare readi_loop.simps [simp del]

definition readi :: "'a fsst_scheme \<Rightarrow> nat \<Rightarrow> bool \<Rightarrow> u64 \<Rightarrow> u32 \<Rightarrow> u32 \<Rightarrow> (int \<times> 'a fsst_scheme) res" where
  "readi s ip user_dst dst off n =
     (let sz = d_size (i_d (itab s ip)) in
      if off > sz \<or> off + n < off then Ok (0, s)
      else let n = (if off + n > sz then sz - off else n) in
        bnd (readi_loop s ip user_dst dst off n 0) (\<lambda>(tot, s). Ok (sint tot, s)))"

text \<open>The loop of \<^verbatim>\<open>writei\<close> gives \<^verbatim>\<open>tot\<close> and \<^verbatim>\<open>off\<close>.\<close>

function writei_loop :: "'a fsst_scheme \<Rightarrow> nat \<Rightarrow> bool \<Rightarrow> u64 \<Rightarrow> u32 \<Rightarrow> u32 \<Rightarrow> u32 \<Rightarrow> (u32 \<times> u32 \<times> 'a fsst_scheme) res" where
  "writei_loop s ip user_src src off n tot =
     (if tot < n then
        bnd (bmap s ip (unat off div BSIZE)) (\<lambda>(addr, s).
          if addr = 0 then Ok (tot, off, s)
          else bnd (bread s (i_dev (itab s ip)) addr) (\<lambda>(bp, s).
            let m = blk_part off (n - tot); q = unat off mod BSIZE; d = bdata (bufs s bp) in
            bnd (either_copyin (pt s) (read_blk d q (unat m)) user_src src) (\<lambda>(r, bs, p).
              let s = set_data (s\<lparr>pt := p\<rparr>) bp (write_blk d q bs) in
              if r = -1 then bnd (brelse s bp) (\<lambda>s. Ok (tot, off, s))
              else bnd (log_write s bp) (\<lambda>s. bnd (brelse s bp) (\<lambda>s.
                writei_loop s ip user_src (src + ucast m) (off + m) n (tot + m))))))
      else Ok (tot, off, s))"
  by pat_completeness auto

termination
  by (relation "measure (\<lambda>(s, ip, u, src, off, n, tot). unat n - unat tot)") (auto intro: blk_part_measure)

declare writei_loop.simps [simp del]

definition writei :: "'a fsst_scheme \<Rightarrow> nat \<Rightarrow> bool \<Rightarrow> u64 \<Rightarrow> u32 \<Rightarrow> u32 \<Rightarrow> (int \<times> 'a fsst_scheme) res" where
  "writei s ip user_src src off n =
     (if off > d_size (i_d (itab s ip)) \<or> off + n < off then Ok (-1, s)
      else if off + n > of_nat (MAXFILE * BSIZE) then Ok (-1, s)
      else bnd (writei_loop s ip user_src src off n 0) (\<lambda>(tot, off, s).
        let s = (if off > d_size (i_d (itab s ip)) then upd_dinode s ip (\<lambda>x. x\<lparr>d_size := off\<rparr>) else s) in
        bnd (iupdate s ip) (\<lambda>s. Ok (sint tot, s))))"

section \<open>Directories\<close>

definition namecmp :: "cstr \<Rightarrow> cstr \<Rightarrow> int" where
  "namecmp s t = strncmp s t DIRSIZ"

text \<open>The local variable \<^verbatim>\<open>de\<close>: its \<^verbatim>\<open>inum\<close> and its \<^verbatim>\<open>name\<close>; its address is \<open>locals\<close>.\<close>

definition de_inum :: "'a fsst_scheme \<Rightarrow> u16" where
  "de_inum s = ucast (le_val (read_mem (memory (kmem (pt s))) (locals (pt s)) 2))"

definition de_name :: "'a fsst_scheme \<Rightarrow> cstr" where
  "de_name s = (\<lambda>i. memory (kmem (pt s)) (locals (pt s) + 2 + of_nat i))"

definition set_de :: "'a fsst_scheme \<Rightarrow> cstr \<Rightarrow> u16 \<Rightarrow> 'a fsst_scheme" where
  "set_de s nm inum =
     s\<lparr>pt := set_mem (pt s) (write_mem (memory (kmem (pt s))) (locals (pt s)) (le_bytes 2 (ucast inum) @ map nm [0..<DIRSIZ]))\<rparr>"

definition read_de :: "'a fsst_scheme \<Rightarrow> nat \<Rightarrow> u32 \<Rightarrow> string \<Rightarrow> 'a fsst_scheme res" where
  "read_de s dp off msg =
     bnd (readi s dp False (locals (pt s)) off 16) (\<lambda>(r, s). if r \<noteq> 16 then Panic msg else Ok s)"

text \<open>
  The loops over the entries of a directory. An offset that wraps around never reaches the end:
  \<open>Undef\<close> stands for the loop that does not end.
\<close>

lemma off_step: "\<not> off + 16 \<le> off \<Longrightarrow> 2 ^ 32 - unat (off + 16) < 2 ^ 32 - unat (off :: u32)"
proof -
  assume "\<not> off + 16 \<le> off"
  then have "unat off < unat (off + 16)" by (simp add: word_le_nat_alt)
  moreover have "unat (off + 16) < 2 ^ 32" by (rule order_less_le_trans [OF unsigned_less]) simp
  ultimately show ?thesis by linarith
qed

function dirlookup_loop :: "'a fsst_scheme \<Rightarrow> nat \<Rightarrow> cstr \<Rightarrow> u32 \<Rightarrow> ((nat \<times> u32) option \<times> 'a fsst_scheme) res" where
  "dirlookup_loop s dp name off =
     (if off < d_size (i_d (itab s dp)) then
        bnd (read_de s dp off ''dirlookup read'') (\<lambda>s.
          if de_inum s \<noteq> 0 \<and> namecmp name (de_name s) = 0 then
            bnd (iget s (i_dev (itab s dp)) (ucast (de_inum s))) (\<lambda>(ip, s). Ok (Some (ip, off), s))
          else if off + 16 \<le> off then Undef
          else dirlookup_loop s dp name (off + 16))
      else Ok (None, s))"
  by pat_completeness auto

termination
  by (relation "measure (\<lambda>(s, dp, name, off). 2 ^ 32 - unat off)") (auto dest: off_step)

declare dirlookup_loop.simps [simp del]

definition dirlookup :: "'a fsst_scheme \<Rightarrow> nat \<Rightarrow> cstr \<Rightarrow> ((nat \<times> u32) option \<times> 'a fsst_scheme) res" where
  "dirlookup s dp name =
     (if d_type (i_d (itab s dp)) \<noteq> T_DIR then Panic ''dirlookup not DIR'' else dirlookup_loop s dp name 0)"

function dirlink_loop :: "'a fsst_scheme \<Rightarrow> nat \<Rightarrow> u32 \<Rightarrow> (u32 \<times> 'a fsst_scheme) res" where
  "dirlink_loop s dp off =
     (if off < d_size (i_d (itab s dp)) then
        bnd (read_de s dp off ''dirlink read'') (\<lambda>s.
          if de_inum s = 0 then Ok (off, s)
          else if off + 16 \<le> off then Undef
          else dirlink_loop s dp (off + 16))
      else Ok (off, s))"
  by pat_completeness auto

termination
  by (relation "measure (\<lambda>(s, dp, off). 2 ^ 32 - unat off)") (auto dest: off_step)

declare dirlink_loop.simps [simp del]

definition dirlink :: "'a fsst_scheme \<Rightarrow> nat \<Rightarrow> cstr \<Rightarrow> u32 \<Rightarrow> (int \<times> 'a fsst_scheme) res" where
  "dirlink s dp name inum =
     bnd (dirlookup s dp name) (\<lambda>(found, s).
       case found of
         Some (ip, _) \<Rightarrow> bnd (iput s ip) (\<lambda>s. Ok (-1, s))
       | None \<Rightarrow>
           bnd (dirlink_loop s dp 0) (\<lambda>(off, s).
             let s = set_de s (strncpy (de_name s) name DIRSIZ) (ucast inum) in
             bnd (writei s dp False (locals (pt s)) off 16) (\<lambda>(r, s). Ok (if r \<noteq> 16 then -1 else 0, s))))"

section \<open>Paths\<close>

text \<open>A path is the list of its characters without the final NUL.\<close>

fun skip_slashes :: "u8 list \<Rightarrow> u8 list" where
  "skip_slashes (c # cs) = (if c = 47 then skip_slashes cs else c # cs)"
| "skip_slashes [] = []"

text \<open>A C string with the given characters.\<close>

definition cstr_of :: "u8 list \<Rightarrow> cstr" where
  "cstr_of bs = (\<lambda>i. if i < length bs then bs ! i else 0)"

text \<open>The characters up to the next slash, and the rest.\<close>

fun path_elem :: "u8 list \<Rightarrow> u8 list \<times> u8 list" where
  "path_elem (c # cs) = (if c \<noteq> 47 then (let (e, r) = path_elem cs in (c # e, r)) else ([], c # cs))"
| "path_elem [] = ([], [])"

definition put_name :: "cstr \<Rightarrow> u8 list \<Rightarrow> cstr" where
  "put_name name e =
     (if length e \<ge> DIRSIZ then (\<lambda>i. if i < DIRSIZ then e ! i else name i)
      else (\<lambda>i. if i < length e then e ! i else if i = length e then 0 else name i))"

definition skipelem :: "u8 list \<Rightarrow> cstr \<Rightarrow> (u8 list \<times> cstr) option" where
  "skipelem path name =
     (let path = skip_slashes path in
      if path = [] then None
      else let (e, rest) = path_elem path in Some (skip_slashes rest, put_name name e))"

lemma skip_slashes_length: "length (skip_slashes p) \<le> length p"
  by (induction p rule: skip_slashes.induct) (simp_all add: le_SucI)

lemma path_elem_length: "path_elem p = (e, r) \<Longrightarrow> length e + length r = length p"
  by (induction p arbitrary: e r rule: path_elem.induct) (auto split: prod.splits if_splits)

lemma skip_slashes_head: "skip_slashes p = c # cs \<Longrightarrow> c \<noteq> 47"
  by (induction p rule: skip_slashes.induct) (auto split: if_splits)

lemma skipelem_shorter:
  assumes "skipelem path name = Some (rest, nm)"
  shows "length rest < length path"
proof -
  obtain c cs where c: "skip_slashes path = c # cs" using assms by (cases "skip_slashes path") (simp_all add: skipelem_def)
  obtain e r where e: "path_elem (c # cs) = (e, r)" by fastforce
  have l: "length rest \<le> length r" "0 < length e" using assms c e skip_slashes_head [OF c] skip_slashes_length [of r]
    by (auto simp: skipelem_def split: prod.splits)
  have "length e + length r \<le> length path" using path_elem_length [OF e] skip_slashes_length [of path] c by simp
  with l show ?thesis by linarith
qed

text \<open>The loop of \<^verbatim>\<open>namex\<close> at inode \<open>ip\<close>; it gives the inode and the last element copied to \<^verbatim>\<open>name\<close>.\<close>

function namex_loop :: "'a fsst_scheme \<Rightarrow> nat \<Rightarrow> u8 list \<Rightarrow> bool \<Rightarrow> cstr \<Rightarrow> (nat option \<times> cstr \<times> 'a fsst_scheme) res" where
  "namex_loop s ip path parent name =
     (case skipelem path name of
        None \<Rightarrow> if parent then bnd (iput s ip) (\<lambda>s. Ok (None, name, s)) else Ok (Some ip, name, s)
      | Some (path', name') \<Rightarrow>
          bnd (ilock s (Some ip)) (\<lambda>s.
            if d_type (i_d (itab s ip)) \<noteq> T_DIR then bnd (iunlockput s ip) (\<lambda>s. Ok (None, name', s))
            else if parent \<and> path' = [] then bnd (iunlock s (Some ip)) (\<lambda>s. Ok (Some ip, name', s))
            else bnd (dirlookup s ip name') (\<lambda>(found, s).
              case found of
                None \<Rightarrow> bnd (iunlockput s ip) (\<lambda>s. Ok (None, name', s))
              | Some (ip', _) \<Rightarrow> bnd (iunlockput s ip) (\<lambda>s. namex_loop s ip' path' parent name'))))"
  by pat_completeness auto

termination
  by (relation "measure (\<lambda>(s, ip, path, parent, name). length path)") (auto intro: skipelem_shorter)

declare namex_loop.simps [simp del]

definition namex :: "'a fsst_scheme \<Rightarrow> u8 list \<Rightarrow> bool \<Rightarrow> cstr \<Rightarrow> (nat option \<times> cstr \<times> 'a fsst_scheme) res" where
  "namex s path parent name =
     bnd (if path \<noteq> [] \<and> hd path = 47 then iget s ROOTDEV ROOTINO
          else case p_cwd (myproc (pt s)) of None \<Rightarrow> Undef | Some ip \<Rightarrow> Ok (ip, idup s ip))
       (\<lambda>(ip, s). namex_loop s ip path parent name)"

text \<open>\<^verbatim>\<open>namei\<close> gives \<^verbatim>\<open>namex\<close> an array that is not initialised; nothing reads it before it is written.\<close>

definition namei :: "'a fsst_scheme \<Rightarrow> u8 list \<Rightarrow> (nat option \<times> 'a fsst_scheme) res" where
  "namei s path = bnd (namex s path False (\<lambda>_. 0)) (\<lambda>(ip, nm, s). Ok (ip, s))"

definition nameiparent :: "'a fsst_scheme \<Rightarrow> u8 list \<Rightarrow> cstr \<Rightarrow> (nat option \<times> cstr \<times> 'a fsst_scheme) res" where
  "nameiparent s path name = namex s path True name"

end
