(* ===== verification/Ring.thy ===== *)
theory Ring
  imports Prelude
begin

text \<open>
  Ring buffers with free-running indices, the data structure of the pipe, of the console input
  and of the UART output: the indices are machine words that count up and wrap around, and an
  element lies at its index modulo the size of the array.
\<close>

lemma unat_succ: "w + 1 \<noteq> 0 \<Longrightarrow> unat (w + 1) = unat w + 1"
  using unatSuc [of w] by (simp add: add.commute)

lemma unat_max: "unat (- 1 :: 'w::len word) + 1 = 2 ^ LENGTH('w)"
  by (simp add: unsigned_minus_1_eq_mask mask_eq_exp_minus_1)

definition ring_list :: "nat \<Rightarrow> (nat \<Rightarrow> 'a) \<Rightarrow> 'w::len word \<Rightarrow> 'w word \<Rightarrow> 'a list" where
  "ring_list N buf r w = map (\<lambda>i. buf ((unat r + i) mod N)) [0..<unat (w - r)]"

lemma length_ring_list [simp]: "length (ring_list N buf r w) = unat (w - r)"
  by (simp add: ring_list_def)

lemma ring_list_empty [simp]: "ring_list N buf r r = []"
  by (simp add: ring_list_def)

lemma ring_list_Nil_iff: "ring_list N buf r w = [] \<longleftrightarrow> r = w"
  by (metis length_0_conv length_ring_list ring_list_empty unat_eq_zero right_minus_eq)

locale ring_buffer =
  fixes N :: nat and ty :: "'w::len itself"
  assumes size_pos: "0 < N" and divides: "N dvd 2 ^ LENGTH('w)"
begin

lemma mod_wrap: "unat (r + 1 :: 'w word) mod N = (unat r + 1) mod N"
proof (cases "r = - 1")
  case True
  have "2 ^ LENGTH('w) mod N = 0" using divides by simp
  then show ?thesis unfolding True unat_max by simp
next
  case False
  then have "r + 1 \<noteq> 0" by (metis add.commute add_eq_0_iff2 minus_minus)
  then have "unat (r + 1) = unat r + 1" by (rule unat_succ)
  then show ?thesis by simp
qed

lemma size_le: "N \<le> 2 ^ LENGTH('w)"
  using divides by (simp add: dvd_imp_le)

text \<open>The position of the write index does not hold an element unless the ring is full.\<close>

lemma mod_index: "unat (w - r :: 'w word) = k \<Longrightarrow> unat w mod N = (unat r + k) mod N"
proof (induction k arbitrary: w)
  case 0
  then show ?case by (simp add: unat_eq_zero)
next
  case (Suc k)
  have u: "unat ((w - 1) - r) = k"
  proof -
    have "w - r \<noteq> 0" using Suc.prems by auto
    then have "unat (w - r - 1) = unat (w - r) - 1" by (simp add: unat_minus_one)
    then show ?thesis using Suc.prems by (simp add: algebra_simps)
  qed
  have "unat (w - 1 + 1) mod N = (unat (w - 1) + 1) mod N" by (rule mod_wrap)
  also have "\<dots> = (unat r + k + 1) mod N" using Suc.IH [OF u] by (metis mod_add_left_eq)
  finally show ?case by simp
qed

lemma push:
  fixes r w :: "'w word"
  assumes room: "unat (w - r) < N" and small: "N < 2 ^ LENGTH('w)"
  shows "ring_list N (buf(unat w mod N := c)) r (w + 1) = ring_list N buf r w @ [c]"
proof -
  let ?k = "unat (w - r)"
  have "w - r + 1 \<noteq> 0"
  proof
    assume "w - r + 1 = 0"
    then have "w - r = - 1" by (simp add: add_eq_0_iff2)
    then have "?k + 1 = 2 ^ LENGTH('w)" using unat_max by metis
    then show False using room small by simp
  qed
  then have "unat (w - r + 1) = ?k + 1" by (rule unat_succ)
  then have "unat (w + 1 - r) = ?k + 1" by (simp add: diff_add_eq)
  moreover have "(unat r + i) mod N \<noteq> unat w mod N" if "i < ?k" for i
  proof
    assume "(unat r + i) mod N = unat w mod N"
    then have "(unat r + i) mod N = (unat r + ?k) mod N" using mod_index by simp
    then have "N dvd (?k - i)" using that by (metis add_diff_cancel_left less_imp_le mod_eq_dvd_iff_nat nat_add_left_cancel_le)
    then show False using that room by (auto dest: dvd_imp_le)
  qed
  ultimately show ?thesis using mod_index [of w r ?k] by (simp add: ring_list_def)
qed

lemma pop:
  fixes r w :: "'w word"
  assumes "r \<noteq> w"
  shows "ring_list N buf r w = buf (unat r mod N) # ring_list N buf (r + 1) w"
proof -
  have "w - r \<noteq> 0" using assms by simp
  then have k: "unat (w - (r + 1)) = unat (w - r) - 1" "0 < unat (w - r)"
    by (simp_all add: diff_diff_eq [symmetric] unat_minus_one unat_gt_0)
  have "(unat (r + 1) + i) mod N = (unat r + Suc i) mod N" for i
    using mod_wrap [of r] by (metis add_Suc_right add_Suc Suc_eq_plus1 mod_add_left_eq)
  then have "ring_list N buf (r + 1) w = map (\<lambda>i. buf ((unat r + Suc i) mod N)) [0..<unat (w - r) - 1]"
    by (simp add: ring_list_def k)
  moreover have "[0..<unat (w - r)] = 0 # map Suc [0..<unat (w - r) - 1]" using k(2) by (metis Suc_pred' map_Suc_upt upt_conv_Cons)
  ultimately show ?thesis by (simp add: ring_list_def comp_def)
qed

text \<open>Dropping the newest element, as line editing does.\<close>

lemma unpush:
  fixes r w :: "'w word"
  assumes "r \<noteq> w"
  shows "ring_list N buf r w = ring_list N buf r (w - 1) @ [buf (unat (w - 1) mod N)]"
proof -
  let ?k = "unat (w - r) - 1"
  have "w - r \<noteq> 0" using assms by simp
  then have k: "unat (w - 1 - r) = ?k" "0 < unat (w - r)"
    by (simp_all add: diff_right_commute [of w 1 r] unat_minus_one unat_gt_0)
  have "unat (w - 1) mod N = (unat r + ?k) mod N" by (rule mod_index [OF k(1)])
  moreover have "[0..<unat (w - r)] = [0..<?k] @ [?k]" using k(2) by (metis Suc_pred' upt_Suc zero_le)
  ultimately show ?thesis by (simp add: ring_list_def k(1))
qed

text \<open>The elements up to a later index: those up to an index in between and those behind it.\<close>

lemma split_at:
  fixes r w e :: "'w word"
  assumes "unat (w - r) + unat (e - w) < 2 ^ LENGTH('w)"
  shows "ring_list N buf r e = ring_list N buf r w @ ring_list N buf w e" and "unat (e - r) = unat (w - r) + unat (e - w)"
proof -
  let ?a = "unat (w - r)" and ?b = "unat (e - w)"
  have "e - r = (w - r) + (e - w)" by simp
  then show u: "unat (e - r) = ?a + ?b" using assms by (simp only: unat_word_ariths mod_less)
  have m: "(unat r + (?a + i)) mod N = (unat w + i) mod N" for i
    using mod_index [OF refl, of w r] by (metis add.assoc mod_add_left_eq)
  have "[0..<?a + ?b] = [0..<?a] @ map (\<lambda>i. ?a + i) [0..<?b]" 
    using upt_add_eq_append [of 0 ?a ?b] map_add_upt [of ?a ?b] by (simp only: add.commute [of _ ?a] zero_le simp_thms)
  then show "ring_list N buf r e = ring_list N buf r w @ ring_list N buf w e"
    by (simp add: ring_list_def u comp_def m)
qed

end

end
