(* ===== verification/Uart.thy ===== *)
theory Uart
  imports Fs Ring
begin

text \<open>
  The UART driver, \<^verbatim>\<open>kernel/uart.c\<close>, and the console's output routine \<^verbatim>\<open>consputc\<close> on top of it. The
  device's registers are hardware: \<open>rhr\<close> holds the received bytes that wait to be read, \<open>thr_room\<close>
  counts how many bytes the transmitter takes before it stops reporting itself idle, and \<open>uart_out\<close>
  is all it was given; \<open>uart_ctl\<close> are the writes to the control registers.
\<close>

section \<open>State\<close>

definition BACKSPACE :: int where "BACKSPACE = 0x100"
definition INPUT_BUF_SIZE :: nat where "INPUT_BUF_SIZE = 128"
definition UART_TX_BUF_SIZE :: nat where "UART_TX_BUF_SIZE = 32"

text \<open>\<^verbatim>\<open>C(x)\<close>, the code of control-x.\<close>

definition ctrl :: "char \<Rightarrow> u8" where
  "ctrl x = of_nat (of_char x) - of_nat (of_char (CHR ''@''))"

record ttyst = fsst +
  con_buf :: "nat \<Rightarrow> u8"
  con_r :: u32
  con_w :: u32
  con_e :: u32
  tx_buf :: "nat \<Rightarrow> u8"
  tx_w :: u64
  tx_r :: u64
  thr_room :: nat
  uart_out :: "u8 list"
  rhr :: "u8 list"
  uart_ctl :: "(nat \<times> u8) list"
  panicked :: bool
  dev_read :: "nat \<Rightarrow> bool"
  dev_write :: "nat \<Rightarrow> bool"

definition CONSOLE :: nat where "CONSOLE = 1"
definition NDEV :: nat where "NDEV = 10"

definition on_pt :: "'a fsst_scheme \<Rightarrow> (ptab \<Rightarrow> ptab) \<Rightarrow> 'a fsst_scheme" where
  "on_pt s f = s\<lparr>pt := f (pt s)\<rparr>"

section \<open>UART\<close>

text \<open>Register 0 is the divisor's low byte in baud-rate mode; 1 is IER, 2 FCR, 3 LCR.\<close>

definition uartinit :: "'a ttyst_scheme \<Rightarrow> 'a ttyst_scheme" where
  "uartinit s =
     s\<lparr>uart_ctl := uart_ctl s @ [(1, 0), (3, push_bit 7 1), (0, 3), (1, 0), (3, 3), (2, push_bit 0 1 OR push_bit 1 3),
       (1, push_bit 1 1 OR push_bit 0 1)]\<rparr>"

text \<open>
  \<^verbatim>\<open>uartputc_sync\<close> spins until the transmitter is idle and gives it the byte. After a panic it
  never returns. Waiting drains the transmitter until it has room for one byte.
\<close>

definition uartputc_sync :: "'a ttyst_scheme \<Rightarrow> u8 \<Rightarrow> 'a ttyst_scheme res" where
  "uartputc_sync s c = (if panicked s then Blocked else 
      Ok (s\<lparr>uart_out := uart_out s @ [c], thr_room := thr_room s - 1\<rparr>))"

function uartstart :: "'a ttyst_scheme \<Rightarrow> 'a ttyst_scheme" where
  "uartstart s =
     (if tx_w s = tx_r s then s
      else if thr_room s = 0 then s
      else
        let c = tx_buf s (unat (tx_r s) mod UART_TX_BUF_SIZE);
            s = s\<lparr>tx_r := tx_r s + 1\<rparr>;
            s = on_pt s (\<lambda>p. wakeup p ChUart)
        in uartstart (s\<lparr>uart_out := uart_out s @ [c], thr_room := thr_room s - 1\<rparr>))"
  by pat_completeness auto

termination
  by (relation "measure thr_room") (auto simp: on_pt_def)

declare uartstart.simps [simp del]

text \<open>\<open>False\<close>: the buffer is full and the process sleeps on \<^verbatim>\<open>&uart_tx_r\<close>.\<close>

definition uartputc :: "'a ttyst_scheme \<Rightarrow> u8 \<Rightarrow> (bool \<times> 'a ttyst_scheme) res" where
  "uartputc s c =
     (if panicked s then Blocked
      else if tx_w s = tx_r s + of_nat UART_TX_BUF_SIZE then Ok (False, on_pt s (\<lambda>p. sleep_enter p ChUart))
      else Ok (True, uartstart (s\<lparr>tx_buf := (tx_buf s)(unat (tx_w s) mod UART_TX_BUF_SIZE := c), tx_w := tx_w s + 1\<rparr>)))"

text \<open>The received byte, or \<open>None\<close> for -1.\<close>

definition uartgetc :: "'a ttyst_scheme \<Rightarrow> u8 option \<times> 'a ttyst_scheme" where
  "uartgetc s = (case rhr s of [] \<Rightarrow> (None, s) | c # cs \<Rightarrow> (Some c, s\<lparr>rhr := cs\<rparr>))"

section \<open>Console output\<close>

definition consputc :: "'a ttyst_scheme \<Rightarrow> int \<Rightarrow> 'a ttyst_scheme res" where
  "consputc s c =
     (if c = BACKSPACE then
        bnd (uartputc_sync s 8) (\<lambda>s. bnd (uartputc_sync s 32) (\<lambda>s. uartputc_sync s 8))
      else uartputc_sync s (of_int c))"

lemma consputc_frame:
  "consputc s c = Ok t \<Longrightarrow> con_buf t = con_buf s \<and> con_r t = con_r s \<and> con_w t = con_w s \<and> con_e t = con_e s \<and>
     pt t = pt s \<and> rhr t = rhr s \<and> panicked t = panicked s"
  by (auto simp: consputc_def uartputc_sync_def split: if_splits)

lemma consputc_out:
  "consputc s c = Ok t \<Longrightarrow> uart_out t = uart_out s @ (if c = BACKSPACE then [8, 32, 8] else [of_int c])"
  by (auto simp: consputc_def uartputc_sync_def split: if_splits)

lemma consputc_ok: "\<not> panicked s \<Longrightarrow> \<exists>t. consputc s c = Ok t"
  by (auto simp: consputc_def uartputc_sync_def)

section \<open>The transmit ring\<close>

interpretation tx: ring_buffer UART_TX_BUF_SIZE "TYPE(64)"
  by unfold_locales (simp_all add: UART_TX_BUF_SIZE_def)

text \<open>The bytes that wait in the buffer, oldest first.\<close>

definition tx_queue :: "'a ttyst_scheme \<Rightarrow> u8 list" where
  "tx_queue s = ring_list UART_TX_BUF_SIZE (tx_buf s) (tx_r s) (tx_w s)"

lemma on_pt_tty [simp]:
  "tx_buf (on_pt s f) = tx_buf s" "tx_r (on_pt s f) = tx_r s" "tx_w (on_pt s f) = tx_w s" "thr_room (on_pt s f) = thr_room s"
  "uart_out (on_pt s f) = uart_out s" "rhr (on_pt s f) = rhr s" "panicked (on_pt s f) = panicked s" "con_buf (on_pt s f) = con_buf s"
  "con_r (on_pt s f) = con_r s" "con_w (on_pt s f) = con_w s" "con_e (on_pt s f) = con_e s" "pt (on_pt s f) = f (pt s)"
  by (simp_all add: on_pt_def)

text \<open>\<^verbatim>\<open>uartstart\<close> gives the transmitter as many of the waiting bytes as it has room for, in order.\<close>

lemma uartstart_law:
  "\<exists>k. k = min (thr_room s) (length (tx_queue s)) \<and> uart_out (uartstart s) = uart_out s @ take k (tx_queue s) \<and>
    tx_queue (uartstart s) = drop k (tx_queue s) \<and> thr_room (uartstart s) = thr_room s - k \<and> rhr (uartstart s) = rhr s \<and> panicked (uartstart s) = panicked s \<and>
    con_buf (uartstart s) = con_buf s \<and> con_r (uartstart s) = con_r s \<and> con_w (uartstart s) = con_w s \<and> con_e (uartstart s) = con_e s"
proof (induction s rule: uartstart.induct)
  case (1 s)
  consider "tx_w s = tx_r s" | "tx_w s \<noteq> tx_r s" "thr_room s = 0" | "tx_w s \<noteq> tx_r s" "thr_room s \<noteq> 0" by blast
  then show ?case
  proof cases
    case 3
    define c where "c = tx_buf s (unat (tx_r s) mod UART_TX_BUF_SIZE)"
    define t where "t = on_pt (s\<lparr>tx_r := tx_r s + 1\<rparr>) (\<lambda>p. wakeup p ChUart)"
    define u where "u = t\<lparr>uart_out := uart_out t @ [c], thr_room := thr_room t - 1\<rparr>"
    have e: "uartstart s = uartstart u" using 3 by (simp add: uartstart.simps [of s] u_def t_def c_def Let_def)
    have q: "tx_queue s = c # tx_queue u" using tx.pop [of "tx_r s" "tx_w s"] 3(1) by (simp add: tx_queue_def u_def t_def c_def)
    have f: "thr_room s = Suc (thr_room u)" "uart_out u = uart_out s @ [c]" "rhr u = rhr s" "panicked u = panicked s"
      "con_buf u = con_buf s" "con_r u = con_r s" "con_w u = con_w s" "con_e u = con_e s"
      using 3(2) by (simp_all add: u_def t_def)
    show ?thesis using 1 [OF 3 c_def refl t_def, folded u_def] unfolding e q by (simp add: f)
  qed (simp_all add: uartstart.simps [of s] tx_queue_def)
qed

end
