(* ===== verification/Printf.thy ===== *)
theory Printf
  imports Uart
begin

text \<open>
  Formatted output on the console, \<^verbatim>\<open>kernel/printf.c\<close>, and \<^verbatim>\<open>procdump\<close> of \<^verbatim>\<open>kernel/proc.c\<close>. A
  variable argument is a value of the type its conversion reads.
\<close>

section \<open>Numbers\<close>

definition char_digits :: "u8 list" where
  "char_digits = map of_char ''0123456789abcdef''"

lemma div_base_less: "x div base \<noteq> 0 \<Longrightarrow> 1 < base \<Longrightarrow> unat (x div base) < unat (x :: u32)"
  by (cases "x = 0") (auto simp: unat_div word_less_nat_alt unat_gt_0 intro!: div_less_dividend)

text \<open>
  The buffer of \<^verbatim>\<open>printint\<close> after the division loop, index 0 first. The callers' bases are 10 and
  16; the loop ends for every base above 1.
\<close>

function digits_loop :: "u32 \<Rightarrow> u32 \<Rightarrow> u8 list" where
  "digits_loop x base =
     char_digits ! unat (x mod base) # (if x div base \<noteq> 0 \<and> 1 < base then digits_loop (x div base) base else [])"
  by pat_completeness auto

termination
  by (relation "measure (\<lambda>(x, base). unat x)") (auto intro: div_base_less)

declare digits_loop.simps [simp del]

text \<open>
  The buffer with the sign behind the digits. \<^verbatim>\<open>-xx\<close> is a negation of an \<^verbatim>\<open>int\<close>, undefined for the least
  one. The bytes go out from the end of the buffer.
\<close>

definition printint_buf :: "u32 \<Rightarrow> u32 \<Rightarrow> bool \<Rightarrow> u8 list res" where
  "printint_buf xx base sign =
     (let sign = (sign \<and> sint xx < 0) in
      if sign \<and> sint xx = - (2 ^ 31) then Undef
      else
        let x = (if sign then - xx else xx)
        in Ok (digits_loop x base @ (if sign then [of_char (CHR ''-'')] else [])))"

primrec consputs :: "'a ttyst_scheme \<Rightarrow> u8 list \<Rightarrow> 'a ttyst_scheme res" where
  "consputs s [] = Ok s"
| "consputs s (c # cs) = bnd (consputc s (uint c)) (\<lambda>s. consputs s cs)"

definition printint :: "'a ttyst_scheme \<Rightarrow> u32 \<Rightarrow> u32 \<Rightarrow> bool \<Rightarrow> 'a ttyst_scheme res" where
  "printint s xx base sign = bnd (printint_buf xx base sign) (\<lambda>buf. consputs s (rev buf))"

primrec ptr_digits :: "nat \<Rightarrow> u64 \<Rightarrow> u8 list" where
  "ptr_digits 0 x = []"
| "ptr_digits (Suc k) x = char_digits ! unat (drop_bit 60 x) # ptr_digits k (push_bit 4 x)"

definition printptr :: "'a ttyst_scheme \<Rightarrow> u64 \<Rightarrow> 'a ttyst_scheme res" where
  "printptr s x = consputs s (map of_char ''0x'' @ ptr_digits 16 x)"

section \<open>printf\<close>

text \<open>A string argument is the bytes before its NUL, \<open>None\<close> for a null pointer.\<close>

datatype pfarg = PfInt u32 | PfPtr u64 | PfStr "u8 list option"

text \<open>An argument of the wrong type, or none left, is undefined behaviour of \<^verbatim>\<open>va_arg\<close>.\<close>

fun printf :: "'a ttyst_scheme \<Rightarrow> u8 list \<Rightarrow> pfarg list \<Rightarrow> 'a ttyst_scheme res" where
  "printf s [] ap = Ok s"
| "printf s (c # fmt) ap =
     (if c \<noteq> of_char (CHR ''%'') then bnd (consputc s (uint c)) (\<lambda>s. printf s fmt ap)
      else case fmt of
        [] \<Rightarrow> Ok s
      | c # fmt \<Rightarrow>
          if c = of_char (CHR ''d'') then
            (case ap of PfInt x # ap \<Rightarrow> bnd (printint s x 10 True) (\<lambda>s. printf s fmt ap) | _ \<Rightarrow> Undef)
          else if c = of_char (CHR ''x'') then
            (case ap of PfInt x # ap \<Rightarrow> bnd (printint s x 16 True) (\<lambda>s. printf s fmt ap) | _ \<Rightarrow> Undef)
          else if c = of_char (CHR ''p'') then
            (case ap of PfPtr x # ap \<Rightarrow> bnd (printptr s x) (\<lambda>s. printf s fmt ap) | _ \<Rightarrow> Undef)
          else if c = of_char (CHR ''s'') then
            (case ap of PfStr x # ap \<Rightarrow>
               bnd (consputs s (case x of None \<Rightarrow> map of_char ''(null)'' | Some cs \<Rightarrow> cs)) (\<lambda>s. printf s fmt ap)
             | _ \<Rightarrow> Undef)
          else if c = of_char (CHR ''%'') then bnd (consputc s (uint c)) (\<lambda>s. printf s fmt ap)
          else bnd (consputc s (uint (of_char (CHR ''%'') :: u8))) (\<lambda>s.
               bnd (consputc s (uint c)) (\<lambda>s. printf s fmt ap)))"

text \<open>\<^verbatim>\<open>panic\<close> never returns; its effect is the message on the console and \<^verbatim>\<open>panicked\<close>.\<close>

definition kpanic :: "'a ttyst_scheme \<Rightarrow> u8 list \<Rightarrow> 'a ttyst_scheme res" where
  "kpanic s m =
     bnd (printf s (map of_char ''panic: '') []) (\<lambda>s.
     bnd (printf s m []) (\<lambda>s.
     bnd (printf s [10] []) (\<lambda>s.
       Ok (s\<lparr>panicked := True\<rparr>))))"

section \<open>procdump\<close>

fun state_name :: "procstate \<Rightarrow> string" where
  "state_name UNUSED = ''unused''"
| "state_name USED = ''used''"
| "state_name SLEEPING = ''sleep ''"
| "state_name RUNNABLE = ''runble''"
| "state_name RUNNING = ''run   ''"
| "state_name ZOMBIE = ''zombie''"

text \<open>The bytes of a string in an array of \<open>n\<close> bytes.\<close>

definition str_bytes :: "nat \<Rightarrow> cstr \<Rightarrow> u8 list" where
  "str_bytes n f = takeWhile (\<lambda>c. c \<noteq> 0) (map f [0..<n])"

primrec procdump_loop :: "'a ttyst_scheme \<Rightarrow> nat \<Rightarrow> nat \<Rightarrow> 'a ttyst_scheme res" where
  "procdump_loop s i 0 = Ok s"
| "procdump_loop s i (Suc k) =
     (let p = procs (pt s) i in
      if p_state p = UNUSED then procdump_loop s (Suc i) k
      else
        bnd (printf s (map of_char ''%d %s %s'')
          [PfInt (of_int (p_pid p)), PfStr (Some (map of_char (state_name (p_state p)))), PfStr (Some (str_bytes 16 (p_name p)))])
          (\<lambda>s. bnd (printf s [10] []) (\<lambda>s. procdump_loop s (Suc i) k)))"

definition procdump :: "'a ttyst_scheme \<Rightarrow> 'a ttyst_scheme res" where
  "procdump s = bnd (printf s [10] []) (\<lambda>s. procdump_loop s 0 NPROC)"

end
