(* ===== verification/Console.thy ===== *)
theory Console
  imports Printf
begin

text \<open>
  The console, \<^verbatim>\<open>kernel/console.c\<close>: line editing on input, and \<^verbatim>\<open>read\<close> and \<^verbatim>\<open>write\<close> of the device.
\<close>

section \<open>Input\<close>

text \<open>Kill line: the loop of the case \<^verbatim>\<open>C('U')\<close>.\<close>

function kill_line :: "'a ttyst_scheme \<Rightarrow> 'a ttyst_scheme res" where
  "kill_line s =
     (if con_e s \<noteq> con_w s \<and> con_buf s (unat (con_e s - 1) mod INPUT_BUF_SIZE) \<noteq> 10 then
        bnd (consputc (s\<lparr>con_e := con_e s - 1\<rparr>) BACKSPACE) kill_line
      else Ok s)"
  by pat_completeness auto

termination
proof (relation "measure (\<lambda>s. unat (con_e s - con_w s))", simp, goal_cases)
  case (1 s t)
  then have "con_e s - con_w s \<noteq> 0" by simp
  then have "unat (con_e s - con_w s - 1) < unat (con_e s - con_w s)" by (simp add: unat_minus_one unat_gt_0)
  with 1 show ?case by (auto dest!: consputc_frame simp: diff_right_commute)
qed

declare kill_line.simps [simp del]

definition consoleintr :: "'a ttyst_scheme \<Rightarrow> u8 \<Rightarrow> 'a ttyst_scheme res" where
  "consoleintr s c =
     (if c = ctrl (CHR ''P'') then procdump s
      else if c = ctrl (CHR ''U'') then kill_line s
      else if c = ctrl (CHR ''H'') \<or> c = 0x7f then
        if con_e s \<noteq> con_w s then consputc (s\<lparr>con_e := con_e s - 1\<rparr>) BACKSPACE else Ok s
      else if c \<noteq> 0 \<and> con_e s - con_r s < of_nat INPUT_BUF_SIZE then
        let c = (if c = 13 then 10 else c) in
        bnd (consputc s (uint c)) (\<lambda>s.
          let s = s\<lparr>con_buf := (con_buf s)(unat (con_e s) mod INPUT_BUF_SIZE := c), con_e := con_e s + 1\<rparr> in
          if c = 10 \<or> c = ctrl (CHR ''D'') \<or> con_e s - con_r s = of_nat INPUT_BUF_SIZE
          then Ok (on_pt (s\<lparr>con_w := con_e s\<rparr>) (\<lambda>p. wakeup p ChCons))
          else Ok s)
      else Ok s)"

primrec uartintr_loop :: "nat \<Rightarrow> 'a ttyst_scheme \<Rightarrow> 'a ttyst_scheme res" where
  "uartintr_loop 0 s = Ok s"
| "uartintr_loop (Suc k) s =
     (case uartgetc s of (None, s) \<Rightarrow> Ok s | (Some c, s) \<Rightarrow> bnd (consoleintr s c) (uartintr_loop k))"

text \<open>\<^verbatim>\<open>uartintr\<close> reads until no input waits: one more look than there are bytes.\<close>

definition uartintr :: "'a ttyst_scheme \<Rightarrow> 'a ttyst_scheme res" where
  "uartintr s = bnd (uartintr_loop (Suc (length (rhr s))) s) (\<lambda>s. Ok (uartstart s))"

section \<open>Read and write\<close>

text \<open>
  A call that may sleep gives \<open>Inl\<close> of its result, or \<open>Inr\<close> of what it has left to do when the
  process has gone to sleep.
\<close>

primrec consolewrite_loop :: "nat \<Rightarrow> 'a ttyst_scheme \<Rightarrow> bool \<Rightarrow> u64 \<Rightarrow> int \<Rightarrow> ((int + int) \<times> 'a ttyst_scheme) res" where
  "consolewrite_loop 0 s user_src src i = Ok (Inl i, s)"
| "consolewrite_loop (Suc k) s user_src src i =
     bnd (either_copyin (pt s) [0] user_src (src + of_int i)) (\<lambda>(r, bs, p).
       let s = s\<lparr>pt := p\<rparr> in
       if r = -1 then Ok (Inl i, s)
       else bnd (uartputc s (hd bs)) (\<lambda>(ok, s).
         if ok then consolewrite_loop k s user_src src (i + 1) else Ok (Inr i, s)))"

definition consolewrite :: "'a ttyst_scheme \<Rightarrow> bool \<Rightarrow> u64 \<Rightarrow> int \<Rightarrow> ((int + int) \<times> 'a ttyst_scheme) res" where
  "consolewrite s user_src src n = consolewrite_loop (nat n) s user_src src 0"

text \<open>\<open>k\<close> is \<^verbatim>\<open>n\<close>, the bytes still wanted.\<close>

primrec consoleread_loop :: "nat \<Rightarrow> 'a ttyst_scheme \<Rightarrow> bool \<Rightarrow> u64 \<Rightarrow> nat \<Rightarrow> ((int + nat) \<times> 'a ttyst_scheme) res" where
  "consoleread_loop 0 s user_dst dst target = Ok (Inl (int target), s)"
| "consoleread_loop (Suc k) s user_dst dst target =
     (if con_r s = con_w s then
        if killed (pt s) (me (pt s)) then Ok (Inl (-1), s)
        else Ok (Inr (Suc k), on_pt s (\<lambda>p. sleep_enter p ChCons))
      else
        let c = con_buf s (unat (con_r s) mod INPUT_BUF_SIZE); s = s\<lparr>con_r := con_r s + 1\<rparr> in
        if c = ctrl (CHR ''D'') then
          Ok (Inl (int target - int (Suc k)), if Suc k < target then s\<lparr>con_r := con_r s - 1\<rparr> else s)
        else bnd (either_copyout (pt s) user_dst dst [c]) (\<lambda>(r, p).
          let s = s\<lparr>pt := p\<rparr> in
          if r = -1 then Ok (Inl (int target - int (Suc k)), s)
          else if c = 10 then Ok (Inl (int target - int k), s)
          else consoleread_loop k s user_dst (dst + 1) target))"

definition consoleread :: "'a ttyst_scheme \<Rightarrow> bool \<Rightarrow> u64 \<Rightarrow> int \<Rightarrow> ((int + nat) \<times> 'a ttyst_scheme) res" where
  "consoleread s user_dst dst n =
     (if n > 0 then consoleread_loop (nat n) s user_dst dst (nat n) else Ok (Inl 0, s))"

definition consoleinit :: "'a ttyst_scheme \<Rightarrow> 'a ttyst_scheme" where
  "consoleinit s =
     (let s = uartinit s in
      s\<lparr>dev_read := (dev_read s)(CONSOLE := True), dev_write := (dev_write s)(CONSOLE := True)\<rparr>)"

section \<open>The input ring\<close>

interpretation cons: ring_buffer INPUT_BUF_SIZE "TYPE(32)"
  by unfold_locales (simp_all add: INPUT_BUF_SIZE_def)

text \<open>The characters of whole lines that wait to be read, and the line that is being edited.\<close>

definition con_lines :: "'a ttyst_scheme \<Rightarrow> u8 list" where
  "con_lines s = ring_list INPUT_BUF_SIZE (con_buf s) (con_r s) (con_w s)"

definition con_line :: "'a ttyst_scheme \<Rightarrow> u8 list" where
  "con_line s = ring_list INPUT_BUF_SIZE (con_buf s) (con_w s) (con_e s)"

end
