(* ===== verification/File.thy ===== *)
theory File
  imports Console
begin

text \<open>
  Open files and pipes, \<^verbatim>\<open>kernel/file.c\<close> and \<^verbatim>\<open>kernel/pipe.c\<close>. A file is the index of its slot in
  \<^verbatim>\<open>ftable.file[]\<close>. A pipe is the page that \<^verbatim>\<open>kalloc\<close> gave, named by its address; its fields are kept
  in \<open>pipes\<close> and its bytes in memory are not looked at.
\<close>

section \<open>State\<close>

datatype ftype = FD_NONE | FD_PIPE | FD_INODE | FD_DEVICE

record kfile =
  f_type :: ftype
  f_ref :: int
  f_readable :: bool
  f_writable :: bool
  f_pipe :: u64
  f_ip :: nat
  f_off :: u32
  f_major :: u16

record pipe =
  pp_data :: "nat \<Rightarrow> u8"
  pp_nread :: u32
  pp_nwrite :: u32
  pp_readopen :: bool
  pp_writeopen :: bool

definition NFILE :: nat where "NFILE = 100"
definition PIPESIZE :: nat where "PIPESIZE = 512"

record kern = ttyst +
  ftab :: "nat \<Rightarrow> kfile"
  pipes :: "u64 \<Rightarrow> pipe"
  ticks :: u32

definition upd_file :: "'a kern_scheme \<Rightarrow> nat \<Rightarrow> (kfile \<Rightarrow> kfile) \<Rightarrow> 'a kern_scheme" where
  "upd_file s f g = s\<lparr>ftab := (ftab s)(f := g (ftab s f))\<rparr>"

definition upd_pipe :: "'a kern_scheme \<Rightarrow> u64 \<Rightarrow> (pipe \<Rightarrow> pipe) \<Rightarrow> 'a kern_scheme" where
  "upd_pipe s pi g = s\<lparr>pipes := (pipes s)(pi := g (pipes s pi))\<rparr>"

definition on_kmem :: "'a fsst_scheme \<Rightarrow> kst \<Rightarrow> 'a fsst_scheme" where
  "on_kmem s k = on_pt s (\<lambda>p. p\<lparr>kmem := k\<rparr>)"

section \<open>Reference counts\<close>

primrec free_file :: "(nat \<Rightarrow> kfile) \<Rightarrow> nat \<Rightarrow> nat \<Rightarrow> nat option" where
  "free_file ft i 0 = None"
| "free_file ft i (Suc k) = (if f_ref (ft i) = 0 then Some i else free_file ft (Suc i) k)"

definition filealloc :: "'a kern_scheme \<Rightarrow> nat option \<times> 'a kern_scheme" where
  "filealloc s =
     (case free_file (ftab s) 0 NFILE of
        None \<Rightarrow> (None, s)
      | Some f \<Rightarrow> (Some f, upd_file s f (\<lambda>x. x\<lparr>f_ref := 1\<rparr>)))"

definition filedup :: "'a kern_scheme \<Rightarrow> nat \<Rightarrow> 'a kern_scheme res" where
  "filedup s f =
     (if f_ref (ftab s f) < 1 then Panic ''filedup'' else Ok (upd_file s f (\<lambda>x. x\<lparr>f_ref := f_ref x + 1\<rparr>)))"

section \<open>Pipes\<close>

definition pipeclose :: "'a kern_scheme \<Rightarrow> u64 \<Rightarrow> bool \<Rightarrow> 'a kern_scheme res" where
  "pipeclose s pi writable =
     (let s = (if writable
               then on_pt (upd_pipe s pi (\<lambda>x. x\<lparr>pp_writeopen := False\<rparr>)) (\<lambda>p. wakeup p (ChPipeRead pi))
               else on_pt (upd_pipe s pi (\<lambda>x. x\<lparr>pp_readopen := False\<rparr>)) (\<lambda>p. wakeup p (ChPipeWrite pi))) in
      if \<not> pp_readopen (pipes s pi) \<and> \<not> pp_writeopen (pipes s pi)
      then bnd (kfree (kmem (pt s)) pi) (\<lambda>k. Ok (on_kmem s k))
      else Ok s)"

definition fileclose :: "'a kern_scheme \<Rightarrow> nat \<Rightarrow> 'a kern_scheme res" where
  "fileclose s f =
     (if f_ref (ftab s f) < 1 then Panic ''fileclose''
      else
        let s = upd_file s f (\<lambda>x. x\<lparr>f_ref := f_ref x - 1\<rparr>) in
        if f_ref (ftab s f) > 0 then Ok s
        else
          let ff = ftab s f; s = upd_file s f (\<lambda>x. x\<lparr>f_ref := 0, f_type := FD_NONE\<rparr>) in
          if f_type ff = FD_PIPE then pipeclose s (f_pipe ff) (f_writable ff)
          else if f_type ff = FD_INODE \<or> f_type ff = FD_DEVICE then
            bnd (begin_op s) (\<lambda>s. bnd (iput s (f_ip ff)) end_op)
          else Ok s)"

definition close_if :: "'a kern_scheme \<Rightarrow> nat option \<Rightarrow> 'a kern_scheme res" where
  "close_if s fo = (case fo of None \<Rightarrow> Ok s | Some f \<Rightarrow> fileclose s f)"

text \<open>The pair of files, or \<open>None\<close> for the result -1.\<close>

definition pipealloc :: "'a kern_scheme \<Rightarrow> ((nat \<times> nat) option \<times> 'a kern_scheme) res" where
  "pipealloc s =
     (case filealloc s of
        (None, s) \<Rightarrow> Ok (None, s)
      | (Some f0, s) \<Rightarrow>
          (case filealloc s of
             (None, s) \<Rightarrow> bnd (fileclose s f0) (\<lambda>s. Ok (None, s))
           | (Some f1, s) \<Rightarrow>
               bnd (kalloc (kmem (pt s))) (\<lambda>(pi, k).
                 let s = on_kmem s k in
                 if pi = 0 then bnd (fileclose s f0) (\<lambda>s. bnd (fileclose s f1) (\<lambda>s. Ok (None, s)))
                 else
                   let s = upd_pipe s pi (\<lambda>x. x\<lparr>pp_readopen := True, pp_writeopen := True, pp_nwrite := 0, pp_nread := 0\<rparr>);
                       s = upd_file s f0 (\<lambda>x. x\<lparr>f_type := FD_PIPE, f_readable := True, f_writable := False, f_pipe := pi\<rparr>);
                       s = upd_file s f1 (\<lambda>x. x\<lparr>f_type := FD_PIPE, f_readable := False, f_writable := True, f_pipe := pi\<rparr>)
                   in Ok (Some (f0, f1), s))))"

text \<open>
  The loop of \<^verbatim>\<open>pipewrite\<close> from index \<open>i\<close> on, \<open>k\<close> bytes before the end. \<open>Inr i\<close>: asleep on a full
  pipe with \<open>i\<close> bytes written; once woken the loop goes on from there.
\<close>

primrec pipewrite_loop :: "nat \<Rightarrow> 'a kern_scheme \<Rightarrow> u64 \<Rightarrow> u64 \<Rightarrow> nat \<Rightarrow> ((int + nat) \<times> 'a kern_scheme) res" where
  "pipewrite_loop 0 s pi addr i = Ok (Inl (int i), on_pt s (\<lambda>p. wakeup p (ChPipeRead pi)))"
| "pipewrite_loop (Suc k) s pi addr i =
     (if \<not> pp_readopen (pipes s pi) \<or> killed (pt s) (me (pt s)) then Ok (Inl (-1), s)
      else if pp_nwrite (pipes s pi) = pp_nread (pipes s pi) + of_nat PIPESIZE then
        Ok (Inr i, on_pt s (\<lambda>p. sleep_enter (wakeup p (ChPipeRead pi)) (ChPipeWrite pi)))
      else
        bnd (copyin_obj (pt s) (p_pagetable (myproc (pt s))) (addr + of_nat i) [0]) (\<lambda>(r, bs, p).
          let s = s\<lparr>pt := p\<rparr> in
          if r = -1 then Ok (Inl (int i), on_pt s (\<lambda>p. wakeup p (ChPipeRead pi)))
          else
            pipewrite_loop k (upd_pipe s pi (\<lambda>x. x\<lparr>pp_data := (pp_data x)(unat (pp_nwrite x) mod PIPESIZE := hd bs),
              pp_nwrite := pp_nwrite x + 1\<rparr>)) pi addr (i + 1)))"

definition pipewrite :: "'a kern_scheme \<Rightarrow> u64 \<Rightarrow> u64 \<Rightarrow> int \<Rightarrow> ((int + nat) \<times> 'a kern_scheme) res" where
  "pipewrite s pi addr n = pipewrite_loop (nat n) s pi addr 0"

primrec piperead_loop :: "nat \<Rightarrow> 'a kern_scheme \<Rightarrow> u64 \<Rightarrow> u64 \<Rightarrow> nat \<Rightarrow> (int \<times> 'a kern_scheme) res" where
  "piperead_loop 0 s pi addr i = Ok (int i, s)"
| "piperead_loop (Suc k) s pi addr i =
     (if pp_nread (pipes s pi) = pp_nwrite (pipes s pi) then Ok (int i, s)
      else
        let ch = pp_data (pipes s pi) (unat (pp_nread (pipes s pi)) mod PIPESIZE);
            s = upd_pipe s pi (\<lambda>x. x\<lparr>pp_nread := pp_nread x + 1\<rparr>)
        in bnd (copyout_obj (pt s) (p_pagetable (myproc (pt s))) (addr + of_nat i) [ch]) (\<lambda>(r, p).
          let s = s\<lparr>pt := p\<rparr> in
          if r = -1 then Ok (int i, s) else piperead_loop k s pi addr (i + 1)))"

text \<open>\<open>None\<close>: asleep on an empty pipe; once woken the call starts over.\<close>

definition piperead :: "'a kern_scheme \<Rightarrow> u64 \<Rightarrow> u64 \<Rightarrow> int \<Rightarrow> (int option \<times> 'a kern_scheme) res" where
  "piperead s pi addr n =
     (if pp_nread (pipes s pi) = pp_nwrite (pipes s pi) \<and> pp_writeopen (pipes s pi) then
        if killed (pt s) (me (pt s)) then Ok (Some (-1), s)
        else Ok (None, on_pt s (\<lambda>p. sleep_enter p (ChPipeRead pi)))
      else
        bnd (piperead_loop (nat n) s pi addr 0) (\<lambda>(r, s).
          Ok (Some r, on_pt s (\<lambda>p. wakeup p (ChPipeWrite pi)))))"

section \<open>Reading and writing files\<close>

text \<open>
  The 24 bytes of a \<^verbatim>\<open>struct stat\<close>; the four bytes of padding before \<^verbatim>\<open>size\<close> keep what the kernel stack
  held.
\<close>

definition stat_bytes :: "u8 list \<Rightarrow> stat \<Rightarrow> u8 list" where
  "stat_bytes pad st =
     le_bytes 4 (ucast (st_dev st)) @ le_bytes 4 (ucast (st_ino st)) @ le_bytes 2 (ucast (st_type st)) @
     le_bytes 2 (ucast (st_nlink st)) @ pad @ le_bytes 8 (st_size st)"

definition filestat :: "'a kern_scheme \<Rightarrow> nat \<Rightarrow> u64 \<Rightarrow> (int \<times> 'a kern_scheme) res" where
  "filestat s f addr =
     (let x = ftab s f in
      if f_type x = FD_INODE \<or> f_type x = FD_DEVICE then
        bnd (ilock s (Some (f_ip x))) (\<lambda>s.
          let st = stati s (f_ip x) in
          bnd (iunlock s (Some (f_ip x))) (\<lambda>s.
            bnd (copyout_obj (pt s) (p_pagetable (myproc (pt s))) addr
              (stat_bytes (read_mem (memory (kmem (pt s))) (locals (pt s) + 12) 4) st)) (\<lambda>(r, p).
              Ok (if r < 0 then -1 else 0, s\<lparr>pt := p\<rparr>))))
      else Ok (-1, s))"

text \<open>
  A result that is \<open>None\<close> means that the process sleeps inside the call, in the pipe or the
  console. The only device is the console.
\<close>

definition asleep :: "((int + 'b) \<times> 's) res \<Rightarrow> (int option \<times> 's) res" where
  "asleep m = bnd m (\<lambda>(r, s). Ok (case r of Inl v \<Rightarrow> (Some v, s) | Inr _ \<Rightarrow> (None, s)))"

definition fileread :: "'a kern_scheme \<Rightarrow> nat \<Rightarrow> u64 \<Rightarrow> int \<Rightarrow> (int option \<times> 'a kern_scheme) res" where
  "fileread s f addr n =
     (let x = ftab s f in
      if \<not> f_readable x then Ok (Some (-1), s)
      else case f_type x of
        FD_PIPE \<Rightarrow> piperead s (f_pipe x) addr n
      | FD_DEVICE \<Rightarrow>
          if sint (f_major x) < 0 \<or> sint (f_major x) \<ge> int NDEV \<or> \<not> dev_read s (unat (f_major x)) then Ok (Some (-1), s)
          else asleep (consoleread s True addr n)
      | FD_INODE \<Rightarrow>
          bnd (ilock s (Some (f_ip x))) (\<lambda>s.
            bnd (readi s (f_ip x) True addr (f_off x) (of_int n)) (\<lambda>(r, s).
              let s = (if r > 0 then upd_file s f (\<lambda>y. y\<lparr>f_off := f_off y + of_int r\<rparr>) else s) in
              bnd (iunlock s (Some (f_ip x))) (\<lambda>s. Ok (Some r, s))))
      | FD_NONE \<Rightarrow> Panic ''fileread'')"

definition filewrite_max :: int where
  "filewrite_max = (int MAXOPBLOCKS - 1 - 1 - 2) div 2 * int BSIZE"

text \<open>The loop that writes a few blocks per transaction; it gives \<^verbatim>\<open>i\<close>.\<close>

function filewrite_loop :: "'a kern_scheme \<Rightarrow> nat \<Rightarrow> u64 \<Rightarrow> int \<Rightarrow> int \<Rightarrow> (int \<times> 'a kern_scheme) res" where
  "filewrite_loop s f addr n i =
     (if i < n then
        let n1 = min (n - i) filewrite_max; ip = f_ip (ftab s f) in
        bnd (begin_op s) (\<lambda>s.
          bnd (ilock s (Some ip)) (\<lambda>s.
            bnd (writei s ip True (addr + of_int i) (f_off (ftab s f)) (of_int n1)) (\<lambda>(r, s).
              let s = (if r > 0 then upd_file s f (\<lambda>y. y\<lparr>f_off := f_off y + of_int r\<rparr>) else s) in
              bnd (iunlock s (Some ip)) (\<lambda>s.
                bnd (end_op s) (\<lambda>s.
                  if r \<noteq> n1 then Ok (i, s) else filewrite_loop s f addr n (i + n1))))))
      else Ok (i, s))"
  by pat_completeness auto

termination
  by (relation "measure (\<lambda>(s, f, addr, n, i). nat (n - i))") (auto simp: filewrite_max_def MAXOPBLOCKS_def BSIZE_def)

declare filewrite_loop.simps [simp del]

definition filewrite :: "'a kern_scheme \<Rightarrow> nat \<Rightarrow> u64 \<Rightarrow> int \<Rightarrow> (int option \<times> 'a kern_scheme) res" where
  "filewrite s f addr n =
     (let x = ftab s f in
      if \<not> f_writable x then Ok (Some (-1), s)
      else case f_type x of
        FD_PIPE \<Rightarrow> asleep (pipewrite s (f_pipe x) addr n)
      | FD_DEVICE \<Rightarrow>
          if sint (f_major x) < 0 \<or> sint (f_major x) \<ge> int NDEV \<or> \<not> dev_write s (unat (f_major x)) then Ok (Some (-1), s)
          else asleep (consolewrite s True addr n)
      | FD_INODE \<Rightarrow>
          bnd (filewrite_loop s f addr n 0) (\<lambda>(i, s). Ok (Some (if i = n then n else -1), s))
      | FD_NONE \<Rightarrow> Panic ''filewrite'')"

section \<open>The ring of a pipe\<close>

interpretation pp: ring_buffer PIPESIZE "TYPE(32)"
  by unfold_locales (simp_all add: PIPESIZE_def)

text \<open>The bytes in a pipe, oldest first.\<close>

definition pipe_queue :: "pipe \<Rightarrow> u8 list" where
  "pipe_queue x = ring_list PIPESIZE (pp_data x) (pp_nread x) (pp_nwrite x)"

end
