(* ===== verification/Procfs.thy ===== *)
theory Procfs
  imports File
begin

text \<open>
  The part of \<^verbatim>\<open>kernel/proc.c\<close> that needs files and inodes: the first process, \<^verbatim>\<open>fork\<close> and \<^verbatim>\<open>exit\<close>, and
  \<^verbatim>\<open>kernel/exec.c\<close>. A local variable of \<^verbatim>\<open>exec\<close> that is filled from a file lies at \<open>locals\<close>: the ELF
  header first, a program header behind it.
\<close>

section \<open>The first process\<close>

definition initcode :: "u8 list" where
  "initcode =
    [0x17, 0x05, 0x00, 0x00, 0x13, 0x05, 0x45, 0x02,
     0x97, 0x05, 0x00, 0x00, 0x93, 0x85, 0x35, 0x02,
     0x93, 0x08, 0x70, 0x00, 0x73, 0x00, 0x00, 0x00,
     0x93, 0x08, 0x20, 0x00, 0x73, 0x00, 0x00, 0x00,
     0xef, 0xf0, 0x9f, 0xff, 0x2f, 0x69, 0x6e, 0x69,
     0x74, 0x00, 0x00, 0x24, 0x00, 0x00, 0x00, 0x00,
     0x00, 0x00, 0x00, 0x00]"

text \<open>Without memory for the first process the kernel follows a null pointer.\<close>

definition userinit :: "'a kern_scheme \<Rightarrow> 'a kern_scheme res" where
  "userinit s =
     bnd (allocproc (pt s)) (\<lambda>(po, p).
       case po of None \<Rightarrow> Undef | Some i \<Rightarrow>
         let p = p\<lparr>initproc := Some i\<rparr>;
             k = (kmem p)\<lparr>memory := write_mem (memory (kmem p)) (xfer p) initcode\<rparr>
         in bnd (uvmfirst k (p_pagetable (procs p i)) (xfer p) (of_nat (length initcode))) (\<lambda>k.
           let p = upd_proc (p\<lparr>kmem := k\<rparr>) i (\<lambda>x. x\<lparr>p_sz := PGSIZE\<rparr>);
               p = tf_set p i tf_epc 0;
               p = tf_set p i tf_sp PGSIZE;
               p = upd_proc p i (\<lambda>x. x\<lparr>p_name := safestrcpy (p_name x) (cstr_of (map of_char ''initcode'')) 16\<rparr>)
           in bnd (namei (s\<lparr>pt := p\<rparr>) [47]) (\<lambda>(ip, s).
             Ok (on_pt s (\<lambda>p. upd_proc p i (\<lambda>x. x\<lparr>p_cwd := ip, p_state := RUNNABLE\<rparr>))))))"

section \<open>fork\<close>

primrec fork_files :: "'a kern_scheme \<Rightarrow> nat \<Rightarrow> nat \<Rightarrow> nat \<Rightarrow> 'a kern_scheme res" where
  "fork_files s np i 0 = Ok s"
| "fork_files s np i (Suc k) =
     (case p_ofile (myproc (pt s)) i of
        None \<Rightarrow> fork_files s np (Suc i) k
      | Some f \<Rightarrow>
          bnd (filedup s f) (\<lambda>s.
            fork_files (on_pt s (\<lambda>p. upd_proc p np (\<lambda>x. x\<lparr>p_ofile := (p_ofile x)(i := Some f)\<rparr>))) np (Suc i) k))"

definition copy_trapframe :: "'a ptab_scheme \<Rightarrow> nat \<Rightarrow> nat \<Rightarrow> 'a ptab_scheme" where
  "copy_trapframe p i np =
     set_mem p (write_mem (memory (kmem p)) (p_trapframe (procs p np)) (read_mem (memory (kmem p)) (p_trapframe (procs p i)) tf_size))"

definition fork :: "'a kern_scheme \<Rightarrow> (int \<times> 'a kern_scheme) res" where
  "fork s =
     bnd (allocproc (pt s)) (\<lambda>(npo, p).
       case npo of None \<Rightarrow> Ok (-1, s\<lparr>pt := p\<rparr>) | Some np \<Rightarrow>
         bnd (uvmcopy (kmem p) (p_pagetable (myproc p)) (p_pagetable (procs p np)) (p_sz (myproc p))) (\<lambda>(r, k).
           let p = p\<lparr>kmem := k\<rparr> in
           if r < 0 then bnd (freeproc p np) (\<lambda>p. Ok (-1, s\<lparr>pt := p\<rparr>))
           else
             let p = upd_proc p np (\<lambda>x. x\<lparr>p_sz := p_sz (myproc p)\<rparr>);
                 p = copy_trapframe p (me p) np;
                 p = tf_set p np tf_a0 0
             in bnd (fork_files (s\<lparr>pt := p\<rparr>) np 0 NOFILE) (\<lambda>s.
               case p_cwd (myproc (pt s)) of None \<Rightarrow> Undef | Some ip \<Rightarrow>
                 let s = idup s ip;
                     s = on_pt s (\<lambda>p. upd_proc p np (\<lambda>x. x\<lparr>p_cwd := Some ip,
                           p_name := safestrcpy (p_name x) (p_name (myproc p)) 16\<rparr>));
                     pid = p_pid (procs (pt s) np);
                     s = on_pt s (\<lambda>p. upd_proc p np (\<lambda>x. x\<lparr>p_parent := Some (me p)\<rparr>));
                     s = on_pt s (\<lambda>p. upd_proc p np (\<lambda>x. x\<lparr>p_state := RUNNABLE\<rparr>))
                 in Ok (pid, s))))"

section \<open>exit\<close>

primrec exit_files :: "'a kern_scheme \<Rightarrow> nat \<Rightarrow> nat \<Rightarrow> 'a kern_scheme res" where
  "exit_files s fd 0 = Ok s"
| "exit_files s fd (Suc k) =
     (case p_ofile (myproc (pt s)) fd of
        None \<Rightarrow> exit_files s (Suc fd) k
      | Some f \<Rightarrow>
          bnd (fileclose s f) (\<lambda>s.
            exit_files (on_pt s (\<lambda>p. upd_proc p (me p) (\<lambda>x. x\<lparr>p_ofile := (p_ofile x)(fd := None)\<rparr>))) (Suc fd) k))"

text \<open>The state in which \<^verbatim>\<open>exit\<close> enters the scheduler, never to come back.\<close>

definition exit :: "'a kern_scheme \<Rightarrow> u32 \<Rightarrow> 'a kern_scheme res" where
  "exit s status =
     (if Some (me (pt s)) = initproc (pt s) then Panic ''init exiting''
      else bnd (exit_files s 0 NOFILE) (\<lambda>s.
        bnd (begin_op s) (\<lambda>s.
          case p_cwd (myproc (pt s)) of None \<Rightarrow> Undef | Some ip \<Rightarrow>
            bnd (iput s ip) (\<lambda>s.
              bnd (end_op s) (\<lambda>s.
                let s = on_pt s (\<lambda>p. upd_proc p (me p) (\<lambda>x. x\<lparr>p_cwd := None\<rparr>));
                    s = on_pt s (\<lambda>p. reparent p (me p));
                    s = on_pt s (\<lambda>p. wakeup p (case p_parent (myproc p) of None \<Rightarrow> ChNone | Some q \<Rightarrow> ChProc q))
                in Ok (on_pt s (\<lambda>p. upd_proc p (me p) (\<lambda>x. x\<lparr>p_xstate := status, p_state := ZOMBIE\<rparr>))))))))"

section \<open>exec\<close>

definition flags2perm :: "u32 \<Rightarrow> u64" where
  "flags2perm flags =
     (let perm = (if flags AND 1 \<noteq> 0 then PTE_X else 0) in if flags AND 2 \<noteq> 0 then perm OR PTE_W else perm)"

definition MAXARG :: nat where "MAXARG = 32"
definition ELF_MAGIC :: u64 where "ELF_MAGIC = 0x464C457F"

text \<open>A field of \<open>n\<close> bytes of a structure at \<open>a\<close>, zero-extended.\<close>

definition field :: "'a fsst_scheme \<Rightarrow> u64 \<Rightarrow> nat \<Rightarrow> u64" where
  "field s a n = le_val (read_mem (memory (kmem (pt s))) a n)"

lemma page_step: "\<not> i + 4096 \<le> i \<Longrightarrow> 2 ^ 32 - unat (i + 4096) < 2 ^ 32 - unat (i :: u32)"
proof -
  assume "\<not> i + 4096 \<le> i"
  then have "unat i < unat (i + 4096)" by (simp add: word_le_nat_alt)
  moreover have "unat (i + 4096) < 2 ^ 32" by (rule order_less_le_trans [OF unsigned_less]) simp
  ultimately show ?thesis by linarith
qed

text \<open>An index that wraps around, for a segment within a page of 4 GB, gives a loop without end.\<close>

function loadseg_loop :: "'a kern_scheme \<Rightarrow> u64 \<Rightarrow> u64 \<Rightarrow> nat \<Rightarrow> u32 \<Rightarrow> u32 \<Rightarrow> u32 \<Rightarrow> (int \<times> 'a kern_scheme) res" where
  "loadseg_loop s pagetable va ip offset sz i =
     (if i < sz then
        bnd (walkaddr (kmem (pt s)) pagetable (va + ucast i)) (\<lambda>pa.
          if pa = 0 then Panic ''loadseg: address should exist''
          else let n = (if sz - i < 4096 then sz - i else 4096) in
            bnd (readi s ip False pa (offset + i) n) (\<lambda>(r, s).
              if of_int r \<noteq> n then Ok (-1, s)
              else if i + 4096 \<le> i then Undef
              else loadseg_loop s pagetable va ip offset sz (i + 4096)))
      else Ok (0, s))"
  by pat_completeness auto

termination
  by (relation "measure (\<lambda>(s, pagetable, va, ip, offset, sz, i). 2 ^ 32 - unat i)") (auto dest: page_step)

declare loadseg_loop.simps [simp del]

definition loadseg :: "'a kern_scheme \<Rightarrow> u64 \<Rightarrow> u64 \<Rightarrow> nat \<Rightarrow> u32 \<Rightarrow> u32 \<Rightarrow> (int \<times> 'a kern_scheme) res" where
  "loadseg s pagetable va ip offset sz = loadseg_loop s pagetable va ip offset sz 0"

text \<open>The loop over the program headers; it gives whether it went well and \<^verbatim>\<open>sz\<close>.\<close>

primrec exec_load :: "nat \<Rightarrow> 'a kern_scheme \<Rightarrow> nat \<Rightarrow> u64 \<Rightarrow> u32 \<Rightarrow> u64 \<Rightarrow> (bool \<times> u64 \<times> 'a kern_scheme) res" where
  "exec_load 0 s ip pagetable off sz = Ok (True, sz, s)"
| "exec_load (Suc k) s ip pagetable off sz =
     (let ph = locals (pt s) + 64 in
      bnd (readi s ip False ph off 56) (\<lambda>(r, s).
        if r \<noteq> 56 then Ok (False, sz, s)
        else if field s ph 4 \<noteq> 1 then exec_load k s ip pagetable (off + 56) sz
        else
          let flags = ucast (field s (ph + 4) 4); poff = field s (ph + 8) 8; vaddr = field s (ph + 16) 8;
              filesz = field s (ph + 32) 8; memsz = field s (ph + 40) 8 in
          if memsz < filesz then Ok (False, sz, s)
          else if vaddr + memsz < vaddr then Ok (False, sz, s)
          else if vaddr mod PGSIZE \<noteq> 0 then Ok (False, sz, s)
          else bnd (uvmalloc (kmem (pt s)) pagetable sz (vaddr + memsz) (flags2perm flags)) (\<lambda>(sz1, k').
            let s = on_kmem s k' in
            if sz1 = 0 then Ok (False, sz, s)
            else bnd (loadseg s pagetable vaddr ip (ucast poff) (ucast filesz)) (\<lambda>(r, s).
              if r < 0 then Ok (False, sz1, s)
              else exec_load k s ip pagetable (off + 56) sz1))))"

text \<open>
  The loop that pushes the argument strings; an argument is the address of a page with its string.
  It gives \<^verbatim>\<open>sp\<close> and the part of \<^verbatim>\<open>ustack\<close> it filled, or \<open>None\<close> for \<^verbatim>\<open>goto bad\<close>.
\<close>

primrec exec_args :: "u64 list \<Rightarrow> kst \<Rightarrow> u64 \<Rightarrow> u64 \<Rightarrow> u64 \<Rightarrow> u64 list \<Rightarrow> ((u64 \<times> u64 list) option \<times> kst) res" where
  "exec_args [] k pagetable stackbase sp ustack = Ok (Some (sp, ustack), k)"
| "exec_args (a # argv) k pagetable stackbase sp ustack =
     (if length ustack \<ge> MAXARG then Ok (None, k)
      else case strlen (\<lambda>i. memory k (a + of_nat i)) 4096 of
        None \<Rightarrow> Undef
      | Some len \<Rightarrow>
          let sp = sp - (of_nat len + 1); sp = sp - sp mod 16 in
          if sp < stackbase then Ok (None, k)
          else bnd (copyout k pagetable sp a (of_nat len + 1)) (\<lambda>(r, k).
            if r < 0 then Ok (None, k) else exec_args argv k pagetable stackbase sp (ustack @ [sp])))"

text \<open>The program name: what follows the last slash.\<close>

primrec last_elem :: "u8 list \<Rightarrow> u8 list \<Rightarrow> u8 list" where
  "last_elem [] l = l"
| "last_elem (c # s) l = last_elem s (if c = 47 then s else l)"

definition exec_bad :: "'a kern_scheme \<Rightarrow> u64 \<Rightarrow> u64 \<Rightarrow> nat option \<Rightarrow> (int \<times> 'a kern_scheme) res" where
  "exec_bad s pagetable sz ipo =
     bnd (if pagetable \<noteq> 0 then bnd (proc_freepagetable (kmem (pt s)) pagetable sz) (\<lambda>k. Ok (on_kmem s k)) else Ok s) (\<lambda>s.
       case ipo of None \<Rightarrow> Ok (-1, s)
       | Some ip \<Rightarrow> bnd (iunlockput s ip) (\<lambda>s. bnd (end_op s) (\<lambda>s. Ok (-1, s))))"

text \<open>From the program in the new page table to the new user image.\<close>

definition exec_commit :: "'a kern_scheme \<Rightarrow> u8 list \<Rightarrow> u64 \<Rightarrow> u64 \<Rightarrow> u64 \<Rightarrow> u64 \<Rightarrow> u64 \<Rightarrow> (unit \<times> 'a kern_scheme) res" where
  "exec_commit s path pagetable sz sp entry oldsz =
     (let p = pt s; i = me p;
          p = tf_set p i tf_a1 sp;
          p = upd_proc p i (\<lambda>x. x\<lparr>p_name := safestrcpy (p_name x) (cstr_of (last_elem path path)) 16\<rparr>);
          oldpagetable = p_pagetable (procs p i);
          p = upd_proc p i (\<lambda>x. x\<lparr>p_pagetable := pagetable, p_sz := sz\<rparr>);
          p = tf_set p i tf_epc entry;
          p = tf_set p i tf_sp sp
      in bnd (proc_freepagetable (kmem p) oldpagetable oldsz) (\<lambda>k. Ok ((), s\<lparr>pt := p\<lparr>kmem := k\<rparr>\<rparr>)))"

definition exec_image :: "'a kern_scheme \<Rightarrow> u8 list \<Rightarrow> u64 list \<Rightarrow> u64 \<Rightarrow> u64 \<Rightarrow> u64 \<Rightarrow> (int \<times> 'a kern_scheme) res" where
  "exec_image s path argv pagetable sz entry =
     (let oldsz = p_sz (myproc (pt s)); sz = PGROUNDUP sz in
      bnd (uvmalloc (kmem (pt s)) pagetable sz (sz + 2 * PGSIZE) PTE_W) (\<lambda>(sz1, k).
        let s = on_kmem s k in
        if sz1 = 0 then exec_bad s pagetable sz None
        else bnd (uvmclear k pagetable (sz1 - 2 * PGSIZE)) (\<lambda>k.
          let stackbase = sz1 - PGSIZE in
          bnd (exec_args argv k pagetable stackbase sz1 []) (\<lambda>(r, k).
            case r of None \<Rightarrow> exec_bad (on_kmem s k) pagetable sz1 None
            | Some (sp, ustack) \<Rightarrow>
                if length ustack \<ge> MAXARG then Undef
                else
                  let argc = length ustack; sp = sp - (of_nat argc + 1) * 8; sp = sp - sp mod 16; s = on_kmem s k in
                  if sp < stackbase then exec_bad s pagetable sz1 None
                  else bnd (copyout_obj (pt s) pagetable sp (concat (map (le_bytes 8) (ustack @ [0])))) (\<lambda>(r, p).
                    let s = s\<lparr>pt := p\<rparr> in
                    if r < 0 then exec_bad s pagetable sz1 None
                    else bnd (exec_commit s path pagetable sz1 sp entry oldsz) (\<lambda>(u, s). Ok (int argc, s)))))))"

definition exec :: "'a kern_scheme \<Rightarrow> u8 list \<Rightarrow> u64 list \<Rightarrow> (int \<times> 'a kern_scheme) res" where
  "exec s path argv =
     bnd (begin_op s) (\<lambda>s.
       bnd (namei s path) (\<lambda>(ipo, s).
         case ipo of None \<Rightarrow> bnd (end_op s) (\<lambda>s. Ok (-1, s))
         | Some ip \<Rightarrow>
             bnd (ilock s (Some ip)) (\<lambda>s.
               let elf = locals (pt s) in
               bnd (readi s ip False elf 0 64) (\<lambda>(r, s).
                 if r \<noteq> 64 \<or> field s elf 4 \<noteq> ELF_MAGIC then exec_bad s 0 0 (Some ip)
                 else bnd (proc_pagetable (pt s) (me (pt s))) (\<lambda>(pagetable, p).
                   let s = s\<lparr>pt := p\<rparr> in
                   if pagetable = 0 then exec_bad s 0 0 (Some ip)
                   else
                     let entry = field s (elf + 24) 8; phoff = field s (elf + 32) 8; phnum = field s (elf + 56) 2 in
                     bnd (exec_load (unat phnum) s ip pagetable (ucast phoff) 0) (\<lambda>(ok, sz, s).
                       if \<not> ok then exec_bad s pagetable sz (Some ip)
                       else bnd (iunlockput s ip) (\<lambda>s. bnd (end_op s) (\<lambda>s.
                         exec_image s path argv pagetable sz entry))))))))"

end
