(* ===== verification/Syscall.thy ===== *)
theory Syscall
  imports Procfs
begin

text \<open>
  The system calls: their arguments and the dispatch, \<^verbatim>\<open>kernel/syscall.c\<close>, and the handlers,
  \<^verbatim>\<open>kernel/sysproc.c\<close> and \<^verbatim>\<open>kernel/sysfile.c\<close>. A handler gives the value for \<^verbatim>\<open>a0\<close>, or \<open>None\<close> when the
  process sleeps inside the call or has exited.
\<close>

section \<open>Arguments\<close>

definition fetchaddr :: "'a kern_scheme \<Rightarrow> u64 \<Rightarrow> (u64 option \<times> 'a kern_scheme) res" where
  "fetchaddr s addr =
     (let p = myproc (pt s) in
      if addr \<ge> p_sz p \<or> addr + 8 > p_sz p then Ok (None, s)
      else bnd (copyin_obj (pt s) (p_pagetable p) addr (le_bytes 8 0)) (\<lambda>(r, bs, q).
        Ok (if r \<noteq> 0 then None else Some (le_val bs), s\<lparr>pt := q\<rparr>)))"

text \<open>The string at \<open>buf\<close> has a NUL within the \<open>mx\<close> bytes that \<^verbatim>\<open>copyinstr\<close> filled.\<close>

definition fetchstr :: "'a kern_scheme \<Rightarrow> u64 \<Rightarrow> u64 \<Rightarrow> nat \<Rightarrow> (int \<times> 'a kern_scheme) res" where
  "fetchstr s addr buf mx =
     bnd (copyinstr (kmem (pt s)) (p_pagetable (myproc (pt s))) buf addr (of_nat mx)) (\<lambda>(r, k).
       if r < 0 then Ok (-1, on_kmem s k)
       else case strlen (\<lambda>i. memory k (buf + of_nat i)) mx of
         None \<Rightarrow> Undef | Some n \<Rightarrow> Ok (int n, on_kmem s k))"

definition argraw :: "'a kern_scheme \<Rightarrow> nat \<Rightarrow> u64 res" where
  "argraw s n = (if n < 6 then Ok (tf_get (pt s) (me (pt s)) (tf_a0 + 8 * of_nat n)) else Panic ''argraw'')"

definition argint :: "'a kern_scheme \<Rightarrow> nat \<Rightarrow> u32 res" where
  "argint s n = bnd (argraw s n) (\<lambda>v. Ok (ucast v))"

definition argaddr :: "'a kern_scheme \<Rightarrow> nat \<Rightarrow> u64 res" where
  "argaddr s n = argraw s n"

text \<open>The buffer of \<^verbatim>\<open>argstr\<close> is a local array of the handler; its characters are the result.\<close>

definition argstr :: "'a kern_scheme \<Rightarrow> nat \<Rightarrow> nat \<Rightarrow> (u8 list option \<times> 'a kern_scheme) res" where
  "argstr s n mx =
     bnd (argaddr s n) (\<lambda>addr.
       bnd (fetchstr s addr (xfer (pt s)) mx) (\<lambda>(r, s).
         Ok (if r < 0 then None else Some (read_mem (memory (kmem (pt s))) (xfer (pt s)) (nat r)), s)))"

definition MAXPATH :: nat where "MAXPATH = 128"

section \<open>Processes\<close>

type_synonym 'a sysres = "(u64 option \<times> 'a kern_scheme) res"

definition done_int :: "(int \<times> 'a kern_scheme) res \<Rightarrow> 'a sysres" where
  "done_int m = bnd m (\<lambda>(r, s). Ok (Some (of_int r), s))"

definition done_opt :: "(int option \<times> 'a kern_scheme) res \<Rightarrow> 'a sysres" where
  "done_opt m = bnd m (\<lambda>(r, s). Ok (map_option of_int r, s))"

definition sys_exit :: "'a kern_scheme \<Rightarrow> 'a sysres" where
  "sys_exit s = bnd (argint s 0) (\<lambda>n. bnd (exit s n) (\<lambda>s. Ok (None, s)))"

definition sys_getpid :: "'a kern_scheme \<Rightarrow> 'a sysres" where
  "sys_getpid s = Ok (Some (of_int (p_pid (myproc (pt s)))), s)"

definition sys_fork :: "'a kern_scheme \<Rightarrow> 'a sysres" where
  "sys_fork s = done_int (fork s)"

definition sys_wait :: "'a kern_scheme \<Rightarrow> 'a sysres" where
  "sys_wait s = bnd (argaddr s 0) (\<lambda>p. bnd (wait (pt s) p) (\<lambda>(r, q). done_opt (Ok (r, s\<lparr>pt := q\<rparr>))))"

definition sys_sbrk :: "'a kern_scheme \<Rightarrow> 'a sysres" where
  "sys_sbrk s =
     bnd (argint s 0) (\<lambda>n.
       let addr = p_sz (myproc (pt s)) in
       bnd (growproc (pt s) (sint n)) (\<lambda>(r, q).
         Ok (Some (if r < 0 then -1 else addr), s\<lparr>pt := q\<rparr>)))"

text \<open>One round of the loop of \<^verbatim>\<open>sys_sleep\<close>; a process that was woken takes it again.\<close>

definition sleep_round :: "'a kern_scheme \<Rightarrow> u32 \<Rightarrow> u32 \<Rightarrow> u64 option \<times> 'a kern_scheme" where
  "sleep_round s ticks0 n =
     (if ticks s - ticks0 < n then
        if killed (pt s) (me (pt s)) then (Some (-1), s) else (None, on_pt s (\<lambda>p. sleep_enter p ChTicks))
      else (Some 0, s))"

definition sys_sleep :: "'a kern_scheme \<Rightarrow> 'a sysres" where
  "sys_sleep s = bnd (argint s 0) (\<lambda>n. Ok (sleep_round s (ticks s) (if sint n < 0 then 0 else n)))"

definition sys_kill :: "'a kern_scheme \<Rightarrow> 'a sysres" where
  "sys_kill s = bnd (argint s 0) (\<lambda>pid. case kill (pt s) (sint pid) of (r, q) \<Rightarrow> Ok (Some (of_int r), s\<lparr>pt := q\<rparr>))"

definition sys_uptime :: "'a kern_scheme \<Rightarrow> 'a sysres" where
  "sys_uptime s = Ok (Some (ucast (ticks s)), s)"

section \<open>File descriptors\<close>

definition argfd :: "'a kern_scheme \<Rightarrow> nat \<Rightarrow> (nat \<times> nat) option res" where
  "argfd s n =
     bnd (argint s n) (\<lambda>fd.
       if sint fd < 0 \<or> sint fd \<ge> int NOFILE then Ok None
       else case p_ofile (myproc (pt s)) (unat fd) of None \<Rightarrow> Ok None | Some f \<Rightarrow> Ok (Some (unat fd, f)))"

definition set_ofile :: "'a kern_scheme \<Rightarrow> nat \<Rightarrow> nat option \<Rightarrow> 'a kern_scheme" where
  "set_ofile s fd fo = on_pt s (\<lambda>p. upd_proc p (me p) (\<lambda>x. x\<lparr>p_ofile := (p_ofile x)(fd := fo)\<rparr>))"

primrec free_fd :: "(nat \<Rightarrow> nat option) \<Rightarrow> nat \<Rightarrow> nat \<Rightarrow> nat option" where
  "free_fd ofl fd 0 = None"
| "free_fd ofl fd (Suc k) = (if ofl fd = None then Some fd else free_fd ofl (Suc fd) k)"

definition fdalloc :: "'a kern_scheme \<Rightarrow> nat \<Rightarrow> nat option \<times> 'a kern_scheme" where
  "fdalloc s f =
     (case free_fd (p_ofile (myproc (pt s))) 0 NOFILE of
        None \<Rightarrow> (None, s) | Some fd \<Rightarrow> (Some fd, set_ofile s fd (Some f)))"

definition sys_dup :: "'a kern_scheme \<Rightarrow> 'a sysres" where
  "sys_dup s =
     bnd (argfd s 0) (\<lambda>r.
       case r of None \<Rightarrow> Ok (Some (-1), s)
       | Some (_, f) \<Rightarrow>
           (case fdalloc s f of
              (None, s) \<Rightarrow> Ok (Some (-1), s)
            | (Some fd, s) \<Rightarrow> bnd (filedup s f) (\<lambda>s. Ok (Some (of_nat fd), s))))"

definition sys_read :: "'a kern_scheme \<Rightarrow> 'a sysres" where
  "sys_read s =
     bnd (argaddr s 1) (\<lambda>p. bnd (argint s 2) (\<lambda>n. bnd (argfd s 0) (\<lambda>r.
       case r of None \<Rightarrow> Ok (Some (-1), s) | Some (_, f) \<Rightarrow> done_opt (fileread s f p (sint n)))))"

definition sys_write :: "'a kern_scheme \<Rightarrow> 'a sysres" where
  "sys_write s =
     bnd (argaddr s 1) (\<lambda>p. bnd (argint s 2) (\<lambda>n. bnd (argfd s 0) (\<lambda>r.
       case r of None \<Rightarrow> Ok (Some (-1), s) | Some (_, f) \<Rightarrow> done_opt (filewrite s f p (sint n)))))"

definition sys_close :: "'a kern_scheme \<Rightarrow> 'a sysres" where
  "sys_close s =
     bnd (argfd s 0) (\<lambda>r.
       case r of None \<Rightarrow> Ok (Some (-1), s)
       | Some (fd, f) \<Rightarrow> bnd (fileclose (set_ofile s fd None) f) (\<lambda>s. Ok (Some 0, s)))"

definition sys_fstat :: "'a kern_scheme \<Rightarrow> 'a sysres" where
  "sys_fstat s =
     bnd (argaddr s 1) (\<lambda>st. bnd (argfd s 0) (\<lambda>r.
       case r of None \<Rightarrow> Ok (Some (-1), s) | Some (_, f) \<Rightarrow> done_int (filestat s f st)))"

section \<open>Names\<close>

definition end_with :: "'a kern_scheme \<Rightarrow> u64 \<Rightarrow> 'a sysres" where
  "end_with s v = bnd (end_op s) (\<lambda>s. Ok (Some v, s))"

definition link_bad :: "'a kern_scheme \<Rightarrow> nat \<Rightarrow> 'a sysres" where
  "link_bad s ip =
     bnd (ilock s (Some ip)) (\<lambda>s.
       bnd (iupdate (upd_dinode s ip (\<lambda>x. x\<lparr>d_nlink := d_nlink x - 1\<rparr>)) ip) (\<lambda>s.
         bnd (iunlockput s ip) (\<lambda>s. end_with s (-1))))"

definition sys_link :: "'a kern_scheme \<Rightarrow> 'a sysres" where
  "sys_link s =
     bnd (argstr s 0 MAXPATH) (\<lambda>(old, s).
       case old of None \<Rightarrow> Ok (Some (-1), s) | Some old \<Rightarrow>
       bnd (argstr s 1 MAXPATH) (\<lambda>(new, s).
         case new of None \<Rightarrow> Ok (Some (-1), s) | Some new \<Rightarrow>
         bnd (begin_op s) (\<lambda>s.
           bnd (namei s old) (\<lambda>(ipo, s).
             case ipo of None \<Rightarrow> end_with s (-1) | Some ip \<Rightarrow>
             bnd (ilock s (Some ip)) (\<lambda>s.
               if d_type (i_d (itab s ip)) = T_DIR then bnd (iunlockput s ip) (\<lambda>s. end_with s (-1))
               else
                 bnd (iupdate (upd_dinode s ip (\<lambda>x. x\<lparr>d_nlink := d_nlink x + 1\<rparr>)) ip) (\<lambda>s.
                   bnd (iunlock s (Some ip)) (\<lambda>s.
                     bnd (nameiparent s new (\<lambda>_. 0)) (\<lambda>(dpo, name, s).
                       case dpo of None \<Rightarrow> link_bad s ip | Some dp \<Rightarrow>
                       bnd (ilock s (Some dp)) (\<lambda>s.
                         bnd (if i_dev (itab s dp) \<noteq> i_dev (itab s ip) then Ok (-1, s)
                              else dirlink s dp name (i_inum (itab s ip))) (\<lambda>(r, s).
                           bnd (iunlockput s dp) (\<lambda>s.
                             if r < 0 then link_bad s ip
                             else bnd (iput s ip) (\<lambda>s. end_with s 0)))))))))))) "

function isdirempty_loop :: "'a kern_scheme \<Rightarrow> nat \<Rightarrow> nat \<Rightarrow> (bool \<times> 'a kern_scheme) res" where
  "isdirempty_loop s dp off =
     (if off < unat (d_size (i_d (itab s dp))) then
        bnd (read_de s dp (of_nat off) ''isdirempty: readi'') (\<lambda>s.
          if de_inum s \<noteq> 0 then Ok (False, s)
          else if off + 16 \<ge> 2 ^ 31 then Undef
          else isdirempty_loop s dp (off + 16))
      else Ok (True, s))"
  by pat_completeness auto

termination
  by (relation "measure (\<lambda>(s, dp, off). 2 ^ 31 - off)") auto

declare isdirempty_loop.simps [simp del]

definition isdirempty :: "'a kern_scheme \<Rightarrow> nat \<Rightarrow> (bool \<times> 'a kern_scheme) res" where
  "isdirempty s dp = isdirempty_loop s dp 32"

definition unlink_bad :: "'a kern_scheme \<Rightarrow> nat \<Rightarrow> 'a sysres" where
  "unlink_bad s dp = bnd (iunlockput s dp) (\<lambda>s. end_with s (-1))"

definition unlink_entry :: "'a kern_scheme \<Rightarrow> nat \<Rightarrow> nat \<Rightarrow> u32 \<Rightarrow> 'a sysres" where
  "unlink_entry s dp ip off =
     bnd (writei (set_de s (\<lambda>_. 0) 0) dp False (locals (pt s)) off 16) (\<lambda>(r, s).
       if r \<noteq> 16 then Panic ''unlink: writei''
       else
         bnd (if d_type (i_d (itab s ip)) = T_DIR then iupdate (upd_dinode s dp (\<lambda>x. x\<lparr>d_nlink := d_nlink x - 1\<rparr>)) dp else Ok s)
           (\<lambda>s. bnd (iunlockput s dp) (\<lambda>s.
             bnd (iupdate (upd_dinode s ip (\<lambda>x. x\<lparr>d_nlink := d_nlink x - 1\<rparr>)) ip) (\<lambda>s.
               bnd (iunlockput s ip) (\<lambda>s. end_with s 0)))))"

definition sys_unlink :: "'a kern_scheme \<Rightarrow> 'a sysres" where
  "sys_unlink s =
     bnd (argstr s 0 MAXPATH) (\<lambda>(path, s).
       case path of None \<Rightarrow> Ok (Some (-1), s) | Some path \<Rightarrow>
       bnd (begin_op s) (\<lambda>s.
         bnd (nameiparent s path (\<lambda>_. 0)) (\<lambda>(dpo, name, s).
           case dpo of None \<Rightarrow> end_with s (-1) | Some dp \<Rightarrow>
           bnd (ilock s (Some dp)) (\<lambda>s.
             if namecmp name (cstr_of [46]) = 0 \<or> namecmp name (cstr_of [46, 46]) = 0 then unlink_bad s dp
             else bnd (dirlookup s dp name) (\<lambda>(found, s).
               case found of None \<Rightarrow> unlink_bad s dp | Some (ip, off) \<Rightarrow>
               bnd (ilock s (Some ip)) (\<lambda>s.
                 if sint (d_nlink (i_d (itab s ip))) < 1 then Panic ''unlink: nlink < 1''
                 else bnd (if d_type (i_d (itab s ip)) = T_DIR then isdirempty s ip else Ok (True, s)) (\<lambda>(emp, s).
                   if \<not> emp then bnd (iunlockput s ip) (\<lambda>s. unlink_bad s dp)
                   else unlink_entry s dp ip off)))))))"

section \<open>Creating and opening\<close>

definition create_fail :: "'a kern_scheme \<Rightarrow> nat \<Rightarrow> nat \<Rightarrow> (nat option \<times> 'a kern_scheme) res" where
  "create_fail s dp ip =
     bnd (iupdate (upd_dinode s ip (\<lambda>x. x\<lparr>d_nlink := 0\<rparr>)) ip) (\<lambda>s.
       bnd (iunlockput s ip) (\<lambda>s. bnd (iunlockput s dp) (\<lambda>s. Ok (None, s))))"

definition create_new :: "'a kern_scheme \<Rightarrow> nat \<Rightarrow> nat \<Rightarrow> cstr \<Rightarrow> u16 \<Rightarrow> u16 \<Rightarrow> u16 \<Rightarrow> (nat option \<times> 'a kern_scheme) res" where
  "create_new s dp ip name type maj mnr =
     bnd (ilock s (Some ip)) (\<lambda>s.
       bnd (iupdate (upd_dinode s ip (\<lambda>x. x\<lparr>d_major := maj, d_minor := mnr, d_nlink := 1\<rparr>)) ip) (\<lambda>s.
         bnd (if type = T_DIR then
                bnd (dirlink s ip (cstr_of [46]) (i_inum (itab s ip))) (\<lambda>(r, s).
                  if r < 0 then Ok (False, s)
                  else bnd (dirlink s ip (cstr_of [46, 46]) (i_inum (itab s dp))) (\<lambda>(r, s). Ok (\<not> r < 0, s)))
              else Ok (True, s)) (\<lambda>(ok, s).
           if \<not> ok then create_fail s dp ip
           else bnd (dirlink s dp name (i_inum (itab s ip))) (\<lambda>(r, s).
             if r < 0 then create_fail s dp ip
             else bnd (if type = T_DIR then iupdate (upd_dinode s dp (\<lambda>x. x\<lparr>d_nlink := d_nlink x + 1\<rparr>)) dp else Ok s) (\<lambda>s.
               bnd (iunlockput s dp) (\<lambda>s. Ok (Some ip, s)))))))"

definition create :: "'a kern_scheme \<Rightarrow> u8 list \<Rightarrow> u16 \<Rightarrow> u16 \<Rightarrow> u16 \<Rightarrow> (nat option \<times> 'a kern_scheme) res" where
  "create s path type maj mnr =
     bnd (nameiparent s path (\<lambda>_. 0)) (\<lambda>(dpo, name, s).
       case dpo of None \<Rightarrow> Ok (None, s) | Some dp \<Rightarrow>
       bnd (ilock s (Some dp)) (\<lambda>s.
         bnd (dirlookup s dp name) (\<lambda>(found, s).
           case found of
             Some (ip, _) \<Rightarrow>
               bnd (iunlockput s dp) (\<lambda>s.
                 bnd (ilock s (Some ip)) (\<lambda>s.
                   let t = d_type (i_d (itab s ip)) in
                   if type = T_FILE \<and> (t = T_FILE \<or> t = T_DEVICE) then Ok (Some ip, s)
                   else bnd (iunlockput s ip) (\<lambda>s. Ok (None, s))))
           | None \<Rightarrow>
               bnd (ialloc s (i_dev (itab s dp)) type) (\<lambda>(ipo, s).
                 case ipo of None \<Rightarrow> bnd (iunlockput s dp) (\<lambda>s. Ok (None, s))
                 | Some ip \<Rightarrow> create_new s dp ip name type maj mnr))))"

definition O_WRONLY :: u32 where "O_WRONLY = 1"
definition O_RDWR :: u32 where "O_RDWR = 2"
definition O_CREATE :: u32 where "O_CREATE = 0x200"
definition O_TRUNC :: u32 where "O_TRUNC = 0x400"

definition open_fail :: "'a kern_scheme \<Rightarrow> nat \<Rightarrow> 'a sysres" where
  "open_fail s ip = bnd (iunlockput s ip) (\<lambda>s. end_with s (-1))"

text \<open>From the locked inode on.\<close>

definition open_inode :: "'a kern_scheme \<Rightarrow> nat \<Rightarrow> u32 \<Rightarrow> 'a sysres" where
  "open_inode s ip omode =
     (let d = i_d (itab s ip) in
      if d_type d = T_DEVICE \<and> (sint (d_major d) < 0 \<or> sint (d_major d) \<ge> int NDEV) then open_fail s ip
      else case filealloc s of
        (None, s) \<Rightarrow> open_fail s ip
      | (Some f, s) \<Rightarrow>
          (case fdalloc s f of
             (None, s) \<Rightarrow> bnd (fileclose s f) (\<lambda>s. open_fail s ip)
           | (Some fd, s) \<Rightarrow>
               let s = (if d_type d = T_DEVICE then upd_file s f (\<lambda>x. x\<lparr>f_type := FD_DEVICE, f_major := d_major d\<rparr>)
                        else upd_file s f (\<lambda>x. x\<lparr>f_type := FD_INODE, f_off := 0\<rparr>));
                   s = upd_file s f (\<lambda>x. x\<lparr>f_ip := ip, f_readable := (omode AND O_WRONLY = 0),
                         f_writable := (omode AND O_WRONLY \<noteq> 0 \<or> omode AND O_RDWR \<noteq> 0)\<rparr>)
               in bnd (if omode AND O_TRUNC \<noteq> 0 \<and> d_type (i_d (itab s ip)) = T_FILE then itrunc s ip else Ok s) (\<lambda>s.
                 bnd (iunlock s (Some ip)) (\<lambda>s. end_with s (of_nat fd)))))"

definition sys_open :: "'a kern_scheme \<Rightarrow> 'a sysres" where
  "sys_open s =
     bnd (argint s 1) (\<lambda>omode.
       bnd (argstr s 0 MAXPATH) (\<lambda>(path, s).
         case path of None \<Rightarrow> Ok (Some (-1), s) | Some path \<Rightarrow>
         bnd (begin_op s) (\<lambda>s.
           if omode AND O_CREATE \<noteq> 0 then
             bnd (create s path T_FILE 0 0) (\<lambda>(ipo, s).
               case ipo of None \<Rightarrow> end_with s (-1) | Some ip \<Rightarrow> open_inode s ip omode)
           else
             bnd (namei s path) (\<lambda>(ipo, s).
               case ipo of None \<Rightarrow> end_with s (-1) | Some ip \<Rightarrow>
               bnd (ilock s (Some ip)) (\<lambda>s.
                 if d_type (i_d (itab s ip)) = T_DIR \<and> omode \<noteq> 0 then open_fail s ip
                 else open_inode s ip omode)))))"

definition made :: "(nat option \<times> 'a kern_scheme) res \<Rightarrow> 'a sysres" where
  "made m = bnd m (\<lambda>(ipo, s).
     case ipo of None \<Rightarrow> end_with s (-1) | Some ip \<Rightarrow> bnd (iunlockput s ip) (\<lambda>s. end_with s 0))"

definition sys_mkdir :: "'a kern_scheme \<Rightarrow> 'a sysres" where
  "sys_mkdir s =
     bnd (begin_op s) (\<lambda>s.
       bnd (argstr s 0 MAXPATH) (\<lambda>(path, s).
         case path of None \<Rightarrow> end_with s (-1) | Some path \<Rightarrow> made (create s path T_DIR 0 0)))"

definition sys_mknod :: "'a kern_scheme \<Rightarrow> 'a sysres" where
  "sys_mknod s =
     bnd (begin_op s) (\<lambda>s.
       bnd (argint s 1) (\<lambda>maj. bnd (argint s 2) (\<lambda>mnr.
         bnd (argstr s 0 MAXPATH) (\<lambda>(path, s).
           case path of None \<Rightarrow> end_with s (-1) | Some path \<Rightarrow> made (create s path T_DEVICE (ucast maj) (ucast mnr))))))"

definition sys_chdir :: "'a kern_scheme \<Rightarrow> 'a sysres" where
  "sys_chdir s =
     bnd (begin_op s) (\<lambda>s.
       bnd (argstr s 0 MAXPATH) (\<lambda>(path, s).
         case path of None \<Rightarrow> end_with s (-1) | Some path \<Rightarrow>
         bnd (namei s path) (\<lambda>(ipo, s).
           case ipo of None \<Rightarrow> end_with s (-1) | Some ip \<Rightarrow>
           bnd (ilock s (Some ip)) (\<lambda>s.
             if d_type (i_d (itab s ip)) \<noteq> T_DIR then bnd (iunlockput s ip) (\<lambda>s. end_with s (-1))
             else bnd (iunlock s (Some ip)) (\<lambda>s.
               case p_cwd (myproc (pt s)) of None \<Rightarrow> Undef | Some cwd \<Rightarrow>
               bnd (iput s cwd) (\<lambda>s.
                 bnd (end_op s) (\<lambda>s.
                   Ok (Some 0, on_pt s (\<lambda>p. upd_proc p (me p) (\<lambda>x. x\<lparr>p_cwd := Some ip\<rparr>))))))))))"

section \<open>exec and pipe\<close>

primrec kfree_all :: "u64 list \<Rightarrow> 'a kern_scheme \<Rightarrow> 'a kern_scheme res" where
  "kfree_all [] s = Ok s"
| "kfree_all (a # as) s = bnd (kfree (kmem (pt s)) a) (\<lambda>k. kfree_all as (on_kmem s k))"

text \<open>The loop that fetches the arguments: whether it went well, and the pages in \<^verbatim>\<open>argv\<close>.\<close>

primrec exec_fetch :: "nat \<Rightarrow> 'a kern_scheme \<Rightarrow> u64 \<Rightarrow> u64 list \<Rightarrow> (bool \<times> u64 list \<times> 'a kern_scheme) res" where
  "exec_fetch 0 s uargv argv = Ok (False, argv, s)"
| "exec_fetch (Suc k) s uargv argv =
     bnd (fetchaddr s (uargv + 8 * of_nat (length argv))) (\<lambda>(r, s).
       case r of None \<Rightarrow> Ok (False, argv, s)
       | Some uarg \<Rightarrow>
           if uarg = 0 then Ok (True, argv, s)
           else bnd (kalloc (kmem (pt s))) (\<lambda>(pg, km).
             let s = on_kmem s km in
             if pg = 0 then Ok (False, argv, s)
             else bnd (fetchstr s uarg pg 4096) (\<lambda>(r, s).
               if r < 0 then Ok (False, argv @ [pg], s) else exec_fetch k s uargv (argv @ [pg]))))"

definition sys_exec :: "'a kern_scheme \<Rightarrow> 'a sysres" where
  "sys_exec s =
     bnd (argaddr s 1) (\<lambda>uargv.
       bnd (argstr s 0 MAXPATH) (\<lambda>(path, s).
         case path of None \<Rightarrow> Ok (Some (-1), s) | Some path \<Rightarrow>
         bnd (exec_fetch MAXARG s uargv []) (\<lambda>(ok, argv, s).
           if ok then bnd (exec s path argv) (\<lambda>(ret, s). bnd (kfree_all argv s) (\<lambda>s. Ok (Some (of_int ret), s)))
           else bnd (kfree_all argv s) (\<lambda>s. Ok (Some (-1), s)))))"

definition close_both :: "'a kern_scheme \<Rightarrow> nat \<Rightarrow> nat \<Rightarrow> 'a sysres" where
  "close_both s rf wfl = bnd (fileclose s rf) (\<lambda>s. bnd (fileclose s wfl) (\<lambda>s. Ok (Some (-1), s)))"

definition sys_pipe :: "'a kern_scheme \<Rightarrow> 'a sysres" where
  "sys_pipe s =
     bnd (argaddr s 0) (\<lambda>fdarray.
       bnd (pipealloc s) (\<lambda>(r, s).
         case r of None \<Rightarrow> Ok (Some (-1), s) | Some (rf, wfl) \<Rightarrow>
         case fdalloc s rf of (None, s) \<Rightarrow> close_both s rf wfl | (Some fd0, s) \<Rightarrow>
         case fdalloc s wfl of (None, s) \<Rightarrow> close_both (set_ofile s fd0 None) rf wfl | (Some fd1, s) \<Rightarrow>
         let pagetable = p_pagetable (myproc (pt s)) in
         bnd (copyout_obj (pt s) pagetable fdarray (le_bytes 4 (of_nat fd0))) (\<lambda>(r, p).
           bnd (if r < 0 then Ok (r, p) else copyout_obj p pagetable (fdarray + 4) (le_bytes 4 (of_nat fd1))) (\<lambda>(r, p).
             let s = s\<lparr>pt := p\<rparr> in
             if r < 0 then close_both (set_ofile (set_ofile s fd0 None) fd1 None) rf wfl
             else Ok (Some 0, s)))))"

section \<open>Dispatch\<close>

definition syscalls :: "int \<Rightarrow> ('a kern_scheme \<Rightarrow> 'a sysres) option" where
  "syscalls num =
     (if num = 1 then Some sys_fork
      else if num = 2 then Some sys_exit
      else if num = 3 then Some sys_wait
      else if num = 4 then Some sys_pipe
      else if num = 5 then Some sys_read
      else if num = 6 then Some sys_kill
      else if num = 7 then Some sys_exec
      else if num = 8 then Some sys_fstat
      else if num = 9 then Some sys_chdir
      else if num = 10 then Some sys_dup
      else if num = 11 then Some sys_getpid
      else if num = 12 then Some sys_sbrk
      else if num = 13 then Some sys_sleep
      else if num = 14 then Some sys_uptime
      else if num = 15 then Some sys_open
      else if num = 16 then Some sys_write
      else if num = 17 then Some sys_mknod
      else if num = 18 then Some sys_unlink
      else if num = 19 then Some sys_link
      else if num = 20 then Some sys_mkdir
      else if num = 21 then Some sys_close
      else None)"

definition set_a0 :: "'a kern_scheme \<Rightarrow> u64 \<Rightarrow> 'a kern_scheme" where
  "set_a0 s v = on_pt s (\<lambda>p. tf_set p (me p) tf_a0 v)"

text \<open>Whether the call has returned, and the state.\<close>

definition syscall :: "'a kern_scheme \<Rightarrow> (bool \<times> 'a kern_scheme) res" where
  "syscall s =
     (let p = myproc (pt s); num = sint (ucast (tf_get (pt s) (me (pt s)) tf_a7) :: u32) in
      case (if num > 0 then syscalls num else None) of
        Some f \<Rightarrow> bnd (f s) (\<lambda>(r, s). Ok (case r of Some v \<Rightarrow> (True, set_a0 s v) | None \<Rightarrow> (False, s)))
      | None \<Rightarrow>
          bnd (printf s (map of_char ''%d %s: unknown sys call %d'' @ [10])
            [PfInt (of_int (p_pid p)), PfStr (Some (str_bytes 16 (p_name p))), PfInt (of_int num)])
            (\<lambda>s. Ok (True, set_a0 s (-1))))"

end
