(* ===== verification/Virtio.thy ===== *)
theory Virtio
  imports File
begin

text \<open>
  The disk driver, \<^verbatim>\<open>kernel/virtio_disk.c\<close>: descriptors, the request queue, the completion interrupt
  and the device's initialisation. The rings that driver and device share are fields of the state.
  The device is hardware: it appears as what its registers read after the driver's writes,
  \<open>mmio\<close>, and as a step \<open>dev\<close> that serves the queue, both arguments of what needs them.
\<close>

section \<open>State\<close>

definition NUM :: nat where "NUM = 8"
definition VRING_DESC_F_NEXT :: u16 where "VRING_DESC_F_NEXT = 1"
definition VRING_DESC_F_WRITE :: u16 where "VRING_DESC_F_WRITE = 2"
definition VIRTIO_BLK_T_IN :: u32 where "VIRTIO_BLK_T_IN = 0"
definition VIRTIO_BLK_T_OUT :: u32 where "VIRTIO_BLK_T_OUT = 1"

text \<open>The objects that a descriptor points to: \<^verbatim>\<open>ops[i]\<close>, the data of a buffer, \<^verbatim>\<open>info[i].status\<close>.\<close>

datatype dma = DmaNull | DmaOp nat | DmaData nat | DmaStatus nat

record virtq_desc =
  vq_addr :: dma
  vq_len :: u32
  vq_flags :: u16
  vq_next :: u16

record virtio_blk_req =
  vr_type :: u32
  vr_reserved :: u32
  vr_sector :: u64

text \<open>\<open>b_disk\<close> is the field \<^verbatim>\<open>disk\<close> of each buffer; \<open>mmio_writes\<close> the register writes so far.\<close>

record vdst = kern +
  vd_desc :: "nat \<Rightarrow> virtq_desc"
  vd_avail_ring :: "nat \<Rightarrow> u16"
  vd_avail_idx :: u16
  vd_used_ring :: "nat \<Rightarrow> u32"
  vd_used_idx :: u16
  vd_free :: "nat \<Rightarrow> bool"
  vd_seen_idx :: u16
  vd_info_b :: "nat \<Rightarrow> nat option"
  vd_info_status :: "nat \<Rightarrow> u8"
  vd_ops :: "nat \<Rightarrow> virtio_blk_req"
  b_disk :: "nat \<Rightarrow> bool"
  mmio_writes :: "(u32 \<times> u32) list"
  vd_pages :: "u64 \<times> u64 \<times> u64"

definition mmio_write :: "'a vdst_scheme \<Rightarrow> u32 \<Rightarrow> u32 \<Rightarrow> 'a vdst_scheme" where
  "mmio_write s r v = s\<lparr>mmio_writes := mmio_writes s @ [(r, v)]\<rparr>"

definition null_desc :: virtq_desc where
  "null_desc = \<lparr>vq_addr = DmaNull, vq_len = 0, vq_flags = 0, vq_next = 0\<rparr>"

section \<open>Descriptors\<close>

primrec free_desc_from :: "(nat \<Rightarrow> bool) \<Rightarrow> nat \<Rightarrow> nat \<Rightarrow> nat option" where
  "free_desc_from fr i 0 = None"
| "free_desc_from fr i (Suc k) = (if fr i then Some i else free_desc_from fr (Suc i) k)"

definition alloc_desc :: "'a vdst_scheme \<Rightarrow> nat option \<times> 'a vdst_scheme" where
  "alloc_desc s =
     (case free_desc_from (vd_free s) 0 NUM of
        None \<Rightarrow> (None, s) | Some i \<Rightarrow> (Some i, s\<lparr>vd_free := (vd_free s)(i := False)\<rparr>))"

definition free_desc :: "'a vdst_scheme \<Rightarrow> nat \<Rightarrow> 'a vdst_scheme res" where
  "free_desc s i =
     (if i \<ge> NUM then Panic ''free_desc 1''
      else if vd_free s i then Panic ''free_desc 2''
      else Ok (on_pt (s\<lparr>vd_desc := (vd_desc s)(i := null_desc), vd_free := (vd_free s)(i := True)\<rparr>)
                 (\<lambda>p. wakeup p ChDiskFree)))"

text \<open>The descriptors in use.\<close>

definition busy :: "(nat \<Rightarrow> bool) \<Rightarrow> nat set" where
  "busy fr = {i. i < NUM \<and> \<not> fr i}"

lemma finite_busy [simp]: "finite (busy fr)"
  by (simp add: busy_def)

lemma busy_free: "busy (fr(i := True)) = busy fr - {i}"
  by (auto simp: busy_def)

lemma on_pt_vd [simp]: "vd_free (on_pt s f) = vd_free s" "vd_desc (on_pt s f) = vd_desc s"
  by (simp_all add: on_pt_def)

lemma free_desc_measure: "free_desc s i = Ok t \<Longrightarrow> card (busy (vd_free t)) < card (busy (vd_free s))"
proof -
  assume a: "free_desc s i = Ok t"
  then have "i \<in> busy (vd_free s)" "vd_free t = (vd_free s)(i := True)"
    by (auto simp: free_desc_def busy_def split: if_splits)
  then show ?thesis by (simp add: busy_free card_Diff1_less del: card_Diff_insert)
qed

text \<open>The chain of a cycle of descriptors ends in a panic: each round frees one.\<close>

function free_chain :: "'a vdst_scheme \<Rightarrow> nat \<Rightarrow> 'a vdst_scheme res" where
  "free_chain s i =
     (let flag = vq_flags (vd_desc s i); nxt = vq_next (vd_desc s i) in
      bnd (free_desc s i) (\<lambda>s. if flag AND VRING_DESC_F_NEXT \<noteq> 0 then free_chain s (unat nxt) else Ok s))"
  by pat_completeness auto

termination
  by (relation "measure (\<lambda>(s, i). card (busy (vd_free s)))") (auto dest: free_desc_measure)

declare free_chain.simps [simp del]

primrec free_list :: "'a vdst_scheme \<Rightarrow> nat list \<Rightarrow> 'a vdst_scheme res" where
  "free_list s [] = Ok s"
| "free_list s (i # is) = bnd (free_desc s i) (\<lambda>s. free_list s is)"

text \<open>\<open>idx\<close> holds the descriptors allocated so far; on failure they are given back.\<close>

primrec alloc_descs :: "nat \<Rightarrow> 'a vdst_scheme \<Rightarrow> nat list \<Rightarrow> (nat list option \<times> 'a vdst_scheme) res" where
  "alloc_descs 0 s idx = Ok (Some idx, s)"
| "alloc_descs (Suc k) s idx =
     (case alloc_desc s of
        (Some i, s) \<Rightarrow> alloc_descs k s (idx @ [i])
      | (None, s) \<Rightarrow> bnd (free_list s idx) (\<lambda>s. Ok (None, s)))"

definition alloc3_desc :: "'a vdst_scheme \<Rightarrow> (nat list option \<times> 'a vdst_scheme) res" where
  "alloc3_desc s = alloc_descs 3 s []"

section \<open>Requests\<close>

definition set_desc :: "'a vdst_scheme \<Rightarrow> nat \<Rightarrow> virtq_desc \<Rightarrow> 'a vdst_scheme" where
  "set_desc s i d = s\<lparr>vd_desc := (vd_desc s)(i := d)\<rparr>"

text \<open>\<^verbatim>\<open>virtio_disk_rw\<close> from the three descriptors to the notification of the device.\<close>

definition submit :: "'a vdst_scheme \<Rightarrow> nat \<Rightarrow> bool \<Rightarrow> nat \<Rightarrow> nat \<Rightarrow> nat \<Rightarrow> 'a vdst_scheme" where
  "submit s b write i0 i1 i2 =
     (let sector = ucast (blockno (bufs s b) * (of_nat BSIZE div 512));
          s = s\<lparr>vd_ops := (vd_ops s)(i0 := \<lparr>vr_type = (if write then VIRTIO_BLK_T_OUT else VIRTIO_BLK_T_IN),
                vr_reserved = 0, vr_sector = sector\<rparr>)\<rparr>;
          s = set_desc s i0 \<lparr>vq_addr = DmaOp i0, vq_len = 16, vq_flags = VRING_DESC_F_NEXT, vq_next = of_nat i1\<rparr>;
          s = set_desc s i1 \<lparr>vq_addr = DmaData b, vq_len = of_nat BSIZE,
                vq_flags = (if write then 0 else VRING_DESC_F_WRITE) OR VRING_DESC_F_NEXT, vq_next = of_nat i2\<rparr>;
          s = s\<lparr>vd_info_status := (vd_info_status s)(i0 := 0xff)\<rparr>;
          s = set_desc s i2 \<lparr>vq_addr = DmaStatus i0, vq_len = 1, vq_flags = VRING_DESC_F_WRITE, vq_next = 0\<rparr>;
          s = s\<lparr>b_disk := (b_disk s)(b := True), vd_info_b := (vd_info_b s)(i0 := Some b)\<rparr>;
          s = s\<lparr>vd_avail_ring := (vd_avail_ring s)(unat (vd_avail_idx s) mod NUM := of_nat i0)\<rparr>;
          s = s\<lparr>vd_avail_idx := vd_avail_idx s + 1\<rparr>
      in mmio_write s 0x050 0)"

text \<open>
  The first half of \<^verbatim>\<open>virtio_disk_rw\<close>: \<open>None\<close> when it sleeps for want of descriptors, and then it
  starts over; \<open>Some i0\<close> when the request is with the device and the process sleeps on the buffer.
\<close>

definition virtio_disk_start :: "'a vdst_scheme \<Rightarrow> nat \<Rightarrow> bool \<Rightarrow> (nat option \<times> 'a vdst_scheme) res" where
  "virtio_disk_start s b write =
     bnd (alloc3_desc s) (\<lambda>(r, s).
       case r of
         Some [i0, i1, i2] \<Rightarrow>
           Ok (Some i0, on_pt (submit s b write i0 i1 i2) (\<lambda>p. sleep_enter p (ChBuf b)))
       | _ \<Rightarrow> Ok (None, on_pt s (\<lambda>p. sleep_enter p ChDiskFree)))"

text \<open>The second half, once it is woken: \<open>False\<close> when it sleeps again.\<close>

definition virtio_disk_finish :: "'a vdst_scheme \<Rightarrow> nat \<Rightarrow> nat \<Rightarrow> (bool \<times> 'a vdst_scheme) res" where
  "virtio_disk_finish s b i0 =
     (if b_disk s b then Ok (False, on_pt s (\<lambda>p. sleep_enter p (ChBuf b)))
      else bnd (free_chain (s\<lparr>vd_info_b := (vd_info_b s)(i0 := None)\<rparr>) i0) (\<lambda>s. Ok (True, s)))"

section \<open>Completion\<close>

lemma seen_measure: "x \<noteq> y \<Longrightarrow> unat (x - (y + 1)) < unat (x - y :: u16)"
proof -
  assume "x \<noteq> y"
  then have "x - y \<noteq> 0" by simp
  then have "unat (x - y - 1) < unat (x - y)" by (simp add: unat_minus_one unat_gt_0)
  then show ?thesis by (simp add: algebra_simps)
qed

text \<open>
  The loop over the used ring. The device's identifier indexes \<^verbatim>\<open>info\<close> unchecked: out of range, or
  without a buffer, is undefined.
\<close>

function intr_loop :: "'a vdst_scheme \<Rightarrow> 'a vdst_scheme res" where
  "intr_loop s =
     (if vd_seen_idx s \<noteq> vd_used_idx s then
        let i = unat (vd_used_ring s (unat (vd_seen_idx s) mod NUM)) in
        if i \<ge> NUM then Undef
        else if vd_info_status s i \<noteq> 0 then Panic ''virtio_disk_intr status''
        else case vd_info_b s i of
          None \<Rightarrow> Undef
        | Some b \<Rightarrow>
            intr_loop (on_pt (s\<lparr>b_disk := (b_disk s)(b := False), vd_seen_idx := vd_seen_idx s + 1\<rparr>)
              (\<lambda>p. wakeup p (ChBuf b)))
      else Ok s)"
  by pat_completeness auto

termination
  by (relation "measure (\<lambda>s. unat (vd_used_idx s - vd_seen_idx s))") (auto simp: on_pt_def intro!: seen_measure)

declare intr_loop.simps [simp del]

definition virtio_disk_intr :: "((u32 \<times> u32) list \<Rightarrow> u32 \<Rightarrow> u32) \<Rightarrow> 'a vdst_scheme \<Rightarrow> 'a vdst_scheme res" where
  "virtio_disk_intr mmio s = intr_loop (mmio_write s 0x064 (mmio (mmio_writes s) 0x060 AND 3))"

section \<open>Initialisation\<close>

definition clear_bit :: "nat \<Rightarrow> u64 \<Rightarrow> u64" where
  "clear_bit n f = f AND NOT (push_bit n 1)"

definition init_features :: "u32 \<Rightarrow> u64" where
  "init_features f =
     clear_bit 28 (clear_bit 29 (clear_bit 27 (clear_bit 12 (clear_bit 11 (clear_bit 7 (clear_bit 5 (ucast f)))))))"

definition init_pages :: "'a vdst_scheme \<Rightarrow> 'a vdst_scheme res" where
  "init_pages s =
     bnd (kalloc (kmem (pt s))) (\<lambda>(desc, k).
     bnd (kalloc k) (\<lambda>(avail, k).
     bnd (kalloc k) (\<lambda>(used, k).
       if desc = 0 \<or> avail = 0 \<or> used = 0 then Panic ''virtio disk kalloc''
       else
         let m = memset (memory k) desc 0 4096; m = memset m avail 0 4096; m = memset m used 0 4096 in
         Ok ((on_kmem s (k\<lparr>memory := m\<rparr>))\<lparr>vd_pages := (desc, avail, used), vd_desc := (\<lambda>_. null_desc), vd_avail_ring := (\<lambda>_. 0),
           vd_avail_idx := 0, vd_used_ring := (\<lambda>_. 0), vd_used_idx := 0\<rparr>))))"

definition virtio_disk_init :: "((u32 \<times> u32) list \<Rightarrow> u32 \<Rightarrow> u32) \<Rightarrow> 'a vdst_scheme \<Rightarrow> 'a vdst_scheme res" where
  "virtio_disk_init mmio s =
     (let rd = (\<lambda>s r. mmio (mmio_writes s) r) in
      if rd s 0 \<noteq> 0x74726976 \<or> rd s 4 \<noteq> 2 \<or> rd s 8 \<noteq> 2 \<or> rd s 0x00c \<noteq> 0x554d4551 then Panic ''could not find virtio disk''
      else
        let s = mmio_write s 0x070 0;
            s = mmio_write s 0x070 1;
            s = mmio_write s 0x070 (1 OR 2);
            s = mmio_write s 0x020 (ucast (init_features (rd s 0x010)));
            s = mmio_write s 0x070 (1 OR 2 OR 8);
            status = rd s 0x070 in
        if status AND 8 = 0 then Panic ''virtio disk FEATURES_OK unset''
        else
          let s = mmio_write s 0x030 0 in
          if rd s 0x044 \<noteq> 0 then Panic ''virtio disk should not be ready''
          else if rd s 0x034 = 0 then Panic ''virtio disk has no queue 0''
          else if rd s 0x034 < of_nat NUM then Panic ''virtio disk max queue too short''
          else bnd (init_pages s) (\<lambda>s.
            case vd_pages s of (desc, avail, used) \<Rightarrow>
              let s = mmio_write s 0x038 (of_nat NUM);
                  s = mmio_write s 0x080 (ucast desc);
                  s = mmio_write s 0x084 (ucast (drop_bit 32 desc));
                  s = mmio_write s 0x090 (ucast avail);
                  s = mmio_write s 0x094 (ucast (drop_bit 32 avail));
                  s = mmio_write s 0x0a0 (ucast used);
                  s = mmio_write s 0x0a4 (ucast (drop_bit 32 used));
                  s = mmio_write s 0x044 1;
                  s = s\<lparr>vd_free := (\<lambda>i. if i < NUM then True else vd_free s i)\<rparr>
              in Ok (mmio_write s 0x070 (status OR 4))))"

end
