(* ===== verification/Trap.thy ===== *)
theory Trap
  imports Syscall Virtio
begin

text \<open>
  Traps, \<^verbatim>\<open>kernel/trap.c\<close>, the interrupt controller, \<^verbatim>\<open>kernel/plic.c\<close>, and the start of the kernel,
  \<^verbatim>\<open>kernel/main.c\<close>, on the whole state: the supervisor registers of the hart that runs, the claim
  register of the interrupt controller and the linker's addresses.
\<close>

section \<open>State\<close>

record tkern = vdst +
  scause :: u64
  sepc :: u64
  stval :: u64
  sstatus :: u64
  stvec :: u64
  satp :: u64
  sip :: u64
  hartid :: nat
  has_proc :: bool
  sclaim :: u32
  sclaim_writes :: "u32 list"
  plic_writes :: "(u64 \<times> u32) list"
  kernel_pagetable :: u64
  kernelvec_pc :: u64
  usertrap_pc :: u64
  uservec_off :: u64
  etext :: u64
  first :: bool

definition SSTATUS_SPP :: u64 where "SSTATUS_SPP = push_bit 8 1"
definition SSTATUS_SPIE :: u64 where "SSTATUS_SPIE = push_bit 5 1"
definition SSTATUS_SIE :: u64 where "SSTATUS_SIE = push_bit 1 1"
definition UART0_IRQ :: u32 where "UART0_IRQ = 10"
definition VIRTIO0_IRQ :: u32 where "VIRTIO0_IRQ = 1"

definition intr_on :: "'a tkern_scheme \<Rightarrow> 'a tkern_scheme" where
  "intr_on s = s\<lparr>sstatus := sstatus s OR SSTATUS_SIE\<rparr>"

definition intr_off :: "'a tkern_scheme \<Rightarrow> 'a tkern_scheme" where
  "intr_off s = s\<lparr>sstatus := sstatus s AND NOT SSTATUS_SIE\<rparr>"

definition intr_get :: "'a tkern_scheme \<Rightarrow> bool" where
  "intr_get s \<longleftrightarrow> sstatus s AND SSTATUS_SIE \<noteq> 0"

section \<open>Interrupt controller\<close>

definition plicinit :: "'a tkern_scheme \<Rightarrow> 'a tkern_scheme" where
  "plicinit s = s\<lparr>plic_writes := plic_writes s @ [(PLIC + ucast UART0_IRQ * 4, 1), (PLIC + ucast VIRTIO0_IRQ * 4, 1)]\<rparr>"

definition plicinithart :: "'a tkern_scheme \<Rightarrow> 'a tkern_scheme" where
  "plicinithart s =
     s\<lparr>plic_writes := plic_writes s @
       [(PLIC + 0x2080 + of_nat (hartid s) * 0x100, push_bit (unat UART0_IRQ) 1 OR push_bit (unat VIRTIO0_IRQ) 1),
        (PLIC + 0x201000 + of_nat (hartid s) * 0x2000, 0)]\<rparr>"

definition plic_claim :: "'a tkern_scheme \<Rightarrow> u32" where
  "plic_claim s = sclaim s"

definition plic_complete :: "'a tkern_scheme \<Rightarrow> u32 \<Rightarrow> 'a tkern_scheme" where
  "plic_complete s irq = s\<lparr>sclaim_writes := sclaim_writes s @ [irq]\<rparr>"

section \<open>Interrupts\<close>

definition clockintr :: "'a kern_scheme \<Rightarrow> 'a kern_scheme" where
  "clockintr s = on_pt (s\<lparr>ticks := ticks s + 1\<rparr>) (\<lambda>p. wakeup p ChTicks)"

definition devintr :: "((u32 \<times> u32) list \<Rightarrow> u32 \<Rightarrow> u32) \<Rightarrow> 'a tkern_scheme \<Rightarrow> (int \<times> 'a tkern_scheme) res" where
  "devintr mmio s =
     (if scause s AND 0x8000000000000000 \<noteq> 0 \<and> scause s AND 0xff = 9 then
        let irq = plic_claim s in
        bnd (if irq = UART0_IRQ then uartintr s
             else if irq = VIRTIO0_IRQ then virtio_disk_intr mmio s
             else if irq \<noteq> 0 then printf s (map of_char ''unexpected interrupt irq=%d'' @ [10]) [PfInt irq]
             else Ok s) (\<lambda>s.
          Ok (1, if irq \<noteq> 0 then plic_complete s irq else s))
      else if scause s = 0x8000000000000001 then
        let s = (if hartid s = 0 then clockintr s else s) in
        Ok (2, s\<lparr>sip := sip s AND NOT 2\<rparr>)
      else Ok (0, s))"

section \<open>Traps from user space\<close>

text \<open>
  How a trap ends: back to user space with the page table to switch to, in the scheduler after the
  process gave up the processor, asleep inside a system call, or gone.
\<close>

datatype trapend = ToUser u64 | Yielded | Asleep | Gone

definition usertrapret :: "'a tkern_scheme \<Rightarrow> trapend \<times> 'a tkern_scheme" where
  "usertrapret s =
     (let i = me (pt s);
          s = intr_off s;
          s = s\<lparr>stvec := TRAMPOLINE + uservec_off s\<rparr>;
          s = on_pt s (\<lambda>p. tf_set p i tf_kernel_satp (satp s));
          s = on_pt s (\<lambda>p. tf_set p i tf_kernel_sp (p_kstack (procs p i) + PGSIZE));
          s = on_pt s (\<lambda>p. tf_set p i tf_kernel_trap (usertrap_pc s));
          s = on_pt s (\<lambda>p. tf_set p i tf_kernel_hartid (of_nat (hartid s)));
          x = sstatus s AND NOT SSTATUS_SPP;
          x = x OR SSTATUS_SPIE;
          s = s\<lparr>sstatus := x\<rparr>;
          s = s\<lparr>sepc := tf_get (pt s) i tf_epc\<rparr>
      in (ToUser (MAKE_SATP (p_pagetable (procs (pt s) i))), s))"

text \<open>\<^verbatim>\<open>forkret\<close>, where a process starts; its lock is released first.\<close>

definition forkret :: "'a tkern_scheme \<Rightarrow> (trapend \<times> 'a tkern_scheme) res" where
  "forkret s =
     bnd (if first s then fsinit (s\<lparr>first := False\<rparr>) ROOTDEV else Ok s) (\<lambda>s. Ok (usertrapret s))"

text \<open>The end of \<^verbatim>\<open>usertrap\<close>, after the cause was handled.\<close>

definition usertrap_end :: "'a tkern_scheme \<Rightarrow> int \<Rightarrow> (trapend \<times> 'a tkern_scheme) res" where
  "usertrap_end s which_dev =
     (if killed (pt s) (me (pt s)) then bnd (exit s (-1)) (\<lambda>s. Ok (Gone, s))
      else if which_dev = 2 then Ok (Yielded, on_pt s yield_enter)
      else Ok (usertrapret s))"

definition usertrap :: "((u32 \<times> u32) list \<Rightarrow> u32 \<Rightarrow> u32) \<Rightarrow> 'a tkern_scheme \<Rightarrow> (trapend \<times> 'a tkern_scheme) res" where
  "usertrap mmio s =
     (if sstatus s AND SSTATUS_SPP \<noteq> 0 then Panic ''usertrap: not from user mode''
      else
        let i = me (pt s);
            s = s\<lparr>stvec := kernelvec_pc s\<rparr>;
            s = on_pt s (\<lambda>p. tf_set p i tf_epc (sepc s)) in
        if scause s = 8 then
          if killed (pt s) i then bnd (exit s (-1)) (\<lambda>s. Ok (Gone, s))
          else
            let s = on_pt s (\<lambda>p. tf_set p i tf_epc (tf_get p i tf_epc + 4)) in
            bnd (syscall (intr_on s)) (\<lambda>(back_to, s).
              if back_to then usertrap_end s 0
              else Ok (if p_state (myproc (pt s)) = ZOMBIE then Gone else Asleep, s))
        else if scause s = 13 \<or> scause s = 15 then
          bnd (cow_page_fault_handler (kmem (pt s)) (p_pagetable (procs (pt s) i)) (stval s)) (\<lambda>(r, k).
            let s = on_kmem s k in
            usertrap_end (if r = -1 then on_pt s (\<lambda>p. setkilled p i) else s) 0)
        else
          bnd (devintr mmio s) (\<lambda>(which_dev, s).
            if which_dev \<noteq> 0 then usertrap_end s which_dev
            else
              bnd (printf s (map of_char ''usertrap(): unexpected scause %p pid=%d'' @ [10])
                [PfPtr (scause s), PfInt (of_int (p_pid (procs (pt s) i)))]) (\<lambda>s.
              bnd (printf s (map of_char ''            sepc=%p stval=%p'' @ [10]) [PfPtr (sepc s), PfPtr (stval s)]) (\<lambda>s.
                usertrap_end (on_pt s (\<lambda>p. setkilled p i)) 0))))"

section \<open>Traps from the kernel\<close>

text \<open>\<open>True\<close>: the process gives up the processor; the registers are restored when it is back.\<close>

definition kerneltrap :: "((u32 \<times> u32) list \<Rightarrow> u32 \<Rightarrow> u32) \<Rightarrow> 'a tkern_scheme \<Rightarrow> (bool \<times> 'a tkern_scheme) res" where
  "kerneltrap mmio s =
     (let sepc0 = sepc s; sstatus0 = sstatus s; scause0 = scause s in
      if sstatus0 AND SSTATUS_SPP = 0 then Panic ''kerneltrap: not from supervisor mode''
      else if intr_get s then Panic ''kerneltrap: interrupts enabled''
      else bnd (devintr mmio s) (\<lambda>(which_dev, s).
        if which_dev = 0 then
          bnd (printf s (map of_char ''scause %p'' @ [10]) [PfPtr scause0]) (\<lambda>s.
          bnd (printf s (map of_char ''sepc=%p stval=%p'' @ [10]) [PfPtr (sepc s), PfPtr (stval s)]) (\<lambda>s.
            Panic ''kerneltrap''))
        else
          let giveup = (which_dev = 2 \<and> has_proc s \<and> p_state (myproc (pt s)) = RUNNING);
              s = (if giveup then on_pt s yield_enter else s)
          in Ok (giveup, s\<lparr>sepc := sepc0, sstatus := sstatus0\<rparr>)))"

section \<open>Start\<close>

definition trapinithart :: "'a tkern_scheme \<Rightarrow> 'a tkern_scheme" where
  "trapinithart s = s\<lparr>stvec := kernelvec_pc s\<rparr>"

definition kvminit :: "'a tkern_scheme \<Rightarrow> 'a tkern_scheme res" where
  "kvminit s =
     bnd (kvmmake (kmem (pt s)) (etext s) (trampoline (pt s))) (\<lambda>(pagetable, k).
       Ok ((on_kmem s k)\<lparr>kernel_pagetable := pagetable\<rparr>))"

definition kvminithart :: "'a tkern_scheme \<Rightarrow> 'a tkern_scheme" where
  "kvminithart s = s\<lparr>satp := MAKE_SATP (kernel_pagetable s)\<rparr>"

text \<open>\<^verbatim>\<open>main\<close> on hart 0, up to the scheduler.\<close>

definition kmain :: "((u32 \<times> u32) list \<Rightarrow> u32 \<Rightarrow> u32) \<Rightarrow> 'a tkern_scheme \<Rightarrow> 'a tkern_scheme res" where
  "kmain mmio s =
     (let s = consoleinit s in
      bnd (printf s [10] []) (\<lambda>s.
      bnd (printf s (map of_char ''xv6 kernel is booting'' @ [10]) []) (\<lambda>s.
      bnd (printf s [10] []) (\<lambda>s.
      bnd (kinit (kmem (pt s))) (\<lambda>k.
      bnd (kvminit (on_kmem s k)) (\<lambda>s.
        let s = kvminithart s;
            s = on_pt s procinit;
            s = trapinithart s;
            s = plicinit s;
            s = plicinithart s;
            s = binit s;
            s = iinit s
        in bnd (virtio_disk_init mmio s) userinit))))))"

end
