(* ===== verification/Paths.thy ===== *)
theory Paths
  imports Fs
begin

text \<open>
  Path lookup as a walk over the components between the slashes, and the comparison of directory
  names.
\<close>

section \<open>Paths\<close>

text \<open>The reference: the non-empty pieces between slashes.\<close>

fun pieces :: "u8 list \<Rightarrow> u8 list \<Rightarrow> u8 list list" where
  "pieces cur [] = (if cur = [] then [] else [cur])"
| "pieces cur (c # cs) = (if c = 47 then (if cur = [] then [] else [cur]) @ pieces [] cs else pieces (cur @ [c]) cs)"

text \<open>The characters of a directory entry's name.\<close>

definition dir_name :: "cstr \<Rightarrow> u8 list" where
  "dir_name nm = takeWhile (\<lambda>c. c \<noteq> 0) (map nm [0..<DIRSIZ])"

text \<open>
  The reference walk over the components of a path: at each step the inode must be a directory and
  have the entry. It gives the inode and, when the parent is wanted, the last component.
\<close>

primrec walk_names :: "u8 list list \<Rightarrow> 'a fsst_scheme \<Rightarrow> nat \<Rightarrow> bool \<Rightarrow> ((nat \<times> u8 list) option \<times> 'a fsst_scheme) res" where
  "walk_names [] s ip parent = (if parent then bnd (iput s ip) (\<lambda>s. Ok (None, s)) else Ok (Some (ip, []), s))"
| "walk_names (e # es) s ip parent =
     bnd (ilock s (Some ip)) (\<lambda>s.
       if d_type (i_d (itab s ip)) \<noteq> T_DIR then bnd (iunlockput s ip) (\<lambda>s. Ok (None, s))
       else if parent \<and> es = [] then bnd (iunlock s (Some ip)) (\<lambda>s. Ok (Some (ip, dir_name (cstr_of e)), s))
       else bnd (dirlookup s ip (cstr_of e)) (\<lambda>(found, s).
         bnd (iunlockput s ip) (\<lambda>s.
           case found of None \<Rightarrow> Ok (None, s) | Some (ip', _) \<Rightarrow> walk_names es s ip' parent)))"

definition start_inode :: "'a fsst_scheme \<Rightarrow> u8 list \<Rightarrow> (nat \<times> 'a fsst_scheme) res" where
  "start_inode s path =
     (if take 1 path = [47] then iget s ROOTDEV ROOTINO
      else case p_cwd (myproc (pt s)) of None \<Rightarrow> Undef | Some ip \<Rightarrow> Ok (ip, idup s ip))"

lemma pieces_skip: "pieces [] (skip_slashes p) = pieces [] p"
  by (induction p rule: skip_slashes.induct) simp_all

lemma pieces_elem: "path_elem p = (e, r) \<Longrightarrow> pieces cur p = (if cur @ e = [] then [] else [cur @ e]) @ pieces [] r"
proof (induction p arbitrary: cur e r rule: path_elem.induct)
  case (1 c cs)
  show ?case
  proof (cases "c = 47")
    case True
    then show ?thesis using 1 by auto
  next
    case False
    then obtain e' where e': "path_elem cs = (e', r)" "e = c # e'" using 1(2) by (auto split: prod.splits)
    then show ?thesis using 1(1) [OF False e'(1), of "cur @ [c]"] False by simp
  qed
qed simp

lemma pieces_Nil_skip: "pieces [] (skip_slashes r) = [] \<longleftrightarrow> skip_slashes r = []"
proof (cases "skip_slashes r")
  case (Cons c cs)
  obtain e r' where e: "path_elem (c # cs) = (e, r')" by fastforce
  then have "e \<noteq> []" using skip_slashes_head [OF Cons] by (auto split: prod.splits)
  then show ?thesis using pieces_elem [OF e, of "[]"] Cons by simp
qed simp

lemma skipelem_cases:
  "skipelem path name = None \<and> pieces [] path = [] \<or>
   (\<exists>e rest. skipelem path name = Some (rest, put_name name e) \<and> pieces [] path = e # pieces [] rest \<and>
     (pieces [] rest = [] \<longleftrightarrow> rest = []))"
proof (cases "skip_slashes path")
  case Nil
  then show ?thesis using pieces_skip [of path] by (simp add: skipelem_def)
next
  case (Cons c cs)
  obtain e r where e: "path_elem (c # cs) = (e, r)" by fastforce
  moreover have "e \<noteq> []" using e skip_slashes_head [OF Cons] by (auto split: prod.splits)
  ultimately have "pieces [] path = e # pieces [] (skip_slashes r)"
    using pieces_elem [OF e, of "[]"] pieces_skip [of path] Cons by (simp add: pieces_skip)
  then show ?thesis using Cons e pieces_Nil_skip [of r] by (auto simp: skipelem_def)
qed

section \<open>Names\<close>

text \<open>Names that \<^verbatim>\<open>namecmp\<close> takes for equal are interchangeable in a lookup.\<close>

lemma strncmp_at: "strncmp p q n = 0 \<Longrightarrow> k < n \<Longrightarrow> (\<And>j. j < k \<Longrightarrow> p j \<noteq> 0) \<Longrightarrow> p k = q k"
  unfolding strncmp_eq_0 by blast

lemma strncmp_nz: "strncmp p q n = 0 \<Longrightarrow> k < n \<Longrightarrow> (\<And>j. j < k \<Longrightarrow> q j \<noteq> 0) \<Longrightarrow> j < k \<Longrightarrow> p j \<noteq> 0"
proof (induction j rule: less_induct)
  case (less j)
  have "p i \<noteq> 0" if "i < j" for i using less.IH [OF that less.prems(1,2,3)] that less.prems(4) by simp
  then have "p j = q j" using less.prems by (intro strncmp_at [of p q n]) simp_all
  then show ?case using less.prems by simp
qed

lemma strncmp_trans:
  assumes a: "strncmp p q n = 0" and b: "strncmp q r n = 0"
  shows "strncmp p r n = 0"
  unfolding strncmp_eq_0
proof (intro allI impI)
  fix k assume k: "k < n" "\<forall>j<k. p j \<noteq> 0"
  have e: "p j = q j" if "j \<le> k" for j using strncmp_at [OF a, of j] k that by simp
  show "p k = r k" using strncmp_at [OF b k(1)] e k(2) by fastforce
qed

lemma strncmp_sym:
  assumes a: "strncmp p q n = 0"
  shows "strncmp q p n = 0"
  unfolding strncmp_eq_0
proof (intro allI impI)
  fix k assume k: "k < n" "\<forall>j<k. q j \<noteq> 0"
  have "p j \<noteq> 0" if "j < k" for j using strncmp_nz [OF a k(1) _ that] k(2) by simp
  then show "q k = p k" using strncmp_at [OF a k(1)] by simp
qed

lemma strncmp_zero_cong: "strncmp p q n = 0 \<Longrightarrow> strncmp p r n = 0 \<longleftrightarrow> strncmp q r n = 0"
  by (blast intro: strncmp_trans strncmp_sym)

lemma dirlookup_loop_cong: "namecmp a b = 0 \<Longrightarrow> dirlookup_loop s dp a off = dirlookup_loop s dp b off"
proof (induction s dp a off rule: dirlookup_loop.induct)
  case (1 s dp a off)
  have c: "namecmp a n = 0 \<longleftrightarrow> namecmp b n = 0" for n using strncmp_zero_cong [of a b] 1(2) by (simp add: namecmp_def)
  show ?case
    unfolding dirlookup_loop.simps [of s dp a off] dirlookup_loop.simps [of s dp b off] c
    by (rule if_cong [OF refl], rule bnd_cong [OF refl], rule if_cong [OF refl refl], rule if_cong [OF refl refl])
      (rule 1(1) [OF _ _ _ _ 1(2)], simp_all add: c)
qed

lemma dirlookup_cong: "namecmp a b = 0 \<Longrightarrow> dirlookup s dp a = dirlookup s dp b"
  by (simp add: dirlookup_def dirlookup_loop_cong)

lemma put_name_same: "namecmp (put_name name e) (cstr_of e) = 0"
  by (auto simp: namecmp_def strncmp_eq_0 put_name_def cstr_of_def)

lemma dir_name_put: "dir_name (put_name name e) = dir_name (cstr_of e)"
proof (cases "length e \<ge> DIRSIZ")
  case True
  then show ?thesis by (auto simp: dir_name_def put_name_def cstr_of_def intro!: arg_cong [of _ _ "takeWhile _"])
next
  case False
  let ?l = "length e"
  have "map f [0..<DIRSIZ] = e @ 0 # map f [Suc ?l..<DIRSIZ]" if "\<And>i. i < ?l \<Longrightarrow> f i = e ! i" "f ?l = 0" for f
    by (rule nth_equalityI) (use False that in \<open>auto simp: nth_append nth_Cons' not_less le_less_Suc_eq\<close>)
  then have "dir_name f = takeWhile (\<lambda>c. c \<noteq> 0) e" if "\<And>i. i < ?l \<Longrightarrow> f i = e ! i" "f ?l = 0" for f
    using that by (simp add: dir_name_def takeWhile_tail)
  from this [of "put_name name e"] this [of "cstr_of e"] show ?thesis using False by (simp add: put_name_def cstr_of_def)
qed

text \<open>The result of \<^verbatim>\<open>namex\<close> as that of the walk: of the name only its characters, where it is set.\<close>

definition as_walk :: "bool \<Rightarrow> (nat option \<times> cstr \<times> 'a fsst_scheme) res \<Rightarrow> ((nat \<times> u8 list) option \<times> 'a fsst_scheme) res" where
  "as_walk parent m = bnd m (\<lambda>(ipo, nm, s). Ok (map_option (\<lambda>ip. (ip, if parent then dir_name nm else [])) ipo, s))"

lemma as_walk_simps:
  "as_walk parent (bnd m f) = bnd m (\<lambda>x. as_walk parent (f x))"
  "as_walk parent (Ok (None, nm, s)) = Ok (None, s)"
  "as_walk parent (Ok (Some ip, put_name name e, s)) = Ok (Some (ip, if parent then dir_name (cstr_of e) else []), s)"
  "as_walk False (Ok (Some ip, nm, s)) = Ok (Some (ip, []), s)"
  by (simp_all add: as_walk_def bnd_assoc dir_name_put)

lemma namex_loop_walk: "as_walk parent (namex_loop s ip path parent name) = walk_names (pieces [] path) s ip parent"
proof (induction s ip path parent name rule: namex_loop.induct)
  case (1 s ip path parent name)
  from skipelem_cases [of path name] show ?case
  proof (elim disjE exE conjE)
    assume "skipelem path name = None" "pieces [] path = []"
    then show ?thesis by (simp add: namex_loop.simps [of s ip path parent name] as_walk_simps)
  next
    fix e rest
    assume a: "skipelem path name = Some (rest, put_name name e)" "pieces [] path = e # pieces [] rest"
      "pieces [] rest = [] \<longleftrightarrow> rest = []"
    have rec: "as_walk parent (namex_loop s'' ip' rest parent (put_name name e)) = walk_names (pieces [] rest) s'' ip' parent"
      if "ilock s (Some ip) = Ok s0" "d_type (i_d (itab s0 ip)) = T_DIR" "parent \<longrightarrow> rest \<noteq> []"
        "dirlookup s0 ip (put_name name e) = Ok (Some (ip', off), s')" "iunlockput s' ip = Ok s''" for s0 s' s'' ip' off
      by (rule 1) (use a that in simp_all)
    have look: "dirlookup s0 ip (cstr_of e) = dirlookup s0 ip (put_name name e)" for s0
      by (rule dirlookup_cong [OF put_name_same, symmetric])
    show ?thesis
      unfolding namex_loop.simps [of s ip path parent name] a walk_names.simps as_walk_simps option.case prod.case look
      by (rule bnd_cong [OF refl])
        (simp add: as_walk_simps split: option.split; intro impI conjI bnd_cong refl;
          clarsimp simp: as_walk_simps split: option.split; intro impI conjI allI bnd_cong refl; clarsimp simp: rec)
  qed
qed

text \<open>
  C31. Path lookup is a walk over the components of the path: \<^verbatim>\<open>namex\<close>, whose loop calls \<^verbatim>\<open>skipelem\<close> on the
  remaining characters, equals the reference that splits the path at its slashes first and then
  looks up each non-empty piece in turn, on every path, every state and every outcome. In
  particular repeated, leading and trailing slashes do not matter, and what an earlier, longer
  component left in the buffer \<^verbatim>\<open>name\<close> never reaches a later lookup.
\<close>

theorem namex_walks:
  "as_walk parent (namex s path parent name) =
   bnd (start_inode s path) (\<lambda>(ip, s). walk_names (pieces [] path) s ip parent)"
proof -
  have "path \<noteq> [] \<and> hd path = 47 \<longleftrightarrow> take 1 path = [47]" by (cases path) simp_all
  then show ?thesis
    unfolding namex_def start_inode_def as_walk_simps by (intro bnd_cong) (auto simp: namex_loop_walk split: prod.split)
qed

end
