(* ===== verification/Fslog.thy ===== *)
theory Fslog
  imports Fs
begin

text \<open>
  The file system's use of blocks inside a transaction: what the operations on the bitmap and on
  inodes do to the blocks as the rest of the kernel sees them.
\<close>

section \<open>Blocks inside a transaction\<close>

text \<open>The contents of a block as a reader of the cache gets them, and a state inside a transaction.\<close>

definition fview :: "'a logst_scheme \<Rightarrow> u32 \<Rightarrow> block" where
  "fview s = cview (cabs (ldev s) s)"

definition in_op :: "'a logst_scheme \<Rightarrow> bool" where
  "in_op s \<longleftrightarrow> log_ok s \<and> 1 \<le> outstanding s \<and> lsize s = 30"

text \<open>What the block operations leave alone.\<close>

definition fs_same :: "'a fsst_scheme \<Rightarrow> 'a fsst_scheme \<Rightarrow> bool" where
  "fs_same s t \<longleftrightarrow> itab t = itab s \<and> fsb t = fsb s \<and> pt t = pt s \<and> ldev t = ldev s \<and> lstart t = lstart s \<and> curpid t = curpid s \<and>
     disk t = disk s"

lemma fs_frame:
  assumes "bframe t = bframe (s :: 'a fsst_scheme)"
  shows "itab t = itab s" "fsb t = fsb s" "pt t = pt s"
proof -
  note e = bframe_eq [OF assms]
  show "itab t = itab s" "fsb t = fsb s" "pt t = pt s" by (subst e, simp)+
qed

lemma fs_same_refl [simp]: "fs_same s s"
  by (simp add: fs_same_def)

lemma fs_same_trans [trans]: "fs_same s t \<Longrightarrow> fs_same t u \<Longrightarrow> fs_same s u"
  by (simp add: fs_same_def)

lemma in_op_readable: "in_op s \<Longrightarrow> readable (cabs (ldev s) s) n"
  using log_okD(2) [of s] by (simp add: in_op_def readable_def idle_def)

text \<open>Reading a block and releasing it.\<close>

lemma peek:
  assumes "in_op (s :: 'a fsst_scheme)"
  obtains b s1 s2 where "bread s (ldev s) n = Ok (b, s1)" "bdata (bufs s1 b) = fview s n" "itab s1 = itab s" "fsb s1 = fsb s"
    "brelse s1 b = Ok s2" "in_op s2" "fview s2 = fview s" "fs_same s s2" "lhn s2 = lhn s"
proof -
  have ok: "log_ok s" "1 \<le> outstanding s" "lsize s = 30" using assms by (simp_all add: in_op_def)
  note k = log_okD [OF ok(1)]
  obtain b s1 s2 where s1: "bread s (ldev s) n = Ok (b, s1)" "bdata (bufs s1 b) = cview (cabs (ldev s) s) n" "bframe s1 = bframe s"
    and s2: "brelse s1 b = Ok s2" "binv (ldev s) s2" and c: "cabs (ldev s) s2 = cabs (ldev s) s" and "bframe s2 = bframe s"
    using bc.read_rel [OF k(1) in_op_readable [OF assms]] by blast
  note f1 = fs_frame [OF s1(3)]
  note f2 = log_frame [OF \<open>bframe s2 = bframe s\<close>] fs_frame [OF \<open>bframe s2 = bframe s\<close>]
  have dk: "disk s2 = disk s" using arg_cong [OF c, of cdisk] by (simp add: cabs_def)
  have "log_ok s2" using ok(1) s2(2) unfolding log_ok_def f2 c dk by simp
  then show thesis using that [OF s1(1) _ f1(1,2) s2(1)] s1(2) ok c dk f2 by (simp add: in_op_def fview_def fs_same_def)
qed

text \<open>Reading a block, logging new contents for it and releasing it.\<close>

lemma modify:
  assumes "in_op (s :: 'a fsst_scheme)" and "lhn s < 29" and "\<not> in_log (lstart s) n"
  obtains b s1 s2 where "bread s (ldev s) n = Ok (b, s1)" "bdata (bufs s1 b) = fview s n" "itab s1 = itab s" "fsb s1 = fsb s"
    "bnd (log_write (set_data s1 b x) b) (\<lambda>s. brelse s b) = Ok s2" "in_op s2" "fview s2 = (fview s)(n := x)" "fs_same s s2"
    "lhn s2 \<le> lhn s + 1"
proof -
  have ok: "log_ok s" "1 \<le> outstanding s" "lsize s = 30" using assms(1) by (simp_all add: in_op_def)
  have room: "lhn s < int LOGSIZE - 1" "lhn s < lsize s - 1" using assms(2) ok(3) by (simp_all add: LOGSIZE_val)
  obtain b s1 s2 where s2: "bread s (ldev s) n = Ok (b, s1)" "bdata (bufs s1 b) = cview (cabs (ldev s) s) n"
    "bnd (log_write (set_data s1 b x) b) (\<lambda>s. brelse s b) = Ok s2" "log_ok s2" "cview (cabs (ldev s) s2) = (cview (cabs (ldev s) s))(n := x)"
    "disk s2 = disk s" "lhn s2 = (if n \<in> lhblock s ` {..<nat (lhn s)} then lhn s else lhn s + 1)"
    "bframe s2 = bframe (s\<lparr>lhn := lhn s2, lhblock := lhblock s2\<rparr>)"
    using logged_update [OF ok(1,2) room assms(3) refl, of x] by blast
  have "bframe s1 = bframe s" using bc.rd_law [OF log_okD(1) [OF ok(1)] in_op_readable [OF assms(1)], of n] s2(1) by auto
  note f1 = fs_frame [OF this]
  note f2 = log_frame [OF s2(8), simplified] fs_frame [OF s2(8), simplified]
  show thesis using that [OF s2(1) _ f1(1,2) s2(3)] s2 ok f2 by (simp add: in_op_def fview_def fs_same_def)
qed

section \<open>Inodes on disk\<close>

lemma st_addrs_frame: "i < p \<or> p + 4 * k \<le> i \<Longrightarrow> st_addrs d p a k i = d i"
  by (induction k) (auto simp: ld_st_frame)

lemma st_dinode_frame: "i < p \<or> p + 64 \<le> i \<Longrightarrow> st_dinode d p x i = d i"
  by (auto simp: st_dinode_def Let_def st_addrs_frame ld_st_frame NDIRECT_def)

lemma ld_dinode_cong: "(\<And>i. p \<le> i \<Longrightarrow> i < p + 64 \<Longrightarrow> d i = d' i) \<Longrightarrow> ld_dinode d p = ld_dinode d' p"
  by (auto simp: ld_dinode_def ld16_def ld32_def NDIRECT_def fun_eq_iff intro!: arg_cong [of _ _ of_nat] ldn_cong)

text \<open>The addresses that exist.\<close>

definition trim :: "dinode \<Rightarrow> dinode" where
  "trim x = x\<lparr>d_addrs := (\<lambda>i. if i \<le> NDIRECT then d_addrs x i else 0)\<rparr>"

lemma trim_simps [simp]: "d_type (trim x) = d_type x" "d_size (trim x) = d_size x"
  by (simp_all add: trim_def)

lemma ld_st_addrs: "i < k \<Longrightarrow> ld32 (st_addrs d p a k) (p + 4 * i) = a i"
  by (induction k) (auto simp: less_Suc_eq)

lemma ld_st_addrs_other: "q + 4 \<le> p \<Longrightarrow> ld32 (st_addrs d p a k) q = ld32 d q" "q + 2 \<le> p \<Longrightarrow> ld16 (st_addrs d p a k) q = ld16 d q"
  by (induction k) auto

lemma ld_st_dinode: "ld_dinode (st_dinode d p x) p = trim x"
proof -
  let ?d = "st32 (st16 (st16 (st16 (st16 d p (d_type x)) (p + 2) (d_major x)) (p + 4) (d_minor x)) (p + 6) (d_nlink x)) (p + 8) (d_size x)"
  have st: "st_dinode d p x = st_addrs ?d (p + 12) (d_addrs x) (NDIRECT + 1)" by (simp add: st_dinode_def Let_def)
  have "(\<lambda>i. if i \<le> NDIRECT then ld32 (st_addrs ?d (p + 12) (d_addrs x) (NDIRECT + 1)) (p + 12 + 4 * i) else 0) =
      (\<lambda>i. if i \<le> NDIRECT then d_addrs x i else 0)"
    using ld_st_addrs [of _ "NDIRECT + 1"] by (simp add: fun_eq_iff del: st_addrs.simps)
  then show ?thesis unfolding ld_dinode_def st trim_def by (cases x) (simp add: ld_st_addrs_other del: st_addrs.simps)
qed

lemma dip_off_apart:
  assumes "i \<noteq> j"
  shows "IBLOCK i sb \<noteq> IBLOCK j sb \<or> dip_off i + 64 \<le> dip_off j \<or> dip_off j + 64 \<le> dip_off i"
proof (cases "i div of_nat IPB = j div of_nat IPB")
  case True
  then have "unat (i div 16) = unat (j div 16)" by (simp add: IPB_def BSIZE_def)
  then have "unat i div 16 = unat j div 16" by (simp add: unat_div)
  then have "unat i mod 16 \<noteq> unat j mod 16" using assms by (metis div_mult_mod_eq word_unat_eq_iff)
  then show ?thesis by (auto simp: dip_off_def IPB_def BSIZE_def)
next
  case False
  then show ?thesis by (simp add: IBLOCK_def)
qed

section \<open>The block bitmap\<close>

text \<open>Whether the bitmap has block \<open>n\<close> in use.\<close>

definition used :: "'a fsst_scheme \<Rightarrow> nat \<Rightarrow> bool" where
  "used s n \<longleftrightarrow> fview s (BBLOCK (of_nat n) (fsb s)) (n mod BPB div 8) AND bitmask (n mod BPB) \<noteq> 0"

lemma bitmask_bit: "d AND bitmask i = 0 \<longleftrightarrow> \<not> bit d (i mod 8)"
  by (simp add: bitmask_def bit_iff_and_push_bit_not_eq_0)

lemma bit_or_bitmask: "bit (d OR bitmask i) k \<longleftrightarrow> bit d k \<or> k = i mod 8" for d :: u8
  by (auto simp: bitmask_def bit_simps possible_bit_def)

lemma free_bit_Some:
  "free_bit d bi k = Some j \<Longrightarrow> bi \<le> j \<and> j < bi + k \<and> d (j div 8) AND bitmask j = 0 \<and>
    (\<forall>i. bi \<le> i \<and> i < j \<longrightarrow> d (i div 8) AND bitmask i \<noteq> 0)"
proof (induction k arbitrary: bi)
  case (Suc k)
  show ?case
  proof (cases "d (bi div 8) AND bitmask bi = 0")
    case False
    then have j: "Suc bi \<le> j \<and> j < Suc bi + k \<and> d (j div 8) AND bitmask j = 0 \<and>
        (\<forall>i. Suc bi \<le> i \<and> i < j \<longrightarrow> d (i div 8) AND bitmask i \<noteq> 0)"
      using Suc.IH [of "Suc bi"] Suc.prems by simp
    then have "d (i div 8) AND bitmask i \<noteq> 0" if "bi \<le> i" "i < j" for i using that False by (cases "i = bi") auto
    then show ?thesis using j by auto
  qed (use Suc.prems in auto)
qed simp

lemma free_bit_None: "free_bit d bi k = None \<Longrightarrow> bi \<le> j \<Longrightarrow> j < bi + k \<Longrightarrow> d (j div 8) AND bitmask j \<noteq> 0"
proof (induction k arbitrary: bi)
  case (Suc k)
  then show ?case by (cases "j = bi") (auto split: if_splits)
qed simp

lemma below_u32: "n < unat (w :: u32) \<Longrightarrow> n < 2 ^ 32"
  by (erule order_less_trans) (rule order_less_le_trans [OF unsigned_less], simp)

lemma BBLOCK_eq:
  assumes "n < 2 ^ 32" and "m < 2 ^ 32"
  shows "BBLOCK (of_nat n) sb = BBLOCK (of_nat m) sb \<longleftrightarrow> n div BPB = m div BPB"
proof -
  have u: "unat (of_nat k div 8192 :: u32) = k div 8192" if "k < 2 ^ 32" for k
    using that by (simp add: unat_div unat_of_nat take_bit_nat_eq_self)
  have "(of_nat n div 8192 :: u32) = of_nat m div 8192 \<longleftrightarrow> n div 8192 = m div 8192"
    unfolding word_unat_eq_iff u [OF assms(1)] u [OF assms(2)] ..
  then show ?thesis by (simp add: BBLOCK_def BPB_def BSIZE_def)
qed

lemma bitmap_block:
  assumes "BPB dvd b" and "i < BPB" and "b + i < 2 ^ 32"
  shows "BBLOCK (of_nat (b + i)) sb = BBLOCK (of_nat b) sb" and "(b + i) mod BPB = i"
proof -
  obtain q where q: "b = BPB * q" using assms(1) by (auto elim: dvdE)
  then show "(b + i) mod BPB = i" using assms(2) by simp
  have "(b + i) div BPB = b div BPB" using q assms(2) by simp
  then show "BBLOCK (of_nat (b + i)) sb = BBLOCK (of_nat b) sb" using BBLOCK_eq [of "b + i" b] assms(3) by simp
qed

text \<open>
  The bitmap describes a sensible layout: bitmap blocks are outside the log, and a block that the
  bitmap has as free is neither block 0 nor a block of the log nor of the bitmap.
\<close>

definition bitmap_ok :: "'a fsst_scheme \<Rightarrow> bool" where
  "bitmap_ok s \<longleftrightarrow> (\<forall>n < unat (sb_size (fsb s)). \<not> in_log (lstart s) (BBLOCK (of_nat n) (fsb s)) \<and>
     (\<not> used s n \<longrightarrow> n \<noteq> 0 \<and> \<not> in_log (lstart s) (of_nat n) \<and> (\<forall>m < unat (sb_size (fsb s)). of_nat n \<noteq> BBLOCK (of_nat m) (fsb s))))"

text \<open>The state after block \<open>n\<close> was allocated.\<close>

definition mark :: "block \<Rightarrow> nat \<Rightarrow> block" where
  "mark d i = d(i div 8 := d (i div 8) OR bitmask i)"

definition zeroed :: "block \<Rightarrow> block" where
  "zeroed d = (\<lambda>i. if i < BSIZE then 0 else d i)"

definition allocated :: "'a fsst_scheme \<Rightarrow> 'a fsst_scheme \<Rightarrow> nat \<Rightarrow> bool" where
  "allocated s t n \<longleftrightarrow> in_op t \<and> fs_same s t \<and> lhn t \<le> lhn s + 2 \<and>
     fview t = (fview s)(BBLOCK (of_nat n) (fsb s) := mark (fview s (BBLOCK (of_nat n) (fsb s))) (n mod BPB),
       of_nat n := zeroed (fview s (of_nat n)))"

lemma bzero_law:
  assumes "in_op s" and "lhn s < 29" and "\<not> in_log (lstart s) n"
  obtains t where "bzero s (ldev s) n = Ok t" "in_op t" "fs_same s t" "lhn t \<le> lhn s + 1" "fview t = (fview s)(n := zeroed (fview s n))"
proof (rule modify [OF assms, where x = "zeroed (fview s n)"])
  fix b s1 t
  assume "bread s (ldev s) n = Ok (b, s1)" "bdata (bufs s1 b) = fview s n" "in_op t" "fview t = (fview s)(n := zeroed (fview s n))"
    "fs_same s t" "lhn t \<le> lhn s + 1" "bnd (log_write (set_data s1 b (zeroed (fview s n))) b) (\<lambda>s. brelse s b) = Ok t"
  then show thesis by (intro that [of t]) (simp_all add: bzero_def zeroed_def [symmetric])
qed

lemma balloc_block:
  assumes "in_op s" and "lhn s < 28" and "n < unat (sb_size (fsb s))" and "bitmap_ok s" and "\<not> used s n"
  obtains b s1 s2 t where "bread s (ldev s) (BBLOCK (of_nat n) (fsb s)) = Ok (b, s1)"
    "bdata (bufs s1 b) = fview s (BBLOCK (of_nat n) (fsb s))"
    "bnd (log_write (set_data s1 b (mark (fview s (BBLOCK (of_nat n) (fsb s))) (n mod BPB))) b) (\<lambda>s. brelse s b) = Ok s2"
    "bzero s2 (ldev s) (of_nat n) = Ok t" "allocated s t n"
proof -
  let ?B = "BBLOCK (of_nat n) (fsb s)"
  have l: "\<not> in_log (lstart s) ?B" "\<not> in_log (lstart s) (of_nat n)" "of_nat n \<noteq> ?B" using assms(3-5) by (auto simp: bitmap_ok_def)
  obtain b s1 s2 where s2: "bread s (ldev s) ?B = Ok (b, s1)" "bdata (bufs s1 b) = fview s ?B"
    "bnd (log_write (set_data s1 b (mark (fview s ?B) (n mod BPB))) b) (\<lambda>s. brelse s b) = Ok s2" "in_op s2"
    "fview s2 = (fview s)(?B := mark (fview s ?B) (n mod BPB))" "fs_same s s2" "lhn s2 \<le> lhn s + 1"
    by (rule modify [OF assms(1) _ l(1), where x = "mark (fview s ?B) (n mod BPB)"]) (use assms(2) in auto)
  obtain t where t: "bzero s2 (ldev s) (of_nat n) = Ok t" "in_op t" "fs_same s2 t" "lhn t \<le> lhn s2 + 1"
    "fview t = (fview s2)(of_nat n := zeroed (fview s2 (of_nat n)))"
    by (rule bzero_law [OF s2(4)]) (use s2(6,7) assms(2) l(2) in \<open>auto simp: fs_same_def\<close>)
  have "allocated s t n" using s2(5,6,7) t fs_same_trans [OF s2(6) t(3)] l(3) by (simp add: allocated_def)
  then show thesis by (rule that [OF s2(1,2,3) t(1)])
qed

lemma balloc_loop_law:
  assumes "in_op s" and "lhn s < 28" and "sz = unat (sb_size (fsb s))" and "bitmap_ok s" and "BPB dvd b" and "sz + BPB \<le> 2 ^ 31"
  shows "\<exists>r t. balloc_loop sz s (ldev s) b = Ok (r, t) \<and>
    ((\<forall>n. b \<le> n \<and> n < sz \<longrightarrow> used s n) \<and> r = 0 \<and> in_op t \<and> fs_same s t \<and> fview t = fview s \<or>
     (\<exists>n. b \<le> n \<and> n < sz \<and> \<not> used s n \<and> (\<forall>m. b \<le> m \<and> m < n \<longrightarrow> used s m) \<and> r = of_nat n \<and> allocated s t n))"
  using assms
proof (induction sz s "ldev s" b rule: balloc_loop.induct)
  case (1 sz s b)
  let ?B = "BBLOCK (of_nat b) (fsb s)"
  show ?case
  proof (cases "b < sz")
    case False
    then show ?thesis using 1(2) by (auto simp: balloc_loop.simps)
  next
    case b: True
    have lt: "sz < 2 ^ 32" unfolding 1(4) by (rule order_less_le_trans [OF unsigned_less]) simp
    have at: "BBLOCK (of_nat (b + i)) (fsb s) = ?B" "(b + i) mod BPB = i" if "i < BPB" "b + i < sz" for i
      using bitmap_block [OF 1(6) that(1)] that(2) lt by simp_all
    have used: "used s (b + i) \<longleftrightarrow> fview s ?B (i div 8) AND bitmask i \<noteq> 0" if "i < BPB" "b + i < sz" for i
      using at [OF that] by (simp add: used_def)
    show ?thesis
    proof (cases "free_bit (fview s ?B) 0 (min BPB (sz - b))")
      case (Some i)
      have i: "i < BPB" "b + i < sz" using free_bit_Some [OF Some] b by auto
      have "\<not> used s (b + i)" using free_bit_Some [OF Some] used [OF i] by simp
      moreover have "used s m" if "b \<le> m" "m < b + i" for m
        using free_bit_Some [OF Some] used [of "m - b"] that i by auto
      ultimately have "\<not> used s (b + i) \<and> (\<forall>m. b \<le> m \<and> m < b + i \<longrightarrow> used s m)" by blast
      note i = i this
      obtain bp s1 s2 t where "bread s (ldev s) ?B = Ok (bp, s1)" "bdata (bufs s1 bp) = fview s ?B"
        "bnd (log_write (set_data s1 bp (mark (fview s ?B) i)) bp) (\<lambda>s. brelse s bp) = Ok s2"
        "bzero s2 (ldev s) (of_nat (b + i)) = Ok t" "allocated s t (b + i)"
        by (rule balloc_block [OF 1(2,3) i(2) [unfolded 1(4)] 1(5) i(3) [THEN conjunct1], unfolded at [OF i(1,2)]])
      then have "balloc_loop sz s (ldev s) b = Ok (of_nat (b + i), t)" "allocated s t (b + i)"
        using b Some by (auto simp: balloc_loop.simps [of sz s "ldev s" b] mark_def)
      then show ?thesis using i le_add1 by blast
    next
      case None
      have all: "used s n" if "b \<le> n" "n < b + BPB" "n < sz" for n
        using free_bit_None [OF None, of "n - b"] used [of "n - b"] that by auto
      obtain bp s1 s2 where s2: "bread s (ldev s) ?B = Ok (bp, s1)" "bdata (bufs s1 bp) = fview s ?B" "brelse s1 bp = Ok s2"
        "in_op s2" "fview s2 = fview s" "fs_same s s2" "lhn s2 = lhn s"
        by (rule peek [OF 1(2), where n = ?B]) blast
      have u: "used s2 = used s" "bitmap_ok s2" "sz = unat (sb_size (fsb s2))" "ldev s2 = ldev s" "BPB dvd b + BPB" "lhn s2 < 28"
        using s2(5,6,7) 1(3-6) by (auto simp: used_def bitmap_ok_def fs_same_def fun_eq_iff)
      have small: "\<not> 2 ^ 31 \<le> b + BPB" using b 1(7) by simp
      obtain r t where rt: "balloc_loop sz s2 (ldev s2) (b + BPB) = Ok (r, t)"
        and c: "(\<forall>n. b + BPB \<le> n \<and> n < sz \<longrightarrow> used s2 n) \<and> r = 0 \<and> in_op t \<and> fs_same s2 t \<and> fview t = fview s2 \<or>
           (\<exists>n. b + BPB \<le> n \<and> n < sz \<and> \<not> used s2 n \<and> (\<forall>m. b + BPB \<le> m \<and> m < n \<longrightarrow> used s2 m) \<and> r = of_nat n \<and> allocated s2 t n)"
        using 1(1) [OF b s2(1) refl refl _ s2(3) _ u(4) [symmetric] s2(4) u(6,3,2,5) 1(7)] None s2(2) small by auto
      have e: "balloc_loop sz s (ldev s) b = Ok (r, t)"
        using b s2(1-3) None u(4) small rt by (simp add: balloc_loop.simps [of sz s "ldev s" b])
      from c show ?thesis
      proof
        assume c: "(\<forall>n. b + BPB \<le> n \<and> n < sz \<longrightarrow> used s2 n) \<and> r = 0 \<and> in_op t \<and> fs_same s2 t \<and> fview t = fview s2"
        have "used s n" if "b \<le> n" "n < sz" for n using all [OF that(1) _ that(2)] c that(2) unfolding u(1) by (meson leI)
        then show ?thesis using e c fs_same_trans [OF s2(6)] s2(5) by (intro exI [of _ r] exI [of _ t]) simp
      next
        assume "\<exists>n. b + BPB \<le> n \<and> n < sz \<and> \<not> used s2 n \<and> (\<forall>m. b + BPB \<le> m \<and> m < n \<longrightarrow> used s2 m) \<and> r = of_nat n \<and> allocated s2 t n"
        then obtain n where n: "b + BPB \<le> n" "n < sz" "\<not> used s n" "\<forall>m. b + BPB \<le> m \<and> m < n \<longrightarrow> used s m" "r = of_nat n" "allocated s2 t n"
          unfolding u(1) by blast
        have "used s m" if "b \<le> m" "m < n" for m using all [OF that(1)] n(2,4) that(2) by (meson leI less_trans)
        moreover have "allocated s t n" using n(6) s2(5,6,7) by (auto simp: allocated_def fs_same_def)
        ultimately show ?thesis using e n(2,3,5) add_leD1 [OF n(1)] by blast
      qed
    qed
  qed
qed

text \<open>What an allocation does to the bitmap.\<close>

lemma bit_mark: "mark d i (j div 8) AND bitmask j \<noteq> 0 \<longleftrightarrow> d (j div 8) AND bitmask j \<noteq> 0 \<or> j = i"
proof -
  have "j = i \<longleftrightarrow> j div 8 = i div 8 \<and> j mod 8 = i mod 8" by (metis div_mult_mod_eq)
  then show ?thesis by (auto simp: mark_def bitmask_bit bit_or_bitmask)
qed

lemma allocated_used:
  assumes "allocated s t n" and "bitmap_ok s" and "\<not> used s n" and "n < unat (sb_size (fsb s))" and "m < unat (sb_size (fsb s))"
  shows "used t m \<longleftrightarrow> used s m \<or> m = n"
proof -
  have lt: "n < 2 ^ 32" "m < 2 ^ 32" using assms(4,5) by (simp_all only: below_u32)
  have ne: "of_nat n \<noteq> BBLOCK (of_nat m) (fsb s)" using assms(2-5) by (auto simp: bitmap_ok_def)
  have f: "fsb t = fsb s" using assms(1) by (simp add: allocated_def fs_same_def)
  have v: "fview t (BBLOCK (of_nat m) (fsb s)) = (if BBLOCK (of_nat m) (fsb s) = BBLOCK (of_nat n) (fsb s)
      then mark (fview s (BBLOCK (of_nat m) (fsb s))) (n mod BPB) else fview s (BBLOCK (of_nat m) (fsb s)))"
    using assms(1) ne by (auto simp: allocated_def)
  have "m = n \<longleftrightarrow> m div BPB = n div BPB \<and> m mod BPB = n mod BPB" by (metis div_mult_mod_eq)
  then show ?thesis unfolding used_def f v using BBLOCK_eq [OF lt(2,1), of "fsb s"] by (auto simp: bit_mark)
qed

text \<open>
  C33. \<^verbatim>\<open>balloc\<close> never hands out a block that is in use. Inside a transaction with room for two blocks,
  on a sensible bitmap and a disk small enough for its \<^verbatim>\<open>int\<close> counter, it succeeds: either every block is
  in use, the result is 0 and no block changes, or the result is the first block that was free, is
  now marked as in use and reads as zeros, the marks of all other blocks are as before, and no block
  outside the bitmap changes but that one.
\<close>

theorem balloc_fresh:
  assumes "in_op s" and "lhn s < 28" and "bitmap_ok s" and "sz = unat (sb_size (fsb s))" and "sz + BPB \<le> 2 ^ 31"
  shows "\<exists>r t. balloc s (ldev s) = Ok (r, t) \<and> in_op t \<and> fs_same s t \<and>
    (r = 0 \<longleftrightarrow> (\<forall>n < sz. used s n)) \<and> (r = 0 \<longrightarrow> fview t = fview s) \<and>
    (r \<noteq> 0 \<longrightarrow> unat r < sz \<and> \<not> used s (unat r) \<and> (\<forall>n < unat r. used s n) \<and> (\<forall>i < BSIZE. fview t r i = 0) \<and>
      (\<forall>n < sz. used t n \<longleftrightarrow> used s n \<or> n = unat r) \<and>
      (\<forall>m. m \<noteq> r \<and> (\<forall>n < sz. m \<noteq> BBLOCK (of_nat n) (fsb s)) \<longrightarrow> fview t m = fview s m))"
proof -
  obtain r t where r: "balloc s (ldev s) = Ok (r, t)"
    and c: "(\<forall>n < sz. used s n) \<and> r = 0 \<and> in_op t \<and> fs_same s t \<and> fview t = fview s \<or>
      (\<exists>n < sz. \<not> used s n \<and> (\<forall>m < n. used s m) \<and> r = of_nat n \<and> allocated s t n)"
    using balloc_loop_law [OF assms(1,2,4,3) _ assms(5), of 0] assms(4) by (auto simp: balloc_def)
  from c show ?thesis
  proof (elim disjE exE conjE)
    fix n assume n: "n < sz" "\<not> used s n" "r = of_nat n" "allocated s t n" and first: "\<forall>m < n. used s m"
    have "n < 2 ^ 32" using n(1) assms(4) by (simp only: below_u32)
    then have u: "unat r = n" using n(3) by (simp add: unat_of_nat take_bit_nat_eq_self)
    have "n \<noteq> 0" using n(1,2) assms(3,4) by (auto simp: bitmap_ok_def)
    then have "r \<noteq> 0" using u by auto
    moreover have "\<forall>k < sz. used t k \<longleftrightarrow> used s k \<or> k = n"
      using allocated_used [OF n(4) assms(3) n(2)] n(1) assms(4) by simp
    moreover have "fview t m = fview s m" if "m \<noteq> r" "\<forall>n < sz. m \<noteq> BBLOCK (of_nat n) (fsb s)" for m
      using n(1,3,4) that by (auto simp: allocated_def)
    ultimately show ?thesis using r n u first by (auto simp: allocated_def zeroed_def)
  qed (use r in blast)
qed

text \<open>Writing an inode back, and reading it into another entry.\<close>

lemma iupdate_law:
  assumes "in_op s" and "lhn s < 29" and "i_dev (itab s ip) = ldev s" and "\<not> in_log (lstart s) (IBLOCK (i_inum (itab s ip)) (fsb s))"
  obtains t where "iupdate s ip = Ok t" "in_op t" "fs_same s t" "lhn t \<le> lhn s + 1"
    "fview t = (fview s)(IBLOCK (i_inum (itab s ip)) (fsb s) :=
       st_dinode (fview s (IBLOCK (i_inum (itab s ip)) (fsb s))) (dip_off (i_inum (itab s ip))) (i_d (itab s ip)))"
  by (rule modify [OF assms(1,2,4), where x = "st_dinode (fview s (IBLOCK (i_inum (itab s ip)) (fsb s)))
       (dip_off (i_inum (itab s ip))) (i_d (itab s ip))"])
    (auto simp: iupdate_def assms(3) intro: that)

lemma itab_cache [simp]: "binv D (s\<lparr>itab := x\<rparr>) = binv D s" "cabs D (s\<lparr>itab := x\<rparr>) = cabs D s"
  by (simp_all add: binv_def cabs_def cong: option.case_cong)

lemma itab_upd [simp]:
  "log_ok (s\<lparr>itab := x\<rparr>) = log_ok s" "in_op (s\<lparr>itab := x\<rparr>) = in_op s" "fview (s\<lparr>itab := x\<rparr>) = fview s"
  by (simp_all add: log_ok_def in_op_def fview_def)

lemma upd_buf_itab: "upd_buf (s\<lparr>itab := x\<rparr>) b f = (upd_buf s b f)\<lparr>itab := x\<rparr>"
  by (simp add: upd_buf_def)

lemma brelse_itab: "brelse (s\<lparr>itab := x\<rparr>) b = bnd (brelse s b) (\<lambda>t. Ok (t\<lparr>itab := x\<rparr>))"
  by (simp add: brelse_def move_front_def Let_def upd_buf_itab)

lemma ilock_law:
  assumes "in_op s" and "1 \<le> i_ref (itab s q)" and "\<not> slocked (i_lock (itab s q))" and "\<not> i_valid (itab s q)" and "i_dev (itab s q) = ldev s"
    and "d = ld_dinode (fview s (IBLOCK (i_inum (itab s q)) (fsb s))) (dip_off (i_inum (itab s q)))" and "d_type d \<noteq> 0"
  obtains t where "ilock s (Some q) = Ok t" "i_d (itab t q) = d" "i_valid (itab t q)" "fview t = fview s"
    "\<And>j. j \<noteq> q \<Longrightarrow> itab t j = itab s j"
proof -
  define s0 where "s0 = upd_inode s q (\<lambda>x. x\<lparr>i_lock := (i_lock (itab s q))\<lparr>slocked := True, spid := curpid s\<rparr>\<rparr>)"
  have s0: "in_op s0" "fview s0 = fview s" "fsb s0 = fsb s" "ldev s0 = ldev s" "i_dev (itab s0 q) = ldev s" "\<not> i_valid (itab s0 q)"
    "i_inum (itab s0 q) = i_inum (itab s q)" "\<And>j. j \<noteq> q \<Longrightarrow> itab s0 j = itab s j"
    using assms(1,4,5) by (simp_all add: s0_def upd_inode_def)
  have e: "ilock s (Some q) =
      bnd (bread s0 (ldev s) (IBLOCK (i_inum (itab s q)) (fsb s))) (\<lambda>(bp, s).
        let s = upd_inode s q (\<lambda>x. x\<lparr>i_d := ld_dinode (bdata (bufs s bp)) (dip_off (i_inum x))\<rparr>) in
        bnd (brelse s bp) (\<lambda>s. let s = upd_inode s q (\<lambda>x. x\<lparr>i_valid := True\<rparr>) in
          if d_type (i_d (itab s q)) = 0 then Panic ''ilock: no type'' else Ok s))"
    using assms(2,3) s0(3,5,6,7) by (simp add: ilock_def acquiresleep_def s0_def [symmetric] Let_def)
  obtain b s1 s2 where "bread s0 (ldev s) (IBLOCK (i_inum (itab s q)) (fsb s)) = Ok (b, s1)"
    "bdata (bufs s1 b) = fview s (IBLOCK (i_inum (itab s q)) (fsb s))" "itab s1 = itab s0" "brelse s1 b = Ok s2" "fview s2 = fview s"
    by (rule peek [OF s0(1), where n = "IBLOCK (i_inum (itab s q)) (fsb s)"]) (use s0(2,4) in auto)
  then show thesis using assms(6,7) s0(7,8)
    by (intro that [of "s2\<lparr>itab := (itab s0)(q := (itab s0 q)\<lparr>i_d := d, i_valid := True\<rparr>)\<rparr>"])
      (simp_all add: e Let_def upd_inode_def brelse_itab)
qed

text \<open>
  C32. An inode survives the way to the disk and back. Inside a transaction with room in the log
  \<^verbatim>\<open>iupdate\<close> succeeds; the inode's place on disk then holds every field of it, all other inodes,
  also those in the same block, are as before, and \<^verbatim>\<open>ilock\<close> on any entry that is to be loaded from
  that place gets the same type, device, link count, size and addresses.
\<close>

theorem inode_roundtrip:
  assumes "in_op s" and "lhn s < 29" and "i_dev (itab s ip) = ldev s" and "i_inum (itab s ip) = n"
    and "\<not> in_log (lstart s) (IBLOCK n (fsb s))"
  shows "\<exists>t. iupdate s ip = Ok t \<and> in_op t \<and> fs_same s t \<and>
    ld_dinode (fview t (IBLOCK n (fsb s))) (dip_off n) = trim (i_d (itab s ip)) \<and>
    (\<forall>m. m \<noteq> n \<longrightarrow> ld_dinode (fview t (IBLOCK m (fsb s))) (dip_off m) = ld_dinode (fview s (IBLOCK m (fsb s))) (dip_off m)) \<and>
    (\<forall>q. 1 \<le> i_ref (itab s q) \<and> \<not> slocked (i_lock (itab s q)) \<and> \<not> i_valid (itab s q) \<and> i_dev (itab s q) = ldev s \<and>
      i_inum (itab s q) = n \<and> d_type (i_d (itab s ip)) \<noteq> 0 \<longrightarrow>
      (\<exists>u. ilock t (Some q) = Ok u \<and> i_valid (itab u q) \<and> i_d (itab u q) = trim (i_d (itab s ip))))"
proof -
  let ?N = "IBLOCK n (fsb s)"
  obtain t where t: "iupdate s ip = Ok t" "in_op t" "fs_same s t"
    "fview t = (fview s)(?N := st_dinode (fview s ?N) (dip_off n) (i_d (itab s ip)))"
    using iupdate_law [OF assms(1-3)] assms(4,5) by auto
  have here: "ld_dinode (fview t ?N) (dip_off n) = trim (i_d (itab s ip))" using t(4) by (simp add: ld_st_dinode)
  have other: "ld_dinode (fview t (IBLOCK m (fsb s))) (dip_off m) = ld_dinode (fview s (IBLOCK m (fsb s))) (dip_off m)" if "m \<noteq> n" for m
    using dip_off_apart [OF that, of "fsb s"] by (auto simp: t(4) intro!: ld_dinode_cong st_dinode_frame)
  have e: "itab t = itab s" "fsb t = fsb s" "ldev t = ldev s" using t(3) by (simp_all add: fs_same_def)
  have "\<exists>u. ilock t (Some q) = Ok u \<and> i_valid (itab u q) \<and> i_d (itab u q) = trim (i_d (itab s ip))"
    if "1 \<le> i_ref (itab s q)" "\<not> slocked (i_lock (itab s q))" "\<not> i_valid (itab s q)" "i_dev (itab s q) = ldev s" "i_inum (itab s q) = n"
      "d_type (i_d (itab s ip)) \<noteq> 0" for q
    by (rule ilock_law [OF t(2), of q "trim (i_d (itab s ip))"]) (use that here e in auto)
  then show ?thesis using t(1-3) here other by blast
qed

text \<open>A file system over a started log, with one transaction open: entries 0 and 1 are of inode 7.\<close>

definition dinode7 :: dinode where
  "dinode7 = \<lparr>d_type = T_FILE, d_major = 0, d_minor = 0, d_nlink = 1, d_size = 5, d_addrs = (\<lambda>i. if i = 0 then 100 else 0)\<rparr>"

definition fs_over :: "logst \<Rightarrow> fsst" where
  "fs_over s = \<lparr>bufs = bufs s, disk = disk s, dwrites = dwrites s, curpid = curpid s, lstart = lstart s, lsize = lsize s,
     outstanding = 1, committing = committing s, ldev = ldev s, lhn = lhn s, lhblock = lhblock s,
     pt = zero_ptab \<lparr>memory = (\<lambda>_. 0), freelist = 0, counter = (\<lambda>_. 0), kend = KERNBASE\<rparr>, fsb = sb0,
     itab = (\<lambda>i. \<lparr>i_dev = 1, i_inum = (if i < 2 then 7 else 0), i_ref = (if i < 2 then 1 else 0), i_lock = initsleeplock,
       i_valid = (i = 0), i_d = dinode7\<rparr>)\<rparr>"

lemma fs_over_cache: "binv D (fs_over s) = binv D s" "cabs D (fs_over s) = cabs D s"
  by (simp_all add: fs_over_def binv_def cabs_def cong: option.case_cong)

lemma fs_over_ok: "log_ok s \<Longrightarrow> lsize s = 30 \<Longrightarrow> in_op (fs_over s)"
  by (simp add: in_op_def log_ok_def fs_over_cache) (simp add: fs_over_def)

theorem inode_roundtrip_witness:
  "\<exists>s t :: fsst. in_op s \<and> iupdate s 0 = Ok t \<and> (\<exists>u. ilock t (Some 1) = Ok u \<and> d_size (i_d (itab u 1)) = 5)"
proof -
  obtain s :: logst where s: "log_ok s" "lhn s = 0" "lstart s = 2" "ldev s = 1" "lsize s = 30" using recover_sb0 by blast
  let ?s = "fs_over s"
  have i: "in_op ?s" by (rule fs_over_ok [OF s(1,5)])
  have p: "lhn ?s < 29" "i_dev (itab ?s 0) = ldev ?s" "i_inum (itab ?s 0) = 7" "\<not> in_log (lstart ?s) (IBLOCK 7 (fsb ?s))"
    using s by (simp_all add: fs_over_def in_log_def IBLOCK_def sb0_def LOGSIZE_val IPB_def BSIZE_def)
  have q: "1 \<le> i_ref (itab ?s 1) \<and> \<not> slocked (i_lock (itab ?s 1)) \<and> \<not> i_valid (itab ?s 1) \<and> i_dev (itab ?s 1) = ldev ?s \<and>
      i_inum (itab ?s 1) = 7 \<and> d_type (i_d (itab ?s 0)) \<noteq> 0"
    using s(4) by (simp add: fs_over_def initsleeplock_def dinode7_def T_FILE_def)
  have "d_size (i_d (itab ?s 0)) = 5" by (simp add: fs_over_def dinode7_def)
  then show ?thesis using inode_roundtrip [OF i p] q i by (metis trim_simps(2))
qed

text \<open>A disk whose bitmap has the first 46 blocks in use, as after \<^verbatim>\<open>mkfs\<close> without files.\<close>

definition bitmap46 :: "u32 \<Rightarrow> block" where
  "bitmap46 = (\<lambda>_ _. 0)(45 := (\<lambda>i. if i < 5 then 255 else if i = 5 then 63 else 0))"

lemma bits46: "n < 46 \<Longrightarrow> bit (bitmap46 45 (n div 8)) (n mod 8)"
proof -
  assume n: "n < 46"
  have f: "bit (255 :: u8) k" if "k < 8" for k :: nat
  proof -
    have "k = 0 \<or> k = 1 \<or> k = 2 \<or> k = 3 \<or> k = 4 \<or> k = 5 \<or> k = 6 \<or> k = 7" using that by linarith
    then show ?thesis by (elim disjE) simp_all
  qed
  have g: "bit (63 :: u8) k" if "k < 6" for k :: nat
  proof -
    have "k = 0 \<or> k = 1 \<or> k = 2 \<or> k = 3 \<or> k = 4 \<or> k = 5" using that by linarith
    then show ?thesis by (elim disjE) simp_all
  qed
  show ?thesis
  proof (cases "n div 8 < 5")
    case True
    then show ?thesis using f by (simp add: bitmap46_def)
  next
    case False
    then have "n div 8 = 5" "n mod 8 < 6" using n div_mult_mod_eq [of n 8] by linarith+
    then show ?thesis using g by (simp add: bitmap46_def)
  qed
qed

theorem balloc_fresh_witness: "\<exists>s :: fsst. in_op s \<and> bitmap_ok s \<and> \<not> used s 46 \<and> (\<exists>r t. balloc s 1 = Ok (r, t) \<and> unat r = 46)"
proof -
  obtain s0 :: logst where s0: "log_ok s0" "lhn s0 = 0" "lstart s0 = 2" "ldev s0 = 1" "lsize s0 = 30" "cview (cabs 1 s0) 45 = bitmap46 45"
  proof -
    have h: "header_ok 2 (bitmap46 2)" "(1 :: u32) \<noteq> 0" "sb_logstart sb0 = 2" "sint (sb_nlog sb0) = 30" "replay_writes 2 bitmap46 = []"
      by (simp_all add: header_ok_def hdn_def LOGSIZE_val bitmap46_def ld32_zero sb0_def replay_writes_def)
    then show thesis using recover_law [of 2 bitmap46 sb0 1] that by fastforce
  qed
  let ?s = "fs_over s0"
  have i: "in_op ?s" and l: "lhn ?s < 28" using fs_over_ok [OF s0(1,5)] s0(2) by (simp_all add: fs_over_def)
  have f: "fsb ?s = sb0" "ldev ?s = 1" "lstart ?s = 2" using s0(3,4) by (simp_all add: fs_over_def)
  have B: "BBLOCK (of_nat n) sb0 = 45" if "n < 2000" for n
    using BBLOCK_eq [of n 0 sb0] that by (simp add: BPB_def BSIZE_def) (simp add: BBLOCK_def sb0_def)
  have u: "used ?s n \<longleftrightarrow> bit (bitmap46 45 (n div 8)) (n mod 8)" if "n < 2000" for n
    using that s0(6) B [OF that] by (simp add: used_def f fview_def fs_over_cache bitmask_bit BPB_def BSIZE_def)
  have "n \<noteq> 0 \<and> \<not> in_log 2 (of_nat n) \<and> (\<forall>m < 2000. of_nat n \<noteq> BBLOCK (of_nat m) sb0)" if "n < 2000" "\<not> used ?s n" for n
  proof -
    have n: "46 \<le> n" using bits46 [of n] u [OF that(1)] that(2) by (cases "n < 46") simp_all
    have "unat (of_nat n - 2 :: u32) = n - 2" "(of_nat n :: u32) \<noteq> 45"
      using n that(1) by (simp_all add: unat_sub word_le_nat_alt unat_of_nat take_bit_nat_eq_self word_unat_eq_iff)
    then show ?thesis using n B by (simp add: in_log_def LOGSIZE_val)
  qed
  then have ok: "bitmap_ok ?s" using B by (simp add: bitmap_ok_def f) (simp add: sb0_def in_log_def LOGSIZE_val)
  have free: "\<not> used ?s 46" using u [of 46] by (simp add: bitmap46_def)
  have sz: "46 < unat (sb_size (fsb ?s))" "unat (sb_size (fsb ?s)) + BPB \<le> 2 ^ 31" by (simp_all add: f sb0_def BPB_def BSIZE_def)
  obtain r t where r: "balloc ?s 1 = Ok (r, t)" "r = 0 \<longleftrightarrow> (\<forall>n < unat (sb_size (fsb ?s)). used ?s n)"
    "r \<noteq> 0 \<longrightarrow> \<not> used ?s (unat r) \<and> (\<forall>n < unat r. used ?s n)"
    using balloc_fresh [OF i l ok refl sz(2)] f by auto
  have "r \<noteq> 0" using r(2) sz(1) free by blast
  then have r3: "\<not> used ?s (unat r)" "\<forall>n < unat r. used ?s n" using r(3) by simp_all
  have "\<not> 46 < unat r" using r3(2) free by blast
  moreover have "\<not> unat r < 46"
  proof
    assume "unat r < 46"
    then show False using r3(1) bits46 [of "unat r"] u [of "unat r"] by simp
  qed
  ultimately have "unat r = 46" by simp
  then show ?thesis using r(1) free i ok by blast
qed

end
