(* ===== verification/Ioprops.thy ===== *)
theory Ioprops
  imports File
begin

text \<open>
  What the character devices promise: numbers are printed in decimal, the rings of the console and
  of the UART never overflow, and editing a line is editing a list.
\<close>

section \<open>Printing\<close>

lemma consputs_eq:
  "consputs s cs = (if cs = [] then Ok s else if panicked s then Blocked
     else Ok (s\<lparr>uart_out := uart_out s @ cs, thr_room := thr_room s - length cs\<rparr>))"
proof (induction cs arbitrary: s)
  case (Cons c cs)
  have "uint c \<noteq> BACKSPACE" using uint_bounded [of c] by (simp add: BACKSPACE_def)
  then show ?case by (auto simp: Cons consputc_def uartputc_sync_def)
qed simp

text \<open>The digits of a number, most significant first.\<close>

function nat_digits :: "nat \<Rightarrow> nat \<Rightarrow> nat list" where
  "nat_digits b n = (if b \<le> 1 \<or> n < b then [n] else nat_digits b (n div b) @ [n mod b])"
  by pat_completeness auto

termination
  by (relation "measure snd") auto

declare nat_digits.simps [simp del]

lemma nat_digits_value: "1 < b \<Longrightarrow> foldl (\<lambda>v d. v * b + d) 0 (nat_digits b n) = n"
  by (induction b n rule: nat_digits.induct) (subst nat_digits.simps, simp)

lemma nat_digits_length: "1 < b \<Longrightarrow> 0 < k \<Longrightarrow> n < b ^ k \<Longrightarrow> length (nat_digits b n) \<le> k"
proof (induction b n arbitrary: k rule: nat_digits.induct)
  case (1 b n)
  show ?case
  proof (cases "n < b")
    case False
    then obtain j where k: "k = Suc j" "0 < j" using 1(4) 1(3) by (cases k; cases "k - 1") auto
    then have "n div b < b ^ j" using 1(4) by (simp add: less_mult_imp_div_less mult.commute)
    then have "length (nat_digits b (n div b)) \<le> j" using 1 False k by simp
    then show ?thesis using False 1(2) k by (subst nat_digits.simps) simp
  qed (use 1(3) in \<open>simp add: nat_digits.simps\<close>)
qed

lemma digits_loop_eq: "1 < b \<Longrightarrow> rev (digits_loop x b) = map ((!) char_digits) (nat_digits (unat b) (unat x))"
proof (induction x b rule: digits_loop.induct)
  case (1 x b)
  have b: "1 < unat b" using 1(2) by (simp add: word_less_nat_alt)
  have d: "x div b \<noteq> 0 \<longleftrightarrow> \<not> unat x < unat b" using b by (simp add: word_unat_eq_iff unat_div div_eq_0_iff)
  show ?case
    by (subst digits_loop.simps, subst nat_digits.simps) (use 1 b d in \<open>auto simp: unat_div unat_mod\<close>)
qed

lemma unat_abs: "unat (if sint x < 0 then - x else x) = nat \<bar>sint x\<bar>" for x :: u32
proof -
  have r: "- (2 ^ 31) \<le> sint x" "sint x < 2 ^ 31" using sint_ge [of x] sint_lt [of x] by simp_all
  have "(if sint x < 0 then - x else x) = of_int \<bar>sint x\<bar>" by simp
  also have "unat \<dots> = nat \<bar>sint x\<bar>" using r by (simp add: unsigned_of_int take_bit_int_eq_self)
  finally show ?thesis .
qed

lemma nat_digits_less: "1 < b \<Longrightarrow> d \<in> set (nat_digits b n) \<Longrightarrow> d < b"
  by (induction b n rule: nat_digits.induct) (subst (asm) (2) nat_digits.simps, auto split: if_splits)

lemma nat_digits_lead: "1 < b \<Longrightarrow> 0 < n \<Longrightarrow> nat_digits b n \<noteq> [] \<and> hd (nat_digits b n) \<noteq> 0"
proof (induction b n rule: nat_digits.induct)
  case (1 b n)
  show ?case by (subst nat_digits.simps, subst (2) nat_digits.simps) (use 1 in \<open>auto simp: div_greater_zero_iff\<close>)
qed

text \<open>
  C34. \<^verbatim>\<open>printint\<close>, signed or unsigned, in base 10 or 16, prints the number it is given: the bytes sent to
  the console are a minus sign, if it is signed and the number is negative, and the digits of the
  absolute value, or of the number read without sign, with no leading zero; read back, the digits
  give the value, and the buffer of 16 characters is never exceeded. The one exception is the least
  32-bit number printed signed, whose negation is undefined.
\<close>

theorem printint_prints:
  fixes s :: "'a ttyst_scheme" and xx base :: u32 and sign :: bool
  assumes "base = 10 \<or> base = 16"
  defines "m \<equiv> if sign then nat \<bar>sint xx\<bar> else unat xx" and "B \<equiv> unat base"
  shows "printint s xx base sign = (if sign \<and> sint xx = - (2 ^ 31) then Undef
      else consputs s ((if sign \<and> sint xx < 0 then [45] else []) @ map ((!) char_digits) (nat_digits B m))) \<and>
    foldl (\<lambda>v d. v * B + d) 0 (nat_digits B m) = m \<and> (\<forall>d \<in> set (nat_digits B m). d < B) \<and>
    (0 < m \<longrightarrow> hd (nat_digits B m) \<noteq> 0) \<and> (\<forall>buf. printint_buf xx base sign = Ok buf \<longrightarrow> length buf \<le> 11)"
proof -
  have b: "1 < base" "1 < B" using assms(1) by (auto simp: B_def)
  have m: "unat (if sign \<and> sint xx < 0 then - xx else xx) = m" using unat_abs [of xx] by (auto simp: m_def)
  define buf where "buf = digits_loop (if sign \<and> sint xx < 0 then - xx else xx) base @ (if sign \<and> sint xx < 0 then [45] else [])"
  have e: "printint_buf xx base sign = (if sign \<and> sint xx = - (2 ^ 31) then Undef else Ok buf)"
    by (auto simp: printint_buf_def buf_def Let_def)
  have r: "rev buf = (if sign \<and> sint xx < 0 then [45] else []) @ map ((!) char_digits) (nat_digits B m)"
    using digits_loop_eq [OF b(1), of "if sign \<and> sint xx < 0 then - xx else xx"] unfolding buf_def m B_def by simp
  have "m < 2 ^ 32" unfolding m [symmetric] by (rule order_less_le_trans [OF unsigned_less]) simp
  then have "m < 10 ^ 10" by simp
  also have "\<dots> \<le> B ^ 10" using assms(1) by (intro power_mono) (auto simp: B_def)
  finally have "length (nat_digits B m) \<le> 10" using b by (intro nat_digits_length) simp_all
  then have "length buf \<le> 11" using arg_cong [OF r, of length] by simp
  then show ?thesis using b nat_digits_value [OF b(2), of m] nat_digits_less [OF b(2)] nat_digits_lead [OF b(2)]
    by (simp add: printint_def e r)
qed

section \<open>Output changes nothing else\<close>

text \<open>Unless the kernel has panicked, printing changes what the UART was given and its room only.\<close>

definition prints :: "'a ttyst_scheme \<Rightarrow> 'a ttyst_scheme res \<Rightarrow> bool" where
  "prints s m \<longleftrightarrow> (\<exists>out room. m = Ok (s\<lparr>uart_out := out, thr_room := room\<rparr>))"

lemma prints_Ok [simp]: "prints s (Ok s)"
  unfolding prints_def by (rule exI [of _ "uart_out s"], rule exI [of _ "thr_room s"]) simp

lemma prints_bnd:
  assumes "prints s m" and "\<And>out room. prints (s\<lparr>uart_out := out, thr_room := room\<rparr>) (f (s\<lparr>uart_out := out, thr_room := room\<rparr>))"
  shows "prints s (bnd m f)"
  using assms by (fastforce simp: prints_def)

lemma prints_consputc: "\<not> panicked s \<Longrightarrow> prints s (consputc s c)"
  by (auto simp: prints_def consputc_def uartputc_sync_def)

lemma prints_consputs: "\<not> panicked s \<Longrightarrow> prints s (consputs s cs)"
  by (induction cs arbitrary: s) (auto intro!: prints_bnd prints_consputc)

text \<open>The arguments fit the format, and no number is the least one.\<close>

fun fits :: "u8 list \<Rightarrow> pfarg list \<Rightarrow> bool" where
  "fits [] ap = True"
| "fits [c] ap = True"
| "fits (c # d # fmt) ap =
     (if c \<noteq> of_char (CHR ''%'') then fits (d # fmt) ap
      else if d = of_char (CHR ''d'') \<or> d = of_char (CHR ''x'') then
        (case ap of PfInt x # ap \<Rightarrow> sint x \<noteq> - (2 ^ 31) \<and> fits fmt ap | _ \<Rightarrow> False)
      else if d = of_char (CHR ''p'') then (case ap of PfPtr x # ap \<Rightarrow> fits fmt ap | _ \<Rightarrow> False)
      else if d = of_char (CHR ''s'') then (case ap of PfStr x # ap \<Rightarrow> fits fmt ap | _ \<Rightarrow> False)
      else fits fmt ap)"

lemma prints_printint: "\<not> panicked s \<Longrightarrow> sint x \<noteq> - (2 ^ 31) \<Longrightarrow> prints s (printint s x base sign)"
  by (simp add: printint_def printint_buf_def Let_def prints_consputs)

lemma prints_printf: "\<not> panicked s \<Longrightarrow> fits fmt ap \<Longrightarrow> prints s (printf s fmt ap)"
proof (induction fmt ap arbitrary: s rule: fits.induct)
  case (3 c d fmt ap)
  then show ?case
    by (auto split: list.splits pfarg.splits if_splits simp: printptr_def
      intro!: prints_bnd prints_printint prints_consputc prints_consputs simp del: printf.simps fits.simps simp: printf.simps(2) [of _ c] fits.simps(3))
qed (auto intro!: prints_bnd prints_consputc)

text \<open>The process ids of the table are those that \<^verbatim>\<open>allocpid\<close> gives, or 0.\<close>

definition pids_ok :: "'a ttyst_scheme \<Rightarrow> bool" where
  "pids_ok s \<longleftrightarrow> (\<forall>i. 0 \<le> p_pid (procs (pt s) i) \<and> p_pid (procs (pt s) i) < 2 ^ 31)"

lemma pid_printable: "0 \<le> i \<Longrightarrow> i < 2147483648 \<Longrightarrow> sint (word_of_int i :: u32) \<noteq> - 2147483648"
  by (simp add: signed_of_int signed_take_bit_int_eq_self)

lemma prints_procdump: "\<not> panicked s \<Longrightarrow> pids_ok s \<Longrightarrow> prints s (procdump s)"
proof -
  have l: "prints s (procdump_loop s i k)" if "\<not> panicked s" "pids_ok s" for s i k
    using that by (induction k arbitrary: s i)
      (auto simp: Let_def pids_ok_def pid_printable simp del: printf.simps intro!: prints_bnd prints_printf)
  show "\<not> panicked s \<Longrightarrow> pids_ok s \<Longrightarrow> prints s (procdump s)"
    unfolding procdump_def by (intro prints_bnd prints_printf l) (simp_all add: pids_ok_def)
qed

text \<open>The same of printing that may not return.\<close>

definition if_prints :: "'a ttyst_scheme \<Rightarrow> 'a ttyst_scheme res \<Rightarrow> bool" where
  "if_prints s m \<longleftrightarrow> (\<forall>t. m = Ok t \<longrightarrow> (\<exists>out room. t = s\<lparr>uart_out := out, thr_room := room\<rparr>))"

lemma if_prints_simps [simp]: "if_prints s Undef" "if_prints s Blocked" "if_prints s (Ok s)"
  using prints_Ok [of s] by (auto simp: if_prints_def prints_def)

lemma if_prints_bnd:
  assumes "if_prints s m" and "\<And>out room. if_prints (s\<lparr>uart_out := out, thr_room := room\<rparr>) (f (s\<lparr>uart_out := out, thr_room := room\<rparr>))"
  shows "if_prints s (bnd m f)"
  using assms by (fastforce simp: if_prints_def bnd_eq_Ok)

lemma if_prints_consputc: "if_prints s (consputc s c)"
  by (auto simp: if_prints_def consputc_def uartputc_sync_def)

lemma if_prints_consputs: "if_prints s (consputs s cs)"
  by (induction cs arbitrary: s) (auto intro!: if_prints_bnd if_prints_consputc)

lemma if_prints_printint: "if_prints s (printint s x base sign)"
  by (auto simp: printint_def printint_buf_def Let_def intro!: if_prints_bnd if_prints_consputc if_prints_consputs)

lemma if_prints_printf: "if_prints s (printf s fmt ap)"
proof (induction "length fmt" arbitrary: s fmt ap rule: less_induct)
  case less
  show ?case by (cases fmt) (auto simp: printptr_def intro!: if_prints_bnd if_prints_printint if_prints_consputc if_prints_consputs less.hyps
    split: list.split pfarg.split)
qed

lemma if_prints_procdump: "if_prints s (procdump s)"
proof -
  have l: "if_prints s (procdump_loop s i k)" for s i k
    by (induction k arbitrary: s i) (auto simp: Let_def simp del: printf.simps intro!: if_prints_bnd if_prints_printf)
  show ?thesis unfolding procdump_def by (intro if_prints_bnd if_prints_printf l)
qed

section \<open>Line editing\<close>

text \<open>The reference: the lines that wait and the line being edited, as lists.\<close>

definition edit :: "u8 list \<times> u8 list \<Rightarrow> u8 \<Rightarrow> u8 list \<times> u8 list" where
  "edit = (\<lambda>(ls, l) c.
     if c = ctrl (CHR ''P'') then (ls, l)
     else if c = ctrl (CHR ''U'') then (ls, [])
     else if c = ctrl (CHR ''H'') \<or> c = 0x7f then (ls, butlast l)
     else if c \<noteq> 0 \<and> length ls + length l < INPUT_BUF_SIZE then
       let c = (if c = 13 then 10 else c) in
       if c = 10 \<or> c = ctrl (CHR ''D'') \<or> length ls + length l + 1 = INPUT_BUF_SIZE then (ls @ l @ [c], []) else (ls, l @ [c])
     else (ls, l))"

definition con_abs :: "'a ttyst_scheme \<Rightarrow> u8 list \<times> u8 list" where
  "con_abs s = (con_lines s, con_line s)"

text \<open>The input ring holds what fits, and the line being edited has no newline.\<close>

definition con_ok :: "'a ttyst_scheme \<Rightarrow> bool" where
  "con_ok s \<longleftrightarrow> length (con_lines s) + length (con_line s) \<le> INPUT_BUF_SIZE \<and> 10 \<notin> set (con_line s)"

lemma con_lens: "unat (con_w s - con_r s) = length (con_lines s)" "unat (con_e s - con_w s) = length (con_line s)"
  by (simp_all add: con_lines_def con_line_def)

lemma con_total: "length (con_lines s) + length (con_line s) \<le> INPUT_BUF_SIZE \<Longrightarrow> unat (con_e s - con_r s) = length (con_lines s) + length (con_line s)"
  using cons.split_at(2) [of "con_w s" "con_r s" "con_e s"] by (simp add: con_lines_def con_line_def INPUT_BUF_SIZE_def)

lemma con_split: "length (con_lines s) + length (con_line s) \<le> INPUT_BUF_SIZE \<Longrightarrow>
    ring_list INPUT_BUF_SIZE (con_buf s) (con_r s) (con_e s) = con_lines s @ con_line s"
  using cons.split_at(1) [of "con_w s" "con_r s" "con_e s"] by (simp add: con_lines_def con_line_def INPUT_BUF_SIZE_def)

lemma con_same:
  assumes "con_buf t = con_buf s" "con_r t = con_r s" "con_w t = con_w s" "con_e t = con_e s"
  shows "con_lines t = con_lines s" "con_line t = con_line s" "con_abs t = con_abs s" "con_ok t = con_ok s"
  using assms by (simp_all add: con_lines_def con_line_def con_abs_def con_ok_def)

lemma con_line_Nil: "con_line s = [] \<longleftrightarrow> con_w s = con_e s"
  by (simp add: con_line_def ring_list_Nil_iff)

lemma con_erase:
  assumes "con_e s \<noteq> con_w s"
  shows "con_line (s\<lparr>con_e := con_e s - 1\<rparr>) = butlast (con_line s)" "con_lines (s\<lparr>con_e := e\<rparr>) = con_lines s"
    "last (con_line s) = con_buf s (unat (con_e s - 1) mod INPUT_BUF_SIZE)"
  using cons.unpush [of "con_w s" "con_e s" "con_buf s"] assms by (auto simp: con_line_def con_lines_def)

text \<open>Storing a character behind the line.\<close>

lemma con_store:
  fixes c :: u8
  assumes room: "length (con_lines s) + length (con_line s) < INPUT_BUF_SIZE"
  defines "t \<equiv> s\<lparr>con_buf := (con_buf s)(unat (con_e s) mod INPUT_BUF_SIZE := c), con_e := con_e s + 1\<rparr>"
  shows "con_lines t = con_lines s" "con_line t = con_line s @ [c]"
proof -
  have p: "ring_list INPUT_BUF_SIZE (con_buf t) (con_w t) (con_e t) = con_line s @ [c]"
    using cons.push [of "con_e s" "con_w s" "con_buf s" c] room by (simp add: t_def con_line_def INPUT_BUF_SIZE_def)
  then show l: "con_line t = con_line s @ [c]" by (simp add: con_line_def)
  have "ring_list INPUT_BUF_SIZE (con_buf t) (con_r t) (con_e t) = con_lines s @ con_line s @ [c]"
    using cons.push [of "con_e s" "con_r s" "con_buf s" c] room con_total [of s] con_split [of s]
    by (simp add: t_def INPUT_BUF_SIZE_def)
  moreover have "unat (con_w t - con_r t) = length (con_lines s)" by (simp add: t_def con_lines_def)
  moreover have "unat (con_e t - con_w t) = length (con_line s) + 1" using arg_cong [OF l, of length] by (simp add: con_line_def)
  ultimately have "con_lines t @ con_line t = con_lines s @ con_line s @ [c]"
    using cons.split_at(1) [of "con_w t" "con_r t" "con_e t" "con_buf t"] room by (simp add: con_lines_def con_line_def INPUT_BUF_SIZE_def)
  then show "con_lines t = con_lines s" by (simp add: l)
qed

lemma con_commit:
  "length (con_lines s) + length (con_line s) \<le> INPUT_BUF_SIZE \<Longrightarrow> con_lines (s\<lparr>con_w := con_e s\<rparr>) = con_lines s @ con_line s"
  "con_line (s\<lparr>con_w := con_e s\<rparr>) = []"
  using con_split [of s] by (simp_all add: con_lines_def con_line_def)

text \<open>What the input side leaves alone.\<close>

definition rest_same :: "'a ttyst_scheme \<Rightarrow> 'a ttyst_scheme \<Rightarrow> bool" where
  "rest_same s t \<longleftrightarrow> panicked t = panicked s \<and> rhr t = rhr s \<and> tx_queue t = tx_queue s \<and> pids_ok t = pids_ok s"

lemma rest_same_trans: "rest_same s t \<Longrightarrow> rest_same t u \<Longrightarrow> rest_same s u"
  by (simp add: rest_same_def)

lemma prints_con:
  assumes "prints s m"
  obtains t where "m = Ok t" "con_lines t = con_lines s" "con_line t = con_line s" "rest_same s t" "con_e t = con_e s" "con_w t = con_w s"
    "con_r t = con_r s" "con_buf t = con_buf s"
  using assms by (auto simp: prints_def con_lines_def con_line_def rest_same_def tx_queue_def pids_ok_def)

lemma pids_ok_simps [simp]: "pids_ok (on_pt s (\<lambda>p. wakeup p ch)) = pids_ok s" "pids_ok (s\<lparr>rhr := x\<rparr>) = pids_ok s"
  "pids_ok (s\<lparr>con_e := e\<rparr>) = pids_ok s" "pids_ok (s\<lparr>con_w := e\<rparr>) = pids_ok s" "pids_ok (s\<lparr>con_buf := m\<rparr>) = pids_ok s"
proof -
  have "p_pid (woken m ch i x) = p_pid x" for m i and x :: proc by (simp add: woken_def)
  then show "pids_ok (on_pt s (\<lambda>p. wakeup p ch)) = pids_ok s" by (simp add: pids_ok_def wakeup_def wakeup_loop_procs)
qed (simp_all add: pids_ok_def)

lemma kill_line_law:
  "\<not> panicked s \<Longrightarrow> 10 \<notin> set (con_line s) \<Longrightarrow>
   \<exists>t. kill_line s = Ok t \<and> con_lines t = con_lines s \<and> con_line t = [] \<and> rest_same s t"
proof (induction s rule: kill_line.induct)
  case (1 s)
  show ?case
  proof (cases "con_e s = con_w s")
    case True
    then show ?thesis by (simp add: kill_line.simps [of s] con_line_Nil rest_same_def)
  next
    case False
    let ?s = "s\<lparr>con_e := con_e s - 1\<rparr>"
    note er = con_erase [OF False]
    have ne: "con_line s \<noteq> []" using False by (auto simp: con_line_Nil)
    have b: "con_buf s (unat (con_e s - 1) mod INPUT_BUF_SIZE) \<noteq> 10" using 1(3) last_in_set [OF ne] er(3) by auto
    obtain t where t: "consputc ?s BACKSPACE = Ok t" "con_lines t = con_lines ?s" "con_line t = con_line ?s" "rest_same ?s t"
      by (rule prints_con [OF prints_consputc [of ?s BACKSPACE]]) (use 1(2) in auto)
    have "\<not> panicked t" "10 \<notin> set (con_line t)" using 1(2,3) t(3,4) er(1) by (auto simp: rest_same_def dest: in_set_butlastD)
    then obtain u where "kill_line t = Ok u" "con_lines u = con_lines t" "con_line u = []" "rest_same t u"
      using 1(1) [OF _ t(1)] False b by blast
    moreover have "kill_line s = kill_line t" using False b t(1) by (simp add: kill_line.simps [of s])
    ultimately show ?thesis using t(2,4) er(2) by (auto simp: rest_same_def tx_queue_def)
  qed
qed

lemma store_law:
  assumes "con_ok s" and "\<not> panicked s" and room: "length (con_lines s) + length (con_line s) < INPUT_BUF_SIZE"
  shows "\<exists>t. bnd (consputc s (uint c)) (\<lambda>s.
      let s = s\<lparr>con_buf := (con_buf s)(unat (con_e s) mod INPUT_BUF_SIZE := c), con_e := con_e s + 1\<rparr> in
      if c = 10 \<or> c = ctrl (CHR ''D'') \<or> con_e s - con_r s = of_nat INPUT_BUF_SIZE
      then Ok (on_pt (s\<lparr>con_w := con_e s\<rparr>) (\<lambda>p. wakeup p ChCons)) else Ok s) = Ok t \<and> con_ok t \<and> rest_same s t \<and>
    con_abs t = (if c = 10 \<or> c = ctrl (CHR ''D'') \<or> length (con_lines s) + length (con_line s) + 1 = INPUT_BUF_SIZE
      then (con_lines s @ con_line s @ [c], []) else (con_lines s, con_line s @ [c]))"
proof -
  obtain u where u: "consputc s (uint c) = Ok u" "con_lines u = con_lines s" "con_line u = con_line s" "rest_same s u"
    by (rule prints_con [OF prints_consputc [OF assms(2), of "uint c"]]) auto
  define v where "v = u\<lparr>con_buf := (con_buf u)(unat (con_e u) mod INPUT_BUF_SIZE := c), con_e := con_e u + 1\<rparr>"
  have v: "con_lines v = con_lines s" "con_line v = con_line s @ [c]"
    using con_store [of u c] room u(2,3) by (simp_all add: v_def)
  have rs: "rest_same s v" using u(4) by (simp add: v_def rest_same_def tx_queue_def)
  have le: "length (con_lines v) + length (con_line v) \<le> INPUT_BUF_SIZE" using room by (simp add: v)
  note tot = con_total [OF le] and sp = con_commit(1) [OF le]
  have full: "con_e v - con_r v = of_nat INPUT_BUF_SIZE \<longleftrightarrow> length (con_lines s) + length (con_line s) + 1 = INPUT_BUF_SIZE"
    by (subst word_unat_eq_iff) (simp add: tot v INPUT_BUF_SIZE_def)
  let ?w = "on_pt (v\<lparr>con_w := con_e v\<rparr>) (\<lambda>p. wakeup p ChCons)"
  have w: "con_lines ?w = con_lines s @ con_line s @ [c]" "con_line ?w = []" "rest_same s ?w"
    using sp rs v by (simp_all add: con_lines_def con_line_def rest_same_def tx_queue_def)
  let ?C = "c = 10 \<or> c = ctrl (CHR ''D'') \<or> length (con_lines s) + length (con_line s) + 1 = INPUT_BUF_SIZE"
  have "bnd (consputc s (uint c)) (\<lambda>s.
      let s = s\<lparr>con_buf := (con_buf s)(unat (con_e s) mod INPUT_BUF_SIZE := c), con_e := con_e s + 1\<rparr> in
      if c = 10 \<or> c = ctrl (CHR ''D'') \<or> con_e s - con_r s = of_nat INPUT_BUF_SIZE
      then Ok (on_pt (s\<lparr>con_w := con_e s\<rparr>) (\<lambda>p. wakeup p ChCons)) else Ok s) = Ok (if ?C then ?w else v)"
    unfolding u(1) bnd.simps v_def [symmetric] Let_def full by simp
  moreover have "con_ok (if ?C then ?w else v)" using assms(1) room w v by (auto simp: con_ok_def)
  ultimately show ?thesis using w v rs by (auto simp: con_abs_def)
qed

lemma consoleintr_law:
  assumes ok: "con_ok s" and np: "\<not> panicked s" and pids: "c = ctrl (CHR ''P'') \<Longrightarrow> pids_ok s"
  shows "\<exists>t. consoleintr s c = Ok t \<and> con_ok t \<and> rest_same s t \<and> con_abs t = edit (con_abs s) c"
proof -
  have rfl: "rest_same s s" by (simp add: rest_same_def)
  have tot: "con_e s - con_r s < of_nat INPUT_BUF_SIZE \<longleftrightarrow> length (con_lines s) + length (con_line s) < INPUT_BUF_SIZE"
    using con_total [of s] ok by (simp add: word_less_nat_alt con_ok_def INPUT_BUF_SIZE_def)
  consider "c = ctrl (CHR ''P'')" | "c \<noteq> ctrl (CHR ''P'')" "c = ctrl (CHR ''U'')"
    | "c \<noteq> ctrl (CHR ''P'')" "c \<noteq> ctrl (CHR ''U'')" "c = ctrl (CHR ''H'') \<or> c = 0x7f"
    | "c \<noteq> ctrl (CHR ''P'')" "c \<noteq> ctrl (CHR ''U'')" "\<not> (c = ctrl (CHR ''H'') \<or> c = 0x7f)" by blast
  then show ?thesis
  proof cases
    case 1
    obtain t where "procdump s = Ok t" "con_lines t = con_lines s" "con_line t = con_line s" "rest_same s t"
      by (rule prints_con [OF prints_procdump [OF np pids [OF 1]]])
    then show ?thesis using 1 ok by (simp add: consoleintr_def edit_def con_abs_def con_ok_def)
  next
    case 2
    obtain t where "kill_line s = Ok t" "con_lines t = con_lines s" "con_line t = []" "rest_same s t"
      using kill_line_law [OF np] ok by (auto simp: con_ok_def)
    then show ?thesis using 2 ok by (simp add: consoleintr_def edit_def con_abs_def con_ok_def)
  next
    case 3
    show ?thesis
    proof (cases "con_e s = con_w s")
      case True
      then have "con_line s = []" by (simp add: con_line_Nil)
      then show ?thesis using 3 True ok rfl by (auto simp: consoleintr_def edit_def con_abs_def)
    next
      case False
      let ?s = "s\<lparr>con_e := con_e s - 1\<rparr>"
      obtain t where t: "consputc ?s BACKSPACE = Ok t" "con_lines t = con_lines ?s" "con_line t = con_line ?s" "rest_same ?s t"
        by (rule prints_con [OF prints_consputc [of ?s BACKSPACE]]) (use np in auto)
      then show ?thesis using 3 False ok con_erase [OF False]
        by (auto simp: consoleintr_def edit_def con_abs_def con_ok_def rest_same_def tx_queue_def dest: in_set_butlastD)
    qed
  next
    case 4
    show ?thesis
    proof (cases "c \<noteq> 0 \<and> length (con_lines s) + length (con_line s) < INPUT_BUF_SIZE")
      case True
      then show ?thesis using 4 store_law [OF ok np, of "if c = 13 then 10 else c"]
        by (auto simp: consoleintr_def tot edit_def con_abs_def Let_def)
    next
      case False
      then show ?thesis using 4 ok rfl by (auto simp: consoleintr_def tot edit_def con_abs_def)
    qed
  qed
qed

lemma uartintr_loop_law:
  "con_ok s \<Longrightarrow> \<not> panicked s \<Longrightarrow> length (rhr s) < k \<Longrightarrow> ctrl (CHR ''P'') \<in> set (rhr s) \<longrightarrow> pids_ok s \<Longrightarrow>
   \<exists>t. uartintr_loop k s = Ok t \<and> con_ok t \<and> rhr t = [] \<and> \<not> panicked t \<and> tx_queue t = tx_queue s \<and>
     con_abs t = foldl edit (con_abs s) (rhr s)"
proof (induction k arbitrary: s)
  case (Suc k)
  show ?case
  proof (cases "rhr s")
    case Nil
    then show ?thesis using Suc.prems by (simp add: uartgetc_def)
  next
    case (Cons c cs)
    let ?s = "s\<lparr>rhr := cs\<rparr>"
    have e: "con_ok ?s" "con_abs ?s = con_abs s" "tx_queue ?s = tx_queue s"
      using Suc.prems(1) by (simp_all add: con_ok_def con_abs_def con_lines_def con_line_def tx_queue_def)
    obtain t where t: "consoleintr ?s c = Ok t" "con_ok t" "rest_same ?s t" "con_abs t = edit (con_abs s) c"
      using consoleintr_law [OF e(1), of c] Suc.prems(2,4) e(2) Cons by auto
    have "\<not> panicked t" "length (rhr t) < k" "rhr t = cs" "tx_queue t = tx_queue s" "ctrl (CHR ''P'') \<in> set cs \<longrightarrow> pids_ok t"
      using t(3) Suc.prems(2-4) Cons e(3) by (simp_all add: rest_same_def)
    then show ?thesis using Suc.IH [OF t(2)] t(1,4) Cons by (simp add: uartgetc_def)
  qed
qed simp

text \<open>
  C35. The UART interrupt serves all its input. Unless the kernel has panicked, \<^verbatim>\<open>uartintr\<close> returns with no
  received byte left; the console's lines and the line under edit are then those of the reference
  editor after the same bytes, for any number of bytes and any values of the wrapping indices; and
  the transmitter got the waiting output in order, until there is no more output or no more room.
  Where control-P asks for the list of processes, the table has process ids that can be printed.
\<close>

theorem uartintr_edits:
  assumes "con_ok s" and "\<not> panicked s" and "ctrl (CHR ''P'') \<in> set (rhr s) \<longrightarrow> pids_ok s"
  shows "\<exists>t k. uartintr s = Ok t \<and> rhr t = [] \<and> con_ok t \<and> (con_lines t, con_line t) = foldl edit (con_lines s, con_line s) (rhr s) \<and>
    tx_queue t = drop k (tx_queue s) \<and> (\<exists>out. uart_out t = out @ take k (tx_queue s)) \<and>
    (tx_queue t = [] \<or> thr_room t = 0)"
proof -
  obtain u where u: "uartintr_loop (Suc (length (rhr s))) s = Ok u" "con_ok u" "rhr u = []" "tx_queue u = tx_queue s"
    "con_abs u = foldl edit (con_abs s) (rhr s)"
    using uartintr_loop_law [OF assms(1,2) _ assms(3), of "Suc (length (rhr s))"] by auto
  then have e: "uartintr s = Ok (uartstart u)" by (simp add: uartintr_def)
  have "tx_queue (uartstart u) = [] \<or> thr_room (uartstart u) = 0" using uartstart_law [of u] by auto
  then show ?thesis using e uartstart_law [of u] u(2-5) con_same [of "uartstart u" u]
    by (intro exI [of _ "uartstart u"] exI [of _ "min (thr_room u) (length (tx_queue u))"]) (auto simp: con_abs_def)
qed

section \<open>The rings stay within their bounds\<close>

definition tty_ok :: "'a ttyst_scheme \<Rightarrow> bool" where
  "tty_ok s \<longleftrightarrow> con_ok s \<and> length (tx_queue s) \<le> UART_TX_BUF_SIZE"

text \<open>After a panic nothing is printed any more.\<close>

lemma panicked_blocks:
  assumes "panicked s"
  shows "consputc s c = Blocked" "procdump s = Blocked"
  using assms by (auto simp: consputc_def uartputc_sync_def procdump_def BACKSPACE_def)

lemma consoleintr_ok:
  assumes "tty_ok s" and "consoleintr s c = Ok t"
  shows "tty_ok t"
proof (cases "panicked s")
  case True
  then have "t = s" using assms(2)
    by (auto simp: consoleintr_def panicked_blocks kill_line.simps [of s] Let_def split: if_splits)
  then show ?thesis using assms(1) by simp
next
  case np: False
  show ?thesis
  proof (cases "c = ctrl (CHR ''P'')")
    case True
    then obtain out room where "t = s\<lparr>uart_out := out, thr_room := room\<rparr>"
      using if_prints_procdump [of s] assms(2) by (auto simp: consoleintr_def if_prints_def)
    then show ?thesis using assms(1) by (simp add: tty_ok_def con_ok_def con_lines_def con_line_def tx_queue_def)
  next
    case False
    then show ?thesis using consoleintr_law [of s c] np assms by (auto simp: tty_ok_def rest_same_def)
  qed
qed

lemma uartstart_ok: "tty_ok s \<Longrightarrow> tty_ok (uartstart s)"
  using uartstart_law [of s] con_same(4) [of "uartstart s" s] by (auto simp: tty_ok_def)

lemma tty_ok_pt [simp]: "tty_ok (s\<lparr>pt := p\<rparr>) = tty_ok s" "tty_ok (on_pt s f) = tty_ok s" "tty_ok (s\<lparr>rhr := x\<rparr>) = tty_ok s"
  by (simp_all add: tty_ok_def con_ok_def con_lines_def con_line_def tx_queue_def)

lemma uartputc_ok:
  assumes "tty_ok s" and "uartputc s c = Ok (r, t)"
  shows "tty_ok t"
proof (cases "tx_w s = tx_r s + of_nat UART_TX_BUF_SIZE")
  case True
  then show ?thesis using assms by (auto simp: uartputc_def split: if_splits)
next
  case False
  let ?s = "s\<lparr>tx_buf := (tx_buf s)(unat (tx_w s) mod UART_TX_BUF_SIZE := c), tx_w := tx_w s + 1\<rparr>"
  have "unat (tx_w s - tx_r s) \<noteq> UART_TX_BUF_SIZE"
  proof
    assume "unat (tx_w s - tx_r s) = UART_TX_BUF_SIZE"
    then have "tx_w s - tx_r s = of_nat UART_TX_BUF_SIZE" by (metis of_nat_unat ucast_id)
    then show False using False by (simp add: algebra_simps)
  qed
  then have "unat (tx_w s - tx_r s) < UART_TX_BUF_SIZE" using assms(1) by (simp add: tty_ok_def tx_queue_def)
  then have "tx_queue ?s = tx_queue s @ [c]" "length (tx_queue s) < UART_TX_BUF_SIZE"
    using tx.push [of "tx_w s" "tx_r s" "tx_buf s" c] by (simp_all add: tx_queue_def UART_TX_BUF_SIZE_def)
  moreover have "con_ok ?s" using assms(1) by (simp add: tty_ok_def con_ok_def con_lines_def con_line_def)
  ultimately have "tty_ok ?s" by (simp add: tty_ok_def)
  then show ?thesis using assms(2) False uartstart_ok [of ?s] by (auto simp: uartputc_def split: if_splits)
qed

lemma consolewrite_ok: "tty_ok s \<Longrightarrow> consolewrite_loop k s u src i = Ok (r, t) \<Longrightarrow> tty_ok t"
proof (induction k arbitrary: s i)
  case (Suc k)
  show ?case using Suc.prems
    by (auto simp: Let_def bnd_eq_Ok dest!: uartputc_ok [rotated] intro: Suc.IH split: if_splits prod.splits)
qed auto

lemma con_pop:
  assumes "con_ok s" and "con_r s \<noteq> con_w s"
  shows "con_ok (s\<lparr>con_r := con_r s + 1\<rparr>)"
proof -
  have "con_lines s = con_buf s (unat (con_r s) mod INPUT_BUF_SIZE) # con_lines (s\<lparr>con_r := con_r s + 1\<rparr>)"
    using cons.pop [OF assms(2), of "con_buf s"] by (simp add: con_lines_def)
  moreover have "con_line (s\<lparr>con_r := con_r s + 1\<rparr>) = con_line s" by (simp add: con_line_def)
  ultimately show ?thesis using assms(1) by (simp add: con_ok_def)
qed

lemma tty_pop: "tty_ok s \<Longrightarrow> con_r s \<noteq> con_w s \<Longrightarrow> tty_ok (s\<lparr>con_r := con_r s + 1\<rparr>)"
  using con_pop [of s] by (simp add: tty_ok_def tx_queue_def)

lemma consoleread_ok: "tty_ok s \<Longrightarrow> consoleread_loop k s u dst n = Ok (r, t) \<Longrightarrow> tty_ok t"
proof (induction k arbitrary: s dst)
  case (Suc k)
  show ?case
  proof (cases "con_r s = con_w s")
    case False
    have p: "tty_ok (s\<lparr>con_r := con_r s + 1, pt := q\<rparr>)" "tty_ok (s\<lparr>con_r := con_r s + 1\<rparr>)" for q
      using tty_pop [OF Suc.prems(1) False] by simp_all
    show ?thesis using Suc.prems False p
      by (auto simp: Let_def bnd_eq_Ok intro: Suc.IH [OF p(1)] split: if_splits prod.splits)
  qed (use Suc.prems in \<open>auto split: if_splits\<close>)
qed auto

text \<open>
  C36. The buffers of the console and of the UART never overflow: the wrapping read, write and edit
  indices stay in order and within 128 of each other, the line under edit has no newline, and the
  transmit indices stay within 32, through every operation that returns: an input interrupt, a read
  or write of the device by a process, finished or asleep, and a whole UART interrupt.
\<close>

theorem tty_rings_bounded:
  assumes "tty_ok s"
  shows "(\<forall>c t. consoleintr s c = Ok t \<longrightarrow> tty_ok t) \<and> (\<forall>u dst n r t. consoleread s u dst n = Ok (r, t) \<longrightarrow> tty_ok t) \<and>
    (\<forall>u src n r t. consolewrite s u src n = Ok (r, t) \<longrightarrow> tty_ok t) \<and> (\<forall>t. uartintr s = Ok t \<longrightarrow> tty_ok t) \<and>
    unat (con_w s - con_r s) + unat (con_e s - con_w s) \<le> 128 \<and> unat (tx_w s - tx_r s) \<le> 32"
proof -
  have l: "tty_ok t" if "tty_ok s" "uartintr_loop k s = Ok t" for k and s t :: "'a ttyst_scheme"
    using that by (induction k arbitrary: s) (auto simp: uartgetc_def bnd_eq_Ok dest: consoleintr_ok [rotated] split: list.splits)
  have "tty_ok t" if "consoleread s u dst n = Ok (r, t)" for u dst n r t
    using that assms by (auto simp: consoleread_def split: if_splits elim: consoleread_ok)
  moreover have "tty_ok t" if "uartintr s = Ok t" for t
    using that l [OF assms] uartstart_ok by (auto simp: uartintr_def bnd_eq_Ok simp del: uartintr_loop.simps)
  moreover have "length (con_lines s) + length (con_line s) \<le> 128" "unat (tx_w s - tx_r s) \<le> 32"
    using assms by (simp_all add: tty_ok_def con_ok_def tx_queue_def INPUT_BUF_SIZE_def UART_TX_BUF_SIZE_def)
  ultimately show ?thesis using consoleintr_ok [OF assms] consolewrite_ok [OF assms] by (simp add: consolewrite_def con_lens)
qed

section \<open>A sample machine\<close>

text \<open>The user has typed \<^verbatim>\<open>hx\<close>, backspace, \<^verbatim>\<open>i\<close> and return; the console's indices are about to wrap.\<close>

definition tty0 :: ttyst where
  "tty0 = \<lparr>bufs = (\<lambda>_. zero_buf), disk = (\<lambda>_ _. 0), dwrites = [], curpid = 1, lstart = 2, lsize = 30, outstanding = 0, committing = False,
     ldev = 1, lhn = 0, lhblock = (\<lambda>_. 0),
     pt = zero_ptab \<lparr>memory = (\<lambda>_. 0), freelist = 0, counter = (\<lambda>_. 0), kend = KERNBASE\<rparr>, fsb = sb0,
     itab = (\<lambda>_. \<lparr>i_dev = 0, i_inum = 0, i_ref = 0, i_lock = initsleeplock, i_valid = False, i_d = zero_dinode\<rparr>),
     con_buf = (\<lambda>_. 0), con_r = - 1, con_w = - 1, con_e = - 1, tx_buf = (\<lambda>_. 0), tx_w = 0, tx_r = 0, thr_room = 1, uart_out = [],
     rhr = [104, 120, 8, 16, 105, 13], uart_ctl = [], panicked = False, dev_read = (\<lambda>_. False), dev_write = (\<lambda>_. False)\<rparr>"

lemma tty0_simps:
  "rhr tty0 = [104, 120, 8, 16, 105, 13]" "\<not> panicked tty0" "con_lines tty0 = []" "con_line tty0 = []" "tx_queue tty0 = []" "con_ok tty0" "tty_ok tty0"
  "pids_ok tty0"
  by (simp_all add: tty0_def con_lines_def con_line_def tx_queue_def con_ok_def tty_ok_def pids_ok_def zero_ptab_def zero_proc_def)

theorem printint_prints_witness:
  "printint tty0 (- 26) 16 True = consputs tty0 [45, 49, 97] \<and> printint tty0 26 10 False = consputs tty0 [50, 54]"
proof -
  have d: "nat_digits 16 26 = [1, 10]" "nat_digits 10 26 = [2, 6]" by (simp_all add: nat_digits.simps)
  have c: "char_digits ! Suc 0 = 49" "char_digits ! 10 = 97" "char_digits ! 2 = 50" "char_digits ! 6 = 54" by (simp_all add: char_digits_def)
  show ?thesis using printint_prints [of 16 tty0 "- 26" True] printint_prints [of 10 tty0 26 False] by (simp add: d c)
qed

theorem uartintr_edits_witness: "\<exists>t. uartintr tty0 = Ok t \<and> con_lines t = [104, 105, 10] \<and> con_line t = []"
proof -
  have "foldl edit ([], []) [104, 120, 8, 16, 105, 13] = ([104, 105, 10], [])" by (simp add: edit_def ctrl_def INPUT_BUF_SIZE_def)
  then show ?thesis using uartintr_edits [OF tty0_simps(6,2)] tty0_simps(8) by (auto simp: tty0_simps)
qed

theorem tty_rings_bounded_witness: "tty_ok tty0 \<and> (\<exists>t. uartintr tty0 = Ok t \<and> tty_ok t \<and> unat (con_w tty0 - con_r tty0) \<le> 128)"
proof -
  obtain t where t: "uartintr tty0 = Ok t"
    using uartintr_loop_law [OF tty0_simps(6,2), of "Suc (length (rhr tty0))"] tty0_simps(8) by (auto simp: uartintr_def simp del: uartintr_loop.simps)
  have "unat (con_w tty0 - con_r tty0) + unat (con_e tty0 - con_w tty0) \<le> 128" using tty_rings_bounded [OF tty0_simps(7)] by blast
  then show ?thesis using tty_rings_bounded [OF tty0_simps(7)] t tty0_simps(7) by auto
qed

end
