(* ===== verification/Objcopy.thy ===== *)
theory Objcopy
  imports Ptable Memprops
begin

text \<open>
  What \<^verbatim>\<open>copyin\<close> and \<^verbatim>\<open>copyout\<close> of a kernel variable do to the address spaces, for the callers that
  know the variable by its bytes.
\<close>

lemma same_view_trans: "same_view m m1 Rs \<Longrightarrow> same_view m1 m2 Rs \<Longrightarrow> same_view m m2 Rs"
  by (simp add: same_view_def)

text \<open>The address spaces are well-formed and the kernel's variables at \<open>xfer\<close> are kernel memory.\<close>

definition stage_ok :: "'a ptab_scheme \<Rightarrow> u64 set \<Rightarrow> (u64 \<Rightarrow> int) \<Rightarrow> nat \<Rightarrow> bool" where
  "stage_ok p Rs E n \<longleftrightarrow> vok (kmem p) Rs E \<and> unat (xfer p) + n < 2 ^ 64 \<and> (\<forall>i < n. kdata (kmem p) E (xfer p + of_nat i))"

abbreviation root_of :: "'a ptab_scheme \<Rightarrow> u64" where
  "root_of p \<equiv> p_pagetable (myproc p)"

abbreviation umem :: "'a ptab_scheme \<Rightarrow> mem" where
  "umem p \<equiv> memory (kmem p)"

lemma stage_write:
  assumes st: "stage_ok p Rs E n" and n: "length bs \<le> n"
  defines "m \<equiv> write_mem (umem p) (xfer p) bs"
  shows "vok ((kmem p)\<lparr>memory := m\<rparr>) Rs E" and "same_view (umem p) m Rs"
    and "\<And>i. i < length bs \<Longrightarrow> kdata ((kmem p)\<lparr>memory := m\<rparr>) E (xfer p + of_nat i)"
    and "unat (xfer p) + length bs < 2 ^ 64" and "unat (of_nat (length bs) :: u64) = length bs"
    and "\<And>i. i < length bs \<Longrightarrow> m (xfer p + of_nat i) = bs ! i"
proof -
  have vk: "vok (kmem p) Rs E" using st by (simp add: stage_ok_def)
  have fr: "m x = umem p x" if "\<not> kdata (kmem p) E x" for x
  proof (cases "unat (x - xfer p) < length bs")
    case True
    then have "kdata (kmem p) E (xfer p + of_nat (unat (x - xfer p)))" using st n unfolding stage_ok_def by (meson less_le_trans)
    then show ?thesis using that by simp
  qed (simp add: m_def write_mem_def)
  show "vok ((kmem p)\<lparr>memory := m\<rparr>) Rs E" by (rule kernel_write(1) [OF vk fr])
  show "same_view (umem p) m Rs" by (rule kernel_write(2) [OF vk fr])
  show l: "unat (xfer p) + length bs < 2 ^ 64" using st n by (simp add: stage_ok_def)
  then show "unat (of_nat (length bs) :: u64) = length bs" by (simp add: unat_of_nat take_bit_nat_eq_self)
  show "kdata ((kmem p)\<lparr>memory := m\<rparr>) E (xfer p + of_nat i)" if "i < length bs" for i
    using st n that by (simp add: stage_ok_def kdata_def page_ok_def)
  show "m (xfer p + of_nat i) = bs ! i" if "i < length bs" for i
    using that l by (simp add: m_def write_mem_def unat_of_nat take_bit_nat_eq_self)
qed

lemma stage_kmem:
  assumes "stage_ok p Rs E n" and "vok k Rs E" and "page_ok k = page_ok (kmem p)"
  shows "stage_ok (p\<lparr>kmem := k\<rparr>) Rs E n"
  using assms by (simp add: stage_ok_def kdata_def)

lemma unat_ofs: "i < n \<Longrightarrow> n < 2 ^ 64 \<Longrightarrow> unat (a + of_nat i - a :: u64) = i"
  by (simp add: unat_of_nat take_bit_nat_eq_self)

lemma copyin_obj_law:
  assumes st: "stage_ok p Rs E n" and n: "length bs \<le> n" and r: "r \<in> Rs"
  shows "\<exists>res cs p'. copyin_obj p r a bs = Ok (res, cs, p') \<and> (res = 0 \<or> res = -1) \<and> length cs = length bs \<and>
    stage_ok p' Rs E n \<and> p' = p\<lparr>kmem := kmem p'\<rparr> \<and> same_view (umem p) (umem p') Rs \<and>
    (res = 0 \<longrightarrow> (\<forall>i < length bs. uload (umem p) r (a + of_nat i) = Some (cs ! i))) \<and>
    (res = -1 \<longrightarrow> (\<exists>i < length bs. uload (umem p) r (a + of_nat i) = None))"
proof -
  let ?m = "write_mem (umem p) (xfer p) bs"
  let ?k = "(kmem p)\<lparr>memory := ?m\<rparr>"
  note w = stage_write [OF st n]
  obtain res k' where c: "copyin ?k r (xfer p) a (of_nat (length bs)) = Ok (res, k')" "res = 0 \<or> res = -1"
    and ci: "copied_in ?k k' Rs E r (xfer p) a (of_nat (length bs)) (res = 0)"
    using copyin_spec [OF w(1) r, of "xfer p" "of_nat (length bs)" a] w(3,4,5) by auto
  have l: "length bs < 2 ^ 64" using w(4) by simp
  have v: "uload ?m r c = uload (umem p) r c" for c using w(2) r by (simp add: same_view_def)
  have "page_ok k' = page_ok (kmem p)" using ci by (auto simp: copied_in_def page_ok_def)
  then have "stage_ok (p\<lparr>kmem := k'\<rparr>) Rs E n" using ci by (intro stage_kmem [OF st]) (auto simp: copied_in_def)
  moreover have "same_view (umem p) (memory k') Rs" using same_view_trans [OF w(2)] ci by (simp add: copied_in_def)
  moreover have "uload (umem p) r (a + of_nat i) = Some (read_mem (memory k') (xfer p) (length bs) ! i)"
    if "res = 0" "i < length bs" for i
    using ci that w(5) unat_ofs [OF that(2) l, of a] v by (auto simp: copied_in_def read_mem_def)
  moreover have "\<exists>i < length bs. uload (umem p) r (a + of_nat i) = None" if f: "res = -1"
  proof -
    obtain x where "unat (x - a) < length bs" "uload (umem p) r x = None" using ci f w(5) v by (auto simp: copied_in_def)
    then show ?thesis by (intro exI [of _ "unat (x - a)"]) simp
  qed
  ultimately show ?thesis using c by (auto simp: copyin_obj_def Let_def)
qed

text \<open>The copy of one byte.\<close>

lemma copyin_byte:
  assumes st: "stage_ok p Rs E 1" and r: "r \<in> Rs"
  obtains res c p' where "copyin_obj p r a [b] = Ok (res, [c], p')" and "res = 0 \<or> res = -1" and "stage_ok p' Rs E 1"
    and "p' = p\<lparr>kmem := kmem p'\<rparr>" and "same_view (umem p) (umem p') Rs"
    and "res = 0 \<Longrightarrow> uload (umem p) r a = Some c" and "res = -1 \<Longrightarrow> uload (umem p) r a = None"
proof -
  obtain res cs p' where c: "copyin_obj p r a [b] = Ok (res, cs, p')" "res = 0 \<or> res = -1" "length cs = 1" "stage_ok p' Rs E 1"
    "p' = p\<lparr>kmem := kmem p'\<rparr>" "same_view (umem p) (umem p') Rs"
    "res = 0 \<Longrightarrow> uload (umem p) r a = Some (cs ! 0)" "res = -1 \<Longrightarrow> uload (umem p) r a = None"
    using copyin_obj_law [OF st _ r, of "[b]" a] by auto
  moreover obtain x where "cs = [x]" using c(3) by (auto simp: length_Suc_conv)
  ultimately show ?thesis using that by simp
qed

lemma copyout_obj_law:
  assumes st: "stage_ok p Rs E n" and n: "length bs \<le> n" and r: "r \<in> Rs"
  shows "\<exists>res p'. copyout_obj p r a bs = Ok (res, p') \<and> (res = 0 \<or> res = -1) \<and>
    stage_ok p' Rs E n \<and> p' = p\<lparr>kmem := kmem p'\<rparr> \<and>
    (\<forall>r' \<in> Rs. \<forall>c. uwritable (umem p') r' c = uwritable (umem p) r' c) \<and>
    (\<forall>r' \<in> Rs. \<forall>c. r' \<noteq> r \<or> length bs \<le> unat (c - a) \<longrightarrow> uload (umem p') r' c = uload (umem p) r' c) \<and>
    (res = 0 \<longrightarrow> (\<forall>i < length bs. uload (umem p') r (a + of_nat i) = Some (bs ! i)))"
proof -
  let ?m = "write_mem (umem p) (xfer p) bs"
  let ?k = "(kmem p)\<lparr>memory := ?m\<rparr>"
  note w = stage_write [OF st n]
  obtain res k' where c: "copyout ?k r a (xfer p) (of_nat (length bs)) = Ok (res, k')" "res = 0 \<or> res = -1"
    and co: "copied_out ?k k' Rs E r a (xfer p) (of_nat (length bs)) (res = 0)"
    using copyout_spec [OF w(1) r, of "xfer p" "of_nat (length bs)" a] w(3,4,5) by auto
  have l: "length bs < 2 ^ 64" using w(4) by simp
  have v: "uload ?m r' c = uload (umem p) r' c" "uwritable ?m r' c = uwritable (umem p) r' c" if "r' \<in> Rs" for r' c
    using w(2) that by (auto simp: same_view_def)
  have "page_ok k' = page_ok (kmem p)" using co by (auto simp: copied_out_def page_ok_def)
  then have "stage_ok (p\<lparr>kmem := k'\<rparr>) Rs E n" using co by (intro stage_kmem [OF st]) (auto simp: copied_out_def)
  moreover have "uload (memory k') r (a + of_nat i) = Some (bs ! i)" if "res = 0" "i < length bs" for i
    using co that w(5,6) unat_ofs [OF that(2) l, of a] by (auto simp: copied_out_def)
  moreover have "uload (memory k') r' c = uload (umem p) r' c" if "r' \<in> Rs" "r' \<noteq> r \<or> length bs \<le> unat (c - a)" for r' c
    using co that w(5) v(1) [OF that(1)] by (auto simp: copied_out_def)
  ultimately show ?thesis using c co v(2) by (auto simp: copyout_obj_def Let_def copied_out_def)
qed

end
