(* ===== verification/Pipeprops.thy ===== *)
theory Pipeprops
  imports Ioprops Objcopy
begin

text \<open>
  Pipes as queues of bytes between address spaces: the bytes that \<^verbatim>\<open>pipewrite\<close> appends are those that
  the writer holds, and \<^verbatim>\<open>piperead\<close> hands the oldest ones to the reader, whatever the free-running
  indices are.
\<close>

section \<open>The ring\<close>

definition pipe_ok :: "pipe \<Rightarrow> bool" where
  "pipe_ok x \<longleftrightarrow> unat (pp_nwrite x - pp_nread x) \<le> PIPESIZE"

definition pipe_put :: "pipe \<Rightarrow> u8 \<Rightarrow> pipe" where
  "pipe_put x c = x\<lparr>pp_data := (pp_data x)(unat (pp_nwrite x) mod PIPESIZE := c), pp_nwrite := pp_nwrite x + 1\<rparr>"

definition pipe_get :: "pipe \<Rightarrow> pipe" where
  "pipe_get x = x\<lparr>pp_nread := pp_nread x + 1\<rparr>"

lemma length_pipe_queue: "length (pipe_queue x) = unat (pp_nwrite x - pp_nread x)"
  by (simp add: pipe_queue_def)

lemma pipe_ok_length: "pipe_ok x \<longleftrightarrow> length (pipe_queue x) \<le> PIPESIZE"
  by (simp add: pipe_ok_def length_pipe_queue)

lemma pipe_full: "pp_nwrite x = pp_nread x + of_nat PIPESIZE \<longleftrightarrow> length (pipe_queue x) = PIPESIZE"
proof -
  have "unat (of_nat PIPESIZE :: u32) = PIPESIZE" by (simp add: PIPESIZE_def)
  then have "length (pipe_queue x) = PIPESIZE \<longleftrightarrow> pp_nwrite x - pp_nread x = of_nat PIPESIZE"
    unfolding length_pipe_queue by (metis word_unat_eq_iff)
  then show ?thesis by (simp add: algebra_simps)
qed

lemma pipe_empty: "pp_nread x = pp_nwrite x \<longleftrightarrow> pipe_queue x = []"
  by (simp add: pipe_queue_def ring_list_Nil_iff)

lemma pipe_put_queue:
  assumes "length (pipe_queue x) < PIPESIZE"
  shows "pipe_queue (pipe_put x c) = pipe_queue x @ [c]"
proof -
  have "PIPESIZE < 2 ^ LENGTH(32)" by (simp add: PIPESIZE_def)
  then show ?thesis using pp.push [of "pp_nwrite x" "pp_nread x"] assms by (simp add: pipe_queue_def pipe_put_def)
qed

lemma pipe_get_queue:
  assumes "pipe_queue x \<noteq> []"
  shows "pipe_queue x = pp_data x (unat (pp_nread x) mod PIPESIZE) # pipe_queue (pipe_get x)"
  using pp.pop [of "pp_nread x" "pp_nwrite x"] assms pipe_empty [of x] by (simp add: pipe_queue_def pipe_get_def)

lemma pipe_put_flags [simp]: "pp_readopen (pipe_put x c) = pp_readopen x" "pp_writeopen (pipe_put x c) = pp_writeopen x"
  by (simp_all add: pipe_put_def)

section \<open>Processes asleep on the pipe\<close>

definition none_asleep :: "'a ptab_scheme \<Rightarrow> chan \<Rightarrow> bool" where
  "none_asleep p ch \<longleftrightarrow> (\<forall>j < NPROC. j \<noteq> me p \<longrightarrow> \<not> (p_state (procs p j) = SLEEPING \<and> p_chan (procs p j) = ch))"

definition asleep_on :: "'a ptab_scheme \<Rightarrow> chan \<Rightarrow> bool" where
  "asleep_on p ch \<longleftrightarrow> p_state (myproc p) = SLEEPING \<and> p_chan (myproc p) = ch"

lemma wakeup_me [simp]: "me (wakeup p ch) = me p" "kmem (wakeup p ch) = kmem p" "xfer (wakeup p ch) = xfer p"
  by (subst wakeup_frame, simp)+

lemma woken_pagetable [simp]: "p_pagetable (woken m ch i p) = p_pagetable p"
  by (simp add: woken_def)

lemma wakeup_root [simp]: "root_of (wakeup p ch) = root_of p"
  by (simp add: myproc_def wakeup_procs)

lemma sleep_enter_me [simp]:
  "me (sleep_enter p ch) = me p" "kmem (sleep_enter p ch) = kmem p" "xfer (sleep_enter p ch) = xfer p"
  "root_of (sleep_enter p ch) = root_of p" "asleep_on (sleep_enter p ch) ch"
  by (simp_all add: sleep_enter_def myproc_def asleep_on_def)

lemma wakeup_none_asleep: "none_asleep (wakeup p ch) ch"
  by (auto simp: none_asleep_def wakeup_procs woken_def)

lemma sleep_none_asleep: "none_asleep p ch \<Longrightarrow> none_asleep (sleep_enter p ch') ch"
  by (auto simp: none_asleep_def sleep_enter_def)

lemma stage_frame [simp]:
  "stage_ok (wakeup p ch) Rs E n = stage_ok p Rs E n" "stage_ok (sleep_enter p ch) Rs E n = stage_ok p Rs E n"
  by (simp_all add: stage_ok_def)

lemma on_pt_pipes [simp]: "pipes (on_pt s f) = pipes s" "pt (on_pt s f) = f (pt s)"
  by (simp_all add: on_pt_def)

section \<open>Writing\<close>

text \<open>
  What a call of \<^verbatim>\<open>pipewrite\<close> that has \<open>k\<close> bytes left at index \<open>i\<close> does with result \<open>res\<close>: it appends \<open>bs\<close>.
\<close>

definition wrote :: "'a kern_scheme \<Rightarrow> 'a kern_scheme \<Rightarrow> u64 \<Rightarrow> u64 \<Rightarrow> u64 set \<Rightarrow> (u64 \<Rightarrow> int) \<Rightarrow> nat \<Rightarrow> nat \<Rightarrow> u8 list \<Rightarrow> int + nat \<Rightarrow> bool" where
  "wrote s t pi addr Rs E k i bs res \<longleftrightarrow>
     pipe_queue (pipes t pi) = pipe_queue (pipes s pi) @ bs \<and> pipe_ok (pipes t pi) \<and> length bs \<le> k \<and>
     (\<forall>j < length bs. uload (umem (pt s)) (root_of (pt s)) (addr + of_nat (i + j)) = Some (bs ! j)) \<and>
     (\<forall>q. q \<noteq> pi \<longrightarrow> pipes t q = pipes s q) \<and> stage_ok (pt t) Rs E 1 \<and> same_view (umem (pt s)) (umem (pt t)) Rs \<and>
     (res = Inl (-1) \<longleftrightarrow> (\<not> pp_readopen (pipes s pi) \<or> killed (pt s) (me (pt s))) \<and> 0 < k) \<and>
     (case res of
        Inl r \<Rightarrow> if r = -1 then t = s \<and> bs = []
          else r = int (i + length bs) \<and> none_asleep (pt t) (ChPipeRead pi) \<and>
            (length bs < k \<longrightarrow> uload (umem (pt s)) (root_of (pt s)) (addr + of_nat (i + length bs)) = None)
      | Inr c \<Rightarrow> c = i + length bs \<and> c < i + k \<and> length (pipe_queue (pipes t pi)) = PIPESIZE \<and>
          none_asleep (pt t) (ChPipeRead pi) \<and> asleep_on (pt t) (ChPipeWrite pi))"

lemma wrote_step:
  assumes "wrote u t pi addr Rs E k (Suc i) bs res"
    and u: "u = upd_pipe (s\<lparr>pt := p\<rparr>) pi (\<lambda>x. pipe_put x c)" "p = (pt s)\<lparr>kmem := kmem p\<rparr>" "same_view (umem (pt s)) (umem p) Rs"
    and r: "root_of (pt s) \<in> Rs" and c: "uload (umem (pt s)) (root_of (pt s)) (addr + of_nat i) = Some c"
    and l: "length (pipe_queue (pipes s pi)) < PIPESIZE" and g: "pp_readopen (pipes s pi)" "\<not> killed (pt s) (me (pt s))"
  shows "wrote s t pi addr Rs E (Suc k) i (c # bs) res"
proof -
  have m: "me p = me (pt s)" "procs p = procs (pt s)" using u(2) by (metis ptab.select_convs ptab.surjective ptab.update_convs)+
  have q: "pipes u = (pipes s)(pi := pipe_put (pipes s pi) c)" "pt u = p" using u(1) by (simp_all add: upd_pipe_def)
  have v: "uload (umem p) (root_of p) a = uload (umem (pt s)) (root_of (pt s)) a" for a
    using u(3) r m by (simp add: same_view_def myproc_def)
  have "uload (umem (pt s)) (root_of (pt s)) (addr + of_nat (i + j)) = Some ((c # bs) ! j)" if "j < Suc (length bs)" for j
    using that c assms(1) v by (cases j) (auto simp: wrote_def q)
  moreover have "\<not> (\<not> pp_readopen (pipes u pi) \<or> killed (pt u) (me (pt u)))" using g m by (simp add: q killed_def)
  ultimately show ?thesis
    using assms(1) g pipe_put_queue [OF l, of c] same_view_trans [OF u(3)] v
    by (auto simp: wrote_def q split: sum.splits if_splits)
qed

lemma pipewrite_loop_law:
  assumes "stage_ok (pt s) Rs E 1" and "root_of (pt s) \<in> Rs" and "pipe_ok (pipes s pi)"
  shows "\<exists>res t bs. pipewrite_loop k s pi addr i = Ok (res, t) \<and> wrote s t pi addr Rs E k i bs res"
  using assms
proof (induction k arbitrary: s i)
  case 0
  then have "wrote s (on_pt s (\<lambda>p. wakeup p (ChPipeRead pi))) pi addr Rs E 0 i [] (Inl (int i))"
    by (simp add: wrote_def wakeup_none_asleep)
  then show ?case by fastforce
next
  case (Suc k)
  let ?x = "pipes s pi" and ?p = "pt s"
  consider (stop) "\<not> pp_readopen ?x \<or> killed ?p (me ?p)" | (full) "pp_readopen ?x" "\<not> killed ?p (me ?p)" "length (pipe_queue ?x) = PIPESIZE"
    | (room) "pp_readopen ?x" "\<not> killed ?p (me ?p)" "length (pipe_queue ?x) < PIPESIZE"
    using Suc.prems(3) by (fastforce simp: pipe_ok_length)
  then show ?case
  proof cases
    case stop
    then have "wrote s s pi addr Rs E (Suc k) i [] (Inl (-1))" using Suc.prems by (simp add: wrote_def)
    then show ?thesis using stop by fastforce
  next
    case full
    let ?t = "on_pt s (\<lambda>p. sleep_enter (wakeup p (ChPipeRead pi)) (ChPipeWrite pi))"
    have "wrote s ?t pi addr Rs E (Suc k) i [] (Inr i)"
      using Suc.prems full by (simp add: wrote_def sleep_none_asleep wakeup_none_asleep)
    moreover have "pipewrite_loop (Suc k) s pi addr i = Ok (Inr i, ?t)" using full by (simp add: pipe_full)
    ultimately show ?thesis by blast
  next
    case room
    obtain res b p where c: "copyin_obj ?p (root_of ?p) (addr + of_nat i) [0] = Ok (res, [b], p)" "res = 0 \<or> res = -1"
        "stage_ok p Rs E 1" "p = ?p\<lparr>kmem := kmem p\<rparr>" "same_view (umem ?p) (umem p) Rs"
        "res = 0 \<Longrightarrow> uload (umem ?p) (root_of ?p) (addr + of_nat i) = Some b"
        "res = -1 \<Longrightarrow> uload (umem ?p) (root_of ?p) (addr + of_nat i) = None"
      by (rule copyin_byte [OF Suc.prems(1,2), of "addr + of_nat i" 0]) blast
    have nf: "pp_nwrite ?x \<noteq> pp_nread ?x + of_nat PIPESIZE" using room(3) pipe_full [of ?x] by simp
    show ?thesis
    proof (cases "res = 0")
      case False
      let ?t = "on_pt (s\<lparr>pt := p\<rparr>) (\<lambda>p. wakeup p (ChPipeRead pi))"
      have "wrote s ?t pi addr Rs E (Suc k) i [] (Inl (int i))"
        using Suc.prems c False room by (simp add: wrote_def wakeup_none_asleep)
      then show ?thesis using room nf c(1,2) False by fastforce
    next
      case True
      let ?u = "upd_pipe (s\<lparr>pt := p\<rparr>) pi (\<lambda>x. pipe_put x (b))"
      have q: "pipes ?u pi = pipe_put ?x (b)" "pt ?u = p" by (simp_all add: upd_pipe_def)
      have "root_of p = root_of ?p" by (subst c(4)) (simp add: myproc_def)
      then obtain rs t bs where t: "pipewrite_loop k ?u pi addr (Suc i) = Ok (rs, t)" "wrote ?u t pi addr Rs E k (Suc i) bs rs"
        using Suc.IH [of ?u "Suc i"] c(3) Suc.prems(2) pipe_put_queue [OF room(3), of "b"] room(3)
        by (auto simp: q pipe_ok_length)
      have "uload (umem ?p) (root_of ?p) (addr + of_nat i) = Some (b)" using c(6) True by blast
      then have "wrote s t pi addr Rs E (Suc k) i (b # bs) rs"
        using wrote_step [OF t(2) refl c(4,5) Suc.prems(2) _ room(3,1,2)] by blast
      moreover have "pipewrite_loop (Suc k) s pi addr i = Ok (rs, t)"
        using room nf c(1) True t(1) by (simp add: pipe_put_def)
      ultimately show ?thesis by blast
    qed
  qed
qed

section \<open>Reading\<close>

text \<open>A call of \<^verbatim>\<open>piperead\<close> that has stored \<open>i\<close> bytes stores \<open>m\<close> more, of \<open>d\<close> taken from the pipe.\<close>

definition took :: "'a kern_scheme \<Rightarrow> 'a kern_scheme \<Rightarrow> u64 \<Rightarrow> u64 \<Rightarrow> u64 set \<Rightarrow> (u64 \<Rightarrow> int) \<Rightarrow> nat \<Rightarrow> nat \<Rightarrow> nat \<Rightarrow> bool" where
  "took s t pi a Rs E k m d \<longleftrightarrow> (let q = pipe_queue (pipes s pi) in
     pipe_queue (pipes t pi) = drop d q \<and> (d = m \<and> m = min k (length q) \<or> d = Suc m \<and> m < min k (length q)) \<and>
     (d = Suc m \<longrightarrow> (\<exists>p p' :: ptab. copyout_obj p (root_of (pt s)) (a + of_nat m) [q ! m] = Ok (-1, p') \<and> kmem (pt t) = kmem p')) \<and>
     (\<forall>j < m. uload (umem (pt t)) (root_of (pt s)) (a + of_nat j) = Some (q ! j)) \<and>
     (\<forall>r \<in> Rs. \<forall>c. r \<noteq> root_of (pt s) \<or> d \<le> unat (c - a) \<longrightarrow> uload (umem (pt t)) r c = uload (umem (pt s)) r c) \<and>
     (\<forall>x. x \<noteq> pi \<longrightarrow> pipes t x = pipes s x) \<and> stage_ok (pt t) Rs E 1)"

lemma took_step:
  assumes "took u t pi (a + 1) Rs E k m d" and u: "u = upd_pipe s pi pipe_get\<lparr>pt := p\<rparr>" "root_of p = root_of (pt s)"
    and r: "root_of (pt s) \<in> Rs"
    and v: "\<forall>r \<in> Rs. \<forall>c. r \<noteq> root_of (pt s) \<or> 1 \<le> unat (c - a) \<longrightarrow> uload (umem p) r c = uload (umem (pt s)) r c"
    and q: "pipe_queue (pipes s pi) = b # pipe_queue (pipe_get (pipes s pi))" and b: "uload (umem p) (root_of (pt s)) a = Some b"
    and l: "length (pipe_queue (pipes s pi)) < 2 ^ 64"
  shows "took s t pi a Rs E (Suc k) (Suc m) (Suc d)"
proof -
  let ?q = "pipe_queue (pipe_get (pipes s pi))"
  have p: "pipes u = (pipes s)(pi := pipe_get (pipes s pi))" "pt u = p" using u(1) by (simp_all add: upd_pipe_def)
  have d: "d \<le> length ?q" using assms(1) by (auto simp: took_def Let_def p)
  have st: "uload (umem (pt t)) r' c = uload (umem p) r' c" if "r' \<in> Rs" "r' \<noteq> root_of (pt s) \<or> d \<le> unat (c - (a + 1))" for r' c
    using assms(1) that u(2) by (auto simp: took_def Let_def p)
  have w: "d \<le> unat (a - (a + 1))" using d l q by (simp add: unsigned_minus_1_eq_mask mask_eq_exp_minus_1)
  have lt: "d \<le> unat (c - (a + 1)) \<and> 1 \<le> unat (c - a)" if "Suc d \<le> unat (c - a)" for c
  proof -
    have "c - a \<noteq> 0" using that by auto
    then have "unat (c - a - 1) = unat (c - a) - 1" by (simp add: unat_minus_one)
    then show ?thesis using that by (simp add: diff_diff_eq)
  qed
  have "uload (umem (pt t)) (root_of (pt s)) (a + of_nat j) = Some (pipe_queue (pipes s pi) ! j)" if "j < Suc m" for j
  proof (cases j)
    case 0
    then show ?thesis using st [OF r, of a] w b q by simp
  next
    case (Suc i)
    then show ?thesis using assms(1) that u(2) q by (simp add: took_def Let_def p add.assoc)
  qed
  moreover have "uload (umem (pt t)) r' c = uload (umem (pt s)) r' c" if "r' \<in> Rs" "r' \<noteq> root_of (pt s) \<or> Suc d \<le> unat (c - a)" for r' c
    using st [OF that(1), of c] v that lt [of c] by auto
  moreover have "pipe_queue (pipes t pi) = drop (Suc d) (pipe_queue (pipes s pi))" 
    "Suc d = Suc m \<and> Suc m = min (Suc k) (length (pipe_queue (pipes s pi))) \<or>
     Suc d = Suc (Suc m) \<and> Suc m < min (Suc k) (length (pipe_queue (pipes s pi)))"
    using assms(1) by (auto simp: took_def Let_def p q)
  moreover have "\<exists>p p' :: ptab. copyout_obj p (root_of (pt s)) (a + of_nat (Suc m)) [pipe_queue (pipes s pi) ! Suc m] = Ok (-1, p') \<and> kmem (pt t) = kmem p'"
    if "d = Suc m" using assms(1) that u(2) by (simp add: took_def Let_def p q add.assoc)
  ultimately show ?thesis using assms(1) by (simp add: took_def Let_def p)
qed

lemma piperead_loop_law:
  assumes "stage_ok (pt s) Rs E 1" and "root_of (pt s) \<in> Rs" and "pipe_ok (pipes s pi)"
  shows "\<exists>t m d. piperead_loop k s pi addr i = Ok (int (i + m), t) \<and> took s t pi (addr + of_nat i) Rs E k m d"
  using assms
proof (induction k arbitrary: s i)
  case 0
  then have "took s s pi (addr + of_nat i) Rs E 0 0 0" by (simp add: took_def)
  then show ?case by fastforce
next
  case (Suc k)
  let ?x = "pipes s pi" and ?a = "addr + of_nat i"
  show ?case
  proof (cases "pipe_queue ?x = []")
    case True
    then have "took s s pi ?a Rs E (Suc k) 0 0" using Suc.prems by (simp add: took_def)
    then show ?thesis using True pipe_empty [of ?x] by fastforce
  next
    case False
    define b where "b = pp_data ?x (unat (pp_nread ?x) mod PIPESIZE)"
    have q: "pipe_queue ?x = b # pipe_queue (pipe_get ?x)" using pipe_get_queue [OF False] by (simp add: b_def)
    have l: "length (pipe_queue ?x) \<le> PIPESIZE" using Suc.prems(3) by (simp add: pipe_ok_length)
    obtain res p where c: "copyout_obj (pt s) (root_of (pt s)) ?a [b] = Ok (res, p)" "res = 0 \<or> res = -1" "stage_ok p Rs E 1"
        "p = (pt s)\<lparr>kmem := kmem p\<rparr>"
        "\<forall>r \<in> Rs. \<forall>c. r \<noteq> root_of (pt s) \<or> 1 \<le> unat (c - ?a) \<longrightarrow> uload (umem p) r c = uload (umem (pt s)) r c"
        "res = 0 \<longrightarrow> uload (umem p) (root_of (pt s)) ?a = Some b"
      using copyout_obj_law [OF Suc.prems(1) _ Suc.prems(2), of "[b]" ?a] by auto
    let ?u = "upd_pipe s pi pipe_get\<lparr>pt := p\<rparr>"
    have u: "pipes ?u = (pipes s)(pi := pipe_get ?x)" "pt ?u = p" "root_of p = root_of (pt s)"
      by (simp_all add: upd_pipe_def) (subst c(4), simp add: myproc_def)
    have e: "piperead_loop (Suc k) s pi addr i = (if res = -1 then Ok (int i, ?u) else piperead_loop k ?u pi addr (Suc i))"
      using False c(1) by (simp add: pipe_empty upd_pipe_def pipe_get_def b_def)
    show ?thesis
    proof (cases "res = 0")
      case True
      obtain t m d where t: "piperead_loop k ?u pi addr (Suc i) = Ok (int (Suc i + m), t)" "took ?u t pi (addr + of_nat (Suc i)) Rs E k m d"
        using Suc.IH [of ?u "Suc i"] c(3) Suc.prems(2) l q by (auto simp: u pipe_ok_length)
      have "took s t pi ?a Rs E (Suc k) (Suc m) (Suc d)"
        using t(2) c(6) True l by (intro took_step [OF _ refl u(3) Suc.prems(2) c(5) q]) (simp_all add: ac_simps PIPESIZE_def)
      moreover have "piperead_loop (Suc k) s pi addr i = Ok (int (i + Suc m), t)" using e t(1) True by simp
      ultimately show ?thesis by blast
    next
      case False
      have "copyout_obj (pt s) (root_of (pt s)) ?a [b] = Ok (-1, p)" using c(1,2) False by simp
      then have "took s ?u pi ?a Rs E (Suc k) 0 1" using c(3,5) q by (auto simp: took_def u)
      moreover have "piperead_loop (Suc k) s pi addr i = Ok (int (i + 0), ?u)" using e c(2) False by simp
      ultimately show ?thesis by blast
    qed
  qed
qed

section \<open>The properties\<close>

text \<open>
  C37. A call of \<^verbatim>\<open>pipewrite\<close> for at least one byte returns -1 exactly when the read end is closed or the
  writer killed, and then it changes nothing at all, so it wakes no reader either. Otherwise it
  appends to the queue of the pipe the bytes that the writer's memory holds at \<open>addr\<close>, in order, never
  more than 512 in the pipe, and changes no other pipe and no program's memory. It stops when all are
  written, at the first byte that the writer cannot read, or asleep with the pipe full, and in these
  three cases no reader is left asleep.
\<close>

theorem pipewrite_appends:
  assumes "stage_ok (pt s) Rs E 1" and "root_of (pt s) \<in> Rs" and "pipe_ok (pipes s pi)"
  shows "\<exists>res t bs. pipewrite s pi addr n = Ok (res, t) \<and>
    pipe_queue (pipes t pi) = pipe_queue (pipes s pi) @ bs \<and> length (pipe_queue (pipes t pi)) \<le> 512 \<and>
    (\<forall>j < length bs. uload (umem (pt s)) (root_of (pt s)) (addr + of_nat j) = Some (bs ! j)) \<and>
    (\<forall>q. q \<noteq> pi \<longrightarrow> pipes t q = pipes s q) \<and> vok (kmem (pt t)) Rs E \<and> same_view (umem (pt s)) (umem (pt t)) Rs \<and>
    (res = Inl (-1) \<longleftrightarrow> (\<not> pp_readopen (pipes s pi) \<or> killed (pt s) (me (pt s))) \<and> 0 < n) \<and>
    (case res of
       Inl r \<Rightarrow> if r = -1 then t = s \<and> bs = []
         else r = int (length bs) \<and> length bs \<le> nat n \<and> none_asleep (pt t) (ChPipeRead pi) \<and>
           (length bs < nat n \<longrightarrow> uload (umem (pt s)) (root_of (pt s)) (addr + of_nat (length bs)) = None)
     | Inr c \<Rightarrow> c = length bs \<and> c < nat n \<and> length (pipe_queue (pipes t pi)) = 512 \<and>
         none_asleep (pt t) (ChPipeRead pi) \<and> asleep_on (pt t) (ChPipeWrite pi))"
proof -
  obtain res t bs where "pipewrite s pi addr n = Ok (res, t)" "wrote s t pi addr Rs E (nat n) 0 bs res"
    using pipewrite_loop_law [OF assms] unfolding pipewrite_def by blast
  then show ?thesis by (intro exI [of _ res] exI [of _ t] exI [of _ bs])
    (auto simp: wrote_def pipe_ok_length stage_ok_def PIPESIZE_def split: sum.splits if_splits)
qed

text \<open>
  C38. A call of \<^verbatim>\<open>piperead\<close> on a pipe with bytes in it, or without a writer, takes the oldest bytes, as
  many as asked for or as there are, and the reader's memory then holds them at \<open>addr\<close> in order; no
  other memory changes and no writer is left asleep. Only a failed copy to the reader ends it earlier,
  and the byte of the failed copy is lost. On an empty pipe that may still be written it sleeps, or
  gives -1 to a killed reader.
\<close>

theorem piperead_takes:
  assumes "stage_ok (pt s) Rs E 1" and "root_of (pt s) \<in> Rs" and "pipe_ok (pipes s pi)"
  defines "q \<equiv> pipe_queue (pipes s pi)"
  shows "\<exists>res t. piperead s pi addr n = Ok (res, t) \<and>
    (if q = [] \<and> pp_writeopen (pipes s pi)
     then pipes t = pipes s \<and> kmem (pt t) = kmem (pt s) \<and>
       (if killed (pt s) (me (pt s)) then res = Some (-1) else res = None \<and> asleep_on (pt t) (ChPipeRead pi))
     else \<exists>m d. res = Some (int m) \<and> pipe_queue (pipes t pi) = drop d q \<and>
       (d = m \<and> m = min (nat n) (length q) \<or> d = m + 1 \<and> m < min (nat n) (length q)) \<and>
       (d = m + 1 \<longrightarrow> (\<exists>p p' :: ptab. copyout_obj p (root_of (pt s)) (addr + of_nat m) [q ! m] = Ok (-1, p') \<and> kmem (pt t) = kmem p')) \<and>
       (\<forall>j < m. uload (umem (pt t)) (root_of (pt s)) (addr + of_nat j) = Some (q ! j)) \<and>
       (\<forall>r \<in> Rs. \<forall>c. r \<noteq> root_of (pt s) \<or> d \<le> unat (c - addr) \<longrightarrow> uload (umem (pt t)) r c = uload (umem (pt s)) r c) \<and>
       (\<forall>x. x \<noteq> pi \<longrightarrow> pipes t x = pipes s x) \<and> vok (kmem (pt t)) Rs E \<and> none_asleep (pt t) (ChPipeWrite pi))"
proof (cases "q = [] \<and> pp_writeopen (pipes s pi)")
  case True
  then show ?thesis by (simp add: piperead_def pipe_empty q_def)
next
  case False
  obtain t m d where t: "piperead_loop (nat n) s pi addr 0 = Ok (int m, t)" "took s t pi addr Rs E (nat n) m d"
    using piperead_loop_law [OF assms(1-3), of "nat n" addr 0] by auto
  let ?t = "on_pt t (\<lambda>p. wakeup p (ChPipeWrite pi))"
  have "piperead s pi addr n = Ok (Some (int m), ?t)" using False t(1) by (simp add: piperead_def pipe_empty q_def)
  then show ?thesis using False t(2)
    by (intro exI [of _ "Some (int m)"] exI [of _ ?t]) (auto simp: took_def Let_def q_def stage_ok_def wakeup_none_asleep intro!: exI [of _ m] exI [of _ d])
qed

section \<open>A concrete pipe\<close>

text \<open>Three bytes around the end of the buffer, with indices about to wrap around.\<close>

definition pipe0 :: pipe where
  "pipe0 = \<lparr>pp_data = (\<lambda>i. of_nat i), pp_nread = - 2, pp_nwrite = 1, pp_readopen = True, pp_writeopen = True\<rparr>"

definition kern0 :: kern where
  "kern0 = ttyst.extend (tty0\<lparr>pt := (zero_ptab sample)\<lparr>procs := (\<lambda>_. zero_proc\<lparr>p_pagetable := pgA\<rparr>)\<rparr>\<rparr>)
     \<lparr>ftab = (\<lambda>_. \<lparr>f_type = FD_NONE, f_ref = 0, f_readable = False, f_writable = False, f_pipe = 0, f_ip = 0, f_off = 0, f_major = 0\<rparr>),
      pipes = (\<lambda>_. pipe0), ticks = 0\<rparr>"

lemma kern0_simps [simp]:
  "kmem (pt kern0) = sample" "xfer (pt kern0) = KERNBASE" "me (pt kern0) = 0" "procs (pt kern0) i = zero_proc\<lparr>p_pagetable := pgA\<rparr>"
  "root_of (pt kern0) = pgA" "pipes kern0 pi = pipe0" "\<not> killed (pt kern0) i"
  by (simp_all add: kern0_def ttyst.extend_def tty0_def zero_ptab_def myproc_def killed_def zero_proc_def)

lemma kern0_stage: "stage_ok (pt kern0) {pgA, pgB} (\<lambda>_. 0) 1"
  using sample_vok sample_kernel [of 0] by (simp add: stage_ok_def KERNBASE_def)

lemma kern0_pipe: "pipe_ok pipe0" "pipe_queue pipe0 = [254, 255, 0]" "pp_readopen pipe0" "pp_writeopen pipe0"
proof -
  show "pipe_ok pipe0" by (simp add: pipe_ok_def pipe0_def PIPESIZE_def)
  have "unat (- 2 :: u32) = 4294967294" by simp
  then show "pipe_queue pipe0 = [254, 255, 0]"
    by (simp add: pipe_queue_def ring_list_def pipe0_def PIPESIZE_def upt_rec)
qed (simp_all add: pipe0_def)

theorem pipewrite_appends_witness:
  "\<exists>res t bs. pipewrite kern0 pgB 8 3 = Ok (res, t) \<and> pipe_queue (pipes t pgB) = [254, 255, 0] @ bs \<and> res \<noteq> Inl (-1)"
proof -
  have h: "root_of (pt kern0) \<in> {pgA, pgB}" "pipe_ok (pipes kern0 pgB)" by (simp_all add: kern0_pipe)
  obtain res t bs where t: "pipewrite kern0 pgB 8 3 = Ok (res, t)" "pipe_queue (pipes t pgB) = pipe_queue (pipes kern0 pgB) @ bs"
    and r: "res = Inl (-1) \<longleftrightarrow> (\<not> pp_readopen (pipes kern0 pgB) \<or> killed (pt kern0) (me (pt kern0))) \<and> 0 < (3 :: int)"
    using pipewrite_appends [OF kern0_stage h, of 8 3] by blast
  have "res \<noteq> Inl (-1)" using r by (simp add: kern0_pipe)
  then show ?thesis using t by (auto simp: kern0_pipe)
qed

theorem piperead_takes_witness:
  "\<exists>t m. piperead kern0 pgB 8 2 = Ok (Some (int m), t) \<and>
    (m = 2 \<and> pipe_queue (pipes t pgB) = [0] \<and> uload (umem (pt t)) pgA 9 = Some 255 \<or> m < 2)"
proof -
  have h: "root_of (pt kern0) \<in> {pgA, pgB}" "pipe_ok (pipes kern0 pgB)" by (simp_all add: kern0_pipe)
  obtain res t where t: "piperead kern0 pgB 8 2 = Ok (res, t)"
    and "\<exists>m d. res = Some (int m) \<and> pipe_queue (pipes t pgB) = drop d [254, 255, 0] \<and> (d = m \<and> m = 2 \<or> d = m + 1 \<and> m < 2) \<and>
      (\<forall>j < m. uload (umem (pt t)) pgA (8 + of_nat j) = Some ([254, 255, 0] ! j))"
    using piperead_takes [OF kern0_stage h, of 8 2] unfolding kern0_simps kern0_pipe by (auto simp del: One_nat_def)
  then obtain m d where "piperead kern0 pgB 8 2 = Ok (Some (int m), t)" "pipe_queue (pipes t pgB) = drop d [254, 255, 0]"
    "d = m \<and> m = 2 \<or> d = m + 1 \<and> m < 2" "\<forall>j < m. uload (umem (pt t)) pgA (8 + of_nat j) = Some ([254, 255, 0] ! j)" by blast
  moreover from this(4) have "uload (umem (pt t)) pgA 9 = Some 255" if "m = 2" using that by (auto dest: spec [of _ 1])
  ultimately show ?thesis by (intro exI [of _ t] exI [of _ m]) auto
qed

end
