(* ===== verification/Diskproto.thy ===== *)
theory Diskproto
  imports Virtio Pipeprops
begin

text \<open>
  The disk driver and the device together: requests of any number of processes, the device that
  takes them from the available ring and completes them in any order, and the completion
  interrupt, interleaved arbitrarily. The device is a parameter; what the driver relies on is stated
  as \<open>block_device\<close>.
\<close>

section \<open>The rings\<close>

interpretation vq: ring_buffer NUM "TYPE(16)"
  by unfold_locales (simp_all add: NUM_def)

section \<open>Descriptors\<close>

lemma free_desc_from_Some:
  "free_desc_from fr i k = Some j \<Longrightarrow> i \<le> j \<and> j < i + k \<and> fr j"
  by (induction k arbitrary: i) (fastforce split: if_splits)+

lemma free_desc_from_None: "free_desc_from fr i k = None \<longleftrightarrow> (\<forall>j. i \<le> j \<and> j < i + k \<longrightarrow> \<not> fr j)"
proof (induction k arbitrary: i)
  case (Suc k)
  show ?case using Suc.IH [of "Suc i"] by (cases "fr i") (auto simp: Suc_le_eq intro: le_less_trans dest: le_neq_implies_less)
qed auto

text \<open>States that differ in the process table only.\<close>

definition same_drv :: "vdst \<Rightarrow> vdst \<Rightarrow> bool" where
  "same_drv s t \<longleftrightarrow> (\<exists>p. t = s\<lparr>pt := p\<rparr>)"

lemma same_drv_on_pt: "same_drv s t \<Longrightarrow> same_drv s (on_pt t f)"
  by (auto simp: same_drv_def on_pt_def)

lemma free_desc_law:
  assumes "i < NUM" and "\<not> vd_free s i"
  shows "\<exists>p. free_desc s i = Ok (s\<lparr>pt := p, vd_desc := (vd_desc s)(i := null_desc), vd_free := (vd_free s)(i := True)\<rparr>)"
  using assms by (intro exI [of _ "wakeup (pt s) ChDiskFree"]) (simp add: free_desc_def on_pt_def)

lemma alloc_desc_law:
  "(\<exists>i. i < NUM \<and> vd_free s i \<and> alloc_desc s = (Some i, s\<lparr>vd_free := (vd_free s)(i := False)\<rparr>)) \<or>
   (busy (vd_free s) = {i. i < NUM} \<and> alloc_desc s = (None, s))"
proof (cases "free_desc_from (vd_free s) 0 NUM")
  case None
  then show ?thesis using free_desc_from_None [of "vd_free s" 0 NUM] by (auto simp: alloc_desc_def busy_def)
next
  case (Some i)
  then show ?thesis using free_desc_from_Some [OF Some] by (auto simp: alloc_desc_def)
qed

lemma free_list_law:
  assumes "distinct is" and "\<forall>i \<in> set is. i < NUM \<and> \<not> vd_free s i"
  shows "\<exists>p. free_list s is = Ok (s\<lparr>pt := p, vd_desc := (\<lambda>i. if i \<in> set is then null_desc else vd_desc s i),
     vd_free := (\<lambda>i. i \<in> set is \<or> vd_free s i)\<rparr>)"
  using assms
proof (induction "is" arbitrary: s)
  case Nil
  then show ?case by (intro exI [of _ "pt s"]) simp
next
  case (Cons i js)
  obtain p where p: "free_desc s i = Ok (s\<lparr>pt := p, vd_desc := (vd_desc s)(i := null_desc), vd_free := (vd_free s)(i := True)\<rparr>)"
    using free_desc_law [of i s] Cons.prems by auto
  let ?t = "s\<lparr>pt := p, vd_desc := (vd_desc s)(i := null_desc), vd_free := (vd_free s)(i := True)\<rparr>"
  have e: "(\<lambda>j. if j \<in> set js then null_desc else vd_desc ?t j) = (\<lambda>j. if j \<in> set (i # js) then null_desc else vd_desc s j)"
    "(\<lambda>j. j \<in> set js \<or> vd_free ?t j) = (\<lambda>j. j \<in> set (i # js) \<or> vd_free s j)" by (auto simp: fun_eq_iff)
  have "\<forall>j \<in> set js. j < NUM \<and> \<not> vd_free ?t j" using Cons.prems by auto
  then show ?case using Cons.IH [of ?t] Cons.prems(1) p unfolding e by auto
qed

lemma twice: "s\<lparr>vd_free := x, pt := p, vd_desc := d, vd_free := f\<rparr> = s\<lparr>pt := p, vd_desc := d, vd_free := f\<rparr>"
  by simp

text \<open>\<^verbatim>\<open>alloc3_desc\<close> takes three free descriptors, or none at all.\<close>

lemma alloc_descs_law:
  assumes "distinct is" and "\<forall>i \<in> set is. i < NUM \<and> \<not> vd_free s i"
  shows "(\<exists>js. length js = k \<and> distinct (is @ js) \<and> (\<forall>j \<in> set js. j < NUM \<and> vd_free s j) \<and>
      alloc_descs k s is = Ok (Some (is @ js), s\<lparr>vd_free := (\<lambda>i. i \<notin> set js \<and> vd_free s i)\<rparr>)) \<or>
    (\<exists>js p. (\<forall>j \<in> set js. j < NUM \<and> vd_free s j) \<and>
      alloc_descs k s is = Ok (None, s\<lparr>pt := p, vd_desc := (\<lambda>i. if i \<in> set (is @ js) then null_desc else vd_desc s i),
        vd_free := (\<lambda>i. i \<in> set is \<or> vd_free s i)\<rparr>))"
  using assms
proof (induction k arbitrary: s "is")
  case 0
  then show ?case by simp
next
  case (Suc k)
  show ?case
  proof (cases "\<exists>i. i < NUM \<and> vd_free s i \<and> alloc_desc s = (Some i, s\<lparr>vd_free := (vd_free s)(i := False)\<rparr>)")
    case False
    then have "alloc_desc s = (None, s)" using alloc_desc_law [of s] by blast
    moreover obtain p where "free_list s is = Ok (s\<lparr>pt := p, vd_desc := (\<lambda>i. if i \<in> set is then null_desc else vd_desc s i),
       vd_free := (\<lambda>i. i \<in> set is \<or> vd_free s i)\<rparr>)" using free_list_law [OF Suc.prems] by blast
    ultimately show ?thesis by (intro disjI2 exI [of _ "[]"] exI [of _ p]) simp
  next
    case True
    then obtain i where i: "i < NUM" "vd_free s i" "alloc_desc s = (Some i, s\<lparr>vd_free := (vd_free s)(i := False)\<rparr>)" by blast
    let ?t = "s\<lparr>vd_free := (vd_free s)(i := False)\<rparr>"
    have n: "i \<notin> set is" using Suc.prems i by auto
    then have "distinct (is @ [i])" "\<forall>j \<in> set (is @ [i]). j < NUM \<and> \<not> vd_free ?t j" using Suc.prems i by auto
    note ih = Suc.IH [OF this]
    have e: "alloc_descs (Suc k) s is = alloc_descs k ?t (is @ [i])" using i(3) by simp
    show ?thesis
    proof (rule disjE [OF ih])
      assume "\<exists>js. length js = k \<and> distinct ((is @ [i]) @ js) \<and> (\<forall>j\<in>set js. j < NUM \<and> vd_free ?t j) \<and>
          alloc_descs k ?t (is @ [i]) = Ok (Some ((is @ [i]) @ js), ?t\<lparr>vd_free := \<lambda>a. a \<notin> set js \<and> vd_free ?t a\<rparr>)"
      then obtain js where js: "length js = k" "distinct ((is @ [i]) @ js)" "\<forall>j\<in>set js. j < NUM \<and> vd_free ?t j"
        "alloc_descs k ?t (is @ [i]) = Ok (Some ((is @ [i]) @ js), ?t\<lparr>vd_free := \<lambda>a. a \<notin> set js \<and> vd_free ?t a\<rparr>)" by blast
      have "(\<lambda>a. a \<notin> set js \<and> vd_free ?t a) = (\<lambda>a. a \<notin> set (i # js) \<and> vd_free s a)" by (auto simp: fun_eq_iff)
      then show ?thesis using js i e by (intro disjI1 exI [of _ "i # js"]) (auto split: if_splits)
    next
      assume "\<exists>js p. (\<forall>j\<in>set js. j < NUM \<and> vd_free ?t j) \<and> alloc_descs k ?t (is @ [i]) =
          Ok (None, ?t\<lparr>pt := p, vd_desc := \<lambda>a. if a \<in> set ((is @ [i]) @ js) then null_desc else vd_desc ?t a,
             vd_free := \<lambda>a. a \<in> set (is @ [i]) \<or> vd_free ?t a\<rparr>)"
      then obtain js p where js: "\<forall>j\<in>set js. j < NUM \<and> vd_free ?t j" "alloc_descs k ?t (is @ [i]) =
          Ok (None, ?t\<lparr>pt := p, vd_desc := \<lambda>a. if a \<in> set ((is @ [i]) @ js) then null_desc else vd_desc ?t a,
             vd_free := \<lambda>a. a \<in> set (is @ [i]) \<or> vd_free ?t a\<rparr>)" by blast
      have "(\<lambda>a. a \<in> set (is @ [i]) \<or> vd_free ?t a) = (\<lambda>a. a \<in> set is \<or> vd_free s a)" using i(2) by (auto simp: fun_eq_iff)
      moreover have "(\<lambda>a. if a \<in> set ((is @ [i]) @ js) then null_desc else vd_desc ?t a) = (\<lambda>a. if a \<in> set (is @ i # js) then null_desc else vd_desc s a)"
        by (auto simp: fun_eq_iff)
      moreover have "\<forall>j\<in>set (i # js). j < NUM \<and> vd_free s j" using js(1) i by (auto split: if_splits)
      ultimately show ?thesis using js(2) unfolding e by (intro disjI2 exI [of _ "i # js"] exI [of _ p]) (simp only: twice simp_thms)
    qed
  qed
qed

section \<open>The device\<close>

text \<open>
  What the device reads from the chain of descriptors at \<open>i\<close>: transfer block \<open>n\<close> from (\<open>w\<close>) or to
  the data of buffer \<open>b\<close> and report in status \<open>j\<close>. A block is two sectors.
\<close>

definition asks :: "vdst \<Rightarrow> nat \<Rightarrow> nat \<Rightarrow> bool \<Rightarrow> u32 \<Rightarrow> nat \<Rightarrow> bool" where
  "asks s i b w n j \<longleftrightarrow>
     (let d0 = vd_desc s i; d1 = vd_desc s (unat (vq_next d0)); d2 = vd_desc s (unat (vq_next d1)) in
      (\<exists>op. vq_addr d0 = DmaOp op \<and> vr_type (vd_ops s op) = (if w then VIRTIO_BLK_T_OUT else VIRTIO_BLK_T_IN) \<and>
         vr_sector (vd_ops s op) = 2 * ucast n) \<and>
      vq_len d0 = 16 \<and> vq_flags d0 = VRING_DESC_F_NEXT \<and>
      vq_addr d1 = DmaData b \<and> vq_len d1 = 1024 \<and> vq_flags d1 = (if w then 0 else VRING_DESC_F_WRITE) OR VRING_DESC_F_NEXT \<and>
      vq_addr d2 = DmaStatus j \<and> vq_len d2 = 1 \<and> vq_flags d2 = VRING_DESC_F_WRITE)"

definition transfer :: "vdst \<Rightarrow> nat \<Rightarrow> bool \<Rightarrow> u32 \<Rightarrow> vdst" where
  "transfer s b w n =
     (if w then s\<lparr>disk := (disk s)(n := bdata (bufs s b)), dwrites := dwrites s @ [(n, bdata (bufs s b))]\<rparr>
      else upd_buf s b (\<lambda>x. x\<lparr>bdata := disk s n\<rparr>))"

definition completed :: "nat \<Rightarrow> nat \<Rightarrow> vdst \<Rightarrow> vdst" where
  "completed i j s =
     s\<lparr>vd_info_status := (vd_info_status s)(j := 0), vd_used_ring := (vd_used_ring s)(unat (vd_used_idx s) mod NUM := of_nat i),
       vd_used_idx := vd_used_idx s + 1\<rparr>"

text \<open>A block device serves a request that it took by doing what the chain asks and reporting success.\<close>

definition block_device :: "(nat \<Rightarrow> vdst \<Rightarrow> vdst) \<Rightarrow> bool" where
  "block_device serve \<longleftrightarrow> (\<forall>s i b w n j. asks s i b w n j \<longrightarrow> serve i s = completed i j (transfer s b w n))"

section \<open>Runs\<close>

text \<open>
  The requests and services so far, newest first, and what is known of the last request with head
  \<open>i\<close>: its arguments and how often it was served.
\<close>

datatype ev = EvStart nat nat bool u32 | EvServe nat

fun hist :: "ev list \<Rightarrow> nat \<Rightarrow> (nat \<times> bool \<times> u32 \<times> nat) option" where
  "hist [] i = None"
| "hist (EvStart j b w n # tr) i = (if j = i then Some (b, w, n, 0) else hist tr i)"
| "hist (EvServe j # tr) i = (if j = i then map_option (\<lambda>(b, w, n, k). (b, w, n, Suc k)) (hist tr i) else hist tr i)"

definition drv :: "vdst \<Rightarrow> _" where
  "drv s = (vd_desc s, vd_avail_ring s, vd_avail_idx s, vd_used_ring s, vd_used_idx s, vd_free s, vd_seen_idx s, vd_info_b s,
     vd_info_status s, vd_ops s, b_disk s)"

definition idle :: "vdst \<Rightarrow> bool" where
  "idle s \<longleftrightarrow> (\<forall>i < NUM. vd_free s i \<and> vd_info_b s i = None) \<and> vd_seen_idx s = vd_used_idx s"

definition unused :: "vdst \<Rightarrow> nat \<Rightarrow> bool" where
  "unused s b \<longleftrightarrow> (\<forall>i < NUM. vd_info_b s i \<noteq> Some b)"

text \<open>
  Runs: \<open>l\<close> is how far the device has read the available ring and \<open>k\<close> the requests it took and has
  not served. A process has the buffer of its request locked, so no other request uses it, and the
  rest of the kernel leaves it alone.
\<close>

inductive vrun :: "(nat \<Rightarrow> vdst \<Rightarrow> vdst) \<Rightarrow> ((u32 \<times> u32) list \<Rightarrow> u32 \<Rightarrow> u32) \<Rightarrow> vdst \<Rightarrow> u16 \<Rightarrow> nat list \<Rightarrow> ev list \<Rightarrow> bool"
  for serve mmio where
  vinit: "idle s \<Longrightarrow> vrun serve mmio s (vd_avail_idx s) [] []"
| vstart: "vrun serve mmio s l k tr \<Longrightarrow> unused s b \<Longrightarrow> blockno (bufs s b) < 2 ^ 31 \<Longrightarrow> virtio_disk_start s b w = Ok (Some i, t) \<Longrightarrow>
    vrun serve mmio t l k (EvStart i b w (blockno (bufs s b)) # tr)"
| vwait: "vrun serve mmio s l k tr \<Longrightarrow> unused s b \<Longrightarrow> virtio_disk_start s b w = Ok (None, t) \<Longrightarrow> vrun serve mmio t l k tr"
| vtake: "vrun serve mmio s l k tr \<Longrightarrow> l \<noteq> vd_avail_idx s \<Longrightarrow>
    vrun serve mmio s (l + 1) (k @ [unat (vd_avail_ring s (unat l mod NUM))]) tr"
| vserve: "vrun serve mmio s l k tr \<Longrightarrow> i \<in> set k \<Longrightarrow> vrun serve mmio (serve i s) l (remove1 i k) (EvServe i # tr)"
| vintr: "vrun serve mmio s l k tr \<Longrightarrow> virtio_disk_intr mmio s = Ok t \<Longrightarrow> vrun serve mmio t l k tr"
| vfinish: "vrun serve mmio s l k tr \<Longrightarrow> i < NUM \<Longrightarrow> vd_info_b s i = Some b \<Longrightarrow> virtio_disk_finish s b i = Ok (r, t) \<Longrightarrow>
    vrun serve mmio t l k tr"
| vother: "vrun serve mmio s l k tr \<Longrightarrow> drv t = drv s \<Longrightarrow> \<forall>b. \<not> unused s b \<longrightarrow> blockno (bufs t b) = blockno (bufs s b) \<Longrightarrow>
    vrun serve mmio t l k tr"

section \<open>Requests in flight\<close>

datatype phase = Offered | Taken | Served | Seen

record request =
  rq_b :: nat
  rq_w :: bool
  rq_n :: u32
  rq_0 :: nat
  rq_1 :: nat
  rq_2 :: nat
  rq_ph :: phase

definition descs :: "request \<Rightarrow> nat list" where
  "descs r = [rq_0 r, rq_1 r, rq_2 r]"

definition heads :: "phase \<Rightarrow> request list \<Rightarrow> nat list" where
  "heads ph rs = map rq_0 (filter (\<lambda>r. rq_ph r = ph) rs)"

definition setp :: "nat \<Rightarrow> phase \<Rightarrow> request list \<Rightarrow> request list" where
  "setp i ph rs = map (\<lambda>r. if rq_0 r = i then r\<lparr>rq_ph := ph\<rparr> else r) rs"

lemma setp_maps [simp]: "map descs (setp i ph rs) = map descs rs" "map rq_b (setp i ph rs) = map rq_b rs" "map rq_0 (setp i ph rs) = map rq_0 rs"
  by (simp_all add: setp_def descs_def)

lemma in_heads: "i \<in> set (heads ph rs) \<longleftrightarrow> (\<exists>r \<in> set rs. rq_0 r = i \<and> rq_ph r = ph)"
  by (auto simp: heads_def)

lemma heads_distinct: "distinct (map rq_0 rs) \<Longrightarrow> distinct (heads ph rs)"
  by (auto simp: heads_def distinct_map inj_on_def)

lemma heads_append [simp]: "heads ph (rs @ rs') = heads ph rs @ heads ph rs'"
  by (simp add: heads_def)

lemma setp_absent: "i \<notin> rq_0 ` set rs \<Longrightarrow> setp i ph rs = rs"
  by (induction rs) (auto simp: setp_def)

lemma heads_absent: "i \<notin> rq_0 ` set rs \<Longrightarrow> i \<notin> set (heads ph rs)"
  by (auto simp: heads_def)

lemma heads_setp:
  assumes "distinct (map rq_0 rs)" and "i \<in> set (heads old rs)" and "old \<noteq> ph"
  shows "heads old (setp i ph rs) = remove1 i (heads old rs)" and "set (heads ph (setp i ph rs)) = insert i (set (heads ph rs))"
    and "\<And>q. q \<noteq> old \<Longrightarrow> q \<noteq> ph \<Longrightarrow> heads q (setp i ph rs) = heads q rs"
proof -
  have "heads old (setp i ph rs) = remove1 i (heads old rs) \<and> set (heads ph (setp i ph rs)) = insert i (set (heads ph rs)) \<and>
      (\<forall>q. q \<noteq> old \<longrightarrow> q \<noteq> ph \<longrightarrow> heads q (setp i ph rs) = heads q rs)"
    using assms
  proof (induction rs)
    case (Cons r rs)
    show ?case
    proof (cases "rq_0 r = i")
      case True
      then have n: "i \<notin> rq_0 ` set rs" using Cons.prems(1) by auto
      then have "rq_ph r = old" using Cons.prems(2) True heads_absent [OF n, of old] by (auto simp: heads_def split: if_splits)
      moreover have "setp i ph (r # rs) = r\<lparr>rq_ph := ph\<rparr> # rs" using setp_absent [OF n, of ph] True by (simp add: setp_def)
      ultimately show ?thesis using True assms(3) by (auto simp: heads_def)
    next
      case False
      have s: "setp i ph (r # rs) = r # setp i ph rs" using False by (simp add: setp_def)
      have "i \<in> set (heads old rs)" using Cons.prems(2) False by (auto simp: heads_def split: if_splits)
      then show ?thesis using Cons.IH Cons.prems(1) assms(3) False unfolding s by (auto simp: heads_def)
    qed
  qed (simp add: heads_def)
  then show "heads old (setp i ph rs) = remove1 i (heads old rs)" "set (heads ph (setp i ph rs)) = insert i (set (heads ph rs))"
    "\<And>q. q \<noteq> old \<Longrightarrow> q \<noteq> ph \<Longrightarrow> heads q (setp i ph rs) = heads q rs" by blast+
qed

definition chain :: "vdst \<Rightarrow> request \<Rightarrow> bool" where
  "chain s r \<longleftrightarrow>
     vd_desc s (rq_0 r) = \<lparr>vq_addr = DmaOp (rq_0 r), vq_len = 16, vq_flags = VRING_DESC_F_NEXT, vq_next = of_nat (rq_1 r)\<rparr> \<and>
     vd_desc s (rq_1 r) = \<lparr>vq_addr = DmaData (rq_b r), vq_len = of_nat BSIZE,
       vq_flags = (if rq_w r then 0 else VRING_DESC_F_WRITE) OR VRING_DESC_F_NEXT, vq_next = of_nat (rq_2 r)\<rparr> \<and>
     vd_desc s (rq_2 r) = \<lparr>vq_addr = DmaStatus (rq_0 r), vq_len = 1, vq_flags = VRING_DESC_F_WRITE, vq_next = 0\<rparr> \<and>
     vd_ops s (rq_0 r) = \<lparr>vr_type = (if rq_w r then VIRTIO_BLK_T_OUT else VIRTIO_BLK_T_IN), vr_reserved = 0, vr_sector = 2 * ucast (rq_n r)\<rparr>"

definition served :: "phase \<Rightarrow> nat" where
  "served ph = (if ph = Served \<or> ph = Seen then 1 else 0)"

definition req_ok :: "vdst \<Rightarrow> ev list \<Rightarrow> request \<Rightarrow> bool" where
  "req_ok s tr r \<longleftrightarrow> chain s r \<and> vd_info_b s (rq_0 r) = Some (rq_b r) \<and> b_disk s (rq_b r) = (rq_ph r \<noteq> Seen) \<and>
     blockno (bufs s (rq_b r)) = rq_n r \<and> (rq_ph r = Served \<longrightarrow> vd_info_status s (rq_0 r) = 0) \<and>
     hist tr (rq_0 r) = Some (rq_b r, rq_w r, rq_n r, served (rq_ph r))"

definition owned :: "request list \<Rightarrow> nat set" where
  "owned rs = set (concat (map descs rs))"

definition flight :: "request list \<Rightarrow> bool" where
  "flight rs \<longleftrightarrow> distinct (concat (map descs rs)) \<and> (\<forall>i \<in> owned rs. i < NUM) \<and> distinct (map rq_b rs)"

definition dinv :: "vdst \<Rightarrow> u16 \<Rightarrow> nat list \<Rightarrow> ev list \<Rightarrow> request list \<Rightarrow> nat list \<Rightarrow> bool" where
  "dinv s l k tr rs us \<longleftrightarrow> flight rs \<and> (\<forall>i < NUM. vd_free s i \<longleftrightarrow> i \<notin> owned rs) \<and>
     (\<forall>i < NUM. vd_info_b s i \<noteq> None \<longrightarrow> i \<in> rq_0 ` set rs) \<and> (\<forall>r \<in> set rs. req_ok s tr r) \<and>
     ring_list NUM (vd_avail_ring s) l (vd_avail_idx s) = map of_nat (heads Offered rs) \<and>
     distinct k \<and> set k = set (heads Taken rs) \<and>
     ring_list NUM (vd_used_ring s) (vd_seen_idx s) (vd_used_idx s) = map of_nat us \<and> distinct us \<and> set us = set (heads Served rs)"

lemma owned_setp [simp]: "owned (setp i ph rs) = owned rs"
  unfolding owned_def setp_maps ..

lemma flight_setp [simp]: "flight (setp i ph rs) = flight rs"
  by (simp add: flight_def)

lemma flight_few:
  assumes "flight rs"
  shows "length rs \<le> 2"
proof -
  have "length (concat (map descs rs)) = 3 * length rs" by (induction rs) (auto simp: descs_def)
  moreover have "card (owned rs) \<le> card {..<NUM}" using assms by (intro card_mono) (auto simp: flight_def)
  ultimately have "3 * length rs \<le> 8" using assms distinct_card [of "concat (map descs rs)"] by (simp add: flight_def owned_def NUM_def del: set_concat)
  then show ?thesis by simp
qed

lemma flight_heads: "flight rs \<Longrightarrow> distinct (map rq_0 rs)"
  unfolding flight_def owned_def by (induction rs) (auto simp: descs_def)

lemma flight_lt: "flight rs \<Longrightarrow> r \<in> set rs \<Longrightarrow> rq_0 r < NUM \<and> rq_1 r < NUM \<and> rq_2 r < NUM"
  by (auto simp: flight_def owned_def descs_def)

lemma flight_apart:
  assumes "flight rs" and "r \<in> set rs" and "q \<in> set rs" and "r \<noteq> q"
  shows "set (descs r) \<inter> set (descs q) = {}" and "rq_b r \<noteq> rq_b q"
proof -
  have "distinct (map descs rs)" using flight_heads [OF assms(1)] by (induction rs) (auto simp: descs_def)
  moreover have "descs r \<noteq> descs q" using flight_heads [OF assms(1)] assms(2-4) by (auto simp: distinct_map inj_on_def descs_def)
  ultimately show "set (descs r) \<inter> set (descs q) = {}" using assms(1-3) unfolding flight_def distinct_concat_iff by auto
  show "rq_b r \<noteq> rq_b q" using assms by (auto simp: flight_def distinct_map inj_on_def)
qed

lemma flight_self: "flight rs \<Longrightarrow> r \<in> set rs \<Longrightarrow> distinct (descs r)"
  unfolding flight_def distinct_concat_iff by auto

lemma heads_few: "flight rs \<Longrightarrow> length (heads ph rs) \<le> 2"
  unfolding heads_def length_map by (rule order_trans [OF length_filter_le flight_few])

lemma unat_desc [simp]: "i < NUM \<Longrightarrow> unat (of_nat i :: u16) = i" "i < NUM \<Longrightarrow> unat (of_nat i :: u32) = i"
  by (simp_all add: NUM_def unat_of_nat take_bit_nat_eq_self)

text \<open>The device finds in the chain what the driver was asked for.\<close>

lemma chain_asks: "chain s r \<Longrightarrow> rq_1 r < NUM \<Longrightarrow> rq_2 r < NUM \<Longrightarrow> asks s (rq_0 r) (rq_b r) (rq_w r) (rq_n r) (rq_0 r)"
  by (simp add: chain_def asks_def Let_def BSIZE_def)

text \<open>A request that a step does not touch.\<close>

definition untouched :: "vdst \<Rightarrow> vdst \<Rightarrow> request \<Rightarrow> bool" where
  "untouched s t r \<longleftrightarrow> (\<forall>i \<in> set (descs r). vd_desc t i = vd_desc s i) \<and> vd_ops t (rq_0 r) = vd_ops s (rq_0 r) \<and>
     vd_info_b t (rq_0 r) = vd_info_b s (rq_0 r) \<and> b_disk t (rq_b r) = b_disk s (rq_b r) \<and>
     blockno (bufs t (rq_b r)) = blockno (bufs s (rq_b r)) \<and> vd_info_status t (rq_0 r) = vd_info_status s (rq_0 r)"

lemma untouched_ok: "untouched s t r \<Longrightarrow> hist tr' (rq_0 r) = hist tr (rq_0 r) \<Longrightarrow> req_ok t tr' r = req_ok s tr r"
  by (auto simp: untouched_def req_ok_def chain_def descs_def)

section \<open>Steps keep the invariant\<close>

lemma setp_ok:
  assumes fl: "flight rs" and ok: "\<forall>r \<in> set rs. req_ok s tr r"
    and other: "\<And>r. r \<in> set rs \<Longrightarrow> rq_0 r \<noteq> i \<Longrightarrow> req_ok t tr' r"
    and itself: "\<And>r. r \<in> set rs \<Longrightarrow> rq_0 r = i \<Longrightarrow> req_ok t tr' (r\<lparr>rq_ph := ph\<rparr>)"
  shows "\<forall>r \<in> set (setp i ph rs). req_ok t tr' r"
  using other itself by (auto simp: setp_def)

lemma dinv_init: "idle s \<Longrightarrow> dinv s (vd_avail_idx s) [] [] [] []"
  by (simp add: idle_def dinv_def flight_def owned_def heads_def)

lemma dinv_take:
  assumes "dinv s l k tr rs us" and "l \<noteq> vd_avail_idx s"
  defines "i \<equiv> unat (vd_avail_ring s (unat l mod NUM))"
  shows "dinv s (l + 1) (k @ [i]) tr (setp i Taken rs) us"
proof -
  have fl: "flight rs" and av: "ring_list NUM (vd_avail_ring s) l (vd_avail_idx s) = map of_nat (heads Offered rs)"
    using assms(1) by (auto simp: dinv_def)
  have p: "map of_nat (heads Offered rs) = vd_avail_ring s (unat l mod NUM) # ring_list NUM (vd_avail_ring s) (l + 1) (vd_avail_idx s)"
    using vq.pop [OF assms(2), of "vd_avail_ring s"] av by simp
  then obtain h hs where h: "heads Offered rs = h # hs" by (cases "heads Offered rs") auto
  have hn: "h < NUM" using h flight_lt [OF fl] in_heads [of h Offered rs] by auto
  then have ih: "i = h" using p h by (simp add: i_def) (metis unat_desc(1))
  have io: "i \<in> set (heads Offered rs)" using h ih by simp
  note hs = heads_setp [OF flight_heads [OF fl] io, of Taken]
  have "ring_list NUM (vd_avail_ring s) (l + 1) (vd_avail_idx s) = map of_nat (heads Offered (setp i Taken rs))"
    using p h hs(1) ih by simp
  moreover have "i \<notin> set (heads Taken rs)" using io flight_heads [OF fl] unfolding in_heads by (auto simp: distinct_map inj_on_def)
  moreover have "\<forall>r \<in> set (setp i Taken rs). req_ok s tr r"
  proof (rule setp_ok [OF fl])
    show ok: "\<forall>r \<in> set rs. req_ok s tr r" using assms(1) by (simp add: dinv_def)
    then show "req_ok s tr q" if "q \<in> set rs" for q using that by blast
    fix q assume q: "q \<in> set rs" "rq_0 q = i"
    then have "rq_ph q = Offered" using io flight_heads [OF fl] unfolding in_heads by (auto simp: distinct_map inj_on_def)
    then show "req_ok s tr (q\<lparr>rq_ph := Taken\<rparr>)" using ok q(1) by (auto simp: req_ok_def chain_def served_def)
  qed
  moreover have "rq_0 ` set (setp i Taken rs) = rq_0 ` set rs" by (metis list.set_map setp_maps(3))
  ultimately show ?thesis using assms(1) hs(2,3) fl by (auto simp: dinv_def)
qed

lemma dinv_same:
  assumes "dinv s l k tr rs us" and "drv t = drv s" and "\<forall>r \<in> set rs. blockno (bufs t (rq_b r)) = blockno (bufs s (rq_b r))"
  shows "dinv t l k tr rs us"
proof -
  have "req_ok t tr r = req_ok s tr r" if "r \<in> set rs" for r
    using that assms(2,3) by (intro untouched_ok) (auto simp: untouched_def drv_def)
  then show ?thesis using assms(1,2) by (simp add: dinv_def drv_def)
qed

lemma dinv_served:
  assumes "dinv s l k tr rs us" and "block_device serve" and "i \<in> set k"
  shows "\<exists>r \<in> set rs. rq_0 r = i \<and> rq_ph r = Taken \<and> serve i s = completed i i (transfer s (rq_b r) (rq_w r) (rq_n r)) \<and>
    hist tr i = Some (rq_b r, rq_w r, rq_n r, 0)"
proof -
  have "i \<in> set (heads Taken rs)" using assms by (simp add: dinv_def)
  then obtain r where r: "r \<in> set rs" "rq_0 r = i" "rq_ph r = Taken" unfolding in_heads by blast
  have q: "req_ok s tr r" and fl: "flight rs" using assms(1) r by (auto simp: dinv_def)
  then have "asks s i (rq_b r) (rq_w r) (rq_n r) i" using chain_asks [of s r] flight_lt [OF fl r(1)] r(2) by (simp add: req_ok_def)
  then have "serve i s = completed i i (transfer s (rq_b r) (rq_w r) (rq_n r))" using assms(2) by (simp add: block_device_def)
  then show ?thesis using r q by (auto simp: req_ok_def served_def)
qed

lemma transfer_simps [simp]:
  "vd_desc (transfer s b w n) = vd_desc s" "vd_avail_ring (transfer s b w n) = vd_avail_ring s" "vd_avail_idx (transfer s b w n) = vd_avail_idx s"
  "vd_used_ring (transfer s b w n) = vd_used_ring s" "vd_used_idx (transfer s b w n) = vd_used_idx s" "vd_free (transfer s b w n) = vd_free s"
  "vd_seen_idx (transfer s b w n) = vd_seen_idx s" "vd_info_b (transfer s b w n) = vd_info_b s" "vd_info_status (transfer s b w n) = vd_info_status s"
  "vd_ops (transfer s b w n) = vd_ops s" "b_disk (transfer s b w n) = b_disk s" "blockno (bufs (transfer s b w n) c) = blockno (bufs s c)"
  by (simp_all add: transfer_def upd_buf_def)

lemma completed_simps [simp]:
  "vd_desc (completed i j s) = vd_desc s" "vd_avail_ring (completed i j s) = vd_avail_ring s" "vd_avail_idx (completed i j s) = vd_avail_idx s"
  "vd_used_ring (completed i j s) = (vd_used_ring s)(unat (vd_used_idx s) mod NUM := of_nat i)" "vd_used_idx (completed i j s) = vd_used_idx s + 1"
  "vd_free (completed i j s) = vd_free s" "vd_seen_idx (completed i j s) = vd_seen_idx s" "vd_info_b (completed i j s) = vd_info_b s"
  "vd_info_status (completed i j s) = (vd_info_status s)(j := 0)" "vd_ops (completed i j s) = vd_ops s" "b_disk (completed i j s) = b_disk s"
  "bufs (completed i j s) = bufs s"
  by (simp_all add: completed_def)

lemma setp_image: "rq_0 ` set (setp i ph rs) = rq_0 ` set rs"
  by (metis list.set_map setp_maps(3))

lemma used_few: "flight rs \<Longrightarrow> distinct us \<Longrightarrow> set us = set (heads ph rs) \<Longrightarrow> length us \<le> 2"
  using heads_few [of rs ph] distinct_card [of us] card_length [of "heads ph rs"] by simp

lemma dinv_serve:
  assumes "dinv s l k tr rs us" and "block_device serve" and "i \<in> set k"
  shows "dinv (serve i s) l (remove1 i k) (EvServe i # tr) (setp i Served rs) (us @ [i])"
proof -
  obtain r where r: "r \<in> set rs" "rq_0 r = i" "rq_ph r = Taken" "serve i s = completed i i (transfer s (rq_b r) (rq_w r) (rq_n r))"
    using dinv_served [OF assms] by blast
  let ?t = "completed i i (transfer s (rq_b r) (rq_w r) (rq_n r))"
  have fl: "flight rs" and ok: "\<forall>r \<in> set rs. req_ok s tr r" and k: "distinct k" "set k = set (heads Taken rs)"
    and us: "ring_list NUM (vd_used_ring s) (vd_seen_idx s) (vd_used_idx s) = map of_nat us" "distinct us" "set us = set (heads Served rs)"
    using assms(1) by (auto simp: dinv_def)
  have io: "i \<in> set (heads Taken rs)" using assms(3) k(2) by simp
  note hs = heads_setp [OF flight_heads [OF fl] io, of Served]
  have "\<forall>r \<in> set (setp i Served rs). req_ok ?t (EvServe i # tr) r"
  proof (rule setp_ok [OF fl ok])
    fix q assume q: "q \<in> set rs" "rq_0 q \<noteq> i"
    then show "req_ok ?t (EvServe i # tr) q" using ok untouched_ok [of s ?t q] by (simp add: untouched_def)
  next
    fix q assume q: "q \<in> set rs" "rq_0 q = i"
    then have "q = r" using r(1,2) flight_heads [OF fl] by (auto simp: distinct_map inj_on_def)
    then show "req_ok ?t (EvServe i # tr) (q\<lparr>rq_ph := Served\<rparr>)" using ok r by (auto simp: req_ok_def chain_def served_def)
  qed
  moreover have "ring_list NUM (vd_used_ring ?t) (vd_seen_idx ?t) (vd_used_idx ?t) = map of_nat (us @ [i])"
  proof -
    have "length us < NUM" using used_few [OF fl us(2,3)] by (simp add: NUM_def)
    then have "unat (vd_used_idx s - vd_seen_idx s) < NUM" using us(1) by (metis length_map length_ring_list)
    then show ?thesis using vq.push [of "vd_used_idx s" "vd_seen_idx s" "vd_used_ring s" "of_nat i"] us(1) by (simp add: NUM_def)
  qed
  moreover have "set (remove1 i (heads Taken rs)) = set (heads Taken rs) - {i}" using heads_distinct [OF flight_heads [OF fl], of Taken] by simp
  moreover have "i \<notin> set us" using us(3) io flight_heads [OF fl] unfolding in_heads by (auto simp: in_heads distinct_map inj_on_def)
  ultimately show ?thesis unfolding r(4) using assms(1) hs fl k us(2,3) by (simp add: dinv_def setp_image)
qed

lemma dinv_seen:
  assumes "dinv s l k tr rs (i # us)"
  shows "vd_seen_idx s \<noteq> vd_used_idx s" and "unat (vd_used_ring s (unat (vd_seen_idx s) mod NUM)) = i" and "i < NUM"
    and "\<exists>r \<in> set rs. rq_0 r = i \<and> vd_info_status s i = 0 \<and> vd_info_b s i = Some (rq_b r) \<and>
      (\<forall>p. dinv (s\<lparr>b_disk := (b_disk s)(rq_b r := False), vd_seen_idx := vd_seen_idx s + 1, pt := p\<rparr>) l k tr (setp i Seen rs) us)"
proof -
  have fl: "flight rs" and ok: "\<forall>r \<in> set rs. req_ok s tr r"
    and us: "ring_list NUM (vd_used_ring s) (vd_seen_idx s) (vd_used_idx s) = map of_nat (i # us)" "distinct (i # us)" "set (i # us) = set (heads Served rs)"
    using assms(1) by (auto simp: dinv_def)
  have io: "i \<in> set (heads Served rs)" using us(3) by auto
  then obtain r where r: "r \<in> set rs" "rq_0 r = i" "rq_ph r = Served" unfolding in_heads by blast
  show ne: "vd_seen_idx s \<noteq> vd_used_idx s" using us(1) by auto
  show n: "i < NUM" using flight_lt [OF fl r(1)] r(2) by simp
  have p: "vd_used_ring s (unat (vd_seen_idx s) mod NUM) = of_nat i \<and> ring_list NUM (vd_used_ring s) (vd_seen_idx s + 1) (vd_used_idx s) = map of_nat us"
    using vq.pop [OF ne, of "vd_used_ring s"] us(1) by simp
  then show "unat (vd_used_ring s (unat (vd_seen_idx s) mod NUM)) = i" using n by simp
  note hs = heads_setp [OF flight_heads [OF fl] io, of Seen]
  have h: "set (remove1 i (heads Served rs)) = set us" using heads_distinct [OF flight_heads [OF fl], of Served] us(2,3) by auto
  have "dinv (s\<lparr>b_disk := (b_disk s)(rq_b r := False), vd_seen_idx := vd_seen_idx s + 1, pt := p\<rparr>) l k tr (setp i Seen rs) us" for p
  proof -
    let ?t = "s\<lparr>b_disk := (b_disk s)(rq_b r := False), vd_seen_idx := vd_seen_idx s + 1, pt := p\<rparr>"
    have "\<forall>r \<in> set (setp i Seen rs). req_ok ?t tr r"
    proof (rule setp_ok [OF fl ok])
      fix q assume q: "q \<in> set rs" "rq_0 q \<noteq> i"
      then have "rq_b q \<noteq> rq_b r" using flight_apart(2) [OF fl q(1) r(1)] r(2) by auto
      then show "req_ok ?t tr q" using ok q untouched_ok [of s ?t q] by (simp add: untouched_def)
    next
      fix q assume q: "q \<in> set rs" "rq_0 q = i"
      then have "q = r" using r(1,2) flight_heads [OF fl] by (auto simp: distinct_map inj_on_def)
      then show "req_ok ?t tr (q\<lparr>rq_ph := Seen\<rparr>)" using ok r by (auto simp: req_ok_def chain_def served_def)
    qed
    then show ?thesis using assms(1) hs fl h p us(2) by (simp add: dinv_def setp_image)
  qed
  then show "\<exists>r \<in> set rs. rq_0 r = i \<and> vd_info_status s i = 0 \<and> vd_info_b s i = Some (rq_b r) \<and>
      (\<forall>p. dinv (s\<lparr>b_disk := (b_disk s)(rq_b r := False), vd_seen_idx := vd_seen_idx s + 1, pt := p\<rparr>) l k tr (setp i Seen rs) us)"
    using r ok by (intro bexI [OF _ r(1)]) (auto simp: req_ok_def)
qed

lemma dinv_intr_loop:
  assumes "dinv s l k tr rs us"
  shows "\<exists>t rs'. intr_loop s = Ok t \<and> dinv t l k tr rs' [] \<and> vd_avail_idx t = vd_avail_idx s"
  using assms
proof (induction us arbitrary: s rs)
  case Nil
  then have "vd_seen_idx s = vd_used_idx s" by (simp add: dinv_def ring_list_Nil_iff)
  then show ?case using Nil by (subst intr_loop.simps) auto
next
  case (Cons i us)
  note d = dinv_seen [OF Cons.prems]
  obtain r where r: "r \<in> set rs" "rq_0 r = i" "vd_info_status s i = 0" "vd_info_b s i = Some (rq_b r)"
    "\<And>p. dinv (s\<lparr>b_disk := (b_disk s)(rq_b r := False), vd_seen_idx := vd_seen_idx s + 1, pt := p\<rparr>) l k tr (setp i Seen rs) us"
    using d(4) by blast
  let ?u = "on_pt (s\<lparr>b_disk := (b_disk s)(rq_b r := False), vd_seen_idx := vd_seen_idx s + 1\<rparr>) (\<lambda>p. wakeup p (ChBuf (rq_b r)))"
  have "intr_loop s = intr_loop ?u" using d(1-3) r(3,4) by (subst intr_loop.simps) (simp add: Let_def)
  moreover have "dinv ?u l k tr (setp i Seen rs) us" using r(5) by (simp add: on_pt_def)
  moreover have "vd_avail_idx ?u = vd_avail_idx s" by (simp add: on_pt_def)
  ultimately show ?case using Cons.IH by metis
qed

lemma dinv_intr:
  assumes "dinv s l k tr rs us"
  shows "\<exists>t rs'. virtio_disk_intr mmio s = Ok t \<and> dinv t l k tr rs' [] \<and> vd_avail_idx t = vd_avail_idx s"
proof -
  let ?u = "mmio_write s 0x064 (mmio (mmio_writes s) 0x060 AND 3)"
  have "dinv ?u l k tr rs us" by (rule dinv_same [OF assms]) (simp_all add: mmio_write_def drv_def)
  then show ?thesis using dinv_intr_loop [of ?u l k tr rs us] by (simp add: virtio_disk_intr_def) (simp add: mmio_write_def)
qed

text \<open>The end of a request gives its three descriptors back.\<close>

lemma free_chain_law:
  assumes "chain s r" and "distinct (descs r)" and "\<forall>i \<in> set (descs r). i < NUM \<and> \<not> vd_free s i"
  shows "\<exists>p. free_chain s (rq_0 r) = Ok (s\<lparr>pt := p, vd_desc := (\<lambda>i. if i \<in> set (descs r) then null_desc else vd_desc s i),
     vd_free := (\<lambda>i. i \<in> set (descs r) \<or> vd_free s i)\<rparr>)"
proof -
  have f: "VRING_DESC_F_NEXT AND VRING_DESC_F_NEXT \<noteq> 0" "VRING_DESC_F_WRITE AND VRING_DESC_F_NEXT = 0"
    "((if rq_w r then 0 else VRING_DESC_F_WRITE) OR VRING_DESC_F_NEXT) AND VRING_DESC_F_NEXT \<noteq> 0"
    by (simp_all add: VRING_DESC_F_NEXT_def VRING_DESC_F_WRITE_def)
  have n: "rq_1 r < NUM" "rq_2 r < NUM" using assms(3) by (simp_all add: descs_def)
  obtain p0 where a: "free_desc s (rq_0 r) = Ok (s\<lparr>pt := p0, vd_desc := (vd_desc s)(rq_0 r := null_desc), vd_free := (vd_free s)(rq_0 r := True)\<rparr>)" (is "_ = Ok ?a")
    using free_desc_law [of "rq_0 r" s] assms(3) by (auto simp: descs_def)
  obtain p1 where b: "free_desc ?a (rq_1 r) = Ok (?a\<lparr>pt := p1, vd_desc := (vd_desc ?a)(rq_1 r := null_desc), vd_free := (vd_free ?a)(rq_1 r := True)\<rparr>)" (is "_ = Ok ?b")
    using free_desc_law [of "rq_1 r" ?a] assms(2,3) by (auto simp: descs_def)
  obtain p2 where c: "free_desc ?b (rq_2 r) = Ok (?b\<lparr>pt := p2, vd_desc := (vd_desc ?b)(rq_2 r := null_desc), vd_free := (vd_free ?b)(rq_2 r := True)\<rparr>)" (is "_ = Ok ?c")
    using free_desc_law [of "rq_2 r" ?b] assms(2,3) by (auto simp: descs_def)
  have d: "vd_desc ?a (rq_1 r) = vd_desc s (rq_1 r)" "vd_desc ?b (rq_2 r) = vd_desc s (rq_2 r)" using assms(2) by (auto simp: descs_def)
  have "free_chain s (rq_0 r) = free_chain ?a (rq_1 r)" using assms(1) n a f by (subst free_chain.simps) (simp add: chain_def Let_def)
  also have "\<dots> = free_chain ?b (rq_2 r)" using assms(1) n b d(1) f by (subst free_chain.simps) (simp add: chain_def Let_def)
  also have "\<dots> = Ok ?c" using assms(1) c d(2) f by (subst free_chain.simps) (simp add: chain_def Let_def)
  also have "?c = s\<lparr>pt := p2, vd_desc := (\<lambda>i. if i \<in> set (descs r) then null_desc else vd_desc s i),
     vd_free := (\<lambda>i. i \<in> set (descs r) \<or> vd_free s i)\<rparr>"
    by (simp add: descs_def) (auto simp: fun_eq_iff)
  finally show ?thesis ..
qed

lemma flight_remove:
  assumes "flight (xs @ r # ys)"
  shows "flight (xs @ ys)" and "owned (xs @ ys) = owned (xs @ r # ys) - set (descs r)"
  using assms by (auto simp: flight_def owned_def)

lemma dinv_finish:
  assumes "dinv s l k tr rs us" and "i < NUM" and "vd_info_b s i = Some b"
  shows "\<exists>r t rs'. virtio_disk_finish s b i = Ok (r, t) \<and> dinv t l k tr rs' us \<and> r = (\<not> b_disk s b) \<and>
    (r \<longrightarrow> (\<exists>w. hist tr i = Some (b, w, blockno (bufs s b), 1)))"
proof -
  have fl: "flight rs" and ok: "\<forall>r \<in> set rs. req_ok s tr r" using assms(1) by (auto simp: dinv_def)
  obtain r where r: "r \<in> set rs" "rq_0 r = i" using assms by (force simp: dinv_def)
  have q: "req_ok s tr r" and b: "rq_b r = b" using ok r assms(3) by (auto simp: req_ok_def)
  show ?thesis
  proof (cases "b_disk s b")
    case True
    let ?t = "on_pt s (\<lambda>p. sleep_enter p (ChBuf b))"
    have "dinv ?t l k tr rs us" by (rule dinv_same [OF assms(1)]) (simp_all add: on_pt_def drv_def)
    then show ?thesis using True by (auto simp: virtio_disk_finish_def)
  next
    case False
    then have ph: "rq_ph r = Seen" using q b by (simp add: req_ok_def)
    obtain xs ys where sp: "rs = xs @ r # ys" using split_list [OF r(1)] by blast
    note fr = flight_remove [OF fl [unfolded sp]]
    let ?u = "s\<lparr>vd_info_b := (vd_info_b s)(i := None)\<rparr>"
    have "chain ?u r" using q by (simp add: req_ok_def chain_def)
    moreover have "\<forall>j \<in> set (descs r). j < NUM \<and> \<not> vd_free ?u j"
      using assms(1) fl r(1) by (auto simp: dinv_def flight_def owned_def)
    ultimately obtain p where p: "free_chain ?u i = Ok (?u\<lparr>pt := p, vd_desc := (\<lambda>j. if j \<in> set (descs r) then null_desc else vd_desc ?u j),
        vd_free := (\<lambda>j. j \<in> set (descs r) \<or> vd_free ?u j)\<rparr>)" (is "_ = Ok ?t")
      using free_chain_law [of ?u r] flight_self [OF fl r(1)] r(2) by blast
    have i: "i \<in> set (descs r)" using r(2) by (simp add: descs_def)
    have "req_ok ?t tr x" if x: "x \<in> set (xs @ ys)" for x
    proof -
      have "x \<noteq> r" using x flight_heads [OF fl] sp by (auto simp: distinct_map)
      then have "set (descs x) \<inter> set (descs r) = {}" using flight_apart(1) [OF fl _ r(1)] x sp by auto
      moreover have "rq_0 x \<in> set (descs x)" by (simp add: descs_def)
      ultimately have "untouched s ?t x" using i by (auto simp: untouched_def)
      then show ?thesis using untouched_ok [of s ?t x tr tr] ok x sp by auto
    qed
    moreover have "heads ph' (xs @ ys) = heads ph' rs" if "ph' \<noteq> Seen" for ph' using that ph by (simp add: sp heads_def)
    moreover have "\<forall>j < NUM. vd_free ?t j \<longleftrightarrow> j \<notin> owned (xs @ ys)"
      using assms(1) unfolding fr(2) by (auto simp: dinv_def sp)
    moreover have "\<forall>j < NUM. vd_info_b ?t j \<noteq> None \<longrightarrow> j \<in> rq_0 ` set (xs @ ys)"
      using assms(1) r(2) by (auto simp: dinv_def sp)
    ultimately have "dinv ?t l k tr (xs @ ys) us" using assms(1) fr(1) by (simp add: dinv_def)
    moreover have "virtio_disk_finish s b i = Ok (True, ?t)" using False p by (simp add: virtio_disk_finish_def)
    moreover have "hist tr i = Some (b, rq_w r, blockno (bufs s b), 1)" using q b ph r(2) by (simp add: req_ok_def served_def)
    ultimately show ?thesis using False by blast
  qed
qed

text \<open>The start of a request.\<close>

lemma submit_simps [simp]:
  "vd_free (submit s b w i j m) = vd_free s" "vd_used_ring (submit s b w i j m) = vd_used_ring s" "vd_used_idx (submit s b w i j m) = vd_used_idx s"
  "vd_seen_idx (submit s b w i j m) = vd_seen_idx s" "vd_info_b (submit s b w i j m) = (vd_info_b s)(i := Some b)"
  "b_disk (submit s b w i j m) = (b_disk s)(b := True)" "vd_info_status (submit s b w i j m) = (vd_info_status s)(i := 0xff)"
  "bufs (submit s b w i j m) = bufs s" "vd_avail_idx (submit s b w i j m) = vd_avail_idx s + 1"
  "vd_avail_ring (submit s b w i j m) = (vd_avail_ring s)(unat (vd_avail_idx s) mod NUM := of_nat i)"
  "vd_ops (submit s b w i j m) = (vd_ops s)(i := \<lparr>vr_type = (if w then VIRTIO_BLK_T_OUT else VIRTIO_BLK_T_IN), vr_reserved = 0,
     vr_sector = ucast (blockno (bufs s b) * (of_nat BSIZE div 512))\<rparr>)"
  "vd_desc (submit s b w i j m) = (vd_desc s)
     (i := \<lparr>vq_addr = DmaOp i, vq_len = 16, vq_flags = VRING_DESC_F_NEXT, vq_next = of_nat j\<rparr>,
      j := \<lparr>vq_addr = DmaData b, vq_len = of_nat BSIZE, vq_flags = (if w then 0 else VRING_DESC_F_WRITE) OR VRING_DESC_F_NEXT, vq_next = of_nat m\<rparr>,
      m := \<lparr>vq_addr = DmaStatus i, vq_len = 1, vq_flags = VRING_DESC_F_WRITE, vq_next = 0\<rparr>)"
  by (simp_all add: submit_def set_desc_def mmio_write_def Let_def)

lemma sector: "n < 2 ^ 31 \<Longrightarrow> (ucast (n * (of_nat BSIZE div 512)) :: u64) = 2 * ucast (n :: u32)"
proof -
  assume "n < 2 ^ 31"
  then have n: "unat n < 2 ^ 31" by (simp add: word_less_nat_alt)
  have "unat (n * 2) = unat n * 2" using n by (simp add: unat_word_ariths)
  moreover have "unat (2 * ucast n :: u64) = 2 * unat n" using n by (simp add: unat_word_ariths)
  ultimately have "unat (ucast (n * 2) :: u64) = unat (2 * ucast n :: u64)" by simp
  then show ?thesis by (simp add: BSIZE_def word_unat_eq_iff)
qed

lemma dinv_submit:
  fixes w :: bool
  assumes "dinv s l k tr rs us" and "unused s b" and n: "blockno (bufs s b) < 2 ^ 31"
    and d: "distinct [i, j, m]" "\<forall>x \<in> {i, j, m}. x < NUM \<and> vd_free s x"
  defines "r \<equiv> \<lparr>rq_b = b, rq_w = w, rq_n = blockno (bufs s b), rq_0 = i, rq_1 = j, rq_2 = m, rq_ph = Offered\<rparr>"
  shows "dinv (on_pt (submit (s\<lparr>vd_free := (\<lambda>x. x \<notin> {i, j, m} \<and> vd_free s x)\<rparr>) b w i j m) f) l k
    (EvStart i b w (blockno (bufs s b)) # tr) (rs @ [r]) us" (is "dinv ?t l k ?tr _ us")
proof -
  have fl: "flight rs" and ok: "\<forall>r \<in> set rs. req_ok s tr r" using assms(1) by (auto simp: dinv_def)
  have ds: "descs r = [i, j, m]" by (simp add: r_def descs_def)
  have ow: "x \<notin> owned rs" if "x \<in> {i, j, m}" for x using assms(1) d(2) that by (auto simp: dinv_def)
  have bs: "b \<notin> rq_b ` set rs" using ok assms(2) flight_lt [OF fl] by (auto simp: req_ok_def unused_def)
  have "flight (rs @ [r])" using fl d ds ow bs by (auto simp: flight_def owned_def r_def)
  moreover have "\<forall>x < NUM. vd_free ?t x \<longleftrightarrow> x \<notin> owned (rs @ [r])" using assms(1) ds by (auto simp: dinv_def owned_def)
  moreover have "req_ok ?t ?tr r" using d(1) sector [OF n] by (simp add: req_ok_def chain_def r_def on_pt_def served_def)
  moreover have "req_ok ?t ?tr q" if q: "q \<in> set rs" for q
  proof -
    have "set (descs q) \<subseteq> owned rs" using q by (auto simp: owned_def)
    then have "i \<notin> set (descs q)" "j \<notin> set (descs q)" "m \<notin> set (descs q)" using ow by auto
    moreover have "rq_0 q \<in> set (descs q)" "rq_b q \<noteq> b" using bs q by (auto simp: descs_def)
    ultimately have "untouched s ?t q" "rq_0 q \<noteq> i" by (auto simp: untouched_def on_pt_def)
    then show ?thesis using untouched_ok [of s ?t q ?tr tr] ok q by simp
  qed
  moreover have "ring_list NUM (vd_avail_ring ?t) l (vd_avail_idx ?t) = map of_nat (heads Offered (rs @ [r]))"
  proof -
    have a: "ring_list NUM (vd_avail_ring s) l (vd_avail_idx s) = map of_nat (heads Offered rs)" using assms(1) by (simp add: dinv_def)
    have "length (heads Offered rs) < NUM" using heads_few [OF fl, of Offered] by (simp add: NUM_def)
    then have "unat (vd_avail_idx s - l) < NUM" using a by (metis length_map length_ring_list)
    then show ?thesis using vq.push [of "vd_avail_idx s" l "vd_avail_ring s" "of_nat i"] a
      by (simp add: on_pt_def NUM_def heads_def r_def)
  qed
  moreover have "heads ph (rs @ [r]) = heads ph rs" if "ph \<noteq> Offered" for ph using that by (simp add: heads_def r_def)
  ultimately show ?thesis using assms(1) by (auto simp: dinv_def on_pt_def r_def)
qed

lemma dinv_start:
  assumes "dinv s l k tr rs us" and "unused s b"
  shows "(\<exists>t. virtio_disk_start s b w = Ok (None, t) \<and> dinv t l k tr rs us) \<or>
    (\<exists>i t. virtio_disk_start s b w = Ok (Some i, t) \<and>
      (blockno (bufs s b) < 2 ^ 31 \<longrightarrow> (\<exists>rs'. dinv t l k (EvStart i b w (blockno (bufs s b)) # tr) rs' us)))"
proof -
  consider js where "length js = 3" "distinct js" "\<forall>j \<in> set js. j < NUM \<and> vd_free s j"
      "alloc3_desc s = Ok (Some js, s\<lparr>vd_free := (\<lambda>i. i \<notin> set js \<and> vd_free s i)\<rparr>)"
    | js p where "\<forall>j \<in> set js. j < NUM \<and> vd_free s j"
      "alloc3_desc s = Ok (None, s\<lparr>pt := p, vd_desc := (\<lambda>i. if i \<in> set js then null_desc else vd_desc s i), vd_free := vd_free s\<rparr>)"
    using alloc_descs_law [of "[]" s 3] unfolding alloc3_desc_def by auto
  then show ?thesis
  proof cases
    case 1
    then obtain i j m where js: "js = [i, j, m]" by (auto simp: length_Suc_conv numeral_eq_Suc)
    let ?u = "s\<lparr>vd_free := (\<lambda>x. x \<notin> {i, j, m} \<and> vd_free s x)\<rparr>"
    let ?t = "on_pt (submit ?u b w i j m) (\<lambda>p. sleep_enter p (ChBuf b))"
    have "virtio_disk_start s b w = Ok (Some i, ?t)" using 1(4) by (simp add: virtio_disk_start_def js)
    moreover have "\<exists>rs'. dinv ?t l k (EvStart i b w (blockno (bufs s b)) # tr) rs' us" if "blockno (bufs s b) < 2 ^ 31"
      using dinv_submit [OF assms that, of i j m] 1(2,3) js by auto
    ultimately show ?thesis by blast
  next
    case 2
    let ?t = "on_pt (s\<lparr>pt := p, vd_desc := (\<lambda>i. if i \<in> set js then null_desc else vd_desc s i), vd_free := vd_free s\<rparr>) (\<lambda>p. sleep_enter p ChDiskFree)"
    have "req_ok ?t tr q" if q: "q \<in> set rs" for q
    proof -
      have "\<forall>x \<in> set (descs q). x < NUM \<and> x \<in> owned rs" using q assms(1) by (auto simp: dinv_def flight_def owned_def)
      then have "\<forall>x \<in> set (descs q). x \<notin> set js" using 2(1) assms(1) by (auto simp: dinv_def)
      then have "untouched s ?t q" by (auto simp: untouched_def on_pt_def)
      then show ?thesis using untouched_ok [of s ?t q tr tr] assms(1) q by (simp add: dinv_def)
    qed
    then have "dinv ?t l k tr rs us" using assms(1) by (simp add: dinv_def on_pt_def)
    moreover have "virtio_disk_start s b w = Ok (None, ?t)" using 2(2) by (simp add: virtio_disk_start_def)
    ultimately show ?thesis by blast
  qed
qed

lemma vrun_dinv: "vrun serve mmio s l k tr \<Longrightarrow> block_device serve \<Longrightarrow> \<exists>rs us. dinv s l k tr rs us"
proof (induction rule: vrun.induct)
  case (vinit s)
  then show ?case using dinv_init by blast
next
  case (vstart s l k tr b w i t)
  then obtain rs us where "dinv s l k tr rs us" by blast
  then show ?case using dinv_start [OF _ vstart.hyps(2), of l k tr rs us w] vstart.hyps by auto
next
  case (vwait s l k tr b w t)
  then obtain rs us where "dinv s l k tr rs us" by blast
  then show ?case using dinv_start [OF _ vwait.hyps(2), of l k tr rs us w] vwait.hyps by auto
next
  case (vtake s l k tr)
  then show ?case using dinv_take by blast
next
  case (vserve s l k tr i)
  then show ?case using dinv_serve by blast
next
  case (vintr s l k tr t)
  then obtain rs us where "dinv s l k tr rs us" by blast
  then show ?case using dinv_intr [of s l k tr rs us mmio] vintr.hyps(2) by auto
next
  case (vfinish s l k tr i b r t)
  then obtain rs us where "dinv s l k tr rs us" by blast
  then show ?case using dinv_finish [OF _ vfinish.hyps(2,3)] vfinish.hyps(4) by fastforce
next
  case (vother s l k tr t)
  then obtain rs us where d: "dinv s l k tr rs us" by blast
  have "\<not> unused s (rq_b r)" if "r \<in> set rs" for r
    using that d flight_lt [of rs r] by (auto simp: unused_def dinv_def req_ok_def)
  then show ?case using dinv_same [OF d vother.hyps(2)] vother.hyps(3) by blast
qed

section \<open>The property\<close>

text \<open>
  C30. However requests, the device and interrupts interleave, the driver never panics and never
  indexes outside its tables: a request finds free descriptors or waits, the device is asked for
  exactly what \<^verbatim>\<open>virtio_disk_rw\<close> was called for and its service is the transfer of the buffer cache's
  model, a request that returns was served exactly once since it began, at most two are in flight, and
  when the device has nothing left to do the next interrupt lets every request end.
\<close>

theorem disk_protocol:
  assumes "block_device serve" and "vrun serve mmio s l k tr"
  shows "(\<forall>i \<in> set k. \<exists>b w. hist tr i = Some (b, w, blockno (bufs s b), 0) \<and> serve i s = completed i i (virtio_disk_rw s b w)) \<and>
    (\<forall>b w. unused s b \<longrightarrow> (\<exists>r t. virtio_disk_start s b w = Ok (r, t))) \<and>
    (\<forall>i b. i < NUM \<and> vd_info_b s i = Some b \<longrightarrow> (\<exists>r t. virtio_disk_finish s b i = Ok (r, t) \<and>
      (r \<longrightarrow> (\<exists>w. hist tr i = Some (b, w, blockno (bufs s b), 1))))) \<and>
    (\<exists>t. virtio_disk_intr mmio s = Ok t \<and> (l = vd_avail_idx s \<and> k = [] \<longrightarrow>
      (\<forall>i b. i < NUM \<and> vd_info_b t i = Some b \<longrightarrow> (\<exists>u. virtio_disk_finish t b i = Ok (True, u))))) \<and>
    card {i. i < NUM \<and> vd_info_b s i \<noteq> None} \<le> 2"
proof -
  obtain rs us where d: "dinv s l k tr rs us" using vrun_dinv [OF assms(2,1)] by blast
  have fl: "flight rs" and ok: "\<And>r. r \<in> set rs \<Longrightarrow> req_ok s tr r" using d by (auto simp: dinv_def)
  have "\<exists>b w. hist tr i = Some (b, w, blockno (bufs s b), 0) \<and> serve i s = completed i i (virtio_disk_rw s b w)" if i: "i \<in> set k" for i
  proof -
    obtain r where r: "r \<in> set rs" "serve i s = completed i i (transfer s (rq_b r) (rq_w r) (rq_n r))" "hist tr i = Some (rq_b r, rq_w r, rq_n r, 0)"
      using dinv_served [OF d assms(1) i] by blast
    moreover have "blockno (bufs s (rq_b r)) = rq_n r" using ok [OF r(1)] by (simp add: req_ok_def)
    ultimately show ?thesis by (auto simp: transfer_def virtio_disk_rw_def Let_def)
  qed
  moreover have "\<exists>r t. virtio_disk_start s b w = Ok (r, t)" if "unused s b" for b w using dinv_start [OF d that, of w] by blast
  moreover have "\<exists>r t. virtio_disk_finish s b i = Ok (r, t) \<and> (r \<longrightarrow> (\<exists>w. hist tr i = Some (b, w, blockno (bufs s b), 1)))"
    if "i < NUM \<and> vd_info_b s i = Some b" for i b using dinv_finish [OF d] that by blast
  moreover have "\<exists>t. virtio_disk_intr mmio s = Ok t \<and> (l = vd_avail_idx s \<and> k = [] \<longrightarrow>
      (\<forall>i b. i < NUM \<and> vd_info_b t i = Some b \<longrightarrow> (\<exists>u. virtio_disk_finish t b i = Ok (True, u))))"
  proof -
    obtain t rs' where t: "virtio_disk_intr mmio s = Ok t" "dinv t l k tr rs' []" "vd_avail_idx t = vd_avail_idx s" using dinv_intr [OF d] by blast
    have "\<exists>u. virtio_disk_finish t b i = Ok (True, u)" if q: "l = vd_avail_idx s" "k = []" and i: "i < NUM" "vd_info_b t i = Some b" for i b
    proof -
      have "heads Offered rs' = []" "heads Taken rs' = []" "heads Served rs' = []" using t(2,3) q by (auto simp: dinv_def)
      then have "rq_ph r = Seen" if "r \<in> set rs'" for r using that by (cases "rq_ph r") (auto simp: heads_def filter_empty_conv)
      moreover obtain r where "r \<in> set rs'" "rq_0 r = i" "req_ok t tr r" using t(2) i by (force simp: dinv_def)
      ultimately have "\<not> b_disk t b" using i(2) by (auto simp: req_ok_def)
      then show ?thesis using dinv_finish [OF t(2) i] by auto
    qed
    then show ?thesis using t(1) by blast
  qed
  moreover have "card {i. i < NUM \<and> vd_info_b s i \<noteq> None} \<le> 2"
  proof -
    have "{i. i < NUM \<and> vd_info_b s i \<noteq> None} \<subseteq> set (map rq_0 rs)" using d by (auto simp: dinv_def)
    then have "card {i. i < NUM \<and> vd_info_b s i \<noteq> None} \<le> card (set (map rq_0 rs))" by (intro card_mono) simp_all
    also have "\<dots> \<le> length (map rq_0 rs)" by (rule card_length)
    finally show ?thesis using flight_few [OF fl] by simp
  qed
  ultimately show ?thesis by blast
qed

section \<open>A device\<close>

text \<open>A device that serves each request as its chain asks, and a request to read block 7 that it has taken.\<close>

definition dev0 :: "nat \<Rightarrow> vdst \<Rightarrow> vdst" where
  "dev0 i s =
     (let d0 = vd_desc s i; d1 = vd_desc s (unat (vq_next d0)); d2 = vd_desc s (unat (vq_next d1)) in
      case (vq_addr d0, vq_addr d1, vq_addr d2) of
        (DmaOp op, DmaData b, DmaStatus j) \<Rightarrow>
          completed i j (transfer s b (vr_type (vd_ops s op) = VIRTIO_BLK_T_OUT) (ucast (vr_sector (vd_ops s op) div 2)))
      | _ \<Rightarrow> s)"

lemma half_sector: "(ucast ((2 * ucast (n :: u32) :: u64) div 2) :: u32) = n"
proof -
  have "unat n < 2 ^ 32" using unsigned_less [of n] by simp
  then have "unat ((2 * ucast n :: u64) div 2) = unat n" by (simp add: unat_div unat_word_ariths)
  then have "unat (ucast ((2 * ucast n :: u64) div 2) :: u32) = unat n" using \<open>unat n < 2 ^ 32\<close> by (simp add: unsigned_ucast_eq take_bit_nat_eq_self)
  then show ?thesis by (simp add: word_unat_eq_iff)
qed

lemma dev0_device: "block_device dev0"
  unfolding block_device_def
proof (intro allI impI)
  fix s i b w n j assume "asks s i b w n j"
  then show "dev0 i s = completed i j (transfer s b w n)"
    by (cases w) (auto simp: asks_def dev0_def Let_def half_sector VIRTIO_BLK_T_OUT_def VIRTIO_BLK_T_IN_def)
qed

definition disk0 :: "kern \<Rightarrow> vdst" where
  "disk0 s = kern.extend s
     \<lparr>vd_desc = (\<lambda>_. null_desc), vd_avail_ring = (\<lambda>_. 0), vd_avail_idx = 0, vd_used_ring = (\<lambda>_. 0), vd_used_idx = 0, vd_free = (\<lambda>_. True),
      vd_seen_idx = 0, vd_info_b = (\<lambda>_. None), vd_info_status = (\<lambda>_. 0), vd_ops = (\<lambda>_. \<lparr>vr_type = 0, vr_reserved = 0, vr_sector = 0\<rparr>),
      b_disk = (\<lambda>_. False), mmio_writes = [], vd_pages = (0, 0, 0)\<rparr>"

lemma disk0_start:
  "\<exists>f. virtio_disk_start (disk0 s) b w = Ok (Some 0, on_pt (submit (disk0 s\<lparr>vd_free := (\<lambda>x. 2 < x)\<rparr>) b w 0 1 2) f)"
proof -
  have "alloc3_desc (disk0 s) = Ok (Some [0, 1, 2], disk0 s\<lparr>vd_free := (\<lambda>x. 2 < x)\<rparr>)"
    by (simp add: alloc3_desc_def alloc_desc_def NUM_def numeral_eq_Suc disk0_def kern.extend_def fun_eq_iff)
  then show ?thesis by (auto simp: virtio_disk_start_def)
qed

theorem disk_protocol_witness:
  "\<exists>s. vrun dev0 (\<lambda>_ _. 0) s 1 [0] [EvStart 0 3 False 0] \<and> dev0 0 s = completed 0 0 (virtio_disk_rw s 3 False)"
proof -
  let ?s = "disk0 kern0"
  have i: "idle ?s" "unused ?s 3" "blockno (bufs ?s 3) = 0" "vd_avail_idx ?s = 0"
    by (simp_all add: idle_def unused_def disk0_def kern.extend_def kern0_def ttyst.extend_def tty0_def zero_buf_def)
  obtain f where f: "virtio_disk_start ?s 3 False = Ok (Some 0, on_pt (submit (?s\<lparr>vd_free := (\<lambda>x. 2 < x)\<rparr>) 3 False 0 1 2) f)" (is "_ = Ok (_, ?t)")
    using disk0_start by blast
  have "vrun dev0 (\<lambda>_ _. 0) ?t 0 [] [EvStart 0 3 False 0]" using vstart [OF vinit [OF i(1)] i(2) _ f] i(3,4) by simp
  moreover have "vd_avail_idx ?t = 1" "vd_avail_ring ?t (unat (0 :: u16) mod NUM) = 0" using i(4) by (simp_all add: on_pt_def)
  ultimately have r: "vrun dev0 (\<lambda>_ _. 0) ?t 1 [0] [EvStart 0 3 False 0]" using vtake [of dev0 "\<lambda>_ _. 0" ?t 0 "[]" "[EvStart 0 3 False 0]"] by simp
  have "dev0 0 ?t = completed 0 0 (virtio_disk_rw ?t 3 False)" using conjunct1 [OF disk_protocol [OF dev0_device r]] by auto
  then show ?thesis using r by blast
qed

end
