(* ===== verification/Trapprops.thy ===== *)
theory Trapprops
  imports Trap Diskproto
begin

text \<open>
  A page fault from user space, from \<^verbatim>\<open>usertrap\<close> through the copy-on-write handler back to user
  space: the trapframe, the address spaces and the registers together.
\<close>

section \<open>The trapframe\<close>

text \<open>The trapframe of process \<open>i\<close> is a page of the kernel.\<close>

definition tf_ok :: "'a ptab_scheme \<Rightarrow> nat \<Rightarrow> (u64 \<Rightarrow> int) \<Rightarrow> bool" where
  "tf_ok p i E \<longleftrightarrow> aligned 12 (p_trapframe (procs p i)) \<and> (\<forall>x. blk 12 x = p_trapframe (procs p i) \<longrightarrow> kdata (kmem p) E x)"

text \<open>The offset of a field of \<^verbatim>\<open>struct trapframe\<close>.\<close>

definition tf_field :: "u64 \<Rightarrow> bool" where
  "tf_field off \<longleftrightarrow> aligned 3 off \<and> unat off < tf_size"

lemma tf_fields [simp]:
  "tf_field tf_kernel_satp" "tf_field tf_kernel_sp" "tf_field tf_kernel_trap" "tf_field tf_epc" "tf_field tf_kernel_hartid"
  by (simp_all add: tf_field_def aligned_unat tf_size_def tf_kernel_satp_def tf_kernel_sp_def tf_kernel_trap_def tf_epc_def tf_kernel_hartid_def)

lemma tf_set_simps [simp]:
  "procs (tf_set p i off v) = procs p" "me (tf_set p i off v) = me p" "xfer (tf_set p i off v) = xfer p"
  "counter (kmem (tf_set p i off v)) = counter (kmem p)"
  "page_ok (kmem (tf_set p i off v)) = page_ok (kmem p)" "killed (tf_set p i off v) = killed p" "root_of (tf_set p i off v) = root_of p"
  by (auto simp: tf_set_def set_mem_def page_ok_def killed_def myproc_def fun_eq_iff)

lemma aligned_plus: "aligned n a \<Longrightarrow> aligned n b \<Longrightarrow> n \<le> 64 \<Longrightarrow> aligned n (a + b)"
proof -
  assume a: "aligned n a" "aligned n b" "n \<le> 64"
  then have "2 ^ n dvd unat a + unat b" "(2 :: nat) ^ n dvd 2 ^ 64" by (simp_all only: aligned_unat mod_eq_0_iff_dvd dvd_add le_imp_power_dvd)
  then have "2 ^ n dvd (unat a + unat b) mod 2 ^ 64" by (rule dvd_mod)
  then show ?thesis by (simp add: aligned_unat unat_word_ariths mod_eq_0_iff_dvd)
qed

lemma tf_addr:
  assumes "tf_ok p i E" and "tf_field off"
  shows "aligned 3 (p_trapframe (procs p i) + off)" and "unat (x - (p_trapframe (procs p i) + off)) < 8 \<Longrightarrow> blk 12 x = p_trapframe (procs p i)"
proof -
  let ?a = "p_trapframe (procs p i)"
  have al: "aligned 12 ?a" and o: "aligned 3 off" "unat off < 288" using assms by (simp_all add: tf_ok_def tf_field_def tf_size_def)
  then show "aligned 3 (?a + off)" using aligned_mono [OF al, of 3] aligned_plus [of 3 "?a" off] by simp
  assume "unat (x - (?a + off)) < 8"
  then have "unat (off + (x - (?a + off))) < 2 ^ 12" using o(2) by (intro small_add) simp
  then have "blk 12 (?a + (off + (x - (?a + off)))) = ?a" by (intro blk_offset [OF al]) simp_all
  then show "blk 12 x = ?a" by simp
qed

lemma tf_get_same [simp]: "tf_get (tf_set p i off v) i off = v"
  by (simp add: tf_get_def tf_set_def set_mem_def)

lemma tf_get_other:
  assumes "tf_ok p i E" and "tf_field off" and "tf_field off'" and "off \<noteq> off'"
  shows "tf_get (tf_set p i off v) i off' = tf_get p i off'"
  using assms tf_addr(1) [OF assms(1)] by (simp add: tf_get_def tf_set_def set_mem_def ld64_st64_other)

lemma tf_set_keeps:
  assumes "tf_ok p i E" and "tf_field off" and "vok (kmem p) Rs E"
  shows "vok (kmem (tf_set p i off v)) Rs E" and "same_view (umem p) (umem (tf_set p i off v)) Rs" and "tf_ok (tf_set p i off v) i E"
    and "\<And>r va. r \<in> Rs \<Longrightarrow> leaf (umem (tf_set p i off v)) r va = leaf (umem p) r va"
proof -
  let ?m = "st64 (umem p) (p_trapframe (procs p i) + off) v"
  have fr: "?m x = umem p x" if "\<not> kdata (kmem p) E x" for x
    using that assms(1) tf_addr(2) [OF assms(1,2), of x] by (auto simp: tf_ok_def st64_def write_mem_def)
  show "vok (kmem (tf_set p i off v)) Rs E" "same_view (umem p) (umem (tf_set p i off v)) Rs"
    "\<And>r va. r \<in> Rs \<Longrightarrow> leaf (umem (tf_set p i off v)) r va = leaf (umem p) r va"
    using kernel_write [OF assms(3) fr] by (simp_all add: tf_set_def set_mem_def)
  show "tf_ok (tf_set p i off v) i E" using assms(1) by (simp add: tf_ok_def kdata_def)
qed

lemma tf_get_kernel:
  assumes "tf_ok p i E" and "tf_field off" and "\<forall>x. kdata (kmem p) E x \<longrightarrow> memory m x = umem p x"
  shows "tf_get (p\<lparr>kmem := m\<rparr>) i off = tf_get p i off"
proof -
  have "memory m (p_trapframe (procs p i) + off + of_nat j) = umem p (p_trapframe (procs p i) + off + of_nat j)" if "j < 8" for j
    using tf_addr(2) [OF assms(1,2), of "p_trapframe (procs p i) + off + of_nat j"] that assms(1,3) by (simp add: tf_ok_def unat_of_nat64)
  then show ?thesis using read_mem_cong [of 8 "memory m" "p_trapframe (procs p i) + off" "umem p"] by (simp add: tf_get_def ld64_def)
qed

text \<open>A sequence of writes to fields, as the trap code does them.\<close>

primrec tf_sets :: "'a ptab_scheme \<Rightarrow> nat \<Rightarrow> (u64 \<times> u64) list \<Rightarrow> 'a ptab_scheme" where
  "tf_sets p i [] = p"
| "tf_sets p i (w # ws) = tf_sets (tf_set p i (fst w) (snd w)) i ws"

lemma tf_sets_keeps:
  assumes "tf_ok p i E" and "vok (kmem p) Rs E" and "\<forall>w \<in> set ws. tf_field (fst w)"
  shows "vok (kmem (tf_sets p i ws)) Rs E \<and> same_view (umem p) (umem (tf_sets p i ws)) Rs \<and> tf_ok (tf_sets p i ws) i E \<and>
    (\<forall>r \<in> Rs. \<forall>va. leaf (umem (tf_sets p i ws)) r va = leaf (umem p) r va) \<and>
    (\<exists>k. tf_sets p i ws = p\<lparr>kmem := k\<rparr>) \<and>
    (\<forall>off. tf_field off \<longrightarrow> off \<notin> fst ` set ws \<longrightarrow> tf_get (tf_sets p i ws) i off = tf_get p i off)"
  using assms
proof (induction ws arbitrary: p)
  case (Cons w ws)
  let ?q = "tf_set p i (fst w) (snd w)"
  have f: "tf_field (fst w)" using Cons.prems(3) by simp
  note k = tf_set_keeps [OF Cons.prems(1) f Cons.prems(2), where v = "snd w"]
  have "?q\<lparr>kmem := k\<rparr> = p\<lparr>kmem := k\<rparr>" for k by (simp add: tf_set_def set_mem_def)
  moreover have "tf_get ?q i off = tf_get p i off" if "tf_field off" "off \<noteq> fst w" for off
    using tf_get_other [OF Cons.prems(1) f that(1)] that(2) by simp
  ultimately show ?case
    using Cons.IH [OF k(3,1)] Cons.prems(3) k(4) same_view_trans [OF k(2)] by simp
next
  case (Nil p)
  have "\<exists>k. p = p\<lparr>kmem := k\<rparr>" by (rule exI [of _ "kmem p"]) simp
  with Nil show ?case by simp
qed

section \<open>Back to user space\<close>

lemma on_pt_csr [simp]: "scause (on_pt s f) = scause s" "stval (on_pt s f) = stval s" "sstatus (on_pt s f) = sstatus s" "sepc (on_pt s f) = sepc s"
  by (simp_all add: on_pt_def)

definition ret_writes :: "'a tkern_scheme \<Rightarrow> (u64 \<times> u64) list" where
  "ret_writes s = [(tf_kernel_satp, satp s), (tf_kernel_sp, p_kstack (myproc (pt s)) + PGSIZE),
     (tf_kernel_trap, usertrap_pc s), (tf_kernel_hartid, of_nat (hartid s))]"

lemma bit_sstatus: "bit SSTATUS_SPP n \<longleftrightarrow> n = 8" "bit SSTATUS_SPIE n \<longleftrightarrow> n = 5" "bit SSTATUS_SIE n \<longleftrightarrow> n = 1"
  unfolding SSTATUS_SPP_def SSTATUS_SPIE_def SSTATUS_SIE_def bit_push_bit_iff bit_1_iff by auto

lemma usertrapret_law:
  assumes "tf_ok (pt s) (me (pt s)) E" and "vok (kmem (pt s)) Rs E"
  shows "\<exists>t. usertrapret s = (ToUser (MAKE_SATP (root_of (pt s))), t) \<and> pt t = tf_sets (pt s) (me (pt s)) (ret_writes s) \<and>
    sepc t = tf_get (pt s) (me (pt s)) tf_epc \<and> sstatus t = ((sstatus s AND NOT SSTATUS_SIE) AND NOT SSTATUS_SPP) OR SSTATUS_SPIE \<and>
    stvec t = TRAMPOLINE + uservec_off s"
proof -
  let ?i = "me (pt s)" and ?p = "tf_sets (pt s) (me (pt s)) (ret_writes s)"
  have f: "\<forall>w \<in> set (ret_writes s). tf_field (fst w)" by (simp add: ret_writes_def)
  have "tf_epc \<notin> fst ` set (ret_writes s)"
    by (simp add: ret_writes_def tf_epc_def tf_kernel_satp_def tf_kernel_sp_def tf_kernel_trap_def tf_kernel_hartid_def)
  then have "tf_get ?p ?i tf_epc = tf_get (pt s) ?i tf_epc" using tf_sets_keeps [OF assms f] tf_fields(4) by blast
  then show ?thesis
    by (simp add: usertrapret_def Let_def intr_off_def on_pt_def ret_writes_def myproc_def)
qed

section \<open>The property\<close>

text \<open>
  C13. A load or store fault of a user program: \<^verbatim>\<open>usertrap\<close> either goes back to the faulting
  instruction with the page writable, the memory of every program and the registers of this one as
  they were, and interrupts set up for user mode; or the faulting address is 0, which the handler
  always refuses, or one that the program may not write, or memory is exhausted, and the process is
  marked killed and exits with -1, with no memory changed.
\<close>

theorem page_fault_resumes:
  assumes "vok (kmem (pt s)) Rs E" and "root_of (pt s) \<in> Rs" and "tf_ok (pt s) (me (pt s)) E"
    and "sstatus s AND SSTATUS_SPP = 0" and "scause s = 13 \<or> scause s = 15" and "\<not> killed (pt s) (me (pt s))"
  defines "i \<equiv> me (pt s)" and "r \<equiv> root_of (pt s)"
  shows "(\<exists>t. usertrap mmio s = Ok (ToUser (MAKE_SATP r), t) \<and> sepc t = sepc s \<and> procs (pt t) = procs (pt s) \<and>
      vok (kmem (pt t)) Rs E \<and> same_view (umem (pt s)) (umem (pt t)) Rs \<and>
      uwritable (umem (pt s)) r (stval s) \<and> bit (leaf (umem (pt t)) r (stval s)) 2 \<and>
      (\<forall>off. tf_field off \<and> 40 \<le> off \<longrightarrow> tf_get (pt t) i off = tf_get (pt s) i off) \<and>
      sstatus t AND SSTATUS_SPP = 0 \<and> sstatus t AND SSTATUS_SIE = 0 \<and> sstatus t AND SSTATUS_SPIE = SSTATUS_SPIE) \<or>
    (\<exists>u. usertrap mmio s = bnd (exit u (-1)) (\<lambda>s. Ok (Gone, s)) \<and> procs (pt u) = (procs (pt s))(i := (procs (pt s) i)\<lparr>p_killed := True\<rparr>) \<and>
      vok (kmem (pt u)) Rs E \<and> same_view (umem (pt s)) (umem (pt u)) Rs \<and>
      (stval s = 0 \<or> \<not> uwritable (umem (pt s)) r (stval s) \<or> full (kmem (pt s))))"
proof -
  define p where "p = tf_set (pt s) i tf_epc (sepc s)"
  note k = tf_set_keeps [OF assms(3) tf_fields(4) assms(1), folded i_def, where v = "sepc s", folded p_def]
  have p: "procs p = procs (pt s)" "me p = i" "root_of p = r" "\<not> killed p i" "tf_get p i tf_epc = sepc s" "full (kmem p) = full (kmem (pt s))"
    using assms(6) by (simp_all add: p_def i_def r_def full_def refs_def)
  define u where "u = on_pt (s\<lparr>stvec := kernelvec_pc s\<rparr>) (\<lambda>p. tf_set p i tf_epc (sepc s))"
  have e: "usertrap mmio s = bnd (cow_page_fault_handler (kmem p) r (stval s)) (\<lambda>(ret, k).
      usertrap_end (if ret = -1 then on_pt (on_kmem u k) (\<lambda>p. setkilled p i) else on_kmem u k) 0)"
    using assms(4,5) unfolding u_def p_def i_def r_def by (auto simp: usertrap_def Let_def myproc_def split: if_splits)
  obtain ret m where h: "cow_page_fault_handler (kmem p) r (stval s) = Ok (ret, m)" "vok m Rs E" "page_ok m = page_ok (kmem p)"
    "\<forall>x. kdata (kmem p) E x \<longrightarrow> memory m x = umem p x" "same_view (umem p) (memory m) Rs"
    "if ret = 0 then uwritable (umem p) r (stval s) \<and> bit (leaf (memory m) r (stval s)) 2
     else ret = -1 \<and> (stval s = 0 \<or> \<not> uwritable (umem p) r (stval s) \<or> full (kmem p))"
  proof (cases "stval s \<noteq> 0 \<and> stval s < MAXVA")
    case True
    then show ?thesis using that cow_handler_spec [OF k(1) assms(2) [folded r_def], of "stval s"] by (metis (no_types, lifting))
  next
    case False
    then have "stval s = 0 \<or> \<not> uwritable (umem p) r (stval s)" by (auto simp: uwritable_def Let_def)
    then show ?thesis using that handler_range [of "stval s" "kmem p" r] False k(1) by auto
  qed
  have wr: "uwritable (umem p) r (stval s) = uwritable (umem (pt s)) r (stval s)" using k(2) assms(2) by (simp add: same_view_def r_def)
  have sv: "same_view (umem (pt s)) (memory m) Rs" using same_view_trans [OF k(2) h(5)] .
  define v where "v = on_kmem u m"
  have v: "pt v = p\<lparr>kmem := m\<rparr>" "sstatus v = sstatus s" by (simp_all add: v_def u_def on_kmem_def on_pt_def p_def)
  show ?thesis
  proof (cases "ret = 0")
    case False
    then have r: "ret = -1" "stval s = 0 \<or> \<not> uwritable (umem p) r (stval s) \<or> full (kmem p)" using h(6) by auto
    let ?u = "on_pt v (\<lambda>p. setkilled p i)"
    have "killed (pt ?u) (me (pt ?u))" using p(2) by (simp add: v killed_def setkilled_def)
    then have "usertrap mmio s = bnd (exit ?u (-1)) (\<lambda>s. Ok (Gone, s))" using e h(1) r(1) by (simp add: usertrap_end_def v_def)
    moreover have "procs (pt ?u) = (procs (pt s))(i := (procs (pt s) i)\<lparr>p_killed := True\<rparr>)" "kmem (pt ?u) = m"
      using p(1) by (simp_all add: v setkilled_def)
    ultimately show ?thesis using r(2) wr p(6) h(2) sv by (intro disjI2 exI [of _ ?u]) simp
  next
    case True
    have tf: "tf_ok (pt v) (me (pt v)) E" using k(3) h(3) p(2) by (simp add: v tf_ok_def kdata_def)
    obtain t where t: "usertrapret v = (ToUser (MAKE_SATP r), t)" "pt t = tf_sets (pt v) i (ret_writes v)"
      "sepc t = tf_get (pt v) i tf_epc" "sstatus t = ((sstatus s AND NOT SSTATUS_SIE) AND NOT SSTATUS_SPP) OR SSTATUS_SPIE"
      using usertrapret_law [OF tf, of Rs] h(2) p(1-3) by (auto simp: v myproc_def)
    note ts = tf_sets_keeps [OF tf, of Rs "ret_writes v"]
    have kp: "vok (kmem (pt t)) Rs E" "same_view (memory m) (umem (pt t)) Rs" "leaf (umem (pt t)) r (stval s) = leaf (memory m) r (stval s)"
      "procs (pt t) = procs (pt s)" "\<And>off. tf_field off \<Longrightarrow> off \<notin> fst ` set (ret_writes v) \<Longrightarrow> tf_get (pt t) i off = tf_get (pt v) i off"
      using ts h(2) assms(2) p(1,2) t(2) by (auto simp: v r_def ret_writes_def)
    have g: "tf_get (pt v) i off = tf_get p i off" if "tf_field off" for off
      unfolding v(1) by (rule tf_get_kernel [OF k(3) that h(4)])
    have n: "off \<notin> fst ` set (ret_writes v)" "off \<noteq> tf_epc" if "40 \<le> off" for off
      using that by (auto simp: ret_writes_def tf_epc_def tf_kernel_satp_def tf_kernel_sp_def tf_kernel_trap_def tf_kernel_hartid_def)
    have f: "tf_get (pt t) i off = tf_get (pt s) i off" if "tf_field off" "40 \<le> off" for off
      using kp(5) [OF that(1) n(1) [OF that(2)]] g [OF that(1)] n(2) [OF that(2)]
        tf_get_other [OF assms(3) tf_fields(4) that(1), folded i_def, where v = "sepc s", folded p_def] by simp
    have st: "sstatus t AND SSTATUS_SPP = 0" "sstatus t AND SSTATUS_SIE = 0" "sstatus t AND SSTATUS_SPIE = SSTATUS_SPIE"
      unfolding t(4) by (rule bit_eqI, auto simp: bit_and_iff bit_or_iff bit_not_iff bit_sstatus)+
    have "usertrap mmio s = Ok (ToUser (MAKE_SATP r), t)"
      using e h(1) True t(1) p(2,4) by (simp add: usertrap_end_def v v_def [symmetric] killed_def)
    moreover have "sepc t = sepc s" using t(3) g [OF tf_fields(4)] p(5) by simp
    moreover have "uwritable (umem (pt s)) r (stval s)" "bit (leaf (umem (pt t)) r (stval s)) 2" using h(6) True wr kp(3) by simp_all
    ultimately show ?thesis using kp(1,4) same_view_trans [OF sv kp(2)] f st by (intro disjI1 exI [of _ t]) simp
  qed
qed

definition kern1 :: kern where
  "kern1 = kern0\<lparr>pt := (pt kern0)\<lparr>procs := (\<lambda>_. zero_proc\<lparr>p_pagetable := pgA, p_trapframe := KERNBASE\<rparr>)\<rparr>\<rparr>"

text \<open>A store to address 8 by the instruction at 42.\<close>

definition trap0 :: tkern where
  "trap0 = vdst.extend (disk0 kern1)
     \<lparr>scause = 15, sepc = 42, stval = 8, sstatus = 0, stvec = 0, satp = 0, sip = 0, hartid = 0, has_proc = True, sclaim = 0, sclaim_writes = [],
      plic_writes = [], kernel_pagetable = 0, kernelvec_pc = 0, usertrap_pc = 0, uservec_off = 0, etext = KERNBASE, first = False\<rparr>"

lemma trap0_simps [simp]: "pt trap0 = pt kern1" "scause trap0 = 15" "sepc trap0 = 42" "stval trap0 = 8" "sstatus trap0 = 0"
  by (simp_all add: trap0_def vdst.extend_def disk0_def kern.extend_def)

lemma kern1_simps [simp]: "kmem (pt kern1) = sample" "me (pt kern1) = 0" "procs (pt kern1) i = zero_proc\<lparr>p_pagetable := pgA, p_trapframe := KERNBASE\<rparr>"
  "root_of (pt kern1) = pgA" "\<not> killed (pt kern1) i"
  by (simp_all add: kern1_def myproc_def killed_def zero_proc_def)

theorem page_fault_resumes_witness:
  "\<exists>t. usertrap (\<lambda>_ _. 0) trap0 = Ok (ToUser (MAKE_SATP pgA), t) \<and> sepc t = 42 \<and> uload (umem (pt t)) pgA 8 = uload (memory sample) pgA 8"
proof -
  have "\<not> page_ok sample KERNBASE" by (simp add: page_ok_def sample_def sample0_def pgA_def KERNBASE_def)
  then have tf: "tf_ok (pt trap0) (me (pt trap0)) (\<lambda>_. 0)" by (simp add: tf_ok_def kdata_def) (simp add: KERNBASE_def aligned_unat)
  have h: "vok (kmem (pt trap0)) {pgA, pgB} (\<lambda>_. 0)" "root_of (pt trap0) \<in> {pgA, pgB}" using sample_vok by simp_all
  have "page_ok sample = page_ok sample0" "refs sample = refs sample0" by (auto simp: sample_def refs_def page_ok_def fun_eq_iff)
  moreover have "page_ok sample0 pgF" by (simp add: sample_pages)
  ultimately have "page_ok sample pgF" "refs sample pgF = 0" using sample_refs [of pgF] by simp_all
  then have nf: "\<not> full sample" by (auto simp: full_def)
  have "PGROUNDDOWN 8 = 0" "(8 :: u64) < MAXVA" by (simp_all add: PGROUNDDOWN_def layout_defs)
  then have w: "uwritable (memory sample) pgA 8" using sample_leaf [of pgA 8] user_entry_props by (simp add: uwritable_def)
  show ?thesis
    using page_fault_resumes [OF h tf, of "\<lambda>_ _. 0"] nf w by (auto simp: same_view_def)
qed

end
