(* ===== verification/Fileobs.thy ===== *)
theory Fileobs
  imports Syscall
begin

text \<open>
  What the operations of the kernel leave alone: the reference counts of open files and the
  descriptors of the processes. An operation of the lower layers changes none of them; the three
  predicates say so for its result, and their rules follow the structure of the code.
\<close>

section \<open>The observation\<close>

text \<open>A process that may have open files.\<close>

definition filed :: "proc \<Rightarrow> bool" where
  "filed p \<longleftrightarrow> p_state p \<noteq> UNUSED \<and> p_state p \<noteq> ZOMBIE"

definition pobs :: "'a ptab_scheme \<Rightarrow> (nat \<Rightarrow> (nat \<Rightarrow> nat option) \<times> bool) \<times> nat" where
  "pobs p = (\<lambda>i. (p_ofile (procs p i), filed (procs p i)), me p)"

type_synonym obs = "(nat \<Rightarrow> int) \<times> (nat \<Rightarrow> (nat \<Rightarrow> nat option) \<times> bool) \<times> nat"

definition fobs :: "'a kern_scheme \<Rightarrow> obs" where
  "fobs s = (\<lambda>f. f_ref (ftab s f), pobs (pt s))"

definition kp1 :: "obs \<Rightarrow> 'a kern_scheme res \<Rightarrow> bool" where
  "kp1 k m \<longleftrightarrow> (\<forall>t. m = Ok t \<longrightarrow> fobs t = k)"

definition kp2 :: "obs \<Rightarrow> ('x \<times> 'a kern_scheme) res \<Rightarrow> bool" where
  "kp2 k m \<longleftrightarrow> (\<forall>x t. m = Ok (x, t) \<longrightarrow> fobs t = k)"

definition kp3 :: "obs \<Rightarrow> ('x \<times> 'y \<times> 'a kern_scheme) res \<Rightarrow> bool" where
  "kp3 k m \<longleftrightarrow> (\<forall>x y t. m = Ok (x, y, t) \<longrightarrow> fobs t = k)"

lemmas kp_defs = kp1_def kp2_def kp3_def

named_theorems keeps

lemma kp_Ok [simp]: "kp1 k (Ok s) \<longleftrightarrow> fobs s = k" "kp2 k (Ok (x, s)) \<longleftrightarrow> fobs s = k" "kp3 k (Ok (x, y, s)) \<longleftrightarrow> fobs s = k"
  by (simp_all add: kp_defs)

lemma kp_fail [simp]:
  "kp1 k (Panic e)" "kp2 k (Panic e)" "kp3 k (Panic e)" "kp1 k Blocked" "kp2 k Blocked" "kp3 k Blocked" "kp1 k Undef" "kp2 k Undef" "kp3 k Undef"
  by (simp_all add: kp_defs)

lemma kp_bnd1 [keeps]:
  "kp1 k m \<Longrightarrow> (\<And>s. fobs s = k \<Longrightarrow> kp1 k (f s)) \<Longrightarrow> kp1 k (bnd m f)"
  "kp1 k m \<Longrightarrow> (\<And>s. fobs s = k \<Longrightarrow> kp2 k (g s)) \<Longrightarrow> kp2 k (bnd m g)"
  "kp1 k m \<Longrightarrow> (\<And>s. fobs s = k \<Longrightarrow> kp3 k (h s)) \<Longrightarrow> kp3 k (bnd m h)"
  for m :: "'a kern_scheme res" by (auto simp: kp_defs)

lemma kp_bnd2 [keeps]:
  "kp2 k m \<Longrightarrow> (\<And>x s. fobs s = k \<Longrightarrow> kp1 k (f (x, s))) \<Longrightarrow> kp1 k (bnd m f)"
  "kp2 k m \<Longrightarrow> (\<And>x s. fobs s = k \<Longrightarrow> kp2 k (g (x, s))) \<Longrightarrow> kp2 k (bnd m g)"
  "kp2 k m \<Longrightarrow> (\<And>x s. fobs s = k \<Longrightarrow> kp3 k (h (x, s))) \<Longrightarrow> kp3 k (bnd m h)"
  for m :: "('x \<times> 'a kern_scheme) res" by (auto simp: kp_defs)

lemma kp_bnd3 [keeps]:
  "kp3 k m \<Longrightarrow> (\<And>x y s. fobs s = k \<Longrightarrow> kp1 k (f (x, y, s))) \<Longrightarrow> kp1 k (bnd m f)"
  "kp3 k m \<Longrightarrow> (\<And>x y s. fobs s = k \<Longrightarrow> kp2 k (g (x, y, s))) \<Longrightarrow> kp2 k (bnd m g)"
  "kp3 k m \<Longrightarrow> (\<And>x y s. fobs s = k \<Longrightarrow> kp3 k (h (x, y, s))) \<Longrightarrow> kp3 k (bnd m h)"
  for m :: "('x \<times> 'y \<times> 'a kern_scheme) res" by (auto simp: kp_defs)

text \<open>A computation that gives no state.\<close>

lemma kp_bnd0:
  "(\<And>x. kp1 k (f x)) \<Longrightarrow> kp1 k (bnd m f)" "(\<And>x. kp2 k (g x)) \<Longrightarrow> kp2 k (bnd m g)" "(\<And>x. kp3 k (h x)) \<Longrightarrow> kp3 k (bnd m h)"
  by (auto simp: kp_defs)

section \<open>Assignments\<close>

lemma fobs_upd [simp]:
  "fobs (s\<lparr>bufs := a1\<rparr>) = fobs s" "fobs (s\<lparr>disk := a2\<rparr>) = fobs s" "fobs (s\<lparr>dwrites := a3\<rparr>) = fobs s" "fobs (s\<lparr>curpid := a4\<rparr>) = fobs s"
  "fobs (s\<lparr>lstart := a5\<rparr>) = fobs s" "fobs (s\<lparr>lsize := a6\<rparr>) = fobs s" "fobs (s\<lparr>outstanding := a7\<rparr>) = fobs s" "fobs (s\<lparr>committing := a8\<rparr>) = fobs s"
  "fobs (s\<lparr>ldev := a9\<rparr>) = fobs s" "fobs (s\<lparr>lhn := b1\<rparr>) = fobs s" "fobs (s\<lparr>lhblock := b2\<rparr>) = fobs s" "fobs (s\<lparr>fsb := b3\<rparr>) = fobs s"
  "fobs (s\<lparr>itab := b4\<rparr>) = fobs s" "fobs (s\<lparr>pipes := b5\<rparr>) = fobs s" "fobs (s\<lparr>ticks := b6\<rparr>) = fobs s"
  by (simp_all add: fobs_def)

lemma fobs_tty [simp]:
  "fobs (s\<lparr>con_buf := a1\<rparr>) = fobs s" "fobs (s\<lparr>con_r := a2\<rparr>) = fobs s" "fobs (s\<lparr>con_w := a3\<rparr>) = fobs s" "fobs (s\<lparr>con_e := a4\<rparr>) = fobs s"
  "fobs (s\<lparr>tx_buf := a5\<rparr>) = fobs s" "fobs (s\<lparr>tx_w := a6\<rparr>) = fobs s" "fobs (s\<lparr>tx_r := a6\<rparr>) = fobs s" "fobs (s\<lparr>thr_room := a7\<rparr>) = fobs s"
  "fobs (s\<lparr>uart_out := a8\<rparr>) = fobs s" "fobs (s\<lparr>rhr := a8\<rparr>) = fobs s" "fobs (s\<lparr>panicked := a9\<rparr>) = fobs s"
  by (simp_all add: fobs_def)

lemma fobs_pt [simp]: "pobs p = pobs (pt s) \<Longrightarrow> fobs (s\<lparr>pt := p\<rparr>) = fobs s"
  by (simp add: fobs_def)

lemma upd_buf_fobs [simp]: "fobs (upd_buf s b f) = fobs s" "fobs (set_data s b d) = fobs s" "fobs (bpin s b) = fobs s" "fobs (bunpin s b) = fobs s"
  "fobs (virtio_disk_rw s b w) = fobs s" "fobs (move_front s b) = fobs s"
  by (simp_all add: upd_buf_def set_data_def bpin_def bunpin_def virtio_disk_rw_def move_front_def Let_def)

lemma upd_inode_fobs [simp]: "fobs (upd_inode s i f) = fobs s" "fobs (upd_dinode s i g) = fobs s" "fobs (idup s i) = fobs s"
  by (simp_all add: upd_inode_def upd_dinode_def idup_def)

section \<open>Buffers and log\<close>

lemma acquire_buf_keeps [keeps]: "fobs s = k \<Longrightarrow> kp2 k (acquire_buf s b)"
  by (auto simp: acquire_buf_def intro!: kp_bnd0)

lemma bget_keeps [keeps]: "fobs s = k \<Longrightarrow> kp2 k (bget s dev n)"
  unfolding bget_def by (intro kp_bnd0) (auto intro!: keeps kp_bnd0 split: option.split)

lemma bread_keeps [keeps]: "fobs s = k \<Longrightarrow> kp2 k (bread s dev n)"
  by (auto simp: bread_def intro!: keeps)

lemma bwrite_keeps [keeps]: "fobs s = k \<Longrightarrow> kp1 k (bwrite s b)"
  by (simp add: bwrite_def)

lemma brelse_keeps [keeps]: "fobs s = k \<Longrightarrow> kp1 k (brelse s b)"
  by (simp add: brelse_def Let_def)

lemma log_write_keeps [keeps]: "fobs s = k \<Longrightarrow> kp1 k (log_write s b)"
  by (simp add: log_write_def Let_def)

lemma write_head_keeps [keeps]: "fobs s = k \<Longrightarrow> kp1 k (write_head s)"
  by (auto simp: write_head_def intro!: keeps kp_bnd0(1) [where m = "m :: block res" for m])

lemma install_one_keeps [keeps]: "fobs s = k \<Longrightarrow> kp1 k (install_one r s i)"
  by (auto simp: install_one_def intro!: keeps)

lemma install_loop_keeps [keeps]: "fobs s = k \<Longrightarrow> kp1 k (install_loop r n i s)"
  by (induction n arbitrary: s i) (auto intro!: keeps)

lemma install_trans_keeps [keeps]: "fobs s = k \<Longrightarrow> kp1 k (install_trans s r)"
  by (auto simp: install_trans_def intro!: keeps)

lemma write_log_one_keeps [keeps]: "fobs s = k \<Longrightarrow> kp1 k (write_log_one s i)"
  by (auto simp: write_log_one_def intro!: keeps)

lemma write_log_loop_keeps [keeps]: "fobs s = k \<Longrightarrow> kp1 k (write_log_loop n i s)"
  by (induction n arbitrary: s i) (auto intro!: keeps)

lemma write_log_keeps [keeps]: "fobs s = k \<Longrightarrow> kp1 k (write_log s)"
  by (auto simp: write_log_def intro!: keeps)

lemma commit_keeps [keeps]: "fobs s = k \<Longrightarrow> kp1 k (commit s)"
  by (auto simp: commit_def intro!: keeps)

lemma begin_op_keeps [keeps]: "fobs s = k \<Longrightarrow> kp1 k (begin_op s)"
  by (auto simp: begin_op_def)

lemma end_op_keeps [keeps]: "fobs s = k \<Longrightarrow> kp1 k (end_op s)"
  by (auto simp: end_op_def Let_def intro!: keeps)

section \<open>Files and directories\<close>

lemma bzero_keeps [keeps]: "fobs s = k \<Longrightarrow> kp1 k (bzero s dev n)"
  by (auto simp: bzero_def intro!: keeps)

lemma balloc_loop_keeps [keeps]: "fobs s = k \<Longrightarrow> kp2 k (balloc_loop sz s dev b)"
proof (induction "sz - b" arbitrary: s b k rule: less_induct)
  case less
  have "sz - (b + BPB) < sz - b" if "b < sz" using that by (simp add: BPB_def BSIZE_def)
  then show ?case using less.prems by (subst balloc_loop.simps) (auto simp: Let_def intro!: keeps less.hyps split: option.split)
qed

lemma balloc_keeps [keeps]: "fobs s = k \<Longrightarrow> kp2 k (balloc s dev)"
  by (auto simp: balloc_def intro!: keeps)

lemma bfree_keeps [keeps]: "fobs s = k \<Longrightarrow> kp1 k (bfree s dev b)"
  by (auto simp: bfree_def Let_def intro!: keeps)

lemma iget_keeps [keeps]: "fobs s = k \<Longrightarrow> kp2 k (iget s dev i)"
  by (auto simp: iget_def split: prod.split option.split)

lemma iupdate_keeps [keeps]: "fobs s = k \<Longrightarrow> kp1 k (iupdate s ip)"
  by (auto simp: iupdate_def intro!: keeps)

lemma iunlock_keeps [keeps]: "fobs s = k \<Longrightarrow> kp1 k (iunlock s ip)"
  by (auto simp: iunlock_def split: option.split)


lemma ialloc_loop_keeps [keeps]: "fobs s = k \<Longrightarrow> kp2 k (ialloc_loop n s dev ty i)"
proof (induction "n - i" arbitrary: s i k rule: less_induct)
  case less
  then show ?case by (subst ialloc_loop.simps) (auto simp: Let_def intro!: keeps less.hyps)
qed

lemma ialloc_keeps [keeps]: "fobs s = k \<Longrightarrow> kp2 k (ialloc s dev ty)"
  by (auto simp: ialloc_def intro!: keeps)

lemma ilock_keeps [keeps]: "fobs s = k \<Longrightarrow> kp1 k (ilock s ip)"
  by (auto simp: ilock_def Let_def intro!: keeps kp_bnd0(1) [where m = "m :: sleeplock res" for m] split: option.split)

lemma bmap_keeps [keeps]: "fobs s = k \<Longrightarrow> kp2 k (bmap s ip bn)"
  by (auto simp: bmap_def Let_def intro!: keeps)

lemma itrunc_direct_keeps [keeps]: "fobs s = k \<Longrightarrow> kp1 k (itrunc_direct s ip i n)"
  by (induction n arbitrary: s i) (auto intro!: keeps)

lemma itrunc_indirect_keeps [keeps]: "fobs s = k \<Longrightarrow> kp1 k (itrunc_indirect s dev bp i n)"
  by (induction n arbitrary: s i) (auto simp: Let_def intro!: keeps)

lemma itrunc_keeps [keeps]: "fobs s = k \<Longrightarrow> kp1 k (itrunc s ip)"
  by (auto simp: itrunc_def Let_def intro!: keeps)

lemma iput_keeps [keeps]: "fobs s = k \<Longrightarrow> kp1 k (iput s ip)"
  by (auto simp: iput_def Let_def intro!: keeps kp_bnd0(1) [where m = "m :: sleeplock res" for m])

lemma iunlockput_keeps [keeps]: "fobs s = k \<Longrightarrow> kp1 k (iunlockput s ip)"
  by (auto simp: iunlockput_def intro!: keeps)

section \<open>Copies\<close>

text \<open>A copy to or from a process changes memory only.\<close>

lemma pobs_kmem [simp]: "pobs (p\<lparr>kmem := k\<rparr>) = pobs p" "pobs (set_mem p m) = pobs p"
  by (simp_all add: pobs_def set_mem_def)

lemma either_copyout_pobs: "either_copyout p u d bs = Ok (r, q) \<Longrightarrow> pobs q = pobs p"
  by (auto simp: either_copyout_def copyout_obj_def Let_def split: if_splits)

lemma copyout_obj_pobs: "copyout_obj p pgt d bs = Ok (r, q) \<Longrightarrow> pobs q = pobs p"
  by (auto simp: copyout_obj_def Let_def)

lemma copyin_obj_pobs: "copyin_obj p pgt d bs = Ok (r, cs, q) \<Longrightarrow> pobs q = pobs p"
  by (auto simp: copyin_obj_def Let_def)

lemma either_copyin_pobs: "either_copyin p bs u d = Ok (r, cs, q) \<Longrightarrow> pobs q = pobs p"
  by (auto simp: either_copyin_def copyin_obj_def Let_def split: if_splits)

lemma kp_copyout [keeps]:
  "fobs s = k \<Longrightarrow> (\<And>r p. pobs p = pobs (pt s) \<Longrightarrow> kp1 k (f (r, p))) \<Longrightarrow> kp1 k (bnd (either_copyout (pt s) u d bs) f)"
  "fobs s = k \<Longrightarrow> (\<And>r p. pobs p = pobs (pt s) \<Longrightarrow> kp2 k (g (r, p))) \<Longrightarrow> kp2 k (bnd (either_copyout (pt s) u d bs) g)"
  "fobs s = k \<Longrightarrow> (\<And>r p. pobs p = pobs (pt s) \<Longrightarrow> kp3 k (h (r, p))) \<Longrightarrow> kp3 k (bnd (either_copyout (pt s) u d bs) h)"
  by (auto simp: kp_defs dest: either_copyout_pobs)

lemma kp_copyin [keeps]:
  "fobs s = k \<Longrightarrow> (\<And>r cs p. pobs p = pobs (pt s) \<Longrightarrow> kp1 k (f (r, cs, p))) \<Longrightarrow> kp1 k (bnd (either_copyin (pt s) bs u d) f)"
  "fobs s = k \<Longrightarrow> (\<And>r cs p. pobs p = pobs (pt s) \<Longrightarrow> kp2 k (g (r, cs, p))) \<Longrightarrow> kp2 k (bnd (either_copyin (pt s) bs u d) g)"
  "fobs s = k \<Longrightarrow> (\<And>r cs p. pobs p = pobs (pt s) \<Longrightarrow> kp3 k (h (r, cs, p))) \<Longrightarrow> kp3 k (bnd (either_copyin (pt s) bs u d) h)"
  by (auto simp: kp_defs dest: either_copyin_pobs)

section \<open>Contents\<close>

lemma readi_loop_keeps [keeps]: "fobs s = k \<Longrightarrow> kp2 k (readi_loop s ip u d off n tot)"
proof (induction "unat n - unat tot" arbitrary: s d off tot k rule: less_induct)
  case less
  then show ?case by (subst readi_loop.simps) (auto simp: Let_def intro!: keeps less.hyps blk_part_measure)
qed

lemma readi_keeps [keeps]: "fobs s = k \<Longrightarrow> kp2 k (readi s ip u d off n)"
  by (auto simp: readi_def Let_def intro!: keeps)

lemma writei_loop_keeps [keeps]: "fobs s = k \<Longrightarrow> kp3 k (writei_loop s ip u d off n tot)"
proof (induction "unat n - unat tot" arbitrary: s d off tot k rule: less_induct)
  case less
  then show ?case by (subst writei_loop.simps) (auto simp: Let_def intro!: keeps less.hyps blk_part_measure)
qed

lemma writei_keeps [keeps]: "fobs s = k \<Longrightarrow> kp2 k (writei s ip u d off n)"
  by (auto simp: writei_def Let_def intro!: keeps)

lemma set_de_fobs [simp]: "fobs (set_de s nm i) = fobs s"
  by (simp add: set_de_def)

lemma read_de_keeps [keeps]: "fobs s = k \<Longrightarrow> kp1 k (read_de s dp off e)"
  by (auto simp: read_de_def intro!: keeps)

lemma dirlookup_loop_keeps [keeps]: "fobs s = k \<Longrightarrow> kp2 k (dirlookup_loop s dp nm off)"
proof (induction "2 ^ 32 - unat off" arbitrary: s off k rule: less_induct)
  case less
  then show ?case by (subst dirlookup_loop.simps) (auto simp: Let_def intro!: keeps less.hyps off_step)
qed

lemma dirlookup_keeps [keeps]: "fobs s = k \<Longrightarrow> kp2 k (dirlookup s dp nm)"
  by (auto simp: dirlookup_def intro!: keeps)

lemma dirlink_loop_keeps [keeps]: "fobs s = k \<Longrightarrow> kp2 k (dirlink_loop s dp off)"
proof (induction "2 ^ 32 - unat off" arbitrary: s off k rule: less_induct)
  case less
  then show ?case by (subst dirlink_loop.simps) (auto simp: Let_def intro!: keeps less.hyps off_step)
qed

lemma dirlink_keeps [keeps]: "fobs s = k \<Longrightarrow> kp2 k (dirlink s dp nm i)"
  by (auto simp: dirlink_def Let_def intro!: keeps split: option.split)

lemma namex_loop_keeps [keeps]: "fobs s = k \<Longrightarrow> kp3 k (namex_loop s ip path parent nm)"
proof (induction "length path" arbitrary: s ip path parent nm k rule: less_induct)
  case less
  show ?case
    using less.prems by (subst namex_loop.simps) (auto intro!: keeps less.hyps skipelem_shorter split: option.split)
qed

lemma namex_keeps [keeps]: "fobs s = k \<Longrightarrow> kp3 k (namex s path parent nm)"
  by (auto simp: namex_def intro!: keeps split: option.split)

lemma namei_keeps [keeps]: "fobs s = k \<Longrightarrow> kp2 k (namei s path)"
  by (auto simp: namei_def intro!: keeps)

lemma nameiparent_keeps [keeps]: "fobs s = k \<Longrightarrow> kp3 k (nameiparent s path nm)"
  by (auto simp: nameiparent_def intro!: keeps)

section \<open>Sleeping and waking\<close>

definition live :: "obs \<Rightarrow> bool" where
  "live k \<longleftrightarrow> snd (fst (snd k) (snd (snd k)))"

lemma pobs_upd: "p_ofile (f (procs p i)) = p_ofile (procs p i) \<Longrightarrow> filed (f (procs p i)) = filed (procs p i) \<Longrightarrow> pobs (upd_proc p i f) = pobs p"
  by (simp add: pobs_def fun_eq_iff)

lemma pobs_wakeup [simp]: "pobs (wakeup p ch) = pobs p"
proof -
  have "p_ofile (woken m ch i q) = p_ofile q \<and> filed (woken m ch i q) = filed q" for m i q by (simp add: woken_def filed_def)
  moreover have "me (wakeup p ch) = me p" by (subst wakeup_frame) simp
  ultimately show ?thesis by (simp add: pobs_def wakeup_procs fun_eq_iff)
qed

lemma pobs_sleep [simp]: "live (fobs s) \<Longrightarrow> pobs (sleep_enter (pt s) ch) = pobs (pt s)"
  unfolding sleep_enter_def by (rule pobs_upd) (simp_all add: live_def fobs_def pobs_def filed_def)

lemma pobs_sleep_wakeup: "live (fobs s) \<Longrightarrow> pobs (sleep_enter (wakeup (pt s) a) b) = pobs (pt s)"
  using pobs_sleep [of "s\<lparr>pt := wakeup (pt s) a\<rparr>" b] by (simp add: fobs_def)

lemma pobs_tf [simp]: "pobs (tf_set p i off v) = pobs p"
  by (simp add: tf_set_def)

lemma fobs_on_pt [simp]: "pobs (f (pt s)) = pobs (pt s) \<Longrightarrow> fobs (on_pt s f) = fobs s" "fobs (on_kmem s m) = fobs s"
  by (simp_all add: on_pt_def on_kmem_def)

section \<open>Console\<close>

lemma uartputc_sync_keeps [keeps]: "fobs s = k \<Longrightarrow> kp1 k (uartputc_sync s c)"
  by (auto simp: uartputc_sync_def)

lemma consputc_keeps [keeps]: "fobs s = k \<Longrightarrow> kp1 k (consputc s c)"
  by (auto simp: consputc_def intro!: keeps)

lemma consputs_keeps [keeps]: "fobs s = k \<Longrightarrow> kp1 k (consputs s cs)"
  by (induction cs arbitrary: s) (auto intro!: keeps)

lemma printf_keeps [keeps]: "fobs s = k \<Longrightarrow> kp1 k (printf s fmt ap)"
proof (induction "length fmt" arbitrary: s fmt ap k rule: less_induct)
  case less
  show ?case using less.prems by (cases fmt) (auto simp: printint_def printint_buf_def printptr_def Let_def intro!: keeps less.hyps split: list.split pfarg.split)
qed

lemma uartstart_fobs [simp]: "fobs (uartstart s) = fobs s"
proof (induction s rule: uartstart.induct)
  case (1 s)
  then show ?case by (subst uartstart.simps) (auto simp: Let_def)
qed

lemma uartputc_keeps [keeps]: "fobs s = k \<Longrightarrow> live k \<Longrightarrow> kp2 k (uartputc s c)"
  by (auto simp: uartputc_def)

lemma consolewrite_keeps [keeps]: "fobs s = k \<Longrightarrow> live k \<Longrightarrow> kp2 k (consolewrite s u src n)"
proof -
  have "fobs s = k \<Longrightarrow> live k \<Longrightarrow> kp2 k (consolewrite_loop j s u src i)" for j i by (induction j arbitrary: s i) (auto simp: Let_def intro!: keeps)
  then show "fobs s = k \<Longrightarrow> live k \<Longrightarrow> kp2 k (consolewrite s u src n)" by (simp add: consolewrite_def)
qed

lemma consoleread_keeps [keeps]: "fobs s = k \<Longrightarrow> live k \<Longrightarrow> kp2 k (consoleread s u dst n)"
proof -
  have "fobs s = k \<Longrightarrow> live k \<Longrightarrow> kp2 k (consoleread_loop j s u dst i)" for j i by (induction j arbitrary: s dst) (auto simp: Let_def intro!: keeps)
  then show "fobs s = k \<Longrightarrow> live k \<Longrightarrow> kp2 k (consoleread s u dst n)" by (simp add: consoleread_def)
qed

section \<open>Open files\<close>

lemma kp_copyout_obj [keeps]:
  "fobs s = k \<Longrightarrow> (\<And>r p. pobs p = pobs (pt s) \<Longrightarrow> kp1 k (f (r, p))) \<Longrightarrow> kp1 k (bnd (copyout_obj (pt s) u d bs) f)"
  "fobs s = k \<Longrightarrow> (\<And>r p. pobs p = pobs (pt s) \<Longrightarrow> kp2 k (g (r, p))) \<Longrightarrow> kp2 k (bnd (copyout_obj (pt s) u d bs) g)"
  by (auto simp: kp_defs dest: copyout_obj_pobs)

lemma kp_copyin_obj [keeps]:
  "fobs s = k \<Longrightarrow> (\<And>r cs p. pobs p = pobs (pt s) \<Longrightarrow> kp2 k (g (r, cs, p))) \<Longrightarrow> kp2 k (bnd (copyin_obj (pt s) u d bs) g)"
  by (auto simp: kp_defs dest: copyin_obj_pobs)

lemma upd_file_fobs: "f_ref (g (ftab s f)) = f_ref (ftab s f) \<Longrightarrow> fobs (upd_file s f g) = fobs s"
  by (auto simp: fobs_def upd_file_def fun_eq_iff)

lemma upd_pipe_fobs [simp]: "fobs (upd_pipe s pi g) = fobs s"
  by (simp add: upd_pipe_def)

lemma pipewrite_keeps [keeps]: "fobs s = k \<Longrightarrow> live k \<Longrightarrow> kp2 k (pipewrite s pi addr n)"
proof -
  have "fobs s = k \<Longrightarrow> live k \<Longrightarrow> kp2 k (pipewrite_loop j s pi addr i)" for j i
  proof (induction j arbitrary: s i)
    case (Suc j)
    have "pobs (sleep_enter (wakeup (pt s) a) b) = pobs (pt s)" for a b
      using Suc.prems by (simp add: pobs_sleep_wakeup)
    then show ?case using Suc by (auto simp: Let_def intro!: keeps)
  qed simp
  then show "fobs s = k \<Longrightarrow> live k \<Longrightarrow> kp2 k (pipewrite s pi addr n)" by (simp add: pipewrite_def)
qed

lemma piperead_loop_keeps [keeps]: "fobs s = k \<Longrightarrow> kp2 k (piperead_loop j s pi addr i)"
  by (induction j arbitrary: s i) (auto simp: Let_def intro!: keeps)

lemma piperead_keeps [keeps]: "fobs s = k \<Longrightarrow> live k \<Longrightarrow> kp2 k (piperead s pi addr n)"
  by (auto simp: piperead_def intro!: keeps)

lemma filestat_keeps [keeps]: "fobs s = k \<Longrightarrow> kp2 k (filestat s f addr)"
  by (auto simp: filestat_def Let_def intro!: keeps)

lemma asleep_keeps [keeps]: "kp2 k m \<Longrightarrow> kp2 k (asleep m)"
  by (cases m) (auto simp: asleep_def kp_defs split: sum.splits)

lemma fileread_keeps [keeps]: "fobs s = k \<Longrightarrow> live k \<Longrightarrow> kp2 k (fileread s f addr n)"
  by (auto simp: fileread_def Let_def upd_file_fobs intro!: keeps split: ftype.split)

lemma filewrite_loop_keeps [keeps]: "fobs s = k \<Longrightarrow> kp2 k (filewrite_loop s f addr n i)"
proof (induction "nat (n - i)" arbitrary: s i k rule: less_induct)
  case less
  show ?case using less.prems
    by (subst filewrite_loop.simps) (auto simp: Let_def upd_file_fobs filewrite_max_def MAXOPBLOCKS_def BSIZE_def intro!: keeps less.hyps)
qed

lemma filewrite_keeps [keeps]: "fobs s = k \<Longrightarrow> live k \<Longrightarrow> kp2 k (filewrite s f addr n)"
  by (auto simp: filewrite_def Let_def intro!: keeps split: ftype.split)

lemma kp_kmem:
  "(\<And>x. kp1 k (f x)) \<Longrightarrow> kp1 k (bnd m f)" "(\<And>x. kp2 k (g x)) \<Longrightarrow> kp2 k (bnd m g)" "(\<And>x. kp3 k (h x)) \<Longrightarrow> kp3 k (bnd m h)"
  for m :: "kst res" by (auto simp: kp_defs)

lemma kp_kmem2:
  "(\<And>x y. kp1 k (f (x, y))) \<Longrightarrow> kp1 k (bnd m f)" "(\<And>x y. kp2 k (g (x, y))) \<Longrightarrow> kp2 k (bnd m g)" "(\<And>x y. kp3 k (h (x, y))) \<Longrightarrow> kp3 k (bnd m h)"
  for m :: "('x \<times> kst) res" by (auto simp: kp_defs)

lemma kp_word:
  "(\<And>x. kp1 k (f x)) \<Longrightarrow> kp1 k (bnd m f)" "(\<And>x. kp2 k (g x)) \<Longrightarrow> kp2 k (bnd m g)" "(\<And>x. kp3 k (h x)) \<Longrightarrow> kp3 k (bnd m h)"
  for m :: "('n :: len) word res" by (auto simp: kp_defs)

declare kp_kmem [keeps] kp_kmem2 [keeps] kp_word [keeps]

lemma pipeclose_keeps [keeps]: "fobs s = k \<Longrightarrow> kp1 k (pipeclose s pi w)"
  by (auto simp: pipeclose_def Let_def intro!: keeps)

section \<open>exec\<close>

lemma loadseg_loop_keeps [keeps]: "fobs s = k \<Longrightarrow> kp2 k (loadseg_loop s pgt va ip off sz i)"
proof (induction "2 ^ 32 - unat i" arbitrary: s i k rule: less_induct)
  case less
  show ?case using less.prems by (subst loadseg_loop.simps) (auto simp: Let_def intro!: keeps less.hyps page_step)
qed

lemma loadseg_keeps [keeps]: "fobs s = k \<Longrightarrow> kp2 k (loadseg s pgt va ip off sz)"
  by (auto simp: loadseg_def intro!: keeps)

lemma exec_load_keeps [keeps]: "fobs s = k \<Longrightarrow> kp3 k (exec_load n s ip pgt off sz)"
  by (induction n arbitrary: s off sz) (auto simp: Let_def intro!: keeps)

lemma exec_bad_keeps [keeps]: "fobs s = k \<Longrightarrow> kp2 k (exec_bad s pgt sz ip)"
  by (auto simp: exec_bad_def intro!: keeps split: option.split)

lemma exec_commit_keeps [keeps]: "fobs s = k \<Longrightarrow> kp2 k (exec_commit s path pgt sz sp entry oldsz)"
  by (auto simp: exec_commit_def Let_def pobs_upd filed_def intro!: keeps)

lemma exec_image_keeps [keeps]: "fobs s = k \<Longrightarrow> kp2 k (exec_image s path argv pgt sz entry)"
  by (auto simp: exec_image_def Let_def intro!: keeps split: option.split)

lemma proc_pagetable_pobs: "proc_pagetable p i = Ok (r, q) \<Longrightarrow> pobs q = pobs p"
  by (auto simp: proc_pagetable_def split: if_splits)

lemma kp_proc_pagetable [keeps]:
  "fobs s = k \<Longrightarrow> (\<And>r p. pobs p = pobs (pt s) \<Longrightarrow> kp2 k (g (r, p))) \<Longrightarrow> kp2 k (bnd (proc_pagetable (pt s) i) g)"
  by (auto simp: kp_defs dest: proc_pagetable_pobs)

lemma exec_keeps [keeps]: "fobs s = k \<Longrightarrow> kp2 k (exec s path argv)"
  by (auto simp: exec_def Let_def intro!: keeps split: option.split)

section \<open>Processes\<close>

lemma growproc_pobs: "growproc p n = Ok (r, q) \<Longrightarrow> pobs q = pobs p"
  by (auto simp: growproc_def Let_def pobs_upd filed_def split: if_splits)

lemma kill_pobs: "kill p pid = (r, q) \<Longrightarrow> pobs q = pobs p"
proof -
  have "kill_loop p pid i n = (r, q) \<Longrightarrow> pobs q = pobs p" for i n
    by (induction n arbitrary: i) (auto simp: pobs_upd filed_def split: if_splits)
  then show "kill p pid = (r, q) \<Longrightarrow> pobs q = pobs p" by (auto simp: kill_def)
qed

lemma freeproc_pobs: "freeproc p i = Ok q \<Longrightarrow> pobs q = (\<lambda>j. (p_ofile (procs p j), j \<noteq> i \<and> filed (procs p j)), me p)"
  unfolding freeproc_def Let_def by (clarsimp simp: pobs_def filed_def) (simp add: fun_eq_iff)

lemma wait_scan_pobs: "wait_scan p addr i n h = Ok (r, b, q) \<Longrightarrow> pobs q = pobs p"
proof (induction n arbitrary: i h)
  case (Suc n)
  have "pobs v = pobs u" if "pobs u = pobs p" "freeproc u i = Ok v" "p_state (procs p i) = ZOMBIE" for u v
  proof -
    have "\<not> filed (procs p i)" using that(3) by (simp add: filed_def)
    then have "\<not> filed (procs u i)" using that(1) by (auto simp: pobs_def fun_eq_iff)
    then show ?thesis using freeproc_pobs [OF that(2)] by (auto simp: pobs_def fun_eq_iff)
  qed
  note free = this
  show ?case
  proof (cases "p_parent (procs p i) = Some (me p) \<and> p_state (procs p i) = ZOMBIE")
    case True
    then obtain v u where u: "(if addr \<noteq> 0 then copyout_obj p (p_pagetable (myproc p)) addr (le_bytes 4 (ucast (p_xstate (procs p i)))) else Ok (0, p)) = Ok (v, u)"
        and q: "q = u \<or> freeproc u i = Ok q"
      using Suc.prems by (auto simp: Let_def split: if_split_asm)
    have "pobs u = pobs p" using u by (auto split: if_split_asm dest: copyout_obj_pobs)
    then show ?thesis using q free [of u q] True by auto
  next
    case False
    then have "\<exists>h. wait_scan p addr (Suc i) n h = Ok (r, b, q)" using Suc.prems by (auto split: if_split_asm)
    then show ?thesis using Suc.IH by blast
  qed
qed simp

lemma wait_pobs: "wait (pt s) addr = Ok (r, q) \<Longrightarrow> live (fobs s) \<Longrightarrow> pobs q = pobs (pt s)"
proof -
  have "pobs (sleep_enter u ch) = pobs (pt s)" if "pobs u = pobs (pt s)" "live (fobs s)" for u :: ptab and ch
    using pobs_sleep [of "s\<lparr>pt := u\<rparr>" ch] that by (simp add: fobs_def)
  then show "wait (pt s) addr = Ok (r, q) \<Longrightarrow> live (fobs s) \<Longrightarrow> pobs q = pobs (pt s)"
    by (auto simp: wait_def split: option.splits if_splits dest!: wait_scan_pobs)
qed

lemma reparent_pobs [simp]: "pobs (reparent p i) = pobs p"
proof -
  have "pobs (reparent_loop p i j n) = pobs p" for j n
  proof (induction n arbitrary: p j)
    case (Suc n)
    have "pobs (upd_proc p j (\<lambda>q. q\<lparr>p_parent := initproc p\<rparr>)) = pobs p" by (simp add: pobs_upd filed_def)
    then show ?case by (auto simp: Suc Let_def split: option.split)
  qed simp
  then show ?thesis by (simp add: reparent_def)
qed

section \<open>System calls\<close>

lemma kp_argfd [keeps]: "(\<And>x. kp2 k (g x)) \<Longrightarrow> kp2 k (bnd m g)" for m :: "(nat \<times> nat) option res"
  by (auto simp: kp_defs)

lemma done_keeps [keeps]: "kp2 k m \<Longrightarrow> kp2 k (done_int m)" "kp2 k n \<Longrightarrow> kp2 k (done_opt n)"
  by (auto simp: done_int_def done_opt_def kp_defs)

lemma fetchaddr_keeps [keeps]: "fobs s = k \<Longrightarrow> kp2 k (fetchaddr s addr)"
  by (auto simp: fetchaddr_def Let_def intro!: keeps)

lemma fetchstr_keeps [keeps]: "fobs s = k \<Longrightarrow> kp2 k (fetchstr s addr buf mx)"
  by (auto simp: fetchstr_def intro!: keeps split: option.split)

lemma argstr_keeps [keeps]: "fobs s = k \<Longrightarrow> kp2 k (argstr s n mx)"
  by (auto simp: argstr_def intro!: keeps)

lemma sys_read_keeps: "fobs s = k \<Longrightarrow> live k \<Longrightarrow> kp2 k (sys_read s)"
  by (auto simp: sys_read_def intro!: keeps split: option.split)

lemma sys_write_keeps: "fobs s = k \<Longrightarrow> live k \<Longrightarrow> kp2 k (sys_write s)"
  by (auto simp: sys_write_def intro!: keeps split: option.split)

lemma sys_fstat_keeps: "fobs s = k \<Longrightarrow> kp2 k (sys_fstat s)"
  by (auto simp: sys_fstat_def intro!: keeps split: option.split)

lemma sys_wait_keeps: "fobs s = k \<Longrightarrow> live k \<Longrightarrow> kp2 k (sys_wait s)"
  by (auto simp: sys_wait_def done_opt_def kp_defs dest: wait_pobs)

lemma sys_sbrk_keeps: "fobs s = k \<Longrightarrow> kp2 k (sys_sbrk s)"
  by (auto simp: sys_sbrk_def kp_defs Let_def dest: growproc_pobs)

lemma sys_kill_keeps: "fobs s = k \<Longrightarrow> kp2 k (sys_kill s)"
  by (auto simp: sys_kill_def intro!: keeps fobs_pt split: prod.split dest: kill_pobs)

lemma sys_sleep_keeps: "fobs s = k \<Longrightarrow> live k \<Longrightarrow> kp2 k (sys_sleep s)"
  by (auto simp: sys_sleep_def sleep_round_def intro!: keeps)

lemma sys_getpid_keeps: "fobs s = k \<Longrightarrow> kp2 k (sys_getpid s)"
  by (simp add: sys_getpid_def)

lemma sys_uptime_keeps: "fobs s = k \<Longrightarrow> kp2 k (sys_uptime s)"
  by (simp add: sys_uptime_def)

lemma end_with_keeps [keeps]: "fobs s = k \<Longrightarrow> kp2 k (end_with s v)"
  by (auto simp: end_with_def intro!: keeps)

lemma link_bad_keeps [keeps]: "fobs s = k \<Longrightarrow> kp2 k (link_bad s ip)"
  by (auto simp: link_bad_def intro!: keeps)

lemma sys_link_keeps: "fobs s = k \<Longrightarrow> kp2 k (sys_link s)"
  by (auto simp: sys_link_def intro!: keeps split: option.split)

lemma isdirempty_loop_keeps [keeps]: "fobs s = k \<Longrightarrow> kp2 k (isdirempty_loop s dp off)"
proof (induction "2 ^ 31 - off" arbitrary: s off k rule: less_induct)
  case less
  show ?case using less.prems by (subst isdirempty_loop.simps) (auto intro!: keeps less.hyps)
qed

lemma isdirempty_keeps [keeps]: "fobs s = k \<Longrightarrow> kp2 k (isdirempty s dp)"
  by (auto simp: isdirempty_def intro!: keeps)

lemma unlink_bad_keeps [keeps]: "fobs s = k \<Longrightarrow> kp2 k (unlink_bad s dp)"
  by (auto simp: unlink_bad_def intro!: keeps)

lemma unlink_entry_keeps [keeps]: "fobs s = k \<Longrightarrow> kp2 k (unlink_entry s dp ip off)"
  by (auto simp: unlink_entry_def intro!: keeps)

lemma sys_unlink_keeps: "fobs s = k \<Longrightarrow> kp2 k (sys_unlink s)"
  by (auto simp: sys_unlink_def intro!: keeps split: option.split)

lemma create_fail_keeps [keeps]: "fobs s = k \<Longrightarrow> kp2 k (create_fail s dp ip)"
  by (auto simp: create_fail_def intro!: keeps)

lemma create_new_keeps [keeps]: "fobs s = k \<Longrightarrow> kp2 k (create_new s dp ip name type maj mnr)"
  unfolding create_new_def by (auto intro!: keeps)

lemma create_keeps [keeps]: "fobs s = k \<Longrightarrow> kp2 k (create s path type maj mnr)"
  unfolding create_def by (auto simp: Let_def intro!: keeps split: option.split)

lemma made_keeps [keeps]: "kp2 k m \<Longrightarrow> kp2 k (made m)"
  by (auto simp: made_def intro!: keeps split: option.split)

lemma sys_mkdir_keeps: "fobs s = k \<Longrightarrow> kp2 k (sys_mkdir s)"
  by (auto simp: sys_mkdir_def intro!: keeps split: option.split)

lemma sys_mknod_keeps: "fobs s = k \<Longrightarrow> kp2 k (sys_mknod s)"
  by (auto simp: sys_mknod_def intro!: keeps split: option.split)

lemma sys_chdir_keeps: "fobs s = k \<Longrightarrow> kp2 k (sys_chdir s)"
  by (auto simp: sys_chdir_def pobs_upd filed_def intro!: keeps split: option.split)

lemma kfree_all_keeps [keeps]: "fobs s = k \<Longrightarrow> kp1 k (kfree_all as s)"
  by (induction as arbitrary: s) (auto intro!: keeps)

lemma exec_fetch_keeps [keeps]: "fobs s = k \<Longrightarrow> kp3 k (exec_fetch n s uargv argv)"
  by (induction n arbitrary: s argv) (auto simp: Let_def intro!: keeps split: option.split)

lemma sys_exec_keeps: "fobs s = k \<Longrightarrow> kp2 k (sys_exec s)"
  by (auto simp: sys_exec_def intro!: keeps split: option.split)

end
