(* ===== verification/Fileprops.thy ===== *)
theory Fileprops
  imports Fileobs Pipeprops
begin

text \<open>
  The reference counts of open files. Between two system calls, the count of every entry of the
  file table is the number of descriptors of all processes that name it. Inside a handler the two
  differ by what the handler itself holds; the laws follow that difference through the operations
  on files and descriptors.
\<close>

section \<open>Counting descriptors\<close>

definition slots :: "obs \<Rightarrow> nat \<Rightarrow> (nat \<times> nat) set" where
  "slots k f = {(i, d). i < NPROC \<and> d < NOFILE \<and> fst (fst (snd k) i) d = Some f}"

definition bare :: "obs \<Rightarrow> bool" where
  "bare k \<longleftrightarrow> (\<forall>i d. i < NPROC \<and> d < NOFILE \<and> \<not> snd (fst (snd k) i) \<longrightarrow> fst (fst (snd k) i) d = None)"

text \<open>\<open>X f\<close> references to \<open>f\<close> are held outside the descriptor tables.\<close>

definition counted :: "(nat \<Rightarrow> int) \<Rightarrow> obs \<Rightarrow> bool" where
  "counted X k \<longleftrightarrow> (\<forall>f. fst k f = int (card (slots k f)) + X f) \<and> bare k"

definition current :: "obs \<Rightarrow> bool" where
  "current k \<longleftrightarrow> snd (snd k) < NPROC \<and> live k"

definition own :: "nat option \<Rightarrow> nat \<Rightarrow> int" where
  "own fo f = (if fo = Some f then 1 else 0)"

definition addref :: "obs \<Rightarrow> nat \<Rightarrow> int \<Rightarrow> obs" where
  "addref k f n = ((fst k)(f := fst k f + n), snd k)"

definition setfd :: "obs \<Rightarrow> nat \<Rightarrow> nat \<Rightarrow> nat option \<Rightarrow> obs" where
  "setfd k i d fo = (fst k, (fst (snd k))(i := ((fst (fst (snd k) i))(d := fo), snd (fst (snd k) i))), snd (snd k))"

lemma finite_slots [simp]: "finite (slots k f)"
proof -
  have "slots k f \<subseteq> {..<NPROC} \<times> {..<NOFILE}" by (auto simp: slots_def)
  then show ?thesis by (rule finite_subset) simp
qed

lemma counted_eq: "counted X k \<Longrightarrow> (\<And>f. X f = Y f) \<Longrightarrow> counted Y k"
  by (simp add: counted_def)

lemma counted_addref: "counted X k \<Longrightarrow> counted (\<lambda>g. X g + n * own (Some f) g) (addref k f n)"
  by (auto simp: counted_def addref_def slots_def bare_def own_def)

lemma current_addref [simp]: "current (addref k f n) = current k"
  by (simp add: current_def addref_def live_def)

lemma card_slots_setfd:
  assumes "i < NPROC" "d < NOFILE"
  shows "int (card (slots (setfd k i d fo) f)) = int (card (slots k f)) - own (fst (fst (snd k) i) d) f + own fo f"
proof -
  let ?old = "fst (fst (snd k) i) d"
  have eq: "slots (setfd k i d fo) f = (if fo = Some f then insert (i, d) (slots k f - {(i, d)}) else slots k f - {(i, d)})"
    using assms by (auto simp: slots_def setfd_def split: if_splits)
  have "(i, d) \<in> slots k f \<longleftrightarrow> ?old = Some f" using assms by (simp add: slots_def)
  moreover have "card (slots k f) > 0" if "(i, d) \<in> slots k f" using that finite_slots [of k f] by (metis card_gt_0_iff empty_iff)
  ultimately have "int (card (slots k f - {(i, d)})) = int (card (slots k f)) - own ?old f"
    by (auto simp: own_def card_Diff_singleton_if)
  moreover have "card (insert (i, d) (slots k f - {(i, d)})) = Suc (card (slots k f - {(i, d)}))" by (rule card_insert_disjoint) simp_all
  ultimately show ?thesis unfolding eq own_def by (simp del: insert_Diff_single)
qed

lemma counted_setfd:
  assumes "counted X k" "i < NPROC" "d < NOFILE" "snd (fst (snd k) i)"
  shows "counted (\<lambda>g. X g + own (fst (fst (snd k) i) d) g - own fo g) (setfd k i d fo)"
proof -
  have "fst (setfd k i d fo) = fst k" by (simp add: setfd_def)
  moreover have "bare (setfd k i d fo)" using assms by (auto simp: counted_def bare_def setfd_def)
  ultimately show ?thesis using assms card_slots_setfd [OF assms(2,3), of k fo] by (simp add: counted_def)
qed

lemma current_setfd [simp]: "current (setfd k i d fo) = current k"
  by (auto simp: current_def setfd_def live_def)

section \<open>Operations on files and descriptors\<close>

lemma free_file_zero: "free_file ft i n = Some f \<Longrightarrow> f_ref (ft f) = 0"
  by (induction n arbitrary: i) (auto split: if_splits)

lemma filealloc_fobs:
  "filealloc s = (Some f, t) \<Longrightarrow> fobs t = addref (fobs s) f 1" "filealloc s = (None, t) \<Longrightarrow> t = s"
  by (auto simp: filealloc_def fobs_def addref_def upd_file_def fun_eq_iff split: option.splits dest: free_file_zero)

lemma filedup_fobs: "filedup s f = Ok t \<Longrightarrow> fobs t = addref (fobs s) f 1"
  by (auto simp: filedup_def fobs_def addref_def upd_file_def fun_eq_iff split: if_splits)

lemma drop_last_fobs:
  assumes "f_ref (ftab s f) = 1"
  shows "fobs (upd_file (upd_file s f (\<lambda>x. x\<lparr>f_ref := f_ref x - 1\<rparr>)) f (\<lambda>x. x\<lparr>f_ref := 0, f_type := FD_NONE\<rparr>)) = addref (fobs s) f (-1)"
  using assms by (auto simp: fobs_def addref_def upd_file_def fun_eq_iff)

lemma fileclose_fobs:
  assumes "fileclose s f = Ok t"
  shows "fobs t = addref (fobs s) f (-1)"
proof (cases "f_ref (ftab s f) = 1")
  case True
  let ?t = "upd_file (upd_file s f (\<lambda>x. x\<lparr>f_ref := f_ref x - 1\<rparr>)) f (\<lambda>x. x\<lparr>f_ref := 0, f_type := FD_NONE\<rparr>)"
  let ?k = "addref (fobs s) f (-1)"
  have k: "fobs ?t = ?k" by (rule drop_last_fobs [OF True])
  have "kp1 ?k (pipeclose ?t pi w)" "kp1 ?k (bnd (begin_op ?t) (\<lambda>s. bnd (iput s ip) end_op))" for pi w ip
    using k by (auto intro!: keeps)
  then show ?thesis using assms k True by (auto simp: fileclose_def Let_def kp1_def upd_file_def split: if_splits)
next
  case False
  then show ?thesis using assms
    by (auto simp: fileclose_def Let_def upd_file_def fobs_def addref_def fun_eq_iff split: if_splits)
qed

lemma set_ofile_fobs: "fobs (set_ofile s d fo) = setfd (fobs s) (me (pt s)) d fo"
  by (auto simp: set_ofile_def fobs_def pobs_def setfd_def on_pt_def filed_def fun_eq_iff)

lemma free_fd_least: "free_fd ofl i n = Some d \<Longrightarrow> i \<le> d \<and> d < i + n \<and> ofl d = None"
  by (induction n arbitrary: i) (fastforce split: if_splits)+

lemma counted_cong: "fst k = fst h \<Longrightarrow> fst (snd k) = fst (snd h) \<Longrightarrow> counted X k = counted X h"
  by (simp add: counted_def slots_def bare_def)

text \<open>The descriptors of the current process.\<close>

definition ofile :: "obs \<Rightarrow> nat \<Rightarrow> nat option" where
  "ofile k = fst (fst (snd k) (snd (snd k)))"

definition sound :: "(nat \<Rightarrow> int) \<Rightarrow> obs \<Rightarrow> bool" where
  "sound X k \<longleftrightarrow> counted X k \<and> current k"

lemma ofile_fobs [simp]: "ofile (fobs s) = p_ofile (myproc (pt s))"
  by (simp add: ofile_def fobs_def pobs_def myproc_def)

lemma ofile_upd [simp]: "ofile (addref k f n) = ofile k" "ofile (setfd k (snd (snd k)) d fo) = (ofile k)(d := fo)"
  by (auto simp: ofile_def addref_def setfd_def)

lemma me_fobs [simp]: "snd (snd (fobs s)) = me (pt s)"
  by (simp add: fobs_def pobs_def)

lemma sound_eq: "sound X k \<Longrightarrow> (\<And>f. X f = Y f) \<Longrightarrow> sound Y k"
  by (auto simp: sound_def intro: counted_eq)

lemma sound_addref: "sound X k \<Longrightarrow> sound (\<lambda>g. X g + n * own (Some f) g) (addref k f n)"
  by (simp add: sound_def counted_addref)

lemma sound_setfd:
  "sound X k \<Longrightarrow> d < NOFILE \<Longrightarrow> sound (\<lambda>g. X g + own (ofile k d) g - own fo g) (setfd k (snd (snd k)) d fo)"
  unfolding sound_def ofile_def current_setfd by (auto simp: current_def live_def intro: counted_setfd)

lemma sound_alloc: "filealloc s = (Some f, t) \<Longrightarrow> sound X (fobs s) \<Longrightarrow> sound (\<lambda>g. X g + own (Some f) g) (fobs t)"
  using sound_addref [of X "fobs s" 1 f] by (simp add: filealloc_fobs)

lemma sound_dup: "filedup s f = Ok t \<Longrightarrow> sound X (fobs s) \<Longrightarrow> sound (\<lambda>g. X g + own (Some f) g) (fobs t)"
  using sound_addref [of X "fobs s" 1 f] by (simp add: filedup_fobs)

lemma sound_close: "fileclose s f = Ok t \<Longrightarrow> sound X (fobs s) \<Longrightarrow> sound (\<lambda>g. X g - own (Some f) g) (fobs t)"
  using sound_addref [of X "fobs s" "-1" f] by (simp add: fileclose_fobs)

lemma sound_set_ofile:
  "sound X (fobs s) \<Longrightarrow> d < NOFILE \<Longrightarrow> sound (\<lambda>g. X g + own (p_ofile (myproc (pt s)) d) g - own fo g) (fobs (set_ofile s d fo))"
  using sound_setfd [of X "fobs s" d fo] by (simp add: set_ofile_fobs)

lemma own_None [simp]: "own None f = 0"
  by (simp add: own_def)

lemma sound_fdalloc:
  assumes "fdalloc s f = (Some d, t)" "sound X (fobs s)"
  shows "sound (\<lambda>g. X g - own (Some f) g) (fobs t) \<and> d < NOFILE \<and> p_ofile (myproc (pt s)) d = None \<and>
    p_ofile (myproc (pt t)) = (p_ofile (myproc (pt s)))(d := Some f)"
proof -
  have d: "d < NOFILE" "p_ofile (myproc (pt s)) d = None" "t = set_ofile s d (Some f)"
    using assms(1) by (auto simp: fdalloc_def split: option.splits dest: free_fd_least)
  moreover have "ofile (fobs t) = (p_ofile (myproc (pt s)))(d := Some f)"
    unfolding d(3) set_ofile_fobs using ofile_upd(2) [of "fobs s" d "Some f"] by simp
  ultimately show ?thesis using sound_set_ofile [OF assms(2) d(1), of "Some f"] by simp
qed

lemma fdalloc_None: "fdalloc s f = (None, t) \<Longrightarrow> t = s"
  by (auto simp: fdalloc_def split: option.splits)

section \<open>Handlers that open and close\<close>

abbreviation settled :: "obs \<Rightarrow> bool" where
  "settled \<equiv> sound (\<lambda>_. 0)"

lemma argfd_slot: "argfd s n = Ok (Some (d, f)) \<Longrightarrow> d < NOFILE \<and> p_ofile (myproc (pt s)) d = Some f"
proof -
  have "unat x < NOFILE" if "\<not> sint x < 0" "sint x < int NOFILE" for x :: u32
    using that unat_abs [of x] by (simp add: NOFILE_def)
  then show "argfd s n = Ok (Some (d, f)) \<Longrightarrow> d < NOFILE \<and> p_ofile (myproc (pt s)) d = Some f"
    by (auto simp: argfd_def split: if_splits option.splits)
qed

lemma sys_dup_sound:
  assumes "settled (fobs s)" "sys_dup s = Ok (r, t)"
  shows "settled (fobs t)"
proof (cases "argfd s 0 = Ok None")
  case False
  then obtain d f where a: "argfd s 0 = Ok (Some (d, f))" using assms(2) by (auto simp: sys_dup_def split: option.splits)
  obtain fo u where u: "fdalloc s f = (fo, u)" by (cases "fdalloc s f")
  show ?thesis
  proof (cases fo)
    case None
    then show ?thesis using assms u a by (auto simp: sys_dup_def dest: fdalloc_None)
  next
    case (Some fd)
    then have "sound (\<lambda>g. 0 - own (Some f) g) (fobs u)" "filedup u f = Ok t" using sound_fdalloc [of s f fd u "\<lambda>_. 0"] assms u a by (auto simp: sys_dup_def)
    then show ?thesis using sound_dup by fastforce
  qed
qed (use assms in \<open>auto simp: sys_dup_def\<close>)

lemma sys_close_sound:
  assumes "settled (fobs s)" "sys_close s = Ok (r, t)"
  shows "settled (fobs t)"
proof (cases "argfd s 0 = Ok None")
  case False
  then obtain d f where "argfd s 0 = Ok (Some (d, f))" and c: "fileclose (set_ofile s d None) f = Ok t"
    using assms(2) by (auto simp: sys_close_def split: option.splits)
  then have d: "d < NOFILE" "p_ofile (myproc (pt s)) d = Some f" using argfd_slot by blast+
  show ?thesis using sound_close [OF c sound_set_ofile [OF assms(1) d(1)]] d(2) by simp
qed (use assms in \<open>auto simp: sys_close_def\<close>)

lemma close_both_sound: "close_both s f g = Ok (r, t) \<Longrightarrow> sound X (fobs s) \<Longrightarrow> sound (\<lambda>h. X h - own (Some f) h - own (Some g) h) (fobs t)"
  by (auto simp: close_both_def dest!: sound_close)

lemma kept2: "kp2 (fobs s) m \<Longrightarrow> m = Ok (r, t) \<Longrightarrow> sound X (fobs s) \<Longrightarrow> sound X (fobs t)"
  by (simp add: kp2_def)

lemma open_fail_keeps [keeps]: "fobs s = k \<Longrightarrow> kp2 k (open_fail s ip)"
  by (auto simp: open_fail_def intro!: keeps)

lemma open_inode_sound:
  assumes "settled (fobs s)" "open_inode s ip omode = Ok (r, t)"
  shows "settled (fobs t)"
proof -
  let ?d = "i_d (itab s ip)"
  have fail: "settled (fobs t)" if "open_fail u ip = Ok (r, t)" "settled (fobs u)" for u
    using kept2 [OF open_fail_keeps [OF refl] that] .
  obtain fo u where u: "filealloc s = (fo, u)" by (cases "filealloc s")
  show ?thesis
  proof (cases "d_type ?d = T_DEVICE \<and> (sint (d_major ?d) < 0 \<or> sint (d_major ?d) \<ge> int NDEV) \<or> fo = None")
    case True
    then have "open_fail s ip = Ok (r, t)" using assms(2) u filealloc_fobs(2) [of s u] unfolding open_inode_def Let_def by (auto split: if_split_asm)
    then show ?thesis using fail assms(1) by blast
  next
    case False
    then obtain f where f: "fo = Some f"
      and ok: "\<not> (d_type ?d = T_DEVICE \<and> (sint (d_major ?d) < 0 \<or> sint (d_major ?d) \<ge> int NDEV))" by auto
    have su: "sound (own (Some f)) (fobs u)" using sound_alloc [of s f u "\<lambda>_. 0"] u f assms(1) by simp
    obtain fdo v where v: "fdalloc u f = (fdo, v)" by (cases "fdalloc u f")
    show ?thesis
    proof (cases fdo)
      case None
      then obtain w where w: "fileclose u f = Ok w" "open_fail w ip = Ok (r, t)"
        using assms(2) False f u v fdalloc_None [of u f v] by (auto simp: open_inode_def Let_def)
      show ?thesis using fail [OF w(2)] sound_close [OF w(1) su] by simp
    next
      case (Some fd)
      let ?m = "\<lambda>s. bnd (if omode AND O_TRUNC \<noteq> 0 \<and> d_type (i_d (itab s ip)) = T_FILE then itrunc s ip else Ok s) (\<lambda>s.
        bnd (iunlock s (Some ip)) (\<lambda>s. end_with s (of_nat fd)))"
      have sv: "settled (fobs v)" using sound_fdalloc [of u f fd v "own (Some f)"] v su Some by simp
      let ?w = "upd_file (if d_type ?d = T_DEVICE then upd_file v f (\<lambda>x. x\<lparr>f_type := FD_DEVICE, f_major := d_major ?d\<rparr>)
          else upd_file v f (\<lambda>x. x\<lparr>f_type := FD_INODE, f_off := 0\<rparr>)) f
        (\<lambda>x. x\<lparr>f_ip := ip, f_readable := (omode AND O_WRONLY = 0), f_writable := (omode AND O_WRONLY \<noteq> 0 \<or> omode AND O_RDWR \<noteq> 0)\<rparr>)"
      have "fobs ?w = fobs v" by (simp add: upd_file_fobs)
      moreover have "kp2 (fobs ?w) (?m ?w)" by (intro keeps) (auto intro!: keeps)
      moreover have "open_inode s ip omode = ?m ?w"
        unfolding open_inode_def Let_def by (simp only: ok if_False u f v Some prod.case option.case)
      ultimately show ?thesis using kept2 [of ?w "?m ?w"] sv assms(2) by metis
    qed
  qed
qed

definition ends :: "obs \<Rightarrow> ('x \<times> 'a kern_scheme) res \<Rightarrow> bool" where
  "ends k m \<longleftrightarrow> (settled k \<longrightarrow> (\<forall>r t. m = Ok (r, t) \<longrightarrow> settled (fobs t)))"

named_theorems ending

lemma ends_bnd [ending]:
  "kp1 k m \<Longrightarrow> (\<And>s. fobs s = k \<Longrightarrow> ends k (f s)) \<Longrightarrow> ends k (bnd m f)"
  "kp2 k n \<Longrightarrow> (\<And>x s. fobs s = k \<Longrightarrow> ends k (g (x, s))) \<Longrightarrow> ends k (bnd n g)"
  for m :: "'a kern_scheme res" and n :: "('x \<times> 'a kern_scheme) res"
  by (auto simp: ends_def kp_defs)

lemma ends_word [ending]: "(\<And>x. ends k (f x)) \<Longrightarrow> ends k (bnd m f)" for m :: "('n :: len) word res"
  by (auto simp: ends_def)

lemma ends_keep: "kp2 k m \<Longrightarrow> ends k m"
  by (simp add: ends_def kp2_def)

lemma ends_leaf [ending]: "fobs s = k \<Longrightarrow> ends k (end_with s v)" "fobs s = k \<Longrightarrow> ends k (open_fail s ip)" "fobs s = k \<Longrightarrow> ends k (Ok (x, s))"
  by (auto intro!: ends_keep keeps)

lemma ends_open_inode [ending]: "fobs s = k \<Longrightarrow> ends k (open_inode s ip omode)"
  by (auto simp: ends_def dest: open_inode_sound)

lemma sys_open_sound: "settled (fobs s) \<Longrightarrow> sys_open s = Ok (r, t) \<Longrightarrow> settled (fobs t)"
proof -
  have "ends (fobs s) (sys_open s)" unfolding sys_open_def by (auto intro!: ending keeps split: option.split)
  then show "settled (fobs s) \<Longrightarrow> sys_open s = Ok (r, t) \<Longrightarrow> settled (fobs t)" by (simp add: ends_def)
qed

lemma pipealloc_sound:
  assumes "settled (fobs s)" "pipealloc s = Ok (r, t)"
  shows "sound (\<lambda>h. case r of None \<Rightarrow> 0 | Some (f, g) \<Rightarrow> own (Some f) h + own (Some g) h) (fobs t)"
proof -
  obtain fo u where u: "filealloc s = (fo, u)" by (cases "filealloc s")
  show ?thesis
  proof (cases fo)
    case None
    then show ?thesis using u assms filealloc_fobs(2) [of s u] by (auto simp: pipealloc_def)
  next
    case (Some f)
    have su: "sound (own (Some f)) (fobs u)" using sound_alloc [of s f u "\<lambda>_. 0"] u Some assms(1) by simp
    obtain go v where v: "filealloc u = (go, v)" by (cases "filealloc u")
    show ?thesis
    proof (cases go)
      case None
      then show ?thesis using u v Some su assms(2) filealloc_fobs(2) [of u v] sound_close [of u f _ "own (Some f)"] by (auto simp: pipealloc_def)
    next
      case (Some g)
      have sv: "sound (\<lambda>h. own (Some f) h + own (Some g) h) (fobs v)" using sound_alloc [of u g v] v Some su by simp
      obtain pi k where k: "kalloc (kmem (pt v)) = Ok (pi, k)" using assms(2) u v \<open>fo = Some f\<close> Some by (auto simp: pipealloc_def)
      have sw: "sound (\<lambda>h. own (Some f) h + own (Some g) h) (fobs (on_kmem v k))" using sv by simp
      show ?thesis
      proof (cases "pi = 0")
        case True
        then obtain w where w: "fileclose (on_kmem v k) f = Ok w" "fileclose w g = Ok t" "r = None"
          using assms(2) u v \<open>fo = Some f\<close> Some k by (auto simp: pipealloc_def)
        show ?thesis using sound_close [OF w(2) sound_close [OF w(1) sw]] w(3) by simp
      next
        case False
        then have "fobs t = fobs v" "r = Some (f, g)" using assms(2) u v \<open>fo = Some f\<close> Some k by (auto simp: pipealloc_def Let_def upd_file_fobs)
        then show ?thesis using sv by simp
      qed
    qed
  qed
qed

lemma ofile_set_ofile [simp]: "p_ofile (myproc (pt (set_ofile s d fo))) = (p_ofile (myproc (pt s)))(d := fo)"
  by (simp add: set_ofile_def on_pt_def myproc_def)

lemma sys_pipe_copy_fail:
  assumes "settled (fobs x)" "p_ofile (myproc (pt x)) d = Some f" "p_ofile (myproc (pt x)) e = Some g" "d < NOFILE" "e < NOFILE" "d \<noteq> e"
    and "close_both (set_ofile (set_ofile x d None) e None) f g = Ok (r, t)"
  shows "settled (fobs t)"
  using close_both_sound [OF assms(7) sound_set_ofile [OF sound_set_ofile [OF assms(1,4)] assms(5)]] assms(2,3,6) by simp

lemma sys_pipe_sound:
  assumes "settled (fobs s)" "sys_pipe s = Ok (r, t)"
  shows "settled (fobs t)"
proof -
  obtain fg u fa where p: "argaddr s 0 = Ok fa" "pipealloc s = Ok (fg, u)" using assms(2) by (auto simp: sys_pipe_def)
  note su = pipealloc_sound [OF assms(1) p(2)]
  show ?thesis
  proof (cases fg)
    case None
    then show ?thesis using su p assms(2) by (auto simp: sys_pipe_def)
  next
    case (Some a)
    then obtain f g where fg: "fg = Some (f, g)" by (cases a) auto
    note * = assms(2) [unfolded sys_pipe_def, simplified p fg, simplified]
    have su: "sound (\<lambda>h. own (Some f) h + own (Some g) h) (fobs u)" using su fg by simp
    obtain d v where v: "fdalloc u f = (d, v)" by (cases "fdalloc u f")
    show ?thesis
    proof (cases d)
      case None
      then have "close_both u f g = Ok (r, t)" using * v fdalloc_None [of u f v] by simp
      then show ?thesis using close_both_sound su by fastforce
    next
      case (Some d0)
      have sv: "sound (own (Some g)) (fobs v)" "d0 < NOFILE" "p_ofile (myproc (pt v)) d0 = Some f" using sound_fdalloc [OF v [unfolded Some] su] by simp_all
      obtain e w where w: "fdalloc v g = (e, w)" by (cases "fdalloc v g")
      show ?thesis
      proof (cases e)
        case None
        then have c: "close_both (set_ofile v d0 None) f g = Ok (r, t)" using * v w Some fdalloc_None [of v g w] by simp
        show ?thesis using close_both_sound [OF c sound_set_ofile [OF sv(1,2), of None]] sv(3) by simp
      next
        case e: (Some d1)
        note sw = sound_fdalloc [OF w [unfolded e] sv(1)]
        obtain q p' q' where q: "copyout_obj (pt w) (p_pagetable (myproc (pt w))) fa (le_bytes 4 (of_nat d0)) = Ok (q, p')"
          and q': "q < 0 \<and> q' = p' \<or> (\<exists>n. copyout_obj p' (p_pagetable (myproc (pt w))) (fa + 4) (le_bytes 4 (of_nat d1)) = Ok (n, q'))"
          and t: "close_both (set_ofile (set_ofile (w\<lparr>pt := q'\<rparr>) d0 None) d1 None) f g = Ok (r, t) \<or> t = w\<lparr>pt := q'\<rparr>"
          using * v w Some e by (auto simp: Let_def split: if_split_asm)
        have "pobs q' = pobs (pt w)" using copyout_obj_pobs [OF q] q' copyout_obj_pobs by metis
        then have fw: "fobs (w\<lparr>pt := q'\<rparr>) = fobs w" by simp
        then have of: "p_ofile (myproc q') = p_ofile (myproc (pt w))" using ofile_fobs [of "w\<lparr>pt := q'\<rparr>"] by simp
        have "d0 \<noteq> d1" using sw sv(3) by auto
        then show ?thesis using t sys_pipe_copy_fail [of "w\<lparr>pt := q'\<rparr>" d0 f d1 g r t] sw sv fw of by auto
      qed
    qed
  qed
qed

section \<open>fork\<close>

lemma table_fobs [simp]: "fst (snd (fobs s)) i = (p_ofile (procs (pt s) i), filed (procs (pt s) i))"
  by (simp add: fobs_def pobs_def)

definition hire :: "obs \<Rightarrow> nat \<Rightarrow> obs" where
  "hire k i = (fst k, (fst (snd k))(i := (fst (fst (snd k) i), True)), snd (snd k))"

lemma sound_hire: "sound X k \<Longrightarrow> sound X (hire k i)"
proof -
  have "slots (hire k i) = slots k" by (auto simp: hire_def slots_def fun_eq_iff split: if_splits)
  then show "sound X k \<Longrightarrow> sound X (hire k i)"
    by (auto simp: sound_def counted_def current_def live_def hire_def bare_def)
qed

text \<open>The table with the slot \<open>i\<close> taken.\<close>

definition taken :: "nat \<Rightarrow> 'a ptab_scheme \<Rightarrow> (nat \<Rightarrow> (nat \<Rightarrow> nat option) \<times> bool) \<times> nat" where
  "taken i p = (\<lambda>j. (p_ofile (procs p j), j = i \<or> filed (procs p j)), me p)"

lemma fobs_taken: "pobs p = taken i (pt s) \<Longrightarrow> fobs (s\<lparr>pt := p\<rparr>) = hire (fobs s) i"
  by (auto simp: fobs_def taken_def hire_def pobs_def fun_eq_iff)

lemma freeproc_taken: "freeproc v i = Ok q \<Longrightarrow> pobs v = taken i p \<Longrightarrow> \<not> filed (procs p i) \<Longrightarrow> pobs q = pobs p"
  using freeproc_pobs [of v i q] by (auto simp: taken_def pobs_def fun_eq_iff)

lemma unused_slot_found: "unused_slot ps i n = Some j \<Longrightarrow> j < i + n \<and> p_state (ps j) = UNUSED"
  by (induction n arbitrary: i) (fastforce split: if_splits)+

lemma allocproc_pobs:
  assumes "allocproc p = Ok (r, q)"
  shows "case r of None \<Rightarrow> pobs q = pobs p | Some i \<Rightarrow> i < NPROC \<and> \<not> filed (procs p i) \<and> pobs q = taken i p"
proof (cases "unused_slot (procs p) 0 NPROC")
  case (Some i)
  have i: "i < NPROC" "\<not> filed (procs p i)" using unused_slot_found [OF Some] by (auto simp: filed_def)
  obtain pid v where v: "allocpid p = Ok (pid, v)" using assms Some by (auto simp: allocproc_def)
  let ?u = "upd_proc v i (\<lambda>p. p\<lparr>p_pid := pid, p_state := USED\<rparr>)"
  have u: "pobs ?u = taken i p" using v by (auto simp: allocpid_def pobs_def taken_def filed_def fun_eq_iff split: if_splits)
  obtain tf k where k: "kalloc (kmem ?u) = Ok (tf, k)" using assms Some v by (auto simp: allocproc_def Let_def)
  let ?w = "upd_proc (?u\<lparr>kmem := k\<rparr>) i (\<lambda>p. p\<lparr>p_trapframe := tf\<rparr>)"
  have w: "pobs ?w = taken i p" using u by (simp add: pobs_upd filed_def)
  show ?thesis
  proof (cases "tf = 0")
    case True
    then have "r = None" "freeproc ?w i = Ok q" using assms Some v k by (auto simp: allocproc_def Let_def)
    then show ?thesis using freeproc_taken w i by simp
  next
    case False
    then obtain pgt x where x: "proc_pagetable ?w i = Ok (pgt, x)" using assms Some v k by (auto simp: allocproc_def Let_def)
    let ?y = "upd_proc x i (\<lambda>p. p\<lparr>p_pagetable := pgt\<rparr>)"
    have y: "pobs ?y = taken i p" using proc_pagetable_pobs [OF x] w by (simp add: pobs_upd filed_def)
    show ?thesis
    proof (cases "pgt = 0")
      case True
      then have "r = None" "freeproc ?y i = Ok q" using assms Some v k x False by (auto simp: allocproc_def Let_def)
      then show ?thesis using freeproc_taken y i by simp
    next
      case pg: False
      have "pobs (upd_proc ?y i (\<lambda>p. p\<lparr>p_context := c p\<rparr>)) = pobs ?y" for c by (rule pobs_upd) (simp_all add: filed_def)
      then have "r = Some i" "pobs q = pobs ?y" using assms Some v k x False pg by (auto simp: allocproc_def Let_def)
      then show ?thesis using y i by simp
    qed
  qed
qed (use assms in \<open>auto simp: allocproc_def\<close>)

lemma fork_files_sound:
  "fork_files s np i n = Ok t \<Longrightarrow> settled (fobs s) \<Longrightarrow> np < NPROC \<Longrightarrow> np \<noteq> me (pt s) \<Longrightarrow> filed (procs (pt s) np) \<Longrightarrow> i + n = NOFILE \<Longrightarrow>
     (\<forall>d. i \<le> d \<and> d < NOFILE \<longrightarrow> p_ofile (procs (pt s) np) d = None) \<Longrightarrow>
     settled (fobs t) \<and> filed (procs (pt t) np)"
proof (induction n arbitrary: s i)
  case (Suc n)
  show ?case
  proof (cases "p_ofile (myproc (pt s)) i")
    case None
    then show ?thesis using Suc by simp
  next
    case (Some f)
    then obtain u where u: "filedup s f = Ok u" using Suc.prems(1) by auto
    let ?v = "on_pt u (\<lambda>p. upd_proc p np (\<lambda>x. x\<lparr>p_ofile := (p_ofile x)(i := Some f)\<rparr>))"
    have p: "pt u = pt s" using u by (auto simp: filedup_def upd_file_def split: if_splits)
    have "fobs ?v = setfd (fobs u) np i (Some f)" by (auto simp: fobs_def pobs_def setfd_def on_pt_def filed_def fun_eq_iff)
    moreover have "sound (own (Some f)) (fobs u)" using sound_dup [OF u Suc.prems(2)] by simp
    ultimately have "settled (fobs ?v)"
      using counted_setfd [of "own (Some f)" "fobs u" np i "Some f"] Suc.prems(3,5,6,7) p by (simp add: sound_def)
    then show ?thesis using Suc.IH [of ?v "Suc i"] Suc.prems Some u p by (simp add: on_pt_def filed_def)
  qed
qed simp

lemma fork_sound:
  assumes "settled (fobs s)" "fork s = Ok (r, t)"
  shows "settled (fobs t)"
proof -
  obtain npo p where p: "allocproc (pt s) = Ok (npo, p)" using assms(2) by (auto simp: fork_def)
  note a = allocproc_pobs [OF p]
  show ?thesis
  proof (cases npo)
    case None
    then show ?thesis using a assms p by (auto simp: fork_def)
  next
    case (Some np)
    obtain v k where k: "uvmcopy (kmem p) (p_pagetable (myproc p)) (p_pagetable (procs p np)) (p_sz (myproc p)) = Ok (v, k)"
      using assms(2) p Some by (auto simp: fork_def)
    have np: "np < NPROC" "\<not> filed (procs (pt s) np)" and pk: "pobs (p\<lparr>kmem := k\<rparr>) = taken np (pt s)" using a Some by simp_all
    show ?thesis
    proof (cases "v < 0")
      case True
      then obtain q where q: "freeproc (p\<lparr>kmem := k\<rparr>) np = Ok q" "t = s\<lparr>pt := q\<rparr>" using assms(2) p Some k by (auto simp: fork_def Let_def)
      then show ?thesis using freeproc_taken [OF q(1) pk np(2)] assms(1) by simp
    next
      case False
      let ?p = "tf_set (copy_trapframe (upd_proc (p\<lparr>kmem := k\<rparr>) np (\<lambda>x. x\<lparr>p_sz := p_sz (myproc (p\<lparr>kmem := k\<rparr>))\<rparr>)) (me p) np) np tf_a0 0"
      have po: "pobs ?p = taken np (pt s)" using pk by (simp add: copy_trapframe_def pobs_upd filed_def)
      obtain u ip where u: "fork_files (s\<lparr>pt := ?p\<rparr>) np 0 NOFILE = Ok u" "p_cwd (myproc (pt u)) = Some ip"
        and t: "t = on_pt (on_pt (on_pt (idup u ip) (\<lambda>p. upd_proc p np (\<lambda>x. x\<lparr>p_cwd := Some ip,
                           p_name := safestrcpy (p_name x) (p_name (myproc p)) 16\<rparr>))) (\<lambda>p. upd_proc p np (\<lambda>x. x\<lparr>p_parent := Some (me p)\<rparr>)))
                  (\<lambda>p. upd_proc p np (\<lambda>x. x\<lparr>p_state := RUNNABLE\<rparr>))"
        using assms(2) p Some k False by (auto simp: fork_def Let_def split: option.split_asm)
      have s1: "settled (fobs (s\<lparr>pt := ?p\<rparr>))" unfolding fobs_taken [OF po] by (rule sound_hire [OF assms(1)])
      have "filed (procs ?p np)" "np \<noteq> me ?p" "\<forall>d < NOFILE. p_ofile (procs ?p np) d = None"
        using po np assms(1) by (auto simp: pobs_def taken_def fun_eq_iff sound_def current_def live_def counted_def bare_def)
      then have "settled (fobs u) \<and> filed (procs (pt u) np)" using fork_files_sound [OF u(1) s1 np(1)] by simp
      moreover have "fobs t = fobs u" if "filed (procs (pt u) np)"
        using that unfolding t by (simp add: fobs_def pobs_def on_pt_def idup_def upd_inode_def filed_def fun_eq_iff)
      ultimately show ?thesis by simp
    qed
  qed
qed

section \<open>exit\<close>

lemma exit_files_sound:
  "exit_files s fd n = Ok t \<Longrightarrow> settled (fobs s) \<Longrightarrow> fd + n = NOFILE \<Longrightarrow> (\<forall>d < fd. p_ofile (myproc (pt s)) d = None) \<Longrightarrow>
     settled (fobs t) \<and> (\<forall>d < NOFILE. p_ofile (myproc (pt t)) d = None)"
proof (induction n arbitrary: s fd)
  case (Suc n)
  show ?case
  proof (cases "p_ofile (myproc (pt s)) fd")
    case None
    then have "\<forall>d < Suc fd. p_ofile (myproc (pt s)) d = None" using Suc.prems(4) by (auto simp: less_Suc_eq)
    then show ?thesis using Suc.IH [of s "Suc fd"] Suc.prems None by simp
  next
    case (Some f)
    then obtain u where u: "fileclose s f = Ok u" and r: "exit_files (set_ofile u fd None) (Suc fd) n = Ok t"
      using Suc.prems(1) by (auto simp: set_ofile_def)
    have o: "p_ofile (myproc (pt u)) = p_ofile (myproc (pt s))" using fileclose_fobs [OF u] ofile_fobs [of u] by simp
    have "settled (fobs (set_ofile u fd None))"
      using sound_set_ofile [OF sound_close [OF u Suc.prems(2)], of fd None] Suc.prems(3) o Some by simp
    moreover have "\<forall>d < Suc fd. p_ofile (myproc (pt (set_ofile u fd None))) d = None" using Suc.prems(4) o by (simp add: less_Suc_eq)
    ultimately show ?thesis using Suc.IH [OF r] Suc.prems(3) by simp
  qed
qed simp

text \<open>An exited process has no descriptors.\<close>

definition dismiss :: "obs \<Rightarrow> obs" where
  "dismiss k = (fst k, (fst (snd k))(snd (snd k) := (ofile k, False)), snd (snd k))"

lemma counted_dismiss: "settled k \<Longrightarrow> \<forall>d < NOFILE. ofile k d = None \<Longrightarrow> counted (\<lambda>_. 0) (dismiss k)"
proof -
  have "slots (dismiss k) = slots k" by (auto simp: dismiss_def slots_def ofile_def fun_eq_iff split: if_splits)
  then show "settled k \<Longrightarrow> \<forall>d < NOFILE. ofile k d = None \<Longrightarrow> counted (\<lambda>_. 0) (dismiss k)"
    by (auto simp: sound_def counted_def dismiss_def bare_def ofile_def)
qed

lemma exit_counted:
  assumes "settled (fobs s)" "exit s v = Ok t"
  shows "counted (\<lambda>_. 0) (fobs t)"
proof -
  obtain u where u: "exit_files s 0 NOFILE = Ok u" using assms(2) by (auto simp: exit_def split: if_splits)
  have su: "settled (fobs u)" "\<forall>d < NOFILE. ofile (fobs u) d = None" using exit_files_sound [OF u assms(1)] by simp_all
  let ?m = "bnd (begin_op u) (\<lambda>s. case p_cwd (myproc (pt s)) of None \<Rightarrow> Undef | Some ip \<Rightarrow> bnd (iput s ip) end_op)"
  obtain w where w: "?m = Ok w"
    and t: "t = (let s = on_pt w (\<lambda>p. upd_proc p (me p) (\<lambda>x. x\<lparr>p_cwd := None\<rparr>));
                    s = on_pt s (\<lambda>p. reparent p (me p));
                    s = on_pt s (\<lambda>p. wakeup p (case p_parent (myproc p) of None \<Rightarrow> ChNone | Some q \<Rightarrow> ChProc q))
                in on_pt s (\<lambda>p. upd_proc p (me p) (\<lambda>x. x\<lparr>p_xstate := v, p_state := ZOMBIE\<rparr>)))"
    using assms(2) u by (auto simp: exit_def Let_def split: if_splits option.splits)
  have "kp1 (fobs u) ?m" by (auto intro!: keeps split: option.split)
  then have "fobs w = fobs u" using w by (simp add: kp1_def)
  moreover have "fobs t = dismiss (fobs w)"
  proof -
    define x where "x = on_pt (on_pt (on_pt w (\<lambda>p. upd_proc p (me p) (\<lambda>x. x\<lparr>p_cwd := None\<rparr>))) (\<lambda>p. reparent p (me p)))
      (\<lambda>p. wakeup p (case p_parent (myproc p) of None \<Rightarrow> ChNone | Some q \<Rightarrow> ChProc q))"
    have "fobs x = fobs w" unfolding x_def by (simp add: pobs_upd filed_def)
    moreover have "fobs (on_pt x (\<lambda>p. upd_proc p (me p) (\<lambda>x. x\<lparr>p_xstate := v, p_state := ZOMBIE\<rparr>))) = dismiss (fobs x)"
      by (auto simp: fobs_def pobs_def dismiss_def ofile_def on_pt_def filed_def fun_eq_iff)
    ultimately show ?thesis by (simp add: t Let_def x_def)
  qed
  ultimately show ?thesis using counted_dismiss [OF su] by simp
qed

section \<open>Every system call\<close>

text \<open>The count of each open file is the number of descriptors for it.\<close>

definition file_refs :: "'a kern_scheme \<Rightarrow> bool" where
  "file_refs s \<longleftrightarrow>
     (\<forall>f. f_ref (ftab s f) = int (card {(i, d). i < NPROC \<and> d < NOFILE \<and> p_ofile (procs (pt s) i) d = Some f})) \<and>
     (\<forall>i d. i < NPROC \<and> d < NOFILE \<and> p_state (procs (pt s) i) \<in> {UNUSED, ZOMBIE} \<longrightarrow> p_ofile (procs (pt s) i) d = None)"

definition runs :: "'a kern_scheme \<Rightarrow> bool" where
  "runs s \<longleftrightarrow> me (pt s) < NPROC \<and> p_state (myproc (pt s)) \<notin> {UNUSED, ZOMBIE}"

lemma file_refs_counted: "file_refs s = counted (\<lambda>_. 0) (fobs s)"
  by (auto simp: file_refs_def counted_def slots_def bare_def filed_def fobs_def pobs_def)

lemma runs_current: "runs s = current (fobs s)"
  by (simp add: runs_def current_def live_def myproc_def filed_def)

lemma sys_fork_sound: "settled (fobs s) \<Longrightarrow> sys_fork s = Ok (r, t) \<Longrightarrow> settled (fobs t)"
  by (auto simp: sys_fork_def done_int_def dest: fork_sound)

lemma handler_sound:
  assumes "settled (fobs s)" "syscalls n = Some h" "h s = Ok (r, t)"
  shows "counted (\<lambda>_. 0) (fobs t) \<and> (r \<noteq> None \<longrightarrow> current (fobs t))"
proof -
  have l: "live (fobs s)" using assms(1) by (simp add: sound_def current_def)
  have keep: "settled (fobs t)" if "kp2 (fobs s) (h s)" using kept2 [OF that assms(3,1)] .
  have "h \<in> {sys_read, sys_write, sys_wait, sys_sleep, sys_kill, sys_exec, sys_fstat, sys_chdir, sys_getpid, sys_sbrk, sys_uptime,
      sys_mknod, sys_unlink, sys_link, sys_mkdir} \<or> h \<in> {sys_fork, sys_pipe, sys_dup, sys_open, sys_close} \<or> h = sys_exit"
    using assms(2) by (auto simp: syscalls_def split: if_split_asm)
  moreover have "kp2 (fobs s) (h s)" if "h \<in> {sys_read, sys_write, sys_wait, sys_sleep, sys_kill, sys_exec, sys_fstat, sys_chdir,
      sys_getpid, sys_sbrk, sys_uptime, sys_mknod, sys_unlink, sys_link, sys_mkdir}"
    using that l by (elim insertE) (simp_all add: sys_read_keeps sys_write_keeps sys_wait_keeps sys_sleep_keeps sys_kill_keeps sys_exec_keeps
      sys_fstat_keeps sys_chdir_keeps sys_getpid_keeps sys_sbrk_keeps sys_uptime_keeps sys_mknod_keeps sys_unlink_keeps sys_link_keeps sys_mkdir_keeps)
  moreover have "settled (fobs t)" if "h \<in> {sys_fork, sys_pipe, sys_dup, sys_open, sys_close}"
    using that assms(1,3) by (auto intro: sys_fork_sound sys_pipe_sound sys_dup_sound sys_open_sound sys_close_sound)
  ultimately have "h = sys_exit \<or> settled (fobs t)" using keep by blast
  then show ?thesis using assms(3) exit_counted [OF assms(1)] by (auto simp: sound_def sys_exit_def)
qed

text \<open>
  C14. A system call keeps the reference counts of open files exact. If the count of every entry of
  the file table is the number of descriptors naming it, over all processes, and processes without
  an address space have no descriptors, then the same holds when the call returns, sleeps or exits,
  whatever the call and its arguments, on every error path. A call that returns leaves a live
  current process.
\<close>

theorem syscall_counts_files:
  assumes "file_refs s" and "runs s" and "syscall s = Ok (b, t)"
  shows "file_refs t \<and> (b \<longrightarrow> runs t)"
proof -
  let ?num = "sint (ucast (tf_get (pt s) (me (pt s)) tf_a7) :: u32)"
  have s: "settled (fobs s)" using assms by (simp add: sound_def file_refs_counted runs_current)
  have a0: "fobs (set_a0 u v) = fobs u" for u :: "'a kern_scheme" and v by (simp add: set_a0_def)
  show ?thesis
  proof (cases "if ?num > 0 then syscalls ?num else None :: ('a kern_scheme \<Rightarrow> 'a sysres) option")
    case None
    let ?m = "printf s (map of_char ''%d %s: unknown sys call %d'' @ [10])
      [PfInt (of_int (p_pid (myproc (pt s)))), PfStr (Some (str_bytes 16 (p_name (myproc (pt s))))), PfInt (of_int ?num)]"
    obtain u where "?m = Ok u" "t = set_a0 u (-1)" using assms(3) None by (auto simp: syscall_def Let_def)
    moreover have "kp1 (fobs s) ?m" by (intro keeps refl)
    ultimately have "fobs t = fobs s" by (simp add: kp1_def a0)
    then show ?thesis using s by (simp add: file_refs_counted runs_current sound_def)
  next
    case (Some h)
    then obtain r u where u: "h s = Ok (r, u)" and t: "(b, t) = (case r of Some v \<Rightarrow> (True, set_a0 u v) | None \<Rightarrow> (False, u))"
      using assms(3) by (auto simp: syscall_def Let_def)
    have "syscalls ?num = Some h" using Some by (auto split: if_split_asm)
    from handler_sound [OF s this u] show ?thesis using t a0 by (auto simp: file_refs_counted runs_current split: option.split_asm)
  qed
qed

text \<open>A process with one descriptor that calls \<^verbatim>\<open>dup\<close>.\<close>

definition call0 :: kern where
  "call0 = kern0\<lparr>pt := (pt kern0)\<lparr>kmem := sample\<lparr>memory := (\<lambda>a. if a = 168 then 10 else 0)\<rparr>,
       procs := (\<lambda>i. if i = 0 then zero_proc\<lparr>p_state := RUNNING, p_ofile := [0 \<mapsto> 7]\<rparr> else zero_proc)\<rparr>,
     ftab := (\<lambda>f. (ftab kern0 f)\<lparr>f_ref := if f = 7 then 1 else 0\<rparr>)\<rparr>"

theorem syscall_counts_files_witness:
  "\<exists>t. syscall call0 = Ok (True, t) \<and> f_ref (ftab t 7) = 2 \<and> file_refs t \<and> runs t"
proof -
  have "{(i, d). i < NPROC \<and> d < NOFILE \<and> p_ofile (procs (pt call0) i) d = Some f} = (if f = 7 then {(0, 0)} else {})" for f
    by (auto simp: call0_def zero_proc_def NPROC_def NOFILE_def split: if_splits)
  then have r: "file_refs call0" "runs call0" by (auto simp: file_refs_def runs_def call0_def zero_proc_def myproc_def NPROC_def)
  have m: "tf_get (pt call0) 0 tf_a7 = 10" "tf_get (pt call0) 0 tf_a0 = 0"
    by (simp_all add: tf_get_def call0_def zero_proc_def ld64_def read_mem_def upt_rec tf_a7_def tf_a0_def)
  have "argfd call0 0 = Ok (Some (0, 7))" using m
    by (simp add: argfd_def argint_def argraw_def call0_def myproc_def zero_proc_def NOFILE_def)
  moreover have "fdalloc call0 7 = (Some 1, set_ofile call0 1 (Some 7))"
    by (simp add: fdalloc_def call0_def myproc_def zero_proc_def NOFILE_def numeral_eq_Suc)
  ultimately have "\<exists>t. sys_dup call0 = Ok (Some 1, t) \<and> f_ref (ftab t 7) = 2"
    by (simp add: sys_dup_def filedup_def set_ofile_def on_pt_def upd_file_def call0_def)
  then obtain u where u: "sys_dup call0 = Ok (Some 1, u)" "f_ref (ftab u 7) = 2" by blast
  then have "syscall call0 = Ok (True, set_a0 u 1)" using m by (simp add: syscall_def Let_def call0_def syscalls_def)
  moreover have "ftab (set_a0 u 1) = ftab u" by (simp add: set_a0_def on_pt_def)
  ultimately show ?thesis using syscall_counts_files [OF r] u(2) by (intro exI [of _ "set_a0 u 1"]) simp
qed

end
