(* ===== verification/Grep.thy ===== *)
theory Grep
  imports Prelude
begin

text \<open>
  The search program \<^verbatim>\<open>user/grep.c\<close>: its matcher for regular expressions, the loop that
  collects lines from the chunks \<^verbatim>\<open>read\<close> delivers, and what both compute. Strings are lists of
  characters without the final NUL. \<^verbatim>\<open>read\<close> is a parameter.
\<close>

section \<open>The program\<close>

function matchhere :: "u8 list \<Rightarrow> u8 list \<Rightarrow> bool"
  and matchstar :: "u8 \<Rightarrow> u8 list \<Rightarrow> u8 list \<Rightarrow> bool" where
  "matchhere re text =
     (case re of
        [] \<Rightarrow> True
      | c # re1 \<Rightarrow>
          if re1 \<noteq> [] \<and> hd re1 = 42 then matchstar c (tl re1) text
          else if c = 36 \<and> re1 = [] then text = []
          else (case text of
              [] \<Rightarrow> False
            | t # text1 \<Rightarrow> if c = 46 \<or> c = t then matchhere re1 text1 else False))"
| "matchstar c re text =
     (if matchhere re text then True
      else (case text of
          [] \<Rightarrow> False
        | t # text1 \<Rightarrow> if t = c \<or> c = 46 then matchstar c re text1 else False))"
  by pat_completeness auto

termination
  by (relation "inv_image (less_than <*lex*> less_than <*lex*> less_than)
       (\<lambda>x. case x of Inl (re, text) \<Rightarrow> (length re, length text, 0) | Inr (c, re, text) \<Rightarrow> (length re, length text, 1 :: nat))")
    auto

declare matchhere.simps [simp del] matchstar.simps [simp del]

primrec match_from :: "u8 list \<Rightarrow> u8 list \<Rightarrow> bool" where
  "match_from re [] = matchhere re []"
| "match_from re (t # text) = (if matchhere re (t # text) then True else match_from re text)"

definition match :: "u8 list \<Rightarrow> u8 list \<Rightarrow> bool" where
  "match re text = (if re \<noteq> [] \<and> hd re = 94 then matchhere (tl re) text else match_from re text)"

text \<open>
  The index of the first \<open>c\<close> in the bytes of a buffer that ends with a NUL; the search stops at a NUL
  inside it, too.
\<close>

primrec strchr_at :: "u8 list \<Rightarrow> u8 \<Rightarrow> nat option" where
  "strchr_at [] c = None"
| "strchr_at (x # xs) c = (if x = 0 then None else if x = c then Some 0 else map_option Suc (strchr_at xs c))"

lemma strchr_at_less: "strchr_at b c = Some q \<Longrightarrow> q < length b"
  by (induction b arbitrary: q) (auto split: if_splits)

text \<open>
  The inner loop: the bytes from \<^verbatim>\<open>p\<close> to the end of the buffer and what has been written to
  descriptor 1; it gives the bytes that the outer loop moves to the front.
\<close>

function grep_lines :: "u8 list \<Rightarrow> u8 list \<Rightarrow> u8 list \<Rightarrow> u8 list \<times> u8 list" where
  "grep_lines pattern b out =
     (case strchr_at b 10 of
        None \<Rightarrow> (b, out)
      | Some q \<Rightarrow> grep_lines pattern (drop (q + 1) b) (if match pattern (take q b) then out @ take (q + 1) b else out))"
  by pat_completeness auto

termination
  by (relation "measure (\<lambda>(pattern, b, out). length b)") (auto dest: strchr_at_less)

declare grep_lines.simps [simp del]

text \<open>
  The outer loop with the \<open>m\<close> bytes \<open>b\<close> in the buffer of 1024 bytes. \<open>rd s n\<close> is \<^verbatim>\<open>read\<close> for at most
  \<open>n\<close> bytes: the bytes it delivers, none at the end of the file, or \<open>None\<close> for an error.
\<close>

partial_function (option) grep_loop ::
  "('s \<Rightarrow> nat \<Rightarrow> u8 list option \<times> 's) \<Rightarrow> u8 list \<Rightarrow> 's \<Rightarrow> u8 list \<Rightarrow> u8 list \<Rightarrow> (u8 list \<times> 's) option" where
  "grep_loop rd pattern s b out =
     (case rd s (1024 - length b - 1) of
        (None, s) \<Rightarrow> Some (out, s)
      | (Some cs, s) \<Rightarrow>
          if cs = [] then Some (out, s)
          else grep_loop rd pattern s (fst (grep_lines pattern (b @ cs) out)) (snd (grep_lines pattern (b @ cs) out)))"

definition grep :: "('s \<Rightarrow> nat \<Rightarrow> u8 list option \<times> 's) \<Rightarrow> u8 list \<Rightarrow> 's \<Rightarrow> (u8 list \<times> 's) option" where
  "grep rd pattern s = grep_loop rd pattern s [] []"

section \<open>What a pattern matches\<close>

text \<open>
  A pattern is a sequence of items, each a character with or without a star, and may end with \<open>$\<close>.
  The items denote languages.
\<close>

datatype item = One u8 | Star u8

fun items :: "u8 list \<Rightarrow> item list \<times> bool" where
  "items [] = ([], False)"
| "items [c] = (if c = 36 then ([], True) else ([One c], False))"
| "items (c # d # re) = (if d = 42 then apfst ((#) (Star c)) (items re) else apfst ((#) (One c)) (items (d # re)))"

definition fits :: "u8 \<Rightarrow> u8 \<Rightarrow> bool" where
  "fits c t \<longleftrightarrow> c = 46 \<or> t = c"

primrec item_lang :: "item \<Rightarrow> u8 list set" where
  "item_lang (One c) = {[t] | t. fits c t}"
| "item_lang (Star c) = {w. \<forall>t \<in> set w. fits c t}"

primrec items_lang :: "item list \<Rightarrow> u8 list set" where
  "items_lang [] = {[]}"
| "items_lang (i # is) = {v @ w | v w. v \<in> item_lang i \<and> w \<in> items_lang is}"

definition prefix_match :: "u8 list \<Rightarrow> u8 list \<Rightarrow> bool" where
  "prefix_match re text \<longleftrightarrow> (\<exists>v w. text = v @ w \<and> v \<in> items_lang (fst (items re)) \<and> (snd (items re) \<longrightarrow> w = []))"

text \<open>A text contains a match: anywhere, or at its start when the pattern begins with \<open>^\<close>.\<close>

definition contains :: "u8 list \<Rightarrow> u8 list \<Rightarrow> bool" where
  "contains re text \<longleftrightarrow>
     (if re \<noteq> [] \<and> hd re = 94 then prefix_match (tl re) text else (\<exists>u v. text = u @ v \<and> prefix_match re v))"

lemma prefix_match_Nil: "prefix_match [] text"
  by (simp add: prefix_match_def)

lemma prefix_match_end: "prefix_match [36] text \<longleftrightarrow> text = []"
  by (simp add: prefix_match_def)

lemma concat_split:
  "(\<exists>v w. text = v @ w \<and> v \<in> {x @ y | x y. x \<in> A \<and> y \<in> B} \<and> Q w) \<longleftrightarrow>
   (\<exists>x r. text = x @ r \<and> x \<in> A \<and> (\<exists>y w. r = y @ w \<and> y \<in> B \<and> Q w))" (is "?L \<longleftrightarrow> ?R")
proof
  assume ?L
  then obtain x y w where "text = x @ (y @ w)" "x \<in> A" "y \<in> B" "Q w" by auto
  then show ?R by blast
next
  assume ?R
  then obtain x y w where "text = (x @ y) @ w" "x \<in> A" "y \<in> B" "Q w" by auto
  then show ?L by blast
qed

lemma prefix_match_Cons:
  assumes "items re = (i # fst (items re1), snd (items re1))"
  shows "prefix_match re text \<longleftrightarrow> (\<exists>x r. text = x @ r \<and> x \<in> item_lang i \<and> prefix_match re1 r)"
  unfolding prefix_match_def assms fst_conv snd_conv items_lang.simps by (rule concat_split)

lemma prefix_match_One:
  assumes "\<not> (re \<noteq> [] \<and> hd re = 42)" "\<not> (c = 36 \<and> re = [])"
  shows "prefix_match (c # re) text \<longleftrightarrow> (\<exists>t text1. text = t # text1 \<and> fits c t \<and> prefix_match re text1)"
proof -
  have "items (c # re) = (One c # fst (items re), snd (items re))" using assms by (cases re) (auto simp: apfst_def map_prod_def split: prod.split)
  then have "prefix_match (c # re) text \<longleftrightarrow> (\<exists>x r. text = x @ r \<and> x \<in> item_lang (One c) \<and> prefix_match re r)" by (rule prefix_match_Cons)
  also have "\<dots> \<longleftrightarrow> (\<exists>t r. text = [t] @ r \<and> fits c t \<and> prefix_match re r)" by (simp del: append_Cons append_Nil) blast
  finally show ?thesis by simp
qed

lemma prefix_match_Star: "prefix_match (c # 42 # re) text \<longleftrightarrow> (\<exists>v w. text = v @ w \<and> (\<forall>t \<in> set v. fits c t) \<and> prefix_match re w)"
proof -
  have "items (c # 42 # re) = (Star c # fst (items re), snd (items re))" by (auto simp: apfst_def map_prod_def split: prod.split)
  from prefix_match_Cons [OF this, of "text"] show ?thesis by simp
qed

lemma star_step:
  "(\<exists>v w. text = v @ w \<and> (\<forall>t \<in> set v. fits c t) \<and> P w) \<longleftrightarrow>
   P text \<or> (\<exists>t text1. text = t # text1 \<and> fits c t \<and> (\<exists>v w. text1 = v @ w \<and> (\<forall>t \<in> set v. fits c t) \<and> P w))" (is "?L \<longleftrightarrow> ?R")
proof
  assume ?L
  then obtain v w where "text = v @ w" "\<forall>t \<in> set v. fits c t" "P w" by blast
  then show ?R by (cases v) auto
next
  assume ?R
  then show ?L
  proof
    assume "P text" then show ?L by (intro exI [of _ "[]"] exI [of _ "text"]) simp
  next
    assume "\<exists>t text1. text = t # text1 \<and> fits c t \<and> (\<exists>v w. text1 = v @ w \<and> (\<forall>t \<in> set v. fits c t) \<and> P w)"
    then obtain t v w where "text = t # v @ w" "fits c t" "\<forall>t \<in> set v. fits c t" "P w" by blast
    then show ?L by (intro exI [of _ "t # v"] exI [of _ w]) simp
  qed
qed

lemma match_denotes:
  "matchhere re s = prefix_match re s"
  "matchstar c re s = (\<exists>v w. s = v @ w \<and> (\<forall>t \<in> set v. fits c t) \<and> prefix_match re w)"
proof (induction re s and c re s rule: matchhere_matchstar.induct)
  case (1 re s)
  show ?case
  proof (cases re)
    case Nil
    then show ?thesis by (simp add: matchhere.simps prefix_match_Nil)
  next
    case (Cons c re1)
    show ?thesis
    proof (cases "re1 \<noteq> [] \<and> hd re1 = 42")
      case True
      then have "re1 = 42 # tl re1" by (cases re1) auto
      then show ?thesis using 1(1) [OF Cons True] True Cons prefix_match_Star [of c "tl re1" s] by (simp add: matchhere.simps)
    next
      case False
      then show ?thesis using 1(2) [OF Cons False] Cons prefix_match_One [OF False, of c s] prefix_match_end [of s]
        by (subst matchhere.simps) (auto simp: fits_def split: list.split)
    qed
  qed
next
  case (2 c re s)
  then show ?case by (subst matchstar.simps, subst star_step) (auto simp: fits_def split: list.split)
qed

lemma match_contains: "match re s = contains re s"
proof -
  have "match_from re s \<longleftrightarrow> (\<exists>u v. s = u @ v \<and> prefix_match re v)"
  proof (induction s)
    case (Cons t s)
    have "(\<exists>u v. t # s = u @ v \<and> prefix_match re v) \<longleftrightarrow> prefix_match re (t # s) \<or> (\<exists>u v. s = u @ v \<and> prefix_match re v)"
      by (metis append_Cons append_Nil list.exhaust list.inject)
    then show ?case using Cons by (simp add: match_denotes)
  qed (simp add: match_denotes)
  then show ?thesis by (auto simp: match_def contains_def match_denotes)
qed

section \<open>Lines\<close>

lemma after_line_less: "x \<in> set xs \<Longrightarrow> length (tl (dropWhile (\<lambda>y. y \<noteq> x) xs)) < length xs"
proof -
  assume "x \<in> set xs"
  then have "xs \<noteq> []" "dropWhile (\<lambda>y. y \<noteq> x) xs \<noteq> []" by auto
  then show "length (tl (dropWhile (\<lambda>y. y \<noteq> x) xs)) < length xs" using length_dropWhile_le [of "\<lambda>y. y \<noteq> x" xs] by (cases xs) auto
qed

text \<open>The complete lines of a text, and what follows the last of them.\<close>

function lines :: "u8 list \<Rightarrow> u8 list list" where
  "lines xs = (if 10 \<in> set xs then takeWhile (\<lambda>x. x \<noteq> 10) xs # lines (tl (dropWhile (\<lambda>x. x \<noteq> 10) xs)) else [])"
  by pat_completeness auto

termination
  by (relation "measure length") (simp_all add: after_line_less del: length_tl)

declare lines.simps [simp del]

function remainder :: "u8 list \<Rightarrow> u8 list" where
  "remainder xs = (if 10 \<in> set xs then remainder (tl (dropWhile (\<lambda>x. x \<noteq> 10) xs)) else xs)"
  by pat_completeness auto

termination
  by (relation "measure length") (simp_all add: after_line_less del: length_tl)

declare remainder.simps [simp del]

lemma one_line: "10 \<notin> set l \<Longrightarrow> lines (l @ 10 # xs) = l # lines xs" "10 \<notin> set l \<Longrightarrow> remainder (l @ 10 # xs) = remainder xs"
proof -
  assume "10 \<notin> set l"
  then have "takeWhile (\<lambda>x. x \<noteq> 10) (l @ 10 # xs) = l" "dropWhile (\<lambda>x. x \<noteq> 10) (l @ 10 # xs) = 10 # xs"
    by (auto simp: takeWhile_append2 dropWhile_append2 takeWhile_append dropWhile_append)
  then show "lines (l @ 10 # xs) = l # lines xs" "remainder (l @ 10 # xs) = remainder xs"
    by (subst lines.simps remainder.simps; simp)+
qed

lemma no_line: "10 \<notin> set l \<Longrightarrow> lines l = []" "10 \<notin> set l \<Longrightarrow> remainder l = l"
  by (simp_all add: lines.simps remainder.simps)

lemma line_induct [case_names none line]:
  assumes "\<And>l. 10 \<notin> set l \<Longrightarrow> P l" and "\<And>l xs. 10 \<notin> set l \<Longrightarrow> P xs \<Longrightarrow> P (l @ 10 # xs)"
  shows "P xs"
proof (induction xs rule: length_induct)
  case (1 xs)
  show ?case
  proof (cases "10 \<in> set xs")
    case True
    then obtain l ys where "xs = l @ 10 # ys" "10 \<notin> set l" using split_list_first by metis
    then show ?thesis using 1 assms(2) by simp
  qed (rule assms(1))
qed

lemma lines_append: "lines (xs @ ys) = lines xs @ lines (remainder xs @ ys)"
  by (induction xs rule: line_induct) (simp_all add: one_line no_line)

lemma lines_remainder:
  "10 \<notin> set (remainder xs)" "set (remainder xs) \<subseteq> set xs" "length (remainder xs) \<le> length xs"
  by (induction xs rule: line_induct) (auto simp: one_line no_line)

lemma lines_short: "l \<in> set (lines xs) \<Longrightarrow> length l < length xs"
  by (induction xs rule: line_induct) (auto simp: one_line no_line)

section \<open>The loops\<close>

definition printed :: "u8 list \<Rightarrow> u8 list list \<Rightarrow> u8 list" where
  "printed pattern ls = concat (map (\<lambda>l. l @ [10]) (filter (contains pattern) ls))"

lemma strchr_at_line: "10 \<notin> set l \<Longrightarrow> 0 \<notin> set l \<Longrightarrow> strchr_at (l @ 10 # xs) 10 = Some (length l)"
  by (induction l) auto

lemma strchr_at_none: "10 \<notin> set l \<Longrightarrow> strchr_at l 10 = None"
  by (induction l) auto

lemma grep_lines_prints: "0 \<notin> set b \<Longrightarrow> grep_lines pattern b out = (remainder b, out @ printed pattern (lines b))"
proof (induction b arbitrary: out rule: line_induct)
  case (line l xs)
  then show ?case by (subst grep_lines.simps) (simp add: strchr_at_line one_line printed_def match_contains)
qed (subst grep_lines.simps, simp add: strchr_at_none no_line printed_def)

text \<open>
  \<^verbatim>\<open>read\<close> delivers a finite text in pieces: at least one byte and at most as many as asked for while
  there are some, none when none are asked for or left.
\<close>

inductive delivers :: "('s \<Rightarrow> nat \<Rightarrow> u8 list option \<times> 's) \<Rightarrow> 's \<Rightarrow> u8 list \<Rightarrow> bool" for rd where
  eof: "(\<And>n. fst (rd s n) = Some []) \<Longrightarrow> delivers rd s []"
| more: "fst (rd s 0) = Some [] \<Longrightarrow>
    (\<And>n. n > 0 \<Longrightarrow> \<exists>k. 0 < k \<and> k \<le> n \<and> k \<le> length xs \<and> fst (rd s n) = Some (take k xs) \<and> delivers rd (snd (rd s n)) (drop k xs)) \<Longrightarrow>
    delivers rd s xs"

abbreviation fitting :: "u8 list \<Rightarrow> bool" where
  "fitting l \<equiv> length l \<le> 1022"

lemma grep_loop_prints:
  "delivers rd s xs \<Longrightarrow> 0 \<notin> set b \<union> set xs \<Longrightarrow> 10 \<notin> set b \<Longrightarrow> length b \<le> 1023 \<Longrightarrow>
     \<exists>t. grep_loop rd pattern s b out = Some (out @ printed pattern (takeWhile fitting (lines (b @ xs))), t)"
proof (induction arbitrary: b out rule: delivers.induct)
  case (eof s)
  obtain t where "rd s (1024 - length b - 1) = (Some [], t)" using eof.hyps [of "1024 - length b - 1"] by (cases "rd s (1024 - length b - 1)") auto
  then show ?case using eof.prems by (subst grep_loop.simps) (simp add: no_line printed_def)
next
  case (more s xs)
  let ?n = "1024 - length b - 1"
  show ?case
  proof (cases "?n = 0")
    case True
    then have b: "length b = 1023" using more.prems by simp
    have "takeWhile fitting (lines (b @ xs)) = []"
    proof (cases "lines (b @ xs)")
      case (Cons l ls)
      then have "10 \<in> set (b @ xs)" "l = takeWhile (\<lambda>x. x \<noteq> 10) (b @ xs)" by (auto simp: lines.simps [of "b @ xs"] split: if_splits)
      moreover have "takeWhile (\<lambda>x. x \<noteq> 10) (b @ xs) = b @ takeWhile (\<lambda>x. x \<noteq> 10) xs" using more.prems by (intro takeWhile_append2) auto
      ultimately have "length l \<ge> 1023" using b by simp
      then show ?thesis using Cons by simp
    qed simp
    then show ?thesis using True more.hyps(1) by (subst grep_loop.simps) (auto simp: printed_def split: prod.split)
  next
    case False
    then obtain k where k: "0 < k" "k \<le> ?n" "k \<le> length xs" "fst (rd s ?n) = Some (take k xs)"
        and IH: "\<And>b out. 0 \<notin> set b \<union> set (drop k xs) \<Longrightarrow> 10 \<notin> set b \<Longrightarrow> length b \<le> 1023 \<Longrightarrow>
          \<exists>t. grep_loop rd pattern (snd (rd s ?n)) b out = Some (out @ printed pattern (takeWhile fitting (lines (b @ drop k xs))), t)"
      using more.IH [of ?n] by blast
    let ?c = "b @ take k xs"
    have z: "0 \<notin> set ?c" "0 \<notin> set (drop k xs)" using more.prems by (auto dest: in_set_takeD in_set_dropD)
    have l: "length ?c \<le> 1023" using k more.prems by simp
    have "takeWhile fitting (lines (b @ xs)) = lines ?c @ takeWhile fitting (lines (remainder ?c @ drop k xs))"
    proof -
      have "lines (b @ xs) = lines ?c @ lines (remainder ?c @ drop k xs)" using lines_append [of ?c "drop k xs"] by simp
      moreover have "\<forall>l \<in> set (lines ?c). fitting l" using lines_short [of _ ?c] l by fastforce
      ultimately show ?thesis by (simp add: takeWhile_append2)
    qed
    moreover have "grep_loop rd pattern s b out = grep_loop rd pattern (snd (rd s ?n)) (remainder ?c) (out @ printed pattern (lines ?c))"
      using k by (subst grep_loop.simps) (auto simp: grep_lines_prints [OF z(1)] split: prod.split)
    moreover have "\<exists>t. grep_loop rd pattern (snd (rd s ?n)) (remainder ?c) (out @ printed pattern (lines ?c)) =
        Some ((out @ printed pattern (lines ?c)) @ printed pattern (takeWhile fitting (lines (remainder ?c @ drop k xs))), t)"
      using IH [of "remainder ?c"] z lines_remainder [of ?c] l by fastforce
    ultimately show ?thesis by (simp add: printed_def)
  qed
qed

text \<open>
  C40. \<^verbatim>\<open>grep\<close> always ends on a finite text without NUL characters and writes exactly the complete
  lines that contain a match of the pattern, in order, however \<^verbatim>\<open>read\<close> cuts the text into pieces, up
  to the first line of more than 1022 characters, where it stops. Patterns have their usual meaning:
  a character matches itself, \<open>.\<close> any character, a star any number of the character before it, \<open>^\<close>
  and \<open>$\<close> the ends of the line.
\<close>

theorem grep_filters:
  assumes "delivers rd s xs" and "0 \<notin> set xs"
  shows "\<exists>t. grep rd pattern s =
    Some (concat (map (\<lambda>l. l @ [10]) (filter (contains pattern) (takeWhile (\<lambda>l. length l \<le> 1022) (lines xs)))), t)"
  using grep_loop_prints [OF assms(1), of "[]" pattern "[]"] assms(2) by (simp add: grep_def printed_def)

text \<open>A file read at most three bytes at a time.\<close>

definition slow_read :: "u8 list \<Rightarrow> nat \<Rightarrow> u8 list option \<times> u8 list" where
  "slow_read xs n = (Some (take (min 3 n) xs), drop (min 3 n) xs)"

lemma slow_read_delivers: "delivers slow_read xs xs"
proof (induction xs rule: length_induct)
  case (1 xs)
  show ?case
  proof (cases "xs = []")
    case True
    then show ?thesis by (simp add: delivers.eof slow_read_def)
  next
    case False
    show ?thesis
    proof (rule delivers.more)
      fix n :: nat assume n: "n > 0"
      let ?k = "min (min 3 n) (length xs)"
      have "take (min 3 n) xs = take ?k xs" "drop (min 3 n) xs = drop ?k xs" by (auto simp: min_def)
      moreover have "delivers slow_read (drop ?k xs) (drop ?k xs)" using 1 n False by simp
      ultimately show "\<exists>k>0. k \<le> n \<and> k \<le> length xs \<and> fst (slow_read xs n) = Some (take k xs) \<and> delivers slow_read (snd (slow_read xs n)) (drop k xs)"
        using n False by (intro exI [of _ ?k]) (simp add: slow_read_def)
    qed (simp add: slow_read_def)
  qed
qed

theorem grep_filters_witness:
  "\<exists>t. grep slow_read (map of_char ''a*b$'') (map of_char ''xaab'' @ [10] @ map of_char ''ba'' @ [10]) = Some (map of_char ''xaab'' @ [10], t)"
proof -
  let ?re = "map of_char ''a*b$'' :: u8 list" and ?x = "map of_char ''xaab'' :: u8 list" and ?y = "map of_char ''ba'' :: u8 list"
  have l: "lines (?x @ [10] @ ?y @ [10]) = [?x, ?y]" by (simp add: lines.simps)
  have "contains ?re ?x" "\<not> contains ?re ?y"
    unfolding match_contains [symmetric] by (simp_all add: match_def matchhere.simps matchstar.simps)
  then show ?thesis using grep_filters [OF slow_read_delivers, of "?x @ [10] @ ?y @ [10]" ?re] l by simp
qed

end
