(* ===== verification/Shell.thy ===== *)
theory Shell
  imports Syscall
begin

text \<open>
  The parser of the shell, \<^verbatim>\<open>user/sh.c\<close>. It works on a NUL-terminated line in a buffer with
  pointers into it; here \<open>s\<close> is the line without the NUL, a pointer is an index, and \<^verbatim>\<open>es\<close> is the
  length of \<open>s\<close>. Memory for the nodes is always there. The theory shows that the parser returns on
  every line and accepts exactly the lines of the shell's grammar, with the tree the grammar gives.
\<close>

section \<open>Tokens\<close>

definition whitespace :: "u8 list" where "whitespace = [32, 9, 13, 10, 11]"
definition symbols :: "u8 list" where "symbols = [60, 124, 62, 38, 59, 40, 41]"

text \<open>\<^verbatim>\<open>*s\<close>; at \<^verbatim>\<open>es\<close> it is the NUL.\<close>

definition char_at :: "u8 list \<Rightarrow> nat \<Rightarrow> u8" where
  "char_at s i = (if i < length s then s ! i else 0)"

function skip_space :: "u8 list \<Rightarrow> nat \<Rightarrow> nat" where
  "skip_space s i = (if i < length s \<and> char_at s i \<in> set whitespace then skip_space s (i + 1) else i)"
  by pat_completeness auto

termination
  by (relation "measure (\<lambda>(s, i). length s - i)") auto

function skip_word :: "u8 list \<Rightarrow> nat \<Rightarrow> nat" where
  "skip_word s i =
     (if i < length s \<and> char_at s i \<notin> set whitespace \<and> char_at s i \<notin> set symbols then skip_word s (i + 1) else i)"
  by pat_completeness auto

termination
  by (relation "measure (\<lambda>(s, i). length s - i)") auto

declare skip_space.simps [simp del] skip_word.simps [simp del]

text \<open>The value \<^verbatim>\<open>ret\<close>, \<^verbatim>\<open>*q\<close>, \<^verbatim>\<open>*eq\<close> and the new \<^verbatim>\<open>*ps\<close>.\<close>

definition gettoken :: "u8 list \<Rightarrow> nat \<Rightarrow> u8 \<times> nat \<times> nat \<times> nat" where
  "gettoken s i =
     (let q = skip_space s i;
          c = char_at s q;
          (ret, e) =
            (if c = 0 then (c, q)
             else if c \<in> {124, 40, 41, 59, 38, 60} then (c, q + 1)
             else if c = 62 then if char_at s (q + 1) = 62 then (43, q + 2) else (c, q + 1)
             else (97, skip_word s q))
      in (ret, q, e, skip_space s e))"

text \<open>The new \<^verbatim>\<open>*ps\<close> and the result.\<close>

definition peek :: "u8 list \<Rightarrow> nat \<Rightarrow> u8 list \<Rightarrow> nat \<times> bool" where
  "peek s i toks = (let j = skip_space s i in (j, char_at s j \<noteq> 0 \<and> char_at s j \<in> set toks))"

lemma skip_space_ge: "i \<le> skip_space s i"
proof (induction s i rule: skip_space.induct)
  case (1 s i)
  then show ?case by (subst skip_space.simps) (auto split: if_split)
qed

lemma skip_space_le: "i \<le> length s \<Longrightarrow> skip_space s i \<le> length s"
proof (induction s i rule: skip_space.induct)
  case (1 s i)
  then show ?case by (subst skip_space.simps) (auto split: if_split)
qed

lemma skip_space_stops: "skip_space s i < length s \<Longrightarrow> char_at s (skip_space s i) \<notin> set whitespace"
proof (induction s i rule: skip_space.induct)
  case (1 s i)
  then show ?case by (cases "i < length s \<and> char_at s i \<in> set whitespace") (auto simp: skip_space.simps [of s i])
qed

lemma skip_space_idem [simp]: "skip_space s (skip_space s i) = skip_space s i"
  using skip_space_stops [of s i] by (subst skip_space.simps) auto

lemma skip_word_ge: "i \<le> skip_word s i"
proof (induction s i rule: skip_word.induct)
  case (1 s i)
  then show ?case by (subst skip_word.simps) (auto split: if_split)
qed

lemma skip_word_le: "i \<le> length s \<Longrightarrow> skip_word s i \<le> length s"
proof (induction s i rule: skip_word.induct)
  case (1 s i)
  then show ?case by (subst skip_word.simps) (auto split: if_split)
qed

lemma char_at_less: "char_at s i \<noteq> 0 \<Longrightarrow> i < length s"
  by (auto simp: char_at_def split: if_splits)

lemma gettoken_next: "gettoken s i = (r, q, e, j) \<Longrightarrow> q = skip_space s i \<and> j = skip_space s e"
  by (auto simp: gettoken_def Let_def split: prod.splits)

lemma skip_word_more: "i < length s \<Longrightarrow> char_at s i \<notin> set whitespace \<Longrightarrow> char_at s i \<notin> set symbols \<Longrightarrow> i < skip_word s i"
  using skip_word_ge [of "i + 1" s] by (subst skip_word.simps) simp

lemma gettoken_progress:
  assumes "gettoken s i = (r, q, e, j)"
  shows "r \<noteq> 0 \<Longrightarrow> i \<le> q \<and> q < e \<and> e \<le> length s \<and> e \<le> j \<and> j \<le> length s"
    and "r = 0 \<longleftrightarrow> char_at s q = 0"
proof -
  have q: "q = skip_space s i" and j: "j = skip_space s e" using gettoken_next [OF assms] by simp_all
  show r: "r = 0 \<longleftrightarrow> char_at s q = 0" using assms by (auto simp: gettoken_def Let_def split: if_splits)
  assume "r \<noteq> 0"
  then have c: "char_at s q \<noteq> 0" "q < length s" using r char_at_less by auto
  have w: "char_at s q \<notin> set whitespace" using skip_space_stops [of s i] c(2) q by simp
  have "q < e \<and> e \<le> length s"
    using assms c w skip_word_more [of q s] skip_word_le [of q s] char_at_less [of s "q + 1"]
    by (auto simp: gettoken_def Let_def symbols_def q [symmetric] split: if_splits)
  then show "i \<le> q \<and> q < e \<and> e \<le> length s \<and> e \<le> j \<and> j \<le> length s" using q j skip_space_ge skip_space_le by simp
qed

section \<open>The parser\<close>

datatype 'w cmd =
    Execcmd "'w list"
  | Redircmd "'w cmd" 'w u32 nat
  | Pipecmd "'w cmd" "'w cmd"
  | Listcmd "'w cmd" "'w cmd"
  | Backcmd "'w cmd"

text \<open>A result, the message of the shell's \<^verbatim>\<open>panic\<close>, or no fuel left.\<close>

datatype 'a parsed = Got 'a | Syntax string | Fuel

primrec pbind :: "'a parsed \<Rightarrow> ('a \<Rightarrow> 'b parsed) \<Rightarrow> 'b parsed" where
  "pbind (Got x) f = f x"
| "pbind (Syntax m) f = Syntax m"
| "pbind Fuel f = Fuel"

definition MAXARGS :: nat where "MAXARGS = 10"
definition O_RDONLY :: u32 where "O_RDONLY = 0"

text \<open>The redirection for an operator and a file name.\<close>

definition redir :: "u8 \<Rightarrow> nat \<times> nat \<Rightarrow> (nat \<times> nat) \<times> u32 \<times> nat" where
  "redir tok file =
     (if tok = 60 then (file, O_RDONLY, 0)
      else if tok = 62 then (file, O_WRONLY OR O_CREATE OR O_TRUNC, 1)
      else (file, O_WRONLY OR O_CREATE, 1))"

text \<open>
  \<^verbatim>\<open>parseredirs\<close> gives the redirections it adds to those it is given, the outermost last. \<^verbatim>\<open>parseexec\<close>
  wraps them around a node that it still fills; \<open>wrap\<close> does so when the node is complete.
\<close>

function parseredirs :: "u8 list \<Rightarrow> nat \<Rightarrow> ((nat \<times> nat) \<times> u32 \<times> nat) list \<Rightarrow> (((nat \<times> nat) \<times> u32 \<times> nat) list \<times> nat) parsed" where
  "parseredirs s i rs =
     (let (i, more) = peek s i [60, 62] in
      if more then
        let (tok, _, _, i) = gettoken s i; (word, q, eq, i) = gettoken s i in
        if word \<noteq> 97 then Syntax ''missing file for redirection''
        else parseredirs s i (rs @ [redir tok (q, eq)])
      else Got (rs, i))"
  by pat_completeness auto

termination
proof (relation "measure (\<lambda>(s, i, rs). length s - i)", goal_cases)
  case (2 s i rs x j more x' tok y' q' y'' e' i1 z word z' q z'' e i2)
  have j: "j = skip_space s i" "char_at s j \<noteq> 0" using 2 by (auto simp: peek_def Let_def)
  have t: "gettoken s j = (tok, q', e', i1)" "gettoken s i1 = (word, q, e, i2)" "word = 97" using 2 by auto
  have "tok \<noteq> 0" using gettoken_progress(2) [OF t(1)] gettoken_next [OF t(1)] j by simp
  then have "j < i1" using gettoken_progress(1) [OF t(1)] by simp
  moreover have "i1 \<le> i2" "i2 \<le> length s" using gettoken_progress(1) [OF t(2)] t(3) by simp_all
  ultimately show ?case using skip_space_ge [of i s] j by simp
qed simp

declare parseredirs.simps [simp del]

primrec wrap :: "'w cmd \<Rightarrow> ('w \<times> u32 \<times> nat) list \<Rightarrow> 'w cmd" where
  "wrap c [] = c"
| "wrap c (r # rs) = (case r of (file, mode, fd) \<Rightarrow> wrap (Redircmd c file mode fd) rs)"

text \<open>The loop of \<^verbatim>\<open>parseexec\<close> over the arguments; an argument number \<^verbatim>\<open>MAXARGS\<close> is refused.\<close>

function parse_args :: "u8 list \<Rightarrow> nat \<Rightarrow> (nat \<times> nat) list \<Rightarrow> ((nat \<times> nat) \<times> u32 \<times> nat) list \<Rightarrow>
    ((nat \<times> nat) list \<times> ((nat \<times> nat) \<times> u32 \<times> nat) list \<times> nat) parsed" where
  "parse_args s i args rs =
     (let (i, last) = peek s i [124, 41, 38, 59] in
      if last then Got (args, rs, i)
      else
        let (tok, q, eq, i) = gettoken s i in
        if tok = 0 then Got (args, rs, i)
        else if tok \<noteq> 97 then Syntax ''syntax''
        else if length args + 1 \<ge> MAXARGS then Syntax ''too many args''
        else pbind (parseredirs s i rs) (\<lambda>(rs, i). parse_args s i (args @ [(q, eq)]) rs))"
  by pat_completeness auto

termination
  by (relation "measure (\<lambda>(s, i, args, rs). MAXARGS - length args)") auto

declare parse_args.simps [simp del]

function parse_backs :: "u8 list \<Rightarrow> (nat \<times> nat) cmd \<Rightarrow> nat \<Rightarrow> (nat \<times> nat) cmd \<times> nat" where
  "parse_backs s cmd i =
     (let (i, more) = peek s i [38] in
      if more then let (_, _, _, i) = gettoken s i in parse_backs s (Backcmd cmd) i
      else (cmd, i))"
  by pat_completeness auto

termination
proof (relation "measure (\<lambda>(s, cmd, i). length s - i)", goal_cases)
  case (2 s cmd i x j more x' tok y' q y'' e i1)
  have j: "j = skip_space s i" "char_at s j \<noteq> 0" using 2 by (auto simp: peek_def Let_def)
  have t: "gettoken s j = (tok, q, e, i1)" using 2 by auto
  have "tok \<noteq> 0" using gettoken_progress(2) [OF t] gettoken_next [OF t] j by simp
  then have "j < i1" "i1 \<le> length s" using gettoken_progress(1) [OF t] by simp_all
  then show ?case using skip_space_ge [of i s] j by simp
qed simp

declare parse_backs.simps [simp del]

text \<open>The four functions that call each other; each call costs one unit of fuel.\<close>

fun parseline :: "nat \<Rightarrow> u8 list \<Rightarrow> nat \<Rightarrow> ((nat \<times> nat) cmd \<times> nat) parsed"
  and parsepipe :: "nat \<Rightarrow> u8 list \<Rightarrow> nat \<Rightarrow> ((nat \<times> nat) cmd \<times> nat) parsed"
  and parseexec :: "nat \<Rightarrow> u8 list \<Rightarrow> nat \<Rightarrow> ((nat \<times> nat) cmd \<times> nat) parsed"
  and parseblock :: "nat \<Rightarrow> u8 list \<Rightarrow> nat \<Rightarrow> ((nat \<times> nat) cmd \<times> nat) parsed" where
  "parseline 0 s i = Fuel"
| "parseline (Suc n) s i =
     pbind (parsepipe n s i) (\<lambda>(cmd, i).
       let (cmd, i) = parse_backs s cmd i; (i, more) = peek s i [59] in
       if more then
         let (_, _, _, i) = gettoken s i in pbind (parseline n s i) (\<lambda>(right, i). Got (Listcmd cmd right, i))
       else Got (cmd, i))"
| "parsepipe 0 s i = Fuel"
| "parsepipe (Suc n) s i =
     pbind (parseexec n s i) (\<lambda>(cmd, i).
       let (i, more) = peek s i [124] in
       if more then
         let (_, _, _, i) = gettoken s i in pbind (parsepipe n s i) (\<lambda>(right, i). Got (Pipecmd cmd right, i))
       else Got (cmd, i))"
| "parseexec 0 s i = Fuel"
| "parseexec (Suc n) s i =
     (let (i, block) = peek s i [40] in
      if block then parseblock n s i
      else pbind (parseredirs s i []) (\<lambda>(rs, i).
        pbind (parse_args s i [] rs) (\<lambda>(args, rs, i). Got (wrap (Execcmd args) rs, i))))"
| "parseblock 0 s i = Fuel"
| "parseblock (Suc n) s i =
     (let (i, block) = peek s i [40] in
      if \<not> block then Syntax ''parseblock''
      else
        let (_, _, _, i) = gettoken s i in
        pbind (parseline n s i) (\<lambda>(cmd, i).
          let (i, close) = peek s i [41] in
          if \<not> close then Syntax ''syntax - missing )''
          else
            let (_, _, _, i) = gettoken s i in
            pbind (parseredirs s i []) (\<lambda>(rs, i). Got (wrap cmd rs, i))))"

text \<open>\<^verbatim>\<open>nulterminate\<close> on the buffer with the line and its NUL.\<close>

primrec nulterminate :: "(nat \<times> nat) cmd \<Rightarrow> u8 list \<Rightarrow> u8 list" where
  "nulterminate (Execcmd args) b = foldl (\<lambda>b (q, eq). b[eq := 0]) b args"
| "nulterminate (Redircmd c file mode fd) b = (nulterminate c b)[snd file := 0]"
| "nulterminate (Pipecmd l r) b = nulterminate r (nulterminate l b)"
| "nulterminate (Listcmd l r) b = nulterminate r (nulterminate l b)"
| "nulterminate (Backcmd c) b = nulterminate c b"

definition parsecmd :: "u8 list \<Rightarrow> ((nat \<times> nat) cmd \<times> u8 list) parsed" where
  "parsecmd s =
     pbind (parseline (4 * length s + 4) s 0) (\<lambda>(cmd, i).
       let (i, _) = peek s i [] in
       if i \<noteq> length s then Syntax ''syntax'' else Got (cmd, nulterminate cmd (s @ [0])))"

section \<open>The tokens of a line\<close>

type_synonym tok = "u8 \<times> nat \<times> nat"

function tokens :: "u8 list \<Rightarrow> nat \<Rightarrow> tok list" where
  "tokens s i = (let (r, q, e, j) = gettoken s i in if r = 0 then [] else (r, q, e) # tokens s j)"
  by pat_completeness auto

termination
proof (relation "measure (\<lambda>(s, i). length s - i)", goal_cases)
  case (2 s i x r y q z e j)
  then have "gettoken s i = (r, q, e, j)" "r \<noteq> 0" by auto
  from gettoken_progress(1) [OF this] show ?case by auto
qed simp

declare tokens.simps [simp del]

lemma tokens_Nil: "tokens s i = [] \<longleftrightarrow> fst (gettoken s i) = 0"
  by (subst tokens.simps) (auto split: prod.split)

lemma tokens_Cons: "tokens s i = (k, q, e) # ts \<longleftrightarrow> (\<exists>j. gettoken s i = (k, q, e, j) \<and> k \<noteq> 0 \<and> tokens s j = ts)"
  by (subst tokens.simps) (auto split: prod.split)

lemma tokens_skip [simp]: "tokens s (skip_space s i) = tokens s i"
proof -
  have "gettoken s (skip_space s i) = gettoken s i" by (simp add: gettoken_def)
  then show ?thesis by (simp add: tokens.simps [of s])
qed

text \<open>The character that a kind of token starts with.\<close>

definition first_char :: "u8 \<Rightarrow> u8" where
  "first_char k = (if k = 43 then 62 else k)"

lemma gettoken_first:
  assumes "gettoken s i = (k, q, e, j)" "k \<noteq> 0"
  shows "if k = 97 then char_at s q \<notin> set symbols else char_at s q = first_char k"
  using assms by (auto simp: gettoken_def Let_def first_char_def symbols_def split: if_splits)

lemma peek_tokens:
  assumes "set ks \<subseteq> set symbols"
  shows "peek s i ks = (skip_space s i, \<exists>k q e ts. tokens s i = (k, q, e) # ts \<and> first_char k \<in> set ks)"
proof -
  obtain k q e j where g: "gettoken s i = (k, q, e, j)" by (cases "gettoken s i") auto
  have q: "q = skip_space s i" using gettoken_next [OF g] by simp
  have "(97 :: u8) \<notin> set ks" "(0 :: u8) \<notin> set ks" using assms by (auto simp: symbols_def)
  then show ?thesis using gettoken_first [OF g] gettoken_progress(2) [OF g] assms g
    by (cases "k = 0"; cases "k = 97") (auto simp: peek_def Let_def q tokens_Nil tokens_Cons first_char_def)
qed

lemma gettoken_head: "tokens s i = (k, q, e) # ts \<Longrightarrow> \<exists>j. gettoken s i = (k, q, e, j) \<and> gettoken s (skip_space s i) = (k, q, e, j) \<and> tokens s j = ts"
  by (auto simp: tokens_Cons gettoken_def)

lemma length_tokens: "length (tokens s i) \<le> length s - i"
proof (induction s i rule: tokens.induct)
  case (1 s i)
  obtain r q e j where g: "gettoken s i = (r, q, e, j)" by (cases "gettoken s i") auto
  show ?case
  proof (cases "r = 0")
    case False
    then have "length (tokens s j) \<le> length s - j" using 1 g by simp
    then show ?thesis using gettoken_progress(1) [OF g False] g False by (subst tokens.simps) auto
  qed (subst tokens.simps, simp add: g)
qed

section \<open>The grammar\<close>

text \<open>
  A line is a pipeline with ampersands, alone or followed by a semicolon and a line; a pipeline is one
  command or several with bars between them; a command is a list of words and redirections, or a line
  in parentheses with redirections. Trees of the grammar carry their tokens.
\<close>

type_synonym rd = "tok \<times> tok"

datatype lin = Last pip "tok list" | Seq pip "tok list" tok lin
  and pip = Cmd exe | Bar exe tok pip
  and exe = Simple "rd list" "(tok \<times> rd list) list" | Block tok lin tok "rd list"

definition rd_toks :: "rd list \<Rightarrow> tok list" where
  "rd_toks rds = concat (map (\<lambda>(a, b). [a, b]) rds)"

definition group_toks :: "(tok \<times> rd list) list \<Rightarrow> tok list" where
  "group_toks gs = concat (map (\<lambda>(w, rds). w # rd_toks rds) gs)"

primrec toks_lin :: "lin \<Rightarrow> tok list" and toks_pip :: "pip \<Rightarrow> tok list" and toks_exe :: "exe \<Rightarrow> tok list" where
  "toks_lin (Last p bs) = toks_pip p @ bs"
| "toks_lin (Seq p bs t l) = toks_pip p @ bs @ t # toks_lin l"
| "toks_pip (Cmd e) = toks_exe e"
| "toks_pip (Bar e t p) = toks_exe e @ t # toks_pip p"
| "toks_exe (Simple rds gs) = rd_toks rds @ group_toks gs"
| "toks_exe (Block t l u rds) = t # toks_lin l @ u # rd_toks rds"

definition ok_rd :: "rd \<Rightarrow> bool" where
  "ok_rd r \<longleftrightarrow> fst (fst r) \<in> {60, 62, 43} \<and> fst (snd r) = 97"

definition ok_groups :: "(tok \<times> rd list) list \<Rightarrow> bool" where
  "ok_groups gs \<longleftrightarrow> (\<forall>(w, rds) \<in> set gs. fst w = 97 \<and> (\<forall>r \<in> set rds. ok_rd r))"

primrec ok_lin :: "lin \<Rightarrow> bool" and ok_pip :: "pip \<Rightarrow> bool" and ok_exe :: "exe \<Rightarrow> bool" where
  "ok_lin (Last p bs) \<longleftrightarrow> ok_pip p \<and> (\<forall>b \<in> set bs. fst b = 38)"
| "ok_lin (Seq p bs t l) \<longleftrightarrow> ok_pip p \<and> (\<forall>b \<in> set bs. fst b = 38) \<and> fst t = 59 \<and> ok_lin l"
| "ok_pip (Cmd e) \<longleftrightarrow> ok_exe e"
| "ok_pip (Bar e t p) \<longleftrightarrow> ok_exe e \<and> fst t = 124 \<and> ok_pip p"
| "ok_exe (Simple rds gs) \<longleftrightarrow> (\<forall>r \<in> set rds. ok_rd r) \<and> ok_groups gs \<and> length gs < MAXARGS"
| "ok_exe (Block t l u rds) \<longleftrightarrow> fst t = 40 \<and> ok_lin l \<and> fst u = 41 \<and> (\<forall>r \<in> set rds. ok_rd r)"

text \<open>The command a tree of the grammar stands for.\<close>

definition rd_tree :: "rd \<Rightarrow> (nat \<times> nat) \<times> u32 \<times> nat" where
  "rd_tree r = redir (fst (fst r)) (snd (snd r))"

primrec tree_lin :: "lin \<Rightarrow> (nat \<times> nat) cmd" and tree_pip :: "pip \<Rightarrow> (nat \<times> nat) cmd" and tree_exe :: "exe \<Rightarrow> (nat \<times> nat) cmd" where
  "tree_lin (Last p bs) = (Backcmd ^^ length bs) (tree_pip p)"
| "tree_lin (Seq p bs t l) = Listcmd ((Backcmd ^^ length bs) (tree_pip p)) (tree_lin l)"
| "tree_pip (Cmd e) = tree_exe e"
| "tree_pip (Bar e t p) = Pipecmd (tree_exe e) (tree_pip p)"
| "tree_exe (Simple rds gs) = wrap (Execcmd (map (\<lambda>g. snd (fst g)) gs)) (map rd_tree (rds @ concat (map snd gs)))"
| "tree_exe (Block t l u rds) = wrap (tree_lin l) (map rd_tree rds)"

section \<open>Redirections and arguments\<close>

definition heads :: "u8 set \<Rightarrow> tok list \<Rightarrow> bool" where
  "heads K ts \<longleftrightarrow> (\<exists>t ts'. ts = t # ts' \<and> first_char (fst t) \<in> K)"

lemma heads_simps [simp]: "\<not> heads K []" "heads K (t # ts) \<longleftrightarrow> first_char (fst t) \<in> K"
  by (auto simp: heads_def)

lemma peek_heads: "set ks \<subseteq> set symbols \<Longrightarrow> peek s i ks = (skip_space s i, heads (set ks) (tokens s i))"
  by (auto simp: peek_tokens heads_def)

lemmas peek_at = peek_heads [of "[60, 62]", simplified] peek_heads [of "[124, 41, 38, 59]", simplified] peek_heads [of "[38]", simplified]
  peek_heads [of "[59]", simplified] peek_heads [of "[124]", simplified] peek_heads [of "[40]", simplified] peek_heads [of "[41]", simplified]

lemma parseredirs_stop: "\<not> heads {60, 62} (tokens s i) \<Longrightarrow> parseredirs s i rs = Got (rs, skip_space s i)"
  by (subst parseredirs.simps) (simp add: peek_at symbols_def Let_def)

lemma parseredirs_step:
  assumes "tokens s i = (k, q, e) # (w, q', e') # ts" "k \<in> {60, 62, 43}" "w = 97"
  shows "\<exists>j. parseredirs s i rs = parseredirs s j (rs @ [redir k (q', e')]) \<and> tokens s j = ts"
proof -
  obtain j where j: "gettoken s (skip_space s i) = (k, q, e, j)" "tokens s j = (w, q', e') # ts" using gettoken_head [OF assms(1)] by blast
  obtain j' where j': "gettoken s j = (w, q', e', j')" "tokens s j' = ts" using gettoken_head [OF j(2)] by blast
  have "heads {60, 62} (tokens s i)" using assms(1,2) by (auto simp: first_char_def)
  then show ?thesis using j j' assms(3) by (intro exI [of _ j']) (subst parseredirs.simps, simp add: peek_at symbols_def Let_def)
qed

lemma rd_tree_pair [simp]: "rd_tree ((k, x), (w, f)) = redir k f"
  by (simp add: rd_tree_def)

lemma rd_toks_Cons [simp]: "rd_toks [] = []" "rd_toks (r # rds) = fst r # snd r # rd_toks rds"
  by (simp_all add: rd_toks_def split: prod.split)

lemma group_toks_Cons [simp]: "group_toks [] = []" "group_toks (g # gs) = fst g # rd_toks (snd g) @ group_toks gs"
  by (simp_all add: group_toks_def split: prod.split)

lemma ok_groups_Cons [simp]: "ok_groups []" "ok_groups (g # gs) \<longleftrightarrow> fst (fst g) = 97 \<and> (\<forall>r \<in> set (snd g). ok_rd r) \<and> ok_groups gs"
  by (auto simp: ok_groups_def)

lemma parseredirs_complete:
  "tokens s i = rd_toks rds @ rest \<Longrightarrow> \<forall>r \<in> set rds. ok_rd r \<Longrightarrow> \<not> heads {60, 62} rest \<Longrightarrow>
     \<exists>j. parseredirs s i rs = Got (rs @ map rd_tree rds, j) \<and> tokens s j = rest"
proof (induction rds arbitrary: i rs)
  case Nil
  then show ?case using parseredirs_stop by simp
next
  case (Cons r rds)
  obtain k q e w q' e' where r: "r = ((k, q, e), (w, q', e'))" by (cases r) auto
  obtain j where j: "parseredirs s i rs = parseredirs s j (rs @ [redir k (q', e')])" "tokens s j = rd_toks rds @ rest"
    using parseredirs_step [of s i k q e w q' e' "rd_toks rds @ rest" rs] Cons.prems r by (auto simp: ok_rd_def)
  have "\<exists>j'. parseredirs s j (rs @ [redir k (q', e')]) = Got ((rs @ [redir k (q', e')]) @ map rd_tree rds, j') \<and> tokens s j' = rest"
    using Cons.IH [OF j(2), of "rs @ [redir k (q', e')]"] Cons.prems by simp
  then show ?case using j(1) r by simp
qed

text \<open>A line that redirections begin either has them all or is refused.\<close>

lemma parseredirs_sound:
  "parseredirs s i rs = Got (rs', j) \<Longrightarrow>
     \<exists>rds. tokens s i = rd_toks rds @ tokens s j \<and> (\<forall>r \<in> set rds. ok_rd r) \<and> rs' = rs @ map rd_tree rds \<and> \<not> heads {60, 62} (tokens s j)"
proof (induction "length (tokens s i)" arbitrary: i rs rule: less_induct)
  case less
  show ?case
  proof (cases "heads {60, 62} (tokens s i)")
    case False
    then show ?thesis using less.prems parseredirs_stop [OF False, of rs] by (intro exI [of _ "[]"]) auto
  next
    case True
    then obtain k q e ts where t: "tokens s i = (k, q, e) # ts" "k \<in> {60, 62, 43}" by (auto simp: heads_def first_char_def split: if_splits)
    obtain j1 where j1: "gettoken s (skip_space s i) = (k, q, e, j1)" "tokens s j1 = ts" using gettoken_head [OF t(1)] by blast
    obtain w q' e' j2 where w: "gettoken s j1 = (w, q', e', j2)" by (cases "gettoken s j1") auto
    have "w = 97" using less.prems True j1 w by (subst (asm) parseredirs.simps) (auto simp: peek_at symbols_def Let_def split: if_splits)
    then have ts: "tokens s i = (k, q, e) # (w, q', e') # tokens s j2" using t(1) j1(2) w by (subst (asm) tokens.simps) simp
    then obtain j3 where j3: "parseredirs s i rs = parseredirs s j3 (rs @ [redir k (q', e')])" "tokens s j3 = tokens s j2"
      using parseredirs_step [OF ts t(2) \<open>w = 97\<close>] by blast
    obtain rds where "tokens s j3 = rd_toks rds @ tokens s j" "\<forall>r \<in> set rds. ok_rd r" "rs' = rs @ redir k (q', e') # map rd_tree rds"
        "\<not> heads {60, 62} (tokens s j)"
      using less.hyps [of j3 "rs @ [redir k (q', e')]"] less.prems j3 ts by auto
    then show ?thesis using ts j3 t(2) \<open>w = 97\<close>
      by (intro exI [of _ "((k, q, e), (w, q', e')) # rds"]) (simp add: ok_rd_def)
  qed
qed

lemma parseredirs_fuel: "parseredirs s i rs \<noteq> Fuel"
  by (induction s i rs rule: parseredirs.induct) (subst parseredirs.simps, auto simp: Let_def split: prod.split)

lemma heads_group: "ok_groups gs \<Longrightarrow> \<not> heads K rest \<Longrightarrow> 97 \<notin> K \<Longrightarrow> \<not> heads K (group_toks gs @ rest)"
  by (cases gs) (auto simp: first_char_def)

lemma parse_args_complete:
  "tokens s i = group_toks gs @ rest \<Longrightarrow> ok_groups gs \<Longrightarrow> length args + length gs < MAXARGS \<Longrightarrow> rest = [] \<or> heads {124, 41, 38, 59} rest \<Longrightarrow>
     \<exists>j. parse_args s i args rs = Got (args @ map (\<lambda>g. snd (fst g)) gs, rs @ map rd_tree (concat (map snd gs)), j) \<and> tokens s j = rest"
proof (induction gs arbitrary: i args rs)
  case Nil
  show ?case
  proof (cases "rest = []")
    case True
    obtain k q e j where g: "gettoken s (skip_space s i) = (k, q, e, j)" by (cases "gettoken s (skip_space s i)") auto
    have k: "k = 0" "tokens s i = []" using Nil True tokens_Nil [of s "skip_space s i"] g by simp_all
    have "e = q" using g k(1) gettoken_progress(2) [OF g] by (auto simp: gettoken_def Let_def split: if_splits)
    then have "tokens s j = []" using gettoken_next [OF g] k(2) by simp
    then show ?thesis using g k True by (subst parse_args.simps) (simp add: peek_at symbols_def Let_def)
  next
    case False
    then show ?thesis using Nil by (subst parse_args.simps) (simp add: peek_at symbols_def Let_def)
  qed
next
  case (Cons g gs)
  obtain q e where g: "fst g = (97, q, e)" using Cons.prems by (cases "fst g") auto
  let ?r = "rd_toks (snd g) @ group_toks gs @ rest"
  obtain j where j: "gettoken s (skip_space s i) = (97, q, e, j)" "tokens s j = ?r" using gettoken_head [of s i 97 q e ?r] Cons.prems(1) g by auto
  have "\<not> heads {60, 62} rest" using Cons.prems(4) by (auto simp: heads_def)
  then have "\<not> heads {60, 62} (group_toks gs @ rest)" using Cons.prems(2) by (intro heads_group) simp_all
  then obtain j' where j': "parseredirs s j rs = Got (rs @ map rd_tree (snd g), j')" "tokens s j' = group_toks gs @ rest"
    using parseredirs_complete [OF j(2)] Cons.prems(2) by (metis ok_groups_Cons(2))
  have "\<exists>j''. parse_args s j' (args @ [(q, e)]) (rs @ map rd_tree (snd g)) =
      Got ((args @ [(q, e)]) @ map (\<lambda>g. snd (fst g)) gs, (rs @ map rd_tree (snd g)) @ map rd_tree (concat (map snd gs)), j'') \<and> tokens s j'' = rest"
    using Cons.IH [OF j'(2), of "args @ [(q, e)]" "rs @ map rd_tree (snd g)"] Cons.prems by simp
  moreover have "parse_args s i args rs = parse_args s j' (args @ [(q, e)]) (rs @ map rd_tree (snd g))"
    using Cons.prems g j j' by (subst parse_args.simps) (simp add: peek_at symbols_def Let_def first_char_def)
  ultimately show ?case using g by simp
qed

lemma gettoken_end:
  assumes "tokens s i = []"
  shows "\<exists>q e j. gettoken s (skip_space s i) = (0, q, e, j) \<and> tokens s j = []"
proof -
  obtain k q e j where g: "gettoken s (skip_space s i) = (k, q, e, j)" by (cases "gettoken s (skip_space s i)") auto
  have k: "k = 0" using assms tokens_Nil [of s "skip_space s i"] g by simp
  have "e = q" using g k gettoken_progress(2) [OF g] by (auto simp: gettoken_def Let_def split: if_splits)
  then have "tokens s j = []" using gettoken_next [OF g] assms by simp
  then show ?thesis using g k by blast
qed

lemma parse_args_sound:
  "parse_args s i args rs = Got (args', rs', j) \<Longrightarrow>
     \<exists>gs. tokens s i = group_toks gs @ tokens s j \<and> ok_groups gs \<and> (gs = [] \<or> length args + length gs < MAXARGS) \<and>
       args' = args @ map (\<lambda>g. snd (fst g)) gs \<and> rs' = rs @ map rd_tree (concat (map snd gs))"
proof (induction "length (tokens s i)" arbitrary: i args rs rule: less_induct)
  case less
  show ?case
  proof (cases "heads {124, 41, 38, 59} (tokens s i) \<or> tokens s i = []")
    case True
    have "args' = args \<and> rs' = rs \<and> tokens s j = tokens s i"
      using less.prems True gettoken_end [of s i] by (subst (asm) parse_args.simps) (auto simp: peek_at symbols_def Let_def split: if_splits)
    then show ?thesis by (intro exI [of _ "[]"]) simp
  next
    case False
    then obtain k q e ts where t: "tokens s i = (k, q, e) # ts" by (cases "tokens s i") auto
    obtain j1 where j1: "gettoken s (skip_space s i) = (k, q, e, j1)" "tokens s j1 = ts" using gettoken_head [OF t] by blast
    have "k \<noteq> 0" using t by (auto simp: tokens_Cons)
    then obtain rs1 j2 where "k = 97" and ra: "parseredirs s j1 rs = Got (rs1, j2)" and pa: "parse_args s j2 (args @ [(q, e)]) rs1 = Got (args', rs', j)"
        and la: "length args + 1 < MAXARGS"
      using less.prems False j1 t by (subst (asm) parse_args.simps, cases "parseredirs s j1 rs") (auto simp: peek_at symbols_def Let_def split: if_splits)
    obtain rds where rds: "tokens s j1 = rd_toks rds @ tokens s j2" "\<forall>r \<in> set rds. ok_rd r" "rs1 = rs @ map rd_tree rds"
      using parseredirs_sound [OF ra] by blast
    have "length (tokens s j2) < length (tokens s i)" using t j1(2) rds(1) by auto
    then obtain gs where "tokens s j2 = group_toks gs @ tokens s j" "ok_groups gs" "gs = [] \<or> length args + 1 + length gs < MAXARGS"
        "args' = args @ (q, e) # map (\<lambda>g. snd (fst g)) gs" "rs' = rs @ map rd_tree rds @ map rd_tree (concat (map snd gs))"
      using less.hyps [OF _ pa] rds(3) by fastforce
    then show ?thesis using t j1(2) rds(1,2) \<open>k = 97\<close> la by (intro exI [of _ "((k, q, e), rds) # gs"]) auto
  qed
qed

lemma parse_args_fuel: "parse_args s i args rs \<noteq> Fuel"
proof (induction s i args rs rule: parse_args.induct)
  case (1 s i args rs)
  show ?case
  proof
    assume f: "parse_args s i args rs = Fuel"
    obtain k q e j where g: "gettoken s (fst (peek s i [124, 41, 38, 59])) = (k, q, e, j)" by (cases "gettoken s (fst (peek s i [124, 41, 38, 59]))") auto
    obtain i1 b where p: "peek s i [124, 41, 38, 59] = (i1, b)" by (cases "peek s i [124, 41, 38, 59]")
    show False
      using f 1 [OF p [symmetric] refl] g p parseredirs_fuel [of s j rs]
      by (subst (asm) parse_args.simps, cases "parseredirs s j rs") (auto simp: Let_def split: if_splits)
  qed
qed

lemma parse_backs_tokens:
  "tokens s i = bs @ rest \<Longrightarrow> \<forall>b \<in> set bs. fst b = 38 \<Longrightarrow> \<not> heads {38} rest \<Longrightarrow>
     \<exists>j. parse_backs s c i = ((Backcmd ^^ length bs) c, j) \<and> tokens s j = rest"
proof (induction bs arbitrary: i c)
  case Nil
  then show ?case by (subst parse_backs.simps) (simp add: peek_at symbols_def Let_def)
next
  case (Cons b bs)
  obtain q e where b: "b = (38, q, e)" using Cons.prems by (cases b) auto
  obtain j where j: "gettoken s (skip_space s i) = (38, q, e, j)" "tokens s j = bs @ rest" using gettoken_head [of s i 38 q e "bs @ rest"] Cons.prems b by auto
  have "parse_backs s c i = parse_backs s (Backcmd c) j"
    using Cons.prems b j by (subst parse_backs.simps) (simp add: peek_at symbols_def Let_def first_char_def)
  moreover have "\<exists>j'. parse_backs s (Backcmd c) j = ((Backcmd ^^ length bs) (Backcmd c), j') \<and> tokens s j' = rest"
    using Cons.IH [OF j(2), of "Backcmd c"] Cons.prems by simp
  ultimately show ?case by (simp add: funpow_swap1)
qed

lemma parse_backs_split:
  "\<exists>bs j. parse_backs s c i = ((Backcmd ^^ length bs) c, j) \<and> tokens s i = bs @ tokens s j \<and> (\<forall>b \<in> set bs. fst b = 38) \<and> \<not> heads {38} (tokens s j)"
proof -
  let ?P = "\<lambda>t. fst t = 38" and ?ts = "tokens s i"
  have "?ts = takeWhile ?P ?ts @ dropWhile ?P ?ts" "\<forall>b \<in> set (takeWhile ?P ?ts). fst b = 38" by (auto dest: set_takeWhileD)
  moreover have "\<not> heads {38} (dropWhile ?P ?ts)"
  proof (cases "dropWhile ?P ?ts")
    case Nil
    show ?thesis unfolding Nil by simp
  next
    case (Cons t ts)
    then have "\<not> ?P t" using hd_dropWhile [of ?P ?ts] by (metis list.distinct(1) list.sel(1))
    then show ?thesis unfolding Cons by (simp add: first_char_def)
  qed
  ultimately show ?thesis using parse_backs_tokens [of s i "takeWhile ?P ?ts" "dropWhile ?P ?ts" c] by metis
qed

section \<open>Every accepted line is in the grammar\<close>

lemma pbind_Got: "pbind m f = Got y \<longleftrightarrow> (\<exists>x. m = Got x \<and> f x = Got y)"
  by (cases m) auto

lemma pbind_Fuel: "pbind m f = Fuel \<longleftrightarrow> m = Fuel \<or> (\<exists>x. m = Got x \<and> f x = Fuel)"
  by (cases m) auto

lemma heads_one:
  assumes "heads {k} (tokens s i)" "k \<noteq> 62" "k \<noteq> 43"
  obtains q e j where "gettoken s (skip_space s i) = (k, q, e, j)" "tokens s i = (k, q, e) # tokens s j"
proof -
  obtain q e ts where "tokens s i = (k, q, e) # ts" using assms by (auto simp: heads_def first_char_def split: if_splits)
  then show ?thesis using gettoken_head that by blast
qed

lemma parse_sound:
  "parseline n s i = Got (c, j) \<Longrightarrow> \<exists>l. ok_lin l \<and> tokens s i = toks_lin l @ tokens s j \<and> c = tree_lin l"
  "parsepipe n s i = Got (c, j) \<Longrightarrow> \<exists>p. ok_pip p \<and> tokens s i = toks_pip p @ tokens s j \<and> c = tree_pip p"
  "parseexec n s i = Got (c, j) \<Longrightarrow> \<exists>e. ok_exe e \<and> tokens s i = toks_exe e @ tokens s j \<and> c = tree_exe e"
  "parseblock n s i = Got (c, j) \<Longrightarrow> \<exists>e. ok_exe e \<and> tokens s i = toks_exe e @ tokens s j \<and> c = tree_exe e"
proof (induction n arbitrary: i c j)
  case (Suc n)
  {
    case 1
    then obtain c1 i1 where p: "parsepipe n s i = Got (c1, i1)" by (auto simp: pbind_Got)
    obtain P where P: "ok_pip P" "tokens s i = toks_pip P @ tokens s i1" "c1 = tree_pip P" using Suc.IH(2) [OF p] by blast
    obtain bs i2 where b: "parse_backs s c1 i1 = ((Backcmd ^^ length bs) c1, i2)" "tokens s i1 = bs @ tokens s i2" "\<forall>b \<in> set bs. fst b = 38"
      using parse_backs_split by blast
    show ?case
    proof (cases "heads {59} (tokens s i2)")
      case True
      obtain q e i3 where g: "gettoken s (skip_space s i2) = (59, q, e, i3)" "tokens s i2 = (59, q, e) # tokens s i3" using heads_one [OF True] by auto
      obtain c2 where r: "parseline n s i3 = Got (c2, j)" "c = Listcmd ((Backcmd ^^ length bs) c1) c2"
        using 1 p b(1) g(1) True by (auto simp: pbind_Got peek_at symbols_def Let_def)
      obtain l where "ok_lin l" "tokens s i3 = toks_lin l @ tokens s j" "c2 = tree_lin l" using Suc.IH(1) [OF r(1)] by blast
      then show ?thesis using P b g r by (intro exI [of _ "Seq P bs (59, q, e) l"]) simp
    next
      case False
      then show ?thesis using 1 p P b by (intro exI [of _ "Last P bs"]) (auto simp: peek_at symbols_def Let_def)
    qed
  next
    case 2
    then obtain c1 i1 where p: "parseexec n s i = Got (c1, i1)" by (auto simp: pbind_Got)
    obtain E where E: "ok_exe E" "tokens s i = toks_exe E @ tokens s i1" "c1 = tree_exe E" using Suc.IH(3) [OF p] by blast
    show ?case
    proof (cases "heads {124} (tokens s i1)")
      case True
      obtain q e i2 where g: "gettoken s (skip_space s i1) = (124, q, e, i2)" "tokens s i1 = (124, q, e) # tokens s i2" using heads_one [OF True] by auto
      obtain c2 where r: "parsepipe n s i2 = Got (c2, j)" "c = Pipecmd c1 c2"
        using 2 p g(1) True by (auto simp: pbind_Got peek_at symbols_def Let_def)
      obtain P where "ok_pip P" "tokens s i2 = toks_pip P @ tokens s j" "c2 = tree_pip P" using Suc.IH(2) [OF r(1)] by blast
      then show ?thesis using E g r by (intro exI [of _ "Bar E (124, q, e) P"]) simp
    next
      case False
      then show ?thesis using 2 p E by (intro exI [of _ "Cmd E"]) (auto simp: peek_at symbols_def Let_def)
    qed
  next
    case 3
    show ?case
    proof (cases "heads {40} (tokens s i)")
      case True
      then have "parseblock n s (skip_space s i) = Got (c, j)" using 3 by (simp add: peek_at symbols_def Let_def)
      then show ?thesis using Suc.IH(4) by fastforce
    next
      case False
      then obtain rs i1 args rs2 where r: "parseredirs s (skip_space s i) [] = Got (rs, i1)" "parse_args s i1 [] rs = Got (args, rs2, j)"
          "c = wrap (Execcmd args) rs2" using 3 by (auto simp: pbind_Got peek_at symbols_def Let_def)
      obtain rds where rds: "tokens s i = rd_toks rds @ tokens s i1" "\<forall>r \<in> set rds. ok_rd r" "rs = map rd_tree rds" using parseredirs_sound [OF r(1)] by auto
      obtain gs where "tokens s i1 = group_toks gs @ tokens s j" "ok_groups gs" "gs = [] \<or> length gs < MAXARGS"
          "args = map (\<lambda>g. snd (fst g)) gs" "rs2 = rs @ map rd_tree (concat (map snd gs))" using parse_args_sound [OF r(2)] by auto
      then show ?thesis using rds r(3) by (intro exI [of _ "Simple rds gs"]) (auto simp: MAXARGS_def)
    qed
  next
    case 4
    show ?case
    proof (cases "heads {40} (tokens s i)")
      case True
      obtain q e i1 where g: "gettoken s (skip_space s i) = (40, q, e, i1)" "tokens s i = (40, q, e) # tokens s i1" using heads_one [OF True] by auto
      obtain c1 i2 where l: "parseline n s i1 = Got (c1, i2)" and h: "heads {41} (tokens s i2)"
        using 4 True g(1) by (auto simp: pbind_Got peek_at symbols_def Let_def split: if_splits)
      obtain L where L: "ok_lin L" "tokens s i1 = toks_lin L @ tokens s i2" "c1 = tree_lin L" using Suc.IH(1) [OF l] by blast
      obtain q' e' i3 where g': "gettoken s (skip_space s i2) = (41, q', e', i3)" "tokens s i2 = (41, q', e') # tokens s i3" using heads_one [OF h] by auto
      obtain rs where r: "parseredirs s i3 [] = Got (rs, j)" "c = wrap c1 rs"
        using 4 True g(1) l h g'(1) by (auto simp: pbind_Got peek_at symbols_def Let_def)
      obtain rds where "tokens s i3 = rd_toks rds @ tokens s j" "\<forall>r \<in> set rds. ok_rd r" "rs = map rd_tree rds" using parseredirs_sound [OF r(1)] by auto
      then show ?thesis using g L g' r(2) by (intro exI [of _ "Block (40, q, e) L (41, q', e') rds"]) simp
    qed (use 4 in \<open>simp add: peek_at symbols_def Let_def\<close>)
  }
qed simp_all

section \<open>The parser returns\<close>

lemma sound_length:
  "parseline n s i = Got (c, j) \<Longrightarrow> length (tokens s j) \<le> length (tokens s i)"
  "parsepipe n s i = Got (c, j) \<Longrightarrow> length (tokens s j) \<le> length (tokens s i)"
  "parseexec n s i = Got (c, j) \<Longrightarrow> length (tokens s j) \<le> length (tokens s i)"
  using parse_sound(1) [of n s i c j] parse_sound(2) [of n s i c j] parse_sound(3) [of n s i c j] by auto

lemma parse_fuel:
  "4 * length (tokens s i) + 4 \<le> n \<Longrightarrow> parseline n s i \<noteq> Fuel"
  "4 * length (tokens s i) + 3 \<le> n \<Longrightarrow> parsepipe n s i \<noteq> Fuel"
  "4 * length (tokens s i) + 2 \<le> n \<Longrightarrow> parseexec n s i \<noteq> Fuel"
  "4 * length (tokens s i) + 1 \<le> n \<Longrightarrow> parseblock n s i \<noteq> Fuel"
proof (induction n arbitrary: i)
  case (Suc n)
  have shorter: "gettoken s (skip_space s i2) = (k, q, e, i3) \<Longrightarrow> heads K (tokens s i2) \<Longrightarrow> length (tokens s i3) < length (tokens s i2)" for i2 k q e i3 K
    using gettoken_head [of s i2] by (auto simp: heads_def)
  {
    case 1
    show ?case
    proof
      assume f: "parseline (Suc n) s i = Fuel"
      have "parsepipe n s i \<noteq> Fuel" using Suc.IH(2) 1 by simp
      then obtain c1 i1 where p: "parsepipe n s i = Got (c1, i1)" using f by (auto simp: pbind_Fuel)
      obtain bs i2 where b: "parse_backs s c1 i1 = ((Backcmd ^^ length bs) c1, i2)" "tokens s i1 = bs @ tokens s i2" using parse_backs_split by blast
      obtain k q e i3 where g: "gettoken s (skip_space s i2) = (k, q, e, i3)" by (cases "gettoken s (skip_space s i2)") auto
      have "heads {59} (tokens s i2)" "parseline n s i3 = Fuel"
        using f p b(1) g by (auto simp: pbind_Fuel peek_at symbols_def Let_def split: if_splits)
      moreover have "length (tokens s i3) < length (tokens s i)"
        using shorter [OF g calculation(1)] sound_length(2) [OF p] b(2) by simp
      ultimately show False using Suc.IH(1) [of i3] 1 by simp
    qed
  next
    case 2
    show ?case
    proof
      assume f: "parsepipe (Suc n) s i = Fuel"
      have "parseexec n s i \<noteq> Fuel" using Suc.IH(3) 2 by simp
      then obtain c1 i1 where p: "parseexec n s i = Got (c1, i1)" using f by (auto simp: pbind_Fuel)
      obtain k q e i3 where g: "gettoken s (skip_space s i1) = (k, q, e, i3)" by (cases "gettoken s (skip_space s i1)") auto
      have "heads {124} (tokens s i1)" "parsepipe n s i3 = Fuel"
        using f p g by (auto simp: pbind_Fuel peek_at symbols_def Let_def split: if_splits)
      moreover have "length (tokens s i3) < length (tokens s i)" using shorter [OF g calculation(1)] sound_length(3) [OF p] by simp
      ultimately show False using Suc.IH(2) [of i3] 2 by simp
    qed
  next
    case 3
    then show ?case using Suc.IH(4) [of "skip_space s i"] parseredirs_fuel parse_args_fuel
      by (auto simp: pbind_Fuel peek_at symbols_def Let_def)
  next
    case 4
    obtain k q e i3 where g: "gettoken s (skip_space s i) = (k, q, e, i3)" by (cases "gettoken s (skip_space s i)") auto
    have "parseline n s i3 \<noteq> Fuel" if "heads {40} (tokens s i)" using shorter [OF g that] Suc.IH(1) [of i3] 4 by simp
    then show ?case using g parseredirs_fuel by (auto simp: pbind_Fuel peek_at symbols_def Let_def split: prod.split)
  }
qed simp_all

section \<open>Every line of the grammar is accepted\<close>

lemma exe_start:
  assumes "ok_exe e" "rest = [] \<or> heads {124, 41, 38, 59} rest"
  shows "heads {40} (toks_exe e @ rest) \<longleftrightarrow> (\<exists>t l u rds. e = Block t l u rds)"
proof (cases e)
  case (Simple rds gs)
  have "\<not> heads {40} rest" using assms(2) by (auto simp: heads_def)
  then have "\<not> heads {40} (group_toks gs @ rest)" using assms(1) Simple by (intro heads_group) simp_all
  then show ?thesis using assms(1) Simple by (cases rds) (auto simp: ok_rd_def first_char_def)
qed (use assms(1) in \<open>auto simp: first_char_def\<close>)

abbreviation follows :: "u8 set \<Rightarrow> tok list \<Rightarrow> bool" where
  "follows K ts \<equiv> ts = [] \<or> heads K ts"

lemma follows_mono: "follows K ts \<Longrightarrow> K \<subseteq> K' \<Longrightarrow> follows K' ts"
  by (auto simp: heads_def)

lemma follows_not: "follows K ts \<Longrightarrow> K \<inter> K' = {} \<Longrightarrow> \<not> heads K' ts"
  by (auto simp: heads_def)

lemma parse_complete:
  "tokens s i = toks_lin l @ rest \<Longrightarrow> ok_lin l \<Longrightarrow> follows {41} rest \<Longrightarrow> parseline n s i \<noteq> Fuel \<Longrightarrow>
     \<exists>j. parseline n s i = Got (tree_lin l, j) \<and> tokens s j = rest"
  "tokens s i = toks_pip p @ rest \<Longrightarrow> ok_pip p \<Longrightarrow> follows {41, 38, 59} rest \<Longrightarrow> parsepipe n s i \<noteq> Fuel \<Longrightarrow>
     \<exists>j. parsepipe n s i = Got (tree_pip p, j) \<and> tokens s j = rest"
  "tokens s i = toks_exe e @ rest \<Longrightarrow> ok_exe e \<Longrightarrow> follows {124, 41, 38, 59} rest \<Longrightarrow> parseexec n s i \<noteq> Fuel \<Longrightarrow>
     \<exists>j. parseexec n s i = Got (tree_exe e, j) \<and> tokens s j = rest"
proof (induction l and p and e arbitrary: i rest n and i rest n and i rest n)
  case (Last p bs)
  obtain m where m: "n = Suc m" using Last.prems(4) by (cases n) auto
  have np: "parsepipe m s i \<noteq> Fuel" using Last.prems(4) m by auto
  have fb: "follows {41, 38, 59} (bs @ rest)" using Last.prems(2) follows_mono [OF Last.prems(3), of "{41, 38, 59}"] by (cases bs) (auto simp: first_char_def)
  obtain i1 where i1: "parsepipe m s i = Got (tree_pip p, i1)" "tokens s i1 = bs @ rest"
    using Last.IH [of i "bs @ rest" m] Last.prems(1,2) fb np by auto
  obtain i2 where "parse_backs s (tree_pip p) i1 = ((Backcmd ^^ length bs) (tree_pip p), i2)" "tokens s i2 = rest"
    using parse_backs_tokens [OF i1(2)] Last.prems(2,3) follows_not [of rest "{41}" "{38}"] by auto
  moreover have "\<not> heads {59} rest" using Last.prems(3) by (rule follows_not) simp
  ultimately show ?case using m i1 by (simp add: peek_at symbols_def Let_def)
next
  case (Seq p bs t l)
  obtain q e where t: "t = (59, q, e)" using Seq.prems(2) by (cases t) auto
  obtain m where m: "n = Suc m" using Seq.prems(4) by (cases n) auto
  have np: "parsepipe m s i \<noteq> Fuel" using Seq.prems(4) m by auto
  have fb: "follows {41, 38, 59} (bs @ t # toks_lin l @ rest)" using Seq.prems(2) by (cases bs) (auto simp: first_char_def)
  obtain i1 where i1: "parsepipe m s i = Got (tree_pip p, i1)" "tokens s i1 = bs @ t # toks_lin l @ rest"
    using Seq.IH(1) [of i "bs @ t # toks_lin l @ rest" m] Seq.prems(1,2) fb np by auto
  obtain i2 where i2: "parse_backs s (tree_pip p) i1 = ((Backcmd ^^ length bs) (tree_pip p), i2)" "tokens s i2 = t # toks_lin l @ rest"
    using parse_backs_tokens [OF i1(2)] Seq.prems(2) t by (auto simp: first_char_def)
  obtain i3 where i3: "gettoken s (skip_space s i2) = (59, q, e, i3)" "tokens s i3 = toks_lin l @ rest" using gettoken_head i2(2) t by blast
  have h: "heads {59} (tokens s i2)" using i2(2) t by (simp add: first_char_def)
  have "parseline m s i3 \<noteq> Fuel" using Seq.prems(4) m i1 i2 i3 h by (auto simp: peek_at symbols_def Let_def)
  then obtain j where "parseline m s i3 = Got (tree_lin l, j)" "tokens s j = rest" using Seq.IH(2) [of i3 rest m] i3(2) Seq.prems(2,3) by auto
  then show ?case using m i1 i2 i3 h by (simp add: peek_at symbols_def Let_def)
next
  case (Cmd e)
  obtain m where m: "n = Suc m" using Cmd.prems(4) by (cases n) auto
  have np: "parseexec m s i \<noteq> Fuel" using Cmd.prems(4) m by auto
  have "follows {124, 41, 38, 59} rest" using Cmd.prems(3) by (rule follows_mono) auto
  then obtain j where j: "parseexec m s i = Got (tree_exe e, j)" "tokens s j = rest" using Cmd.IH [of i rest m] Cmd.prems(1,2) np by auto
  moreover have "\<not> heads {124} rest" using Cmd.prems(3) by (rule follows_not) simp
  ultimately show ?case using m by (simp add: peek_at symbols_def Let_def)
next
  case (Bar e t p)
  obtain q f where t: "t = (124, q, f)" using Bar.prems(2) by (cases t) auto
  obtain m where m: "n = Suc m" using Bar.prems(4) by (cases n) auto
  have np: "parseexec m s i \<noteq> Fuel" using Bar.prems(4) m by auto
  obtain i1 where i1: "parseexec m s i = Got (tree_exe e, i1)" "tokens s i1 = t # toks_pip p @ rest"
    using Bar.IH(1) [of i "t # toks_pip p @ rest" m] Bar.prems(1,2) t np by (auto simp: first_char_def)
  obtain i3 where i3: "gettoken s (skip_space s i1) = (124, q, f, i3)" "tokens s i3 = toks_pip p @ rest" using gettoken_head i1(2) t by blast
  have h: "heads {124} (tokens s i1)" using i1(2) t by (simp add: first_char_def)
  have "parsepipe m s i3 \<noteq> Fuel" using Bar.prems(4) m i1 i3 h by (auto simp: peek_at symbols_def Let_def)
  then obtain j where "parsepipe m s i3 = Got (tree_pip p, j)" "tokens s j = rest" using Bar.IH(2) [of i3 rest m] i3(2) Bar.prems(2,3) by auto
  then show ?case using m i1 i3 h by (simp add: peek_at symbols_def Let_def)
next
  case (Simple rds gs)
  obtain m where m: "n = Suc m" using Simple.prems(4) by (cases n) auto
  have h: "\<not> heads {40} (tokens s i)" using exe_start [OF Simple.prems(2,3)] Simple.prems(1) by simp
  have "\<not> heads {60, 62} rest" using Simple.prems(3) by (rule follows_not) simp
  then have "\<not> heads {60, 62} (group_toks gs @ rest)" using Simple.prems(2) by (intro heads_group) simp_all
  then obtain i1 where i1: "parseredirs s (skip_space s i) [] = Got (map rd_tree rds, i1)" "tokens s i1 = group_toks gs @ rest"
    using parseredirs_complete [of s "skip_space s i" rds "group_toks gs @ rest" "[]"] Simple.prems(1,2) by auto
  obtain j where "parse_args s i1 [] (map rd_tree rds) = Got (map (\<lambda>g. snd (fst g)) gs, map rd_tree rds @ map rd_tree (concat (map snd gs)), j)" "tokens s j = rest"
    using parse_args_complete [OF i1(2), of "[]" "map rd_tree rds"] Simple.prems(2,3) by auto
  then show ?case using m h i1 by (simp add: peek_at symbols_def Let_def)
next
  case (Block t l u rds)
  obtain q e where t: "t = (40, q, e)" using Block.prems(2) by (cases t) auto
  obtain q' e' where u: "u = (41, q', e')" using Block.prems(2) by (cases u) auto
  obtain m where m: "n = Suc m" using Block.prems(4) by (cases n) auto
  have h: "heads {40} (tokens s i)" using Block.prems(1) t by (simp add: first_char_def)
  have b: "parseexec n s i = parseblock m s (skip_space s i)" using m h by (simp add: peek_at symbols_def Let_def)
  then obtain k where k: "m = Suc k" using Block.prems(4) by (cases m) auto
  obtain i1 where i1: "gettoken s (skip_space s i) = (40, q, e, i1)" "tokens s i1 = toks_lin l @ u # rd_toks rds @ rest"
    using gettoken_head [of s i 40 q e "toks_lin l @ u # rd_toks rds @ rest"] Block.prems(1) t by auto
  have "parseline k s i1 \<noteq> Fuel" using Block.prems(4) b k h i1 by (auto simp: peek_at symbols_def Let_def)
  then obtain i2 where i2: "parseline k s i1 = Got (tree_lin l, i2)" "tokens s i2 = u # rd_toks rds @ rest"
    using Block.IH [of i1 "u # rd_toks rds @ rest" k] i1(2) Block.prems(2) u by (auto simp: first_char_def)
  obtain i3 where i3: "gettoken s (skip_space s i2) = (41, q', e', i3)" "tokens s i3 = rd_toks rds @ rest" using gettoken_head i2(2) u by blast
  have h': "heads {41} (tokens s i2)" using i2(2) u by (simp add: first_char_def)
  have "\<not> heads {60, 62} rest" using Block.prems(3) by (rule follows_not) simp
  then obtain j where "parseredirs s i3 [] = Got (map rd_tree rds, j)" "tokens s j = rest"
    using parseredirs_complete [OF i3(2), of "[]"] Block.prems(2) by auto
  then show ?case using b k h i1 i2 i3 h' by (simp add: peek_at symbols_def Let_def)
qed

section \<open>The positions stay in the line\<close>

lemma gettoken_le: "gettoken s i = (r, q, e, j) \<Longrightarrow> i \<le> length s \<Longrightarrow> j \<le> length s"
proof (cases "r = 0")
  case True
  assume g: "gettoken s i = (r, q, e, j)" and i: "i \<le> length s"
  have "e = q" using g True gettoken_progress(2) [OF g] by (auto simp: gettoken_def Let_def split: if_splits)
  then show "j \<le> length s" using gettoken_next [OF g] skip_space_le i by simp
qed (use gettoken_progress(1) in blast)

lemma peek_le: "peek s i ks = (j, b) \<Longrightarrow> i \<le> length s \<Longrightarrow> j \<le> length s"
  using skip_space_le by (auto simp: peek_def Let_def)

lemma peek_progress:
  assumes "peek s i ks = (j, b)" "gettoken s j = (k, q, e, m)" b
  shows "i < m"
proof -
  have j: "j = skip_space s i" "char_at s j \<noteq> 0" using assms(1,3) by (auto simp: peek_def Let_def)
  then have "k \<noteq> 0" using gettoken_progress(2) [OF assms(2)] gettoken_next [OF assms(2)] by simp
  then show ?thesis using gettoken_progress(1) [OF assms(2)] skip_space_ge [of i s] j by simp
qed

lemma parseredirs_le: "parseredirs s i rs = Got (rs', j) \<Longrightarrow> i \<le> length s \<Longrightarrow> j \<le> length s"
proof (induction "length s - i" arbitrary: i rs rule: less_induct)
  case less
  obtain i1 b where p: "peek s i [60, 62] = (i1, b)" by (cases "peek s i [60, 62]")
  obtain k q e i2 where g: "gettoken s i1 = (k, q, e, i2)" by (cases "gettoken s i1") auto
  obtain w q' e' i3 where g': "gettoken s i2 = (w, q', e', i3)" by (cases "gettoken s i2") auto
  have le: "i1 \<le> length s" "i2 \<le> length s" "i3 \<le> length s" using peek_le [OF p] gettoken_le [OF g] gettoken_le [OF g'] less.prems(2) by simp_all
  show ?case
  proof (cases b)
    case True
    then have w: "w = 97" "parseredirs s i3 (rs @ [redir k (q', e')]) = Got (rs', j)"
      using less.prems(1) p g g' by (subst (asm) parseredirs.simps; auto simp: Let_def split: if_splits)+
    have "i < i3" using peek_progress [OF p g True] gettoken_progress(1) [OF g'] w(1) by simp
    then show ?thesis using less.hyps [OF _ w(2)] le by simp
  next
    case False
    then show ?thesis using less.prems(1) p le by (subst (asm) parseredirs.simps) simp
  qed
qed

lemma parse_args_le: "parse_args s i args rs = Got (args', rs', j) \<Longrightarrow> i \<le> length s \<Longrightarrow> j \<le> length s"
proof (induction "MAXARGS - length args" arbitrary: i args rs rule: less_induct)
  case less
  obtain i1 b where p: "peek s i [124, 41, 38, 59] = (i1, b)" by (cases "peek s i [124, 41, 38, 59]")
  obtain k q e i2 where g: "gettoken s i1 = (k, q, e, i2)" by (cases "gettoken s i1") auto
  have le: "i1 \<le> length s" "i2 \<le> length s" using peek_le [OF p] gettoken_le [OF g] less.prems(2) by simp_all
  show ?case
  proof (cases "b \<or> k = 0")
    case True
    then show ?thesis using less.prems(1) p g le by (subst (asm) parse_args.simps) (auto simp: Let_def split: if_splits)
  next
    case False
    then obtain rs1 i3 where r: "parseredirs s i2 rs = Got (rs1, i3)" "parse_args s i3 (args @ [(q, e)]) rs1 = Got (args', rs', j)" "length args + 1 < MAXARGS"
      using less.prems(1) p g by (subst (asm) parse_args.simps) (auto simp: Let_def pbind_Got split: if_splits)
    then show ?thesis using less.hyps [OF _ r(2)] parseredirs_le [OF r(1)] le by simp
  qed
qed

lemma parse_backs_le: "parse_backs s c i = (c', j) \<Longrightarrow> i \<le> length s \<Longrightarrow> j \<le> length s"
proof (induction "length s - i" arbitrary: c i rule: less_induct)
  case less
  obtain i1 b where p: "peek s i [38] = (i1, b)" by (cases "peek s i [38]")
  obtain k q e i2 where g: "gettoken s i1 = (k, q, e, i2)" by (cases "gettoken s i1") auto
  have le: "i1 \<le> length s" "i2 \<le> length s" using peek_le [OF p] gettoken_le [OF g] less.prems(2) by simp_all
  show ?case
  proof (cases b)
    case True
    then have w: "parse_backs s (Backcmd c) i2 = (c', j)" using less.prems(1) p g by (subst (asm) parse_backs.simps) simp
    have "i < i2" using peek_progress [OF p g True] .
    then show ?thesis using less.hyps [OF _ w] le by simp
  next
    case False
    then show ?thesis using less.prems(1) p le by (subst (asm) parse_backs.simps) simp
  qed
qed

lemma step_le [simp]:
  "i \<le> length s \<Longrightarrow> snd (snd (snd (gettoken s i))) \<le> length s" "i \<le> length s \<Longrightarrow> fst (peek s i ks) \<le> length s"
  "i \<le> length s \<Longrightarrow> snd (parse_backs s c i) \<le> length s"
  using gettoken_le [of s i] peek_le [of s i ks] parse_backs_le [of s c i] by (metis prod.collapse)+

lemma parse_le:
  "parseline n s i = Got (c, j) \<Longrightarrow> i \<le> length s \<Longrightarrow> j \<le> length s"
  "parsepipe n s i = Got (c, j) \<Longrightarrow> i \<le> length s \<Longrightarrow> j \<le> length s"
  "parseexec n s i = Got (c, j) \<Longrightarrow> i \<le> length s \<Longrightarrow> j \<le> length s"
  "parseblock n s i = Got (c, j) \<Longrightarrow> i \<le> length s \<Longrightarrow> j \<le> length s"
proof (induction n arbitrary: i c j)
  case (Suc n)
  {
    case 1
    obtain c1 i1 where p: "parsepipe n s i = Got (c1, i1)" using 1 by (auto simp: pbind_Got)
    have "i1 \<le> length s" using Suc.IH(2) [OF p] 1(2) .
    then show ?case using 1(1) p Suc.IH(1) by (auto simp: pbind_Got Let_def case_prod_unfold split: if_splits)
  next
    case 2
    obtain c1 i1 where p: "parseexec n s i = Got (c1, i1)" using 2 by (auto simp: pbind_Got)
    have "i1 \<le> length s" using Suc.IH(3) [OF p] 2(2) .
    then show ?case using 2(1) p Suc.IH(2) by (auto simp: pbind_Got Let_def case_prod_unfold split: if_splits)
  next
    case 3
    then show ?case using Suc.IH(4) [of "fst (peek s i [40])" c j]
      by (auto simp: pbind_Got Let_def case_prod_unfold split: if_splits dest!: parseredirs_le parse_args_le)
  next
    case 4
    obtain c1 i1 where p: "parseline n s (snd (snd (snd (gettoken s (fst (peek s i [40])))))) = Got (c1, i1)"
      using 4 by (auto simp: pbind_Got Let_def case_prod_unfold split: if_splits)
    have "i1 \<le> length s" using Suc.IH(1) [OF p] 4(2) by simp
    then show ?case using 4(1) p by (auto simp: pbind_Got Let_def case_prod_unfold split: if_splits dest!: parseredirs_le)
  }
qed simp_all

section \<open>Words\<close>

text \<open>A word is a maximal run of characters that are neither space nor symbols.\<close>

definition word_at :: "u8 list \<Rightarrow> nat \<times> nat \<Rightarrow> bool" where
  "word_at s w \<longleftrightarrow> fst w < snd w \<and> snd w \<le> length s \<and>
     (\<forall>k. fst w \<le> k \<and> k < snd w \<longrightarrow> s ! k \<notin> set whitespace \<union> set symbols) \<and>
     (snd w < length s \<longrightarrow> s ! snd w \<in> set whitespace \<union> set symbols)"

lemma skip_word_run:
  "(\<forall>k. i \<le> k \<and> k < skip_word s i \<longrightarrow> s ! k \<notin> set whitespace \<union> set symbols) \<and>
   (skip_word s i < length s \<longrightarrow> s ! skip_word s i \<in> set whitespace \<union> set symbols)"
proof (induction s i rule: skip_word.induct)
  case (1 s i)
  show ?case
  proof (cases "i < length s \<and> char_at s i \<notin> set whitespace \<and> char_at s i \<notin> set symbols")
    case True
    then have w: "skip_word s i = skip_word s (i + 1)" by (simp add: skip_word.simps [of s i])
    have c: "s ! i \<notin> set whitespace \<union> set symbols" using True by (auto simp: char_at_def)
    have "s ! k \<notin> set whitespace \<union> set symbols" if "i \<le> k" "k < skip_word s i" for k
      using that 1 [OF True] c w by (cases "k = i") auto
    then show ?thesis using 1 [OF True] w by auto
  next
    case False
    then show ?thesis by (auto simp: skip_word.simps [of s i] char_at_def)
  qed
qed

lemma gettoken_word: "gettoken s i = (97, q, e, j) \<Longrightarrow> word_at s (q, e)"
proof -
  assume g: "gettoken s i = (97, q, e, j)"
  then have "e = skip_word s q" by (auto simp: gettoken_def Let_def split: if_splits)
  then show ?thesis using gettoken_progress(1) [OF g] skip_word_run [of q s] by (simp add: word_at_def)
qed

lemma tokens_words: "(97, q, e) \<in> set (tokens s i) \<Longrightarrow> word_at s (q, e)"
proof (induction s i rule: tokens.induct)
  case (1 s i)
  obtain r q' e' j where g: "gettoken s i = (r, q', e', j)" by (cases "gettoken s i") auto
  show ?case using 1 g gettoken_word by (cases "r = 0") (auto simp: tokens.simps [of s i])
qed

lemma set_wrap [simp]: "set_cmd (wrap c rs) = set_cmd c \<union> fst ` set rs"
  by (induction rs arbitrary: c) auto

lemma set_backs [simp]: "set_cmd ((Backcmd ^^ n) c) = set_cmd c"
  by (induction n) auto

definition words :: "tok list \<Rightarrow> (nat \<times> nat) set" where
  "words ts = {w. (97, w) \<in> set ts}"

lemma words_simps [simp]: "words [] = {}" "words (t # ts) = (if fst t = 97 then {snd t} else {}) \<union> words ts" "words (ts @ us) = words ts \<union> words us"
  by (cases t; auto simp: words_def)+

lemma fst_rd_tree [simp]: "fst (rd_tree r) = snd (snd r)"
  by (simp add: rd_tree_def redir_def)

lemma rd_words: "\<forall>r \<in> set rds. ok_rd r \<Longrightarrow> (\<lambda>r. snd (snd r)) ` set rds \<subseteq> words (rd_toks rds)"
  by (induction rds) (auto simp: ok_rd_def)

lemma join_words: "A \<subseteq> V \<Longrightarrow> B \<union> C \<subseteq> W \<Longrightarrow> insert x B \<union> (A \<union> C) \<subseteq> ({x} \<union> V) \<union> W"
  by blast

lemma group_words:
  "ok_groups gs \<Longrightarrow> (\<lambda>g. snd (fst g)) ` set gs \<union> (\<lambda>r. snd (snd r)) ` set (concat (map snd gs)) \<subseteq> words (group_toks gs)"
proof (induction gs)
  case (Cons g gs)
  have "(\<lambda>r. snd (snd r)) ` set (concat (map snd (g # gs))) =
      (\<lambda>r. snd (snd r)) ` set (snd g) \<union> (\<lambda>r. snd (snd r)) ` set (concat (map snd gs))" by (simp only: list.map concat.simps set_append image_Un)
  moreover have "words (group_toks (g # gs)) = ({snd (fst g)} \<union> words (rd_toks (snd g))) \<union> words (group_toks gs)" using Cons.prems by simp
  moreover have "(\<lambda>r. snd (snd r)) ` set (snd g) \<subseteq> words (rd_toks (snd g))" using rd_words Cons.prems by simp
  ultimately show ?case using join_words Cons.IH Cons.prems unfolding list.set image_insert by (metis ok_groups_Cons(2))
qed simp

lemma tree_words:
  "ok_lin l \<Longrightarrow> set_cmd (tree_lin l) \<subseteq> words (toks_lin l)"
  "ok_pip p \<Longrightarrow> set_cmd (tree_pip p) \<subseteq> words (toks_pip p)"
  "ok_exe e \<Longrightarrow> set_cmd (tree_exe e) \<subseteq> words (toks_exe e)"
proof (induction l and p and e)
  case (Simple rds gs)
  have "set_cmd (tree_exe (Simple rds gs)) =
      (\<lambda>g. snd (fst g)) ` set gs \<union> ((\<lambda>r. snd (snd r)) ` set rds \<union> (\<lambda>r. snd (snd r)) ` set (concat (map snd gs)))"
    by (simp only: tree_exe.simps set_wrap cmd.set set_map set_append image_Un image_image map_append fst_rd_tree)
  moreover have "(\<lambda>r. snd (snd r)) ` set rds \<subseteq> words (rd_toks rds)" using rd_words Simple by simp
  moreover have "(\<lambda>g. snd (fst g)) ` set gs \<union> (\<lambda>r. snd (snd r)) ` set (concat (map snd gs)) \<subseteq> words (group_toks gs)"
    using group_words Simple unfolding ok_exe.simps by blast
  moreover have "A \<subseteq> V \<Longrightarrow> B \<union> C \<subseteq> W \<Longrightarrow> B \<union> (A \<union> C) \<subseteq> V \<union> W" for A B C V W :: "(nat \<times> nat) set" by blast
  ultimately show ?case unfolding toks_exe.simps words_simps(3) by metis
next
  case (Block t l u rds)
  have "set_cmd (tree_exe (Block t l u rds)) = set_cmd (tree_lin l) \<union> (\<lambda>r. snd (snd r)) ` set rds"
    by (simp only: tree_exe.simps set_wrap set_map image_image fst_rd_tree)
  moreover have "(\<lambda>r. snd (snd r)) ` set rds \<subseteq> words (rd_toks rds)" using rd_words Block.prems by simp
  moreover have "set_cmd (tree_lin l) \<subseteq> words (toks_lin l)" using Block by simp
  moreover have "words (toks_exe (Block t l u rds)) = words (toks_lin l) \<union> words (rd_toks rds)" using Block.prems by simp
  ultimately show ?case by (metis Un_mono)
qed auto

lemma zero_at_nth:
  "length (foldl (\<lambda>b (q, eq). b[eq := 0]) b args) = length b"
  "k < length b \<Longrightarrow> foldl (\<lambda>b (q, eq). b[eq := 0]) b args ! k = (if k \<in> snd ` set args then 0 else b ! k)"
  by (induction args arbitrary: b) (auto simp: nth_list_update split: prod.split)

lemma nulterminate_length [simp]: "length (nulterminate c b) = length b"
  by (induction c arbitrary: b) (simp_all add: zero_at_nth)

lemma nulterminate_nth: "k < length b \<Longrightarrow> nulterminate c b ! k = (if k \<in> snd ` set_cmd c then 0 else b ! k)"
proof (induction c arbitrary: b)
  case (Execcmd args)
  then show ?case by (simp add: zero_at_nth)
next
  case (Redircmd c f mode fd)
  then show ?case by (cases "k = snd f") (auto simp: nth_list_update)
qed (simp_all add: image_Un)

text \<open>The C string at an index of a buffer.\<close>

definition string_at :: "u8 list \<Rightarrow> nat \<Rightarrow> u8 list" where
  "string_at b q = takeWhile (\<lambda>x. x \<noteq> 0) (drop q b)"

lemma string_word:
  assumes "0 \<notin> set s" "\<forall>w \<in> set_cmd c. word_at s w" "w \<in> set_cmd c"
  shows "string_at (nulterminate c (s @ [0])) (fst w) = take (snd w - fst w) (drop (fst w) s)"
proof -
  obtain q e where w: "w = (q, e)" by (cases w)
  have qe: "q < e" "e \<le> length s" using assms(2,3) w by (auto simp: word_at_def)
  let ?b = "nulterminate c (s @ [0])"
  have l: "length ?b = length s + 1" by simp
  have in_word: "?b ! k = s ! k \<and> s ! k \<noteq> 0" if "q \<le> k" "k < e" for k
  proof -
    have "k \<notin> snd ` set_cmd c"
    proof
      assume "k \<in> snd ` set_cmd c"
      then obtain v where "v \<in> set_cmd c" "snd v = k" by blast
      then have "s ! k \<in> set whitespace \<union> set symbols" using assms(2) that qe by (auto simp: word_at_def)
      moreover have "s ! k \<notin> set whitespace \<union> set symbols" using assms(2,3) w that by (auto simp: word_at_def)
      ultimately show False by blast
    qed
    moreover have "s ! k \<noteq> 0" using assms(1) that qe by (metis nth_mem less_le_trans)
    ultimately show ?thesis using nulterminate_nth [of k "s @ [0]" c] that qe by (simp add: nth_append)
  qed
  have end_zero: "?b ! e = 0" using nulterminate_nth [of e "s @ [0]" c] assms(3) w qe by force
  have "takeWhile (\<lambda>x. x \<noteq> 0) (drop q ?b) = take (e - q) (drop q ?b)"
    using qe l in_word end_zero by (intro takeWhile_eq_take_P_nth) (auto simp: nth_drop)
  also have "\<dots> = take (e - q) (drop q s)" using qe l in_word by (intro nth_equalityI) (auto simp: nth_drop)
  finally show ?thesis by (simp add: string_at_def w)
qed

section \<open>The shell parses its grammar\<close>

lemma tokens_at_end:
  assumes "0 \<notin> set s" "j \<le> length s"
  shows "tokens s j = [] \<longleftrightarrow> skip_space s j = length s"
proof -
  obtain k q e m where g: "gettoken s j = (k, q, e, m)" by (cases "gettoken s j") auto
  have q: "q = skip_space s j" using gettoken_next [OF g] by simp
  have "char_at s q = 0 \<longleftrightarrow> q = length s" using assms(1) skip_space_le [OF assms(2)] q
    by (auto simp: char_at_def dest: nth_mem)
  then show ?thesis using g q gettoken_progress(2) [OF g] by (simp add: tokens_Nil)
qed

text \<open>
  C39. The shell's parser returns on every line. It accepts a line exactly when the tokens of the line
  form a sentence of the grammar, with at most nine words per command, and then builds the command of
  that sentence; it panics on every other line. After \<^verbatim>\<open>nulterminate\<close> each argument and file name is,
  as a C string in the buffer, exactly the word of the line it was parsed from.
\<close>

theorem shell_parses:
  assumes "0 \<notin> set s"
  shows "case parsecmd s of
      Got (c, b) \<Rightarrow> (\<exists>l. ok_lin l \<and> toks_lin l = tokens s 0 \<and> c = tree_lin l) \<and>
        (\<forall>l. ok_lin l \<and> toks_lin l = tokens s 0 \<longrightarrow> c = tree_lin l) \<and>
        map_cmd (\<lambda>(q, e). string_at b q) c = map_cmd (\<lambda>(q, e). take (e - q) (drop q s)) c
    | Syntax m \<Rightarrow> \<not> (\<exists>l. ok_lin l \<and> toks_lin l = tokens s 0)
    | Fuel \<Rightarrow> False"
proof -
  let ?n = "4 * length s + 4"
  have nf: "parseline ?n s 0 \<noteq> Fuel" using parse_fuel(1) [of s 0 ?n] length_tokens [of s 0] by simp
  have accept: "\<exists>j. parseline ?n s 0 = Got (tree_lin l, j) \<and> skip_space s j = length s" if l: "ok_lin l" "toks_lin l = tokens s 0" for l
  proof -
    obtain j where j: "parseline ?n s 0 = Got (tree_lin l, j)" "tokens s j = []" using parse_complete(1) [of s 0 l "[]" ?n] l nf by auto
    then show ?thesis using tokens_at_end [OF assms, of j] parse_le(1) [OF j(1)] by simp
  qed
  have peek0: "peek s j [] = (skip_space s j, False)" for j by (simp add: peek_def Let_def)
  show ?thesis
  proof (cases "parsecmd s")
    case (Got r)
    obtain c b where r: "r = (c, b)" by (cases r)
    then obtain j where j: "parseline ?n s 0 = Got (c, j)" "skip_space s j = length s" "b = nulterminate c (s @ [0])"
      using Got by (auto simp: parsecmd_def pbind_Got peek0 Let_def split: if_splits)
    have "tokens s j = []" using tokens_at_end [OF assms, of j] parse_le(1) [OF j(1)] j(2) by simp
    then obtain l where l: "ok_lin l" "toks_lin l = tokens s 0" "c = tree_lin l" using parse_sound(1) [OF j(1)] by auto
    have "\<forall>w \<in> set_cmd c. word_at s w" using tree_words(1) [OF l(1)] l(2,3) tokens_words [of _ _ s 0] by (auto simp: words_def)
    then have "map_cmd (\<lambda>(q, e). string_at b q) c = map_cmd (\<lambda>(q, e). take (e - q) (drop q s)) c"
      using string_word [OF assms] j(3) by (intro cmd.map_cong0) fastforce
    moreover have "\<forall>l. ok_lin l \<and> toks_lin l = tokens s 0 \<longrightarrow> c = tree_lin l" using accept j(1) by fastforce
    moreover have "\<exists>l. ok_lin l \<and> toks_lin l = tokens s 0 \<and> c = tree_lin l" using l by blast
    ultimately show ?thesis unfolding Got r parsed.case prod.case by (intro conjI)
  next
    case (Syntax m)
    then have "\<nexists>c j. parseline ?n s 0 = Got (c, j) \<and> skip_space s j = length s" by (auto simp: parsecmd_def peek0 Let_def)
    then show ?thesis unfolding Syntax parsed.case using accept by blast
  next
    case Fuel
    then show ?thesis using nf by (auto simp: parsecmd_def pbind_Fuel peek0 Let_def split: if_splits)
  qed
qed

theorem shell_parses_witness:
  "\<exists>b. parsecmd (map of_char ''ls|wc>x'') = Got (Pipecmd (Execcmd [(0, 2)]) (Redircmd (Execcmd [(3, 5)]) (6, 7) 0x601 1), b) \<and>
    string_at b 0 = map of_char ''ls'' \<and> string_at b 3 = map of_char ''wc'' \<and> string_at b 6 = map of_char ''x''"
proof -
  let ?s = "map of_char ''ls|wc>x'' :: u8 list"
  let ?l = "Last (Bar (Simple [] [((97, 0, 2), [])]) (124, 2, 3) (Cmd (Simple [] [((97, 3, 5), [((62, 5, 6), (97, 6, 7))])]))) []"
  note eval = gettoken_def char_at_def whitespace_def symbols_def skip_space.simps skip_word.simps
  have g: "gettoken ?s 0 = (97, 0, 2, 2)" "gettoken ?s 2 = (124, 2, 3, 3)" "gettoken ?s 3 = (97, 3, 5, 5)" "gettoken ?s 5 = (62, 5, 6, 6)"
      "gettoken ?s 6 = (97, 6, 7, 7)" "gettoken ?s 7 = (0, 7, 7, 7)"
    by (simp_all add: eval)
  have nil: "tokens ?s 7 = []" using g(6) by (simp only: tokens_Nil fst_conv)
  have t: "tokens ?s 0 = [(97, 0, 2), (124, 2, 3), (97, 3, 5), (62, 5, 6), (97, 6, 7)]"
    unfolding tokens_Cons by (intro exI conjI; (rule g nil)?) simp_all
  have l: "ok_lin ?l" "toks_lin ?l = tokens ?s 0" using t by (simp_all add: ok_rd_def MAXARGS_def)
  have c: "tree_lin ?l = Pipecmd (Execcmd [(0, 2)]) (Redircmd (Execcmd [(3, 5)]) (6, 7) 0x601 1)"
    by (simp add: redir_def O_WRONLY_def O_CREATE_def O_TRUNC_def)
  have "0 \<notin> set ?s" by simp
  note p = shell_parses [OF this]
  show ?thesis
  proof (cases "parsecmd ?s")
    case (Got r)
    obtain c b where r: "r = (c, b)" by (cases r)
    have p': "(\<forall>l. ok_lin l \<and> toks_lin l = tokens ?s 0 \<longrightarrow> c = tree_lin l) \<and>
        map_cmd (\<lambda>(q, e). string_at b q) c = map_cmd (\<lambda>(q, e). take (e - q) (drop q ?s)) c"
      using p unfolding Got r parsed.case prod.case by (elim conjE) (intro conjI)
    have "c = tree_lin ?l" by (rule mp [OF spec [OF conjunct1 [OF p']]]) (intro conjI l)
    then have e: "c = Pipecmd (Execcmd [(0, 2)]) (Redircmd (Execcmd [(3, 5)]) (6, 7) 0x601 1)" by (rule trans [OF _ c])
    have "string_at b 0 = take 2 ?s" "string_at b 3 = take 2 (drop 3 ?s)" "string_at b 6 = take 1 (drop 6 ?s)" using conjunct2 [OF p'] unfolding e by simp_all
    then show ?thesis using Got r e by simp
  next
    case (Syntax m)
    have "\<not> (\<exists>l. ok_lin l \<and> toks_lin l = tokens ?s 0)" using p unfolding Syntax parsed.case .
    moreover have "\<exists>l. ok_lin l \<and> toks_lin l = tokens ?s 0" by (intro exI conjI, rule l(1), rule l(2))
    ultimately show ?thesis by (rule notE)
  next
    case Fuel
    then show ?thesis using p by (simp only: parsed.case)
  qed
qed

end
