(* ===== verification/Spec2Isabelle.thy ===== *)
theory Spec2Isabelle
  imports Memprops Log Sched Trap Paths Fslog Pipeprops Trapprops Fileprops Grep Shell
begin

text \<open>
  A model of the xv6 kernel for RISC-V with copy-on-write \<^verbatim>\<open>fork\<close>, and of its correctness.

  \<^bold>\<open>The program.\<close> The kernel runs processes in address spaces of their own, built from Sv39 page
  tables whose pages, like the user pages, come from one page allocator with a reference count per
  page. \<^verbatim>\<open>fork\<close> shares all user pages read-only and the page-fault handler copies a page at the first
  store to it. Processes enter the kernel by traps, call it by numbered system calls, and sleep and
  wake on channels. Files live in inodes on a disk that is reached through a cache of buffers and a
  redo log; open files, pipes and the console are reached through descriptors.

  \<^bold>\<open>Conventions.\<close> One definition models one C function or one loop of it, under its name; a suffix
  such as \<open>_loop\<close> or \<open>_one\<close> marks a loop or its body. Machine integers are words of their width.
  A C function that may fail gives a value of type \<open>res\<close>: \<open>Ok\<close>, \<open>Panic\<close> with the message,
  \<open>Blocked\<close> where it would wait for another process, \<open>Undef\<close> where C leaves the behaviour open. State
  is passed explicitly in records that extend each other in the order of the layers: \<open>kst\<close> (memory
  and page allocator) inside \<open>ptab\<close> (process table); \<open>bst\<close> (buffer cache), \<open>logst\<close>, \<open>fsst\<close> (inodes,
  with the process table), \<open>ttyst\<close> (console), \<open>kern\<close> (open files and pipes), \<open>vdst\<close> (disk driver),
  \<open>tkern\<close> (trap registers). A section of code under a spin lock is one step; where the locking itself
  is the subject (\<open>Locks\<close>, \<open>Sched\<close>, \<open>Diskproto\<close>) the steps of several CPUs, or of the driver and
  the device, interleave in an inductive relation.

  \<^bold>\<open>Foundations.\<close>

  \<^item> \<open>Prelude\<close>: results, byte memory, little-endian words, blocks and alignment.
  \<^item> \<open>Layout\<close>: constants and macros of \<^verbatim>\<open>kernel/riscv.h\<close> and \<^verbatim>\<open>kernel/memlayout.h\<close>.
  \<^item> \<open>Kstring\<close>: \<^verbatim>\<open>kernel/string.c\<close>; \<open>Bytes\<close>: encodings of on-disk structures.

  \<^bold>\<open>Memory.\<close>

  \<^item> \<open>Kalloc\<close>: \<^verbatim>\<open>kernel/kalloc.c\<close>. Its invariant, and the locale \<open>page_allocator\<close> of what the rest
    relies on, interpreted on \<open>kalloc\<close> and \<open>kfree\<close>.
  \<^item> \<open>Vm\<close>: \<^verbatim>\<open>kernel/vm.c\<close> and the copy-on-write handler of \<^verbatim>\<open>kernel/trap.c\<close>. \<open>Pagetable\<close> and
    \<open>Vmspec\<close> read page tables as functions from addresses to entries and state the invariant \<open>vok\<close> of
    all address spaces together: tables are disjoint trees, every user page has as many references as
    mappings, a page with more than one is nowhere writable. \<open>Cow\<close>, \<open>Fault\<close>, \<open>Copy\<close> and \<open>Uvm\<close> show
    what each operation does to it.
  \<^item> \<open>Aspace\<close>: the locale \<open>address_spaces\<close> of private memories, interpreted on the operations;
    \<open>Sample\<close>: a concrete machine; \<open>Memprops\<close>: the properties of \<^verbatim>\<open>fork\<close>, faults, growth, copies and
    counts, for single calls and for all runs.

  \<^bold>\<open>Concurrency.\<close>

  \<^item> \<open>Locks\<close>: \<^verbatim>\<open>kernel/spinlock.c\<close> and \<^verbatim>\<open>kernel/sleeplock.c\<close>; mutual exclusion over all interleavings,
    nesting of \<^verbatim>\<open>push_off\<close> and \<^verbatim>\<open>pop_off\<close>.
  \<^item> \<open>Ptable\<close>: the process table of \<^verbatim>\<open>kernel/proc.c\<close>; \<open>Sched\<close>: \<^verbatim>\<open>scheduler\<close>, \<^verbatim>\<open>yield\<close>, \<^verbatim>\<open>sleep\<close>,
    \<^verbatim>\<open>exit\<close> and \<^verbatim>\<open>wakeup\<close> in small steps with their locks; a process runs on one CPU at a time, \<^verbatim>\<open>sched\<close> is
    entered with its own lock only, and no wakeup is lost.

  \<^bold>\<open>Files.\<close>

  \<^item> \<open>Bio\<close>: \<^verbatim>\<open>kernel/bio.c\<close>; the locale \<open>block_cache\<close>, refinement of a plain disk, recycling order.
  \<^item> \<open>Log\<close>: \<^verbatim>\<open>kernel/log.c\<close>; the disk writes are recorded in order, and after a crash between any two
    of them recovery gives all of a transaction or none of it, also when recovery itself is cut off.
  \<^item> \<open>Fs\<close>: \<^verbatim>\<open>kernel/fs.c\<close>; \<open>Paths\<close>: path names against a reference walk; \<open>Fslog\<close>: inodes and block
    allocation over the log.
  \<^item> \<open>File\<close>: \<^verbatim>\<open>kernel/file.c\<close> and \<^verbatim>\<open>kernel/pipe.c\<close>; \<open>Pipeprops\<close>: pipes as queues of bytes, over the
    copies of \<open>Objcopy\<close> between user memory and kernel objects.
  \<^item> \<open>Virtio\<close>: \<^verbatim>\<open>kernel/virtio_disk.c\<close>; \<open>Diskproto\<close>: driver, device and interrupts together behave as
    the disk that \<open>Bio\<close> assumes. The device is a parameter with the hypothesis \<open>block_device\<close>.

  \<^bold>\<open>Console.\<close> \<open>Ring\<close> is the locale of ring buffers with wrapping indices, interpreted for the
  transmit buffer, the console, pipes and the disk queue; \<open>Uart\<close>, \<open>Printf\<close> and \<open>Console\<close> model
  \<^verbatim>\<open>kernel/uart.c\<close>, \<^verbatim>\<open>kernel/printf.c\<close> and \<^verbatim>\<open>kernel/console.c\<close>; \<open>Ioprops\<close> holds their properties.

  \<^bold>\<open>Processes and system calls.\<close>

  \<^item> \<open>Procfs\<close>: \<^verbatim>\<open>fork\<close>, \<^verbatim>\<open>exit\<close>, \<^verbatim>\<open>userinit\<close> and \<^verbatim>\<open>kernel/exec.c\<close>; \<open>Syscall\<close>: \<^verbatim>\<open>kernel/syscall.c\<close>,
    \<^verbatim>\<open>kernel/sysproc.c\<close>, \<^verbatim>\<open>kernel/sysfile.c\<close>. A handler that sleeps gives the state in which it sleeps.
  \<^item> \<open>Fileobs\<close>: every operation of the layers below leaves descriptors and file counts alone, by rules
    that follow the code; \<open>Fileprops\<close>: every system call keeps the counts of open files exact.
  \<^item> \<open>Trap\<close>: \<^verbatim>\<open>kernel/trap.c\<close>, \<^verbatim>\<open>kernel/plic.c\<close>, \<^verbatim>\<open>kernel/main.c\<close>; \<open>Trapprops\<close>: a store to a shared page
    resumes where it faulted.

  \<^bold>\<open>User level.\<close> \<open>Grep\<close>: the matcher and the line filter of \<^verbatim>\<open>user/grep.c\<close>, with \<^verbatim>\<open>read\<close> a parameter.
  \<open>Shell\<close>: the parser of \<^verbatim>\<open>user/sh.c\<close> against a grammar on tokens. Its functions call each other at
  positions that only their results determine, so they take fuel; four units for each character and
  four more are enough, and \<open>shell_parses\<close> shows that the fuel never runs out.

  \<^bold>\<open>Termination and fuel.\<close> Loops whose end depends on data are functions with a termination proof.
  Walks over linked structures take fuel: the ring of buffers \<open>NBUF + 1\<close> steps, one for each buffer
  and the head; running out is \<open>Undef\<close>, and the invariants of the cache show that it does not happen.
  A chain of descriptors ends because each step frees one of them, the receive loop of the UART takes
  one step more than there are bytes waiting, and \<open>grep_loop\<close>, which an endless input keeps running,
  is a partial function whose result on finite input is proved.

  \<^bold>\<open>Not modelled.\<close> Assembly (\<^verbatim>\<open>entry.S\<close>, \<^verbatim>\<open>swtch.S\<close>, \<^verbatim>\<open>trampoline.S\<close>, \<^verbatim>\<open>kernelvec.S\<close>) and the
  machine-mode code of \<^verbatim>\<open>start.c\<close>, which run before and between the modelled parts; weak memory
  ordering, so the fences have no effect; the lock of \<^verbatim>\<open>printf\<close>, two diagnostic messages about a
  full disk and the one about used-up memory in the fault handler; the \<^verbatim>\<open>wakeup\<close> of \<^verbatim>\<open>end_op\<close>; \<^verbatim>\<open>ramdisk.c\<close>, which is not compiled; the harts other than the first in \<^verbatim>\<open>main\<close>; the image
  builder \<^verbatim>\<open>mkfs\<close>, a host program; the rest of the shell, the other user programs and the tests. Memory of the C stack is
  modelled only where its address reaches another function.
\<close>

end
